(* ===== verification/Ssn_Prelude.thy ===== *)
theory Ssn_Prelude
  imports Main "HOL-Library.Word" "HOL-Library.Monad_Syntax"
begin

text \<open>
  What every component of the development shares: the machine types of the code, C's
  conversion to \<^verbatim>\<open>int\<close>, the little-endian byte layout of a packed struct, the key-ordered
  association lists that stand for \<^verbatim>\<open>std::map\<close>, the named theorem collections the component
  proofs use, and the interfaces several components implement: state machines with an invariant,
  tables by id, byte encodings.
\<close>

section \<open>Machine types\<close>

type_synonym byte = "8 word"
type_synonym u16 = "16 word"
type_synonym u32 = "32 word"
type_synonym u64 = "64 word"
type_synonym addr = nat

named_theorems layout_simps \<open>equations of the byte layout of packed structs\<close>
named_theorems map_simps \<open>lookup equations of the key-ordered maps\<close>
named_theorems frame_simps \<open>what an operation leaves unchanged\<close>

abbreviation INT_MAX :: int where "INT_MAX \<equiv> 2147483647"

text \<open>The conversion of an integer value to \<^verbatim>\<open>int\<close>: the low 32 bits read as two's complement.\<close>

definition to_int :: "int \<Rightarrow> int" where
  "to_int x = signed_take_bit 31 x"

lemma to_int_id: "- 2147483648 \<le> x \<Longrightarrow> x \<le> INT_MAX \<Longrightarrow> to_int x = x"
  unfolding to_int_def by (rule signed_take_bit_int_eq_self) simp_all

text \<open>Addition on \<^verbatim>\<open>int\<close>: overflow is undefined behaviour, so it has no result.\<close>

definition int_add :: "int \<Rightarrow> int \<Rightarrow> int option" where
  "int_add a b = (if - 2147483648 \<le> a + b \<and> a + b \<le> INT_MAX then Some (a + b) else None)"

lemma unat_lt: "unat (w :: 'a::len word) < 2 ^ LENGTH('a)"
  by (rule unsigned_less)

section \<open>Little-endian layout\<close>

text \<open>The structs of the wire formats are packed and written in the byte order of the host; the
  model fixes the little-endian order of the platforms the build files name.\<close>

fun le_bytes :: "nat \<Rightarrow> nat \<Rightarrow> byte list" where
  "le_bytes 0 v = []"
| "le_bytes (Suc n) v = of_nat (v mod 256) # le_bytes n (v div 256)"

fun le_val :: "byte list \<Rightarrow> nat" where
  "le_val [] = 0"
| "le_val (b # bs) = unat b + 256 * le_val bs"

lemma length_le_bytes [simp]: "length (le_bytes n v) = n"
  by (induction n arbitrary: v) auto

lemma unat_byte_mod [simp]: "unat (of_nat (v mod 256) :: byte) = v mod 256"
  by (simp add: unat_of_nat)

lemma le_val_le_bytes: "le_val (le_bytes n v) = v mod 256 ^ n"
proof (induction n arbitrary: v)
  case 0
  then show ?case by simp
next
  case (Suc n)
  have "v mod 256 + 256 * (v div 256 mod 256 ^ n) = v mod (256 * 256 ^ n)"
    by (metis add.commute mod_mult2_eq)
  with Suc show ?case by simp
qed

lemma le_val_le_bytes_small [layout_simps]: "v < 256 ^ n \<Longrightarrow> le_val (le_bytes n v) = v"
  by (simp add: le_val_le_bytes)

lemma le_val_bound: "le_val bs < 256 ^ length bs"
proof (induction bs)
  case Nil
  then show ?case by simp
next
  case (Cons b bs)
  have "unat b < 256" using unat_lt [of b] by simp
  with Cons show ?case by simp
qed

lemma le_bytes_le_val: "length bs = n \<Longrightarrow> le_bytes n (le_val bs) = bs"
proof (induction bs arbitrary: n)
  case Nil
  then show ?case by simp
next
  case (Cons b bs)
  have b: "unat b < 256" using unat_lt [of b] by simp
  then have "(unat b + 256 * le_val bs) div 256 = le_val bs"
    and "(unat b + 256 * le_val bs) mod 256 = unat b"
    by simp_all
  with Cons show ?case by auto
qed

text \<open>The integer fields of the structs as bytes, and back.\<close>

definition enc16 :: "u16 \<Rightarrow> byte list" where "enc16 w = le_bytes 2 (unat w)"
definition enc32 :: "u32 \<Rightarrow> byte list" where "enc32 w = le_bytes 4 (unat w)"
definition enc64 :: "u64 \<Rightarrow> byte list" where "enc64 w = le_bytes 8 (unat w)"
definition dec16 :: "byte list \<Rightarrow> u16" where "dec16 bs = of_nat (le_val bs)"
definition dec32 :: "byte list \<Rightarrow> u32" where "dec32 bs = of_nat (le_val bs)"
definition dec64 :: "byte list \<Rightarrow> u64" where "dec64 bs = of_nat (le_val bs)"

lemma length_enc [simp]: "length (enc16 a) = 2" "length (enc32 b) = 4" "length (enc64 c) = 8"
  by (simp_all add: enc16_def enc32_def enc64_def)

lemma dec_enc16 [layout_simps]: "dec16 (enc16 w) = w"
  using unat_lt [of w] by (simp add: dec16_def enc16_def le_val_le_bytes)

lemma dec_enc32 [layout_simps]: "dec32 (enc32 w) = w"
  using unat_lt [of w] by (simp add: dec32_def enc32_def le_val_le_bytes)

lemma dec_enc64 [layout_simps]: "dec64 (enc64 w) = w"
  using unat_lt [of w] by (simp add: dec64_def enc64_def le_val_le_bytes)

lemma enc_dec32: "length bs = 4 \<Longrightarrow> enc32 (dec32 bs) = bs"
  using le_val_bound [of bs] by (simp add: enc32_def dec32_def unat_of_nat le_bytes_le_val)

lemma enc_dec64: "length bs = 8 \<Longrightarrow> enc64 (dec64 bs) = bs"
  using le_val_bound [of bs] by (simp add: enc64_def dec64_def unat_of_nat le_bytes_le_val)

lemma enc_dec16: "length bs = 2 \<Longrightarrow> enc16 (dec16 bs) = bs"
  using le_val_bound [of bs] by (simp add: enc16_def dec16_def unat_of_nat le_bytes_le_val)

text \<open>Evaluation goes through binary integers.\<close>

fun le_bytes_int :: "nat \<Rightarrow> int \<Rightarrow> byte list" where
  "le_bytes_int 0 v = []"
| "le_bytes_int (Suc n) v = of_int (v mod 256) # le_bytes_int n (v div 256)"

fun le_val_int :: "byte list \<Rightarrow> int" where
  "le_val_int [] = 0"
| "le_val_int (b # bs) = uint b + 256 * le_val_int bs"

lemma le_bytes_int: "le_bytes n v = le_bytes_int n (int v)"
proof (induction n arbitrary: v)
  case (Suc n)
  have "(of_nat (v mod 256) :: byte) = of_int (int v mod 256)"
    by (metis of_int_of_nat_eq of_nat_mod of_nat_numeral)
  with Suc [of "v div 256"] show ?case by (simp add: zdiv_int)
qed simp

lemma le_val_int: "int (le_val bs) = le_val_int bs"
  by (induction bs) simp_all

lemma enc_code [code]:
  "enc16 w = le_bytes_int 2 (uint w)" "enc32 x = le_bytes_int 4 (uint x)" "enc64 y = le_bytes_int 8 (uint y)"
  by (simp_all add: enc16_def enc32_def enc64_def le_bytes_int)

lemma dec_code [code]:
  "dec16 bs = of_int (le_val_int bs)" "dec32 bs = of_int (le_val_int bs)" "dec64 bs = of_int (le_val_int bs)"
  by (simp_all add: dec16_def dec32_def dec64_def flip: le_val_int)

text \<open>\<open>field_at i n bs\<close>: the \<open>n\<close> bytes at offset \<open>i\<close>, the read of a struct field.\<close>

definition field_at :: "nat \<Rightarrow> nat \<Rightarrow> 'a list \<Rightarrow> 'a list" where
  "field_at i n bs = take n (drop i bs)"

lemma field_at_app_skip [layout_simps]: "length as \<le> i \<Longrightarrow> field_at i n (as @ bs) = field_at (i - length as) n bs"
  by (simp add: field_at_def)

lemma field_at_app_here [layout_simps]: "n = length as \<Longrightarrow> field_at 0 n (as @ bs) = as"
  by (simp add: field_at_def)

lemma length_field_at: "i + n \<le> length bs \<Longrightarrow> length (field_at i n bs) = n"
  by (simp add: field_at_def)

lemma field_at_take: "i + n \<le> k \<Longrightarrow> field_at i n (take k bs) = field_at i n bs"
  by (simp add: field_at_def drop_take min_def)

lemma field_at_prefix: "i + n \<le> length as \<Longrightarrow> field_at i n (as @ bs) = field_at i n as"
  by (simp add: field_at_def)

lemma option_ext: "(\<And>v. a = Some v \<longleftrightarrow> b = Some v) \<Longrightarrow> a = b"
  by (cases a; cases b) auto

section \<open>Buffers\<close>

text \<open>A store into an array, and text appended to a character array of \<open>n\<close> bytes of which \<open>z\<close> more
  are needed for a terminator.\<close>

definition poke :: "nat \<Rightarrow> 'a \<Rightarrow> 'a list \<Rightarrow> 'a list option" where
  "poke i v xs = (if i < length xs then Some (xs[i := v]) else None)"

definition put_text :: "nat \<Rightarrow> nat \<Rightarrow> string \<Rightarrow> string \<Rightarrow> string option" where
  "put_text n z t s = (if length t + length s + z \<le> n then Some (t @ s) else None)"

lemma poke_some: "i < length xs \<Longrightarrow> \<exists>ys. poke i v xs = Some ys \<and> length ys = length xs"
  by (simp add: poke_def)

section \<open>Decimal numbers\<close>

text \<open>\<^verbatim>\<open>%u\<close> and \<^verbatim>\<open>%d\<close>.\<close>

definition digit_char :: "nat \<Rightarrow> char" where
  "digit_char d = char_of (48 + d)"

fun show_nat :: "nat \<Rightarrow> string" where
  "show_nat n = (if n < 10 then [digit_char n] else show_nat (n div 10) @ [digit_char (n mod 10)])"

declare show_nat.simps [simp del]

definition show_int :: "int \<Rightarrow> string" where
  "show_int i = (if i < 0 then CHR ''-'' # show_nat (nat (- i)) else show_nat (nat i))"

lemma length_show_nat: "n < 10 ^ Suc k \<Longrightarrow> length (show_nat n) \<le> Suc k"
proof (induction k arbitrary: n)
  case 0
  then show ?case by (simp add: show_nat.simps)
next
  case (Suc k)
  show ?case
  proof (cases "n < 10")
    case True
    then show ?thesis by (simp add: show_nat.simps)
  next
    case False
    from Suc.prems have "n div 10 < 10 ^ Suc k" by (simp add: less_mult_imp_div_less mult.commute)
    with Suc.IH [of "n div 10"] False show ?thesis by (subst show_nat.simps) simp
  qed
qed

lemma length_show_int: "\<bar>i\<bar> < 10 ^ Suc k \<Longrightarrow> length (show_int i) \<le> k + 2"
  using length_show_nat [of "nat \<bar>i\<bar>" k] by (auto simp: show_int_def nat_less_iff)

section \<open>Key-ordered maps\<close>

text \<open>\<^verbatim>\<open>std::map\<close>: the entries in increasing key order, which is the order its iterators follow.
  \<open>smap_put\<close> is \<^verbatim>\<open>m[k] = v\<close>, \<open>smap_find\<close> is \<^verbatim>\<open>find\<close>, \<open>smap_erase\<close> is \<^verbatim>\<open>erase\<close> by key.\<close>

type_synonym ('k, 'v) smap = "('k \<times> 'v) list"

definition smap_ok :: "('k::linorder, 'v) smap \<Rightarrow> bool" where
  "smap_ok m \<longleftrightarrow> sorted_wrt (<) (map fst m)"

definition smap_find :: "('k, 'v) smap \<Rightarrow> 'k \<Rightarrow> 'v option" where
  "smap_find m k = map_of m k"

fun smap_put :: "'k::linorder \<Rightarrow> 'v \<Rightarrow> ('k, 'v) smap \<Rightarrow> ('k, 'v) smap" where
  "smap_put k v [] = [(k, v)]"
| "smap_put k v ((k', v') # m) =
     (if k < k' then (k, v) # (k', v') # m
      else if k = k' then (k, v) # m
      else (k', v') # smap_put k v m)"

definition smap_erase :: "'k \<Rightarrow> ('k, 'v) smap \<Rightarrow> ('k, 'v) smap" where
  "smap_erase k m = filter (\<lambda>(k', _). k' \<noteq> k) m"

lemma smap_ok_Nil [simp]: "smap_ok []"
  by (simp add: smap_ok_def)

lemma smap_ok_Cons: "smap_ok (kv # m) \<longleftrightarrow> (\<forall>k \<in> fst ` set m. fst kv < k) \<and> smap_ok m"
  by (simp add: smap_ok_def)

lemma smap_find_Nil [simp]: "smap_find [] k = None"
  by (simp add: smap_find_def)

lemma smap_find_Cons [simp]:
  "smap_find ((k', v) # m) k = (if k = k' then Some v else smap_find m k)"
  by (simp add: smap_find_def)

lemma keys_smap_put: "fst ` set (smap_put k v m) = insert k (fst ` set m)"
  by (induction k v m rule: smap_put.induct) auto

lemma smap_ok_put [simp]: "smap_ok m \<Longrightarrow> smap_ok (smap_put k v m)"
  by (induction k v m rule: smap_put.induct) (auto simp: smap_ok_Cons keys_smap_put)

lemma smap_find_put [map_simps]:
  "smap_ok m \<Longrightarrow> smap_find (smap_put k v m) k' = (if k' = k then Some v else smap_find m k')"
  by (induction k v m rule: smap_put.induct) (auto simp: smap_ok_Cons)

lemma smap_find_erase [map_simps]:
  "smap_find (smap_erase k m) k' = (if k' = k then None else smap_find m k')"
  by (induction m) (auto simp: smap_erase_def)

lemma smap_ok_filter [simp]: "smap_ok m \<Longrightarrow> smap_ok (filter P m)"
  by (induction m) (auto simp: smap_ok_Cons)

lemma smap_ok_erase [simp]: "smap_ok m \<Longrightarrow> smap_ok (smap_erase k m)"
  by (simp add: smap_erase_def)

lemma smap_distinct: "smap_ok m \<Longrightarrow> distinct (map fst m)"
  by (simp add: smap_ok_def strict_sorted_iff)

lemma smap_find_in_iff: "smap_ok m \<Longrightarrow> smap_find m k = Some v \<longleftrightarrow> (k, v) \<in> set m"
  by (simp add: smap_find_def smap_distinct map_of_eq_Some_iff)

lemma smap_find_None_iff: "smap_find m k = None \<longleftrightarrow> k \<notin> fst ` set m"
  by (simp add: smap_find_def map_of_eq_None_iff)

lemma smap_erase_absent: "smap_find m k = None \<Longrightarrow> smap_erase k m = m"
  by (force simp: smap_find_None_iff smap_erase_def intro!: filter_True)

lemma smap_find_filter:
  "smap_ok m \<Longrightarrow> smap_find (filter P m) k =
     (case smap_find m k of Some v \<Rightarrow> (if P (k, v) then Some v else None) | None \<Rightarrow> None)"
  by (rule option_ext) (auto simp flip: smap_find_in_iff split: option.splits if_splits
      simp: smap_find_in_iff [OF smap_ok_filter])

text \<open>Two maps with the same lookups are the same list: the order determines it.\<close>

lemma smap_set_eq: "smap_ok m \<Longrightarrow> smap_ok n \<Longrightarrow> smap_find m = smap_find n \<Longrightarrow> set m = set n"
  by (auto simp: set_eq_iff simp flip: smap_find_in_iff)

section \<open>Sums\<close>

text \<open>A sum over the threads or the heap in which one summand changes.\<close>

lemma sum_change:
  fixes f g :: "nat \<Rightarrow> 'a :: comm_monoid_add"
  assumes "i < n" "\<And>j. j \<noteq> i \<Longrightarrow> g j = f j"
  shows "(\<Sum>j < n. g j) + f i = (\<Sum>j < n. f j) + g i"
proof -
  have split: "(\<Sum>j < n. h j) = h i + (\<Sum>j \<in> {..<n} - {i}. h j)" for h :: "nat \<Rightarrow> 'a"
    using assms(1) by (simp add: sum.remove)
  have "(\<Sum>j \<in> {..<n} - {i}. g j) = (\<Sum>j \<in> {..<n} - {i}. f j)"
    by (rule sum.cong) (simp_all add: assms(2))
  with split [of f] split [of g] show ?thesis by (simp add: ac_simps)
qed

section \<open>State machines\<close>

text \<open>The states a step relation reaches from a state.\<close>

inductive reach :: "('s \<Rightarrow> 's \<Rightarrow> bool) \<Rightarrow> 's \<Rightarrow> 's \<Rightarrow> bool" for step s0 where
  reach_start: "reach step s0 s0"
| reach_step: "reach step s0 s \<Longrightarrow> step s s' \<Longrightarrow> reach step s0 s'"

text \<open>A step relation that keeps an invariant.\<close>

locale machine =
  fixes step :: "'s \<Rightarrow> 's \<Rightarrow> bool" and inv :: "'s \<Rightarrow> bool"
  assumes keep: "step s s' \<Longrightarrow> inv s \<Longrightarrow> inv s'"
begin

lemma reach_inv: "reach step s0 s \<Longrightarrow> inv s0 \<Longrightarrow> inv s"
  by (induction rule: reach.induct) (auto intro: keep)

end

text \<open>A property that stays true once it holds.\<close>

locale stable_machine = machine +
  fixes stable :: "'s \<Rightarrow> bool"
  assumes stays: "step s s' \<Longrightarrow> inv s \<Longrightarrow> stable s \<Longrightarrow> stable s'"
begin

lemma reach_stable: "reach step s0 s \<Longrightarrow> inv s0 \<Longrightarrow> stable s0 \<Longrightarrow> stable s"
proof (induction rule: reach.induct)
  case (reach_step s s')
  then show ?case using stays reach_inv by blast
qed

end

section \<open>Tables\<close>

text \<open>A table of the state with its operations: \<open>del\<close> returns the entry it removes.\<close>

locale id_table =
  fixes ok :: "'w \<Rightarrow> bool" and find :: "'k \<Rightarrow> 'w \<Rightarrow> 'v option" and add :: "'k \<Rightarrow> 'v \<Rightarrow> 'w \<Rightarrow> 'w"
    and del :: "'k \<Rightarrow> 'w \<Rightarrow> 'v option \<times> 'w"
  assumes find_add: "ok w \<Longrightarrow> find k' (add k v w) = (if k' = k then Some v else find k' w)"
    and find_del: "ok w \<Longrightarrow> find k' (snd (del k w)) = (if k' = k then None else find k' w)"
    and del_ret: "fst (del k w) = find k w"
    and del_none: "find k w = None \<Longrightarrow> del k w = (None, w)"
    and ok_add: "ok w \<Longrightarrow> ok (add k v w)"
    and ok_del: "ok w \<Longrightarrow> ok (snd (del k w))"
begin

lemma del_pair: "del k w = (find k w, snd (del k w))"
  using del_ret [of k w] by (metis prod.collapse)

text \<open>An entry is taken out once.\<close>

lemma del_add: "ok w \<Longrightarrow> fst (del k (add k v w)) = Some v"
  by (simp add: del_ret find_add)

lemma del_twice: "ok w \<Longrightarrow> del k (snd (del k w)) = (None, snd (del k w))"
  by (rule del_none) (simp add: find_del)

end

section \<open>Byte encodings\<close>

text \<open>A value and its bytes: what is written can be read back, and tells the values apart.\<close>

locale codec =
  fixes wf :: "'a \<Rightarrow> bool" and enc :: "'a \<Rightarrow> 'b list" and dec :: "'b list \<Rightarrow> 'a"
  assumes dec_enc: "wf x \<Longrightarrow> dec (enc x) = x"
begin

lemma enc_inj: "wf x \<Longrightarrow> wf y \<Longrightarrow> enc x = enc y \<longleftrightarrow> x = y"
  using dec_enc by metis

lemma map_dec_enc: "list_all wf xs \<Longrightarrow> map dec (map enc xs) = xs"
  by (induction xs) (simp_all add: dec_enc)

end

end
