(* ===== verification/Ssn_Err.thy ===== *)
theory Ssn_Err
  imports Ssn_Prelude
begin

text \<open>
  Error codes to text: \<^verbatim>\<open>ssn_errmsg\<close> of \<^verbatim>\<open>common/uv_err_cvt.cpp\<close>, a \<^verbatim>\<open>std::map\<close> read with \<^verbatim>\<open>operator[]\<close>
  (which inserts an empty text for a code it does not have), and libuv's \<^verbatim>\<open>uv_err_name\<close> and
  \<^verbatim>\<open>uv_strerror\<close> of \<^verbatim>\<open>uv-common.c\<close> over the table \<^verbatim>\<open>UV_ERRNO_MAP\<close> of \<^verbatim>\<open>uv.h\<close>, with the values the codes
  have on Linux. The library copies these texts into \<^verbatim>\<open>char errmsg[128]\<close> with \<^verbatim>\<open>strcpy\<close>; the lemmas show
  that they fit.
\<close>

section \<open>The codes of the library\<close>

definition ERR_PARAM :: int where "ERR_PARAM = 1"
definition ERR_NOT_READY :: int where "ERR_NOT_READY = 2"
definition ERR_CONN_NOT_EXIST :: int where "ERR_CONN_NOT_EXIST = 3"
definition ERR_CONN_ALREADY_EXIST :: int where "ERR_CONN_ALREADY_EXIST = 4"
definition ERR_TIMEOUT :: int where "ERR_TIMEOUT = 5"
definition ERR_SHUTDOWN :: int where "ERR_SHUTDOWN = 6"
definition ERR_COMM_PROTO_VERSION :: int where "ERR_COMM_PROTO_VERSION = 7"
definition ERR_BAD_COMM_PACKAGE :: int where "ERR_BAD_COMM_PACKAGE = 8"
definition ERR_UV_LIBRARY :: int where "ERR_UV_LIBRARY = 9"

lemmas err_defs = ERR_PARAM_def ERR_NOT_READY_def ERR_CONN_NOT_EXIST_def ERR_CONN_ALREADY_EXIST_def
  ERR_TIMEOUT_def ERR_SHUTDOWN_def ERR_COMM_PROTO_VERSION_def ERR_BAD_COMM_PACKAGE_def ERR_UV_LIBRARY_def

definition ERRMAP :: "(int, string) smap" where
  "ERRMAP = smap_put ERR_BAD_COMM_PACKAGE ''bad communication package''
    (smap_put ERR_COMM_PROTO_VERSION ''communication version error''
    (smap_put ERR_SHUTDOWN ''loop is closed''
    (smap_put ERR_TIMEOUT ''operation timeout''
    (smap_put ERR_CONN_ALREADY_EXIST (''connect already exist, can'' @ [CHR 0x27] @ ''t connect again'')
    (smap_put ERR_CONN_NOT_EXIST ''connect is lost''
    (smap_put ERR_NOT_READY ''net module state wrong''
    (smap_put ERR_PARAM ''invalid param''
    (smap_put 0 ''success'' []))))))))"

text \<open>\<^verbatim>\<open>errmsg[err]\<close>: the text, and the map afterwards.\<close>

definition ssn_errmsg :: "int \<Rightarrow> (int, string) smap \<Rightarrow> string \<times> (int, string) smap" where
  "ssn_errmsg err errmsg = (case smap_find errmsg err of
     Some s \<Rightarrow> (s, errmsg)
   | None \<Rightarrow> ('''', smap_put err '''' errmsg))"

section \<open>libuv's codes\<close>

definition UV_ERRNO_MAP :: "(int \<times> string \<times> string) list" where
  "UV_ERRNO_MAP = [
     (-7, ''E2BIG'', ''argument list too long''),
     (-13, ''EACCES'', ''permission denied''),
     (-98, ''EADDRINUSE'', ''address already in use''),
     (-99, ''EADDRNOTAVAIL'', ''address not available''),
     (-97, ''EAFNOSUPPORT'', ''address family not supported''),
     (-11, ''EAGAIN'', ''resource temporarily unavailable''),
     (-3000, ''EAI_ADDRFAMILY'', ''address family not supported''),
     (-3001, ''EAI_AGAIN'', ''temporary failure''),
     (-3002, ''EAI_BADFLAGS'', ''bad ai_flags value''),
     (-3013, ''EAI_BADHINTS'', ''invalid value for hints''),
     (-3003, ''EAI_CANCELED'', ''request canceled''),
     (-3004, ''EAI_FAIL'', ''permanent failure''),
     (-3005, ''EAI_FAMILY'', ''ai_family not supported''),
     (-3006, ''EAI_MEMORY'', ''out of memory''),
     (-3007, ''EAI_NODATA'', ''no address''),
     (-3008, ''EAI_NONAME'', ''unknown node or service''),
     (-3009, ''EAI_OVERFLOW'', ''argument buffer overflow''),
     (-3014, ''EAI_PROTOCOL'', ''resolved protocol is unknown''),
     (-3010, ''EAI_SERVICE'', ''service not available for socket type''),
     (-3011, ''EAI_SOCKTYPE'', ''socket type not supported''),
     (-114, ''EALREADY'', ''connection already in progress''),
     (-9, ''EBADF'', ''bad file descriptor''),
     (-16, ''EBUSY'', ''resource busy or locked''),
     (-125, ''ECANCELED'', ''operation canceled''),
     (-4080, ''ECHARSET'', ''invalid Unicode character''),
     (-103, ''ECONNABORTED'', ''software caused connection abort''),
     (-111, ''ECONNREFUSED'', ''connection refused''),
     (-104, ''ECONNRESET'', ''connection reset by peer''),
     (-89, ''EDESTADDRREQ'', ''destination address required''),
     (-17, ''EEXIST'', ''file already exists''),
     (-14, ''EFAULT'', ''bad address in system call argument''),
     (-27, ''EFBIG'', ''file too large''),
     (-113, ''EHOSTUNREACH'', ''host is unreachable''),
     (-4, ''EINTR'', ''interrupted system call''),
     (-22, ''EINVAL'', ''invalid argument''),
     (-5, ''EIO'', ''i/o error''),
     (-106, ''EISCONN'', ''socket is already connected''),
     (-21, ''EISDIR'', ''illegal operation on a directory''),
     (-40, ''ELOOP'', ''too many symbolic links encountered''),
     (-24, ''EMFILE'', ''too many open files''),
     (-90, ''EMSGSIZE'', ''message too long''),
     (-36, ''ENAMETOOLONG'', ''name too long''),
     (-100, ''ENETDOWN'', ''network is down''),
     (-101, ''ENETUNREACH'', ''network is unreachable''),
     (-23, ''ENFILE'', ''file table overflow''),
     (-105, ''ENOBUFS'', ''no buffer space available''),
     (-19, ''ENODEV'', ''no such device''),
     (-2, ''ENOENT'', ''no such file or directory''),
     (-12, ''ENOMEM'', ''not enough memory''),
     (-64, ''ENONET'', ''machine is not on the network''),
     (-92, ''ENOPROTOOPT'', ''protocol not available''),
     (-28, ''ENOSPC'', ''no space left on device''),
     (-38, ''ENOSYS'', ''function not implemented''),
     (-107, ''ENOTCONN'', ''socket is not connected''),
     (-20, ''ENOTDIR'', ''not a directory''),
     (-39, ''ENOTEMPTY'', ''directory not empty''),
     (-88, ''ENOTSOCK'', ''socket operation on non-socket''),
     (-95, ''ENOTSUP'', ''operation not supported on socket''),
     (-1, ''EPERM'', ''operation not permitted''),
     (-32, ''EPIPE'', ''broken pipe''),
     (-71, ''EPROTO'', ''protocol error''),
     (-93, ''EPROTONOSUPPORT'', ''protocol not supported''),
     (-91, ''EPROTOTYPE'', ''protocol wrong type for socket''),
     (-34, ''ERANGE'', ''result too large''),
     (-30, ''EROFS'', ''read-only file system''),
     (-108, ''ESHUTDOWN'', ''cannot send after transport endpoint shutdown''),
     (-29, ''ESPIPE'', ''invalid seek''),
     (-3, ''ESRCH'', ''no such process''),
     (-110, ''ETIMEDOUT'', ''connection timed out''),
     (-26, ''ETXTBSY'', ''text file is busy''),
     (-18, ''EXDEV'', ''cross-device link not permitted''),
     (-4094, ''UNKNOWN'', ''unknown error''),
     (-4095, ''EOF'', ''end of file''),
     (-6, ''ENXIO'', ''no such device or address''),
     (-31, ''EMLINK'', ''too many links''),
     (-112, ''EHOSTDOWN'', ''host is down'')]"

text \<open>\<open>alloc\<close>: whether \<^verbatim>\<open>uv__strdup\<close> gets memory. \<^verbatim>\<open>snprintf\<close> keeps 31 characters.\<close>

definition uv__unknown_err_code :: "bool \<Rightarrow> int \<Rightarrow> string" where
  "uv__unknown_err_code alloc err =
     (if alloc then take 31 (''Unknown system error '' @ show_int err) else ''Unknown system error'')"

definition uv_err_name :: "bool \<Rightarrow> int \<Rightarrow> string" where
  "uv_err_name alloc err = (case map_of UV_ERRNO_MAP err of
     Some (name, _) \<Rightarrow> name | None \<Rightarrow> uv__unknown_err_code alloc err)"

definition uv_strerror :: "bool \<Rightarrow> int \<Rightarrow> string" where
  "uv_strerror alloc err = (case map_of UV_ERRNO_MAP err of
     Some (_, msg) \<Rightarrow> msg | None \<Rightarrow> uv__unknown_err_code alloc err)"


section \<open>Lemmas\<close>

lemma smap_ok_ERRMAP: "smap_ok ERRMAP"
  unfolding ERRMAP_def by (intro smap_ok_put smap_ok_Nil)

definition fits_errmsg :: "string \<Rightarrow> bool" where
  "fits_errmsg s \<longleftrightarrow> length s < 128"

definition errmap_ok :: "(int, string) smap \<Rightarrow> bool" where
  "errmap_ok m \<longleftrightarrow> smap_ok m \<and> (\<forall>e. smap_find m e \<in> {smap_find ERRMAP e, Some ''''} \<and>
     (smap_find ERRMAP e \<noteq> None \<longrightarrow> smap_find m e = smap_find ERRMAP e))"

lemma errmap_ok_ERRMAP: "errmap_ok ERRMAP"
  by (simp add: errmap_ok_def smap_ok_ERRMAP)

lemma ssn_errmsg_ok:
  assumes "errmap_ok m"
  shows "errmap_ok (snd (ssn_errmsg e m))" "fst (ssn_errmsg e m) = (case smap_find ERRMAP e of Some s \<Rightarrow> s | None \<Rightarrow> '''')"
  using assms unfolding errmap_ok_def ssn_errmsg_def
  by (auto simp: map_simps split: option.splits) (metis insertE option.distinct(1) option.inject singletonD)

fun query_all :: "int list \<Rightarrow> (int, string) smap \<Rightarrow> (int, string) smap" where
  "query_all [] m = m"
| "query_all (e # es) m = query_all es (snd (ssn_errmsg e m))"

lemma query_all_ok: "errmap_ok m \<Longrightarrow> errmap_ok (query_all es m)"
  by (induction es arbitrary: m) (auto simp: ssn_errmsg_ok)

lemma ERRMAP_find: "smap_find ERRMAP e = Some s \<Longrightarrow> length s < 128"
  by (auto simp: ERRMAP_def err_defs split: if_splits)

lemma errno_texts: "list_all (\<lambda>(_, n, m). length n < 128 \<and> length m < 128) UV_ERRNO_MAP"
  by code_simp

lemma length_unknown_err: "length (uv__unknown_err_code alloc err) \<le> 31"
  by (simp add: uv__unknown_err_code_def)

section \<open>Properties\<close>

text \<open>Whatever codes were looked up before, \<^verbatim>\<open>ssn_errmsg\<close> gives the text of the table for a code of
  the table and an empty text for every other code (in particular for \<^verbatim>\<open>ERR_UV_LIBRARY\<close> and for every
  libuv code, which are negative), and each of these texts and each text of \<^verbatim>\<open>uv_err_name\<close> and
  \<^verbatim>\<open>uv_strerror\<close> fits \<^verbatim>\<open>char errmsg[128]\<close> with its terminator.\<close>

theorem errmsg_total:
  "fst (ssn_errmsg e (query_all es ERRMAP)) = (case smap_find ERRMAP e of Some s \<Rightarrow> s | None \<Rightarrow> '''')
   \<and> (fst (ssn_errmsg e (query_all es ERRMAP)) = '''' \<longleftrightarrow> e < 0 \<or> ERR_UV_LIBRARY \<le> e)
   \<and> fits_errmsg (fst (ssn_errmsg e (query_all es ERRMAP)))
   \<and> fits_errmsg (uv_err_name alloc e) \<and> fits_errmsg (uv_strerror alloc e)"
proof -
  have f: "fst (ssn_errmsg e (query_all es ERRMAP)) = (case smap_find ERRMAP e of Some s \<Rightarrow> s | None \<Rightarrow> '''')"
    by (rule ssn_errmsg_ok(2) [OF query_all_ok [OF errmap_ok_ERRMAP]])
  have "fits_errmsg (fst (ssn_errmsg e (query_all es ERRMAP)))"
    by (auto simp: f fits_errmsg_def dest: ERRMAP_find split: option.splits)
  moreover have "(case smap_find ERRMAP e of Some s \<Rightarrow> s | None \<Rightarrow> '''') = '''' \<longleftrightarrow> e < 0 \<or> ERR_UV_LIBRARY \<le> e"
    by (auto simp: ERRMAP_def err_defs)
  moreover have "fits_errmsg (uv_err_name alloc e) \<and> fits_errmsg (uv_strerror alloc e)"
  proof (cases "map_of UV_ERRNO_MAP e")
    case None
    then show ?thesis using length_unknown_err [of alloc e] by (simp add: uv_err_name_def uv_strerror_def fits_errmsg_def)
  next
    case (Some nm)
    then show ?thesis using errno_texts map_of_SomeD [OF Some]
      by (auto simp: uv_err_name_def uv_strerror_def fits_errmsg_def list_all_iff)
  qed
  ultimately show ?thesis using f by metis
qed

end
