(* ===== verification/Comm_Protocol.thy ===== *)
theory Comm_Protocol
  imports Ssn_Err
begin

text \<open>
  The packet format of the TCP link (\<^verbatim>\<open>Communication/core/comm_protocol.h\<close> and \<^verbatim>\<open>.cpp\<close>): a packed
  header of 18 bytes followed by the payload. \<open>proto_parse_package\<close> works as in the code, on a
  cursor into an array and an \<^verbatim>\<open>int\<close> count of the bytes that remain, with the conversions of C
  between \<^verbatim>\<open>uint32_t\<close>, \<^verbatim>\<open>size_t\<close> and \<^verbatim>\<open>int\<close> written out; a read outside the array is \<open>None\<close>.
  \<open>frames\<close> is the specification: how a byte stream splits into packets.
\<close>

section \<open>Constants and layout\<close>

definition PKG_TYPE_ALIVE :: byte where "PKG_TYPE_ALIVE = 0"
definition PKG_TYPE_COMMON :: byte where "PKG_TYPE_COMMON = 1"
definition PKG_TYPE_PUSH :: byte where "PKG_TYPE_PUSH = 2"
definition COMM_CURRENT_VERSION :: byte where "COMM_CURRENT_VERSION = 1"
definition COMM_MAGIC_NUM :: u32 where "COMM_MAGIC_NUM = 0x12345678"

text \<open>The fields of the packed struct, in their order.\<close>

record comm_pkg =
  pkg_version :: byte
  pkg_magic :: u32
  pkg_taskId :: u64
  pkg_type :: byte
  pkg_length :: u32
  pkg_data :: "byte list"

definition sizeof_comm_pkg :: nat where
  "sizeof_comm_pkg = 18"

definition pkg_bytes :: "comm_pkg \<Rightarrow> byte list" where
  "pkg_bytes p = [pkg_version p] @ enc32 (pkg_magic p) @ enc64 (pkg_taskId p) @ [pkg_type p]
     @ enc32 (pkg_length p) @ pkg_data p"

text \<open>The struct at the start of a byte block; its flexible array member has \<open>pkg_length\<close> bytes.\<close>

definition hd_length :: "byte list \<Rightarrow> u32" where
  "hd_length bs = dec32 (field_at 14 4 bs)"

definition pkg_of :: "byte list \<Rightarrow> comm_pkg" where
  "pkg_of bs = \<lparr>pkg_version = bs ! 0, pkg_magic = dec32 (field_at 1 4 bs), pkg_taskId = dec64 (field_at 5 8 bs),
     pkg_type = bs ! 13, pkg_length = hd_length bs, pkg_data = field_at 18 (unat (hd_length bs)) bs\<rparr>"

section \<open>The operations\<close>

definition proto_build_package :: "byte list \<Rightarrow> int \<Rightarrow> byte \<Rightarrow> u64 \<Rightarrow> comm_pkg" where
  "proto_build_package buf buflen pkgType taskId =
     \<lparr>pkg_version = COMM_CURRENT_VERSION, pkg_magic = COMM_MAGIC_NUM, pkg_taskId = taskId,
      pkg_type = pkgType, pkg_length = of_int buflen, pkg_data = take (nat buflen) buf\<rparr>"

text \<open>\<^verbatim>\<open>proto_parse_package(&buf, &remainSize)\<close> on the array \<open>arr\<close>: the offset of the packet found
  (\<open>None\<close> for \<^verbatim>\<open>NULL\<close>), the new cursor and the new count.\<close>

definition proto_parse_package :: "byte list \<Rightarrow> int \<Rightarrow> int \<Rightarrow> (int option \<times> int \<times> int) option" where
  "proto_parse_package arr cursor remain =
     (if uint (of_int remain :: u64) < 18 then Some (None, cursor, remain)
      else if cursor < 0 \<or> cursor + 18 > int (length arr) then None
      else let requireLen = to_int (uint (hd_length (drop (nat cursor) arr)) + 18) in
        if requireLen > remain then Some (None, cursor, remain)
        else Some (Some cursor, cursor + requireLen, remain - requireLen))"

definition proto_check_pkg :: "comm_pkg \<Rightarrow> int" where
  "proto_check_pkg p =
     (if pkg_magic p \<noteq> COMM_MAGIC_NUM then ERR_BAD_COMM_PACKAGE
      else if pkg_version p \<noteq> COMM_CURRENT_VERSION then ERR_COMM_PROTO_VERSION
      else 0)"

section \<open>Layout lemmas\<close>

lemma length_pkg_bytes [simp]: "length (pkg_bytes p) = 18 + length (pkg_data p)"
  by (simp add: pkg_bytes_def)

lemma hd_length_pkg_bytes: "hd_length (pkg_bytes p @ rest) = pkg_length p"
  by (simp add: hd_length_def pkg_bytes_def layout_simps field_at_def [of _ _ "_ # _"] dec_enc32)

lemma pkg_of_pkg_bytes:
  assumes "unat (pkg_length p) = length (pkg_data p)"
  shows "pkg_of (pkg_bytes p @ rest) = p"
proof -
  have "pkg_bytes p ! 13 = pkg_type p" "field_at 1 4 (pkg_bytes p @ rest) = enc32 (pkg_magic p)"
    "field_at 5 8 (pkg_bytes p @ rest) = enc64 (pkg_taskId p)"
    "field_at 18 (length (pkg_data p)) (pkg_bytes p @ rest) = pkg_data p"
    by (simp_all add: pkg_bytes_def field_at_def nth_append)
  with assms show ?thesis
    by (simp add: pkg_of_def hd_length_pkg_bytes dec_enc32 dec_enc64 nth_append)
      (simp add: pkg_bytes_def)
qed

lemma hd_length_append: "18 \<le> length bs \<Longrightarrow> hd_length (bs @ cs) = hd_length bs"
  by (simp add: hd_length_def field_at_prefix)

lemma unat_of_int_small: "0 \<le> n \<Longrightarrow> n \<le> INT_MAX \<Longrightarrow> unat (of_int n :: u32) = nat n"
  by (cases n rule: int_cases2) (auto simp: unat_of_nat)

lemma proto_build_package_wf:
  "0 \<le> n \<Longrightarrow> n \<le> INT_MAX \<Longrightarrow> nat n \<le> length buf \<Longrightarrow>
   unat (pkg_length (proto_build_package buf n ty tid)) = length (pkg_data (proto_build_package buf n ty tid))"
  by (simp add: proto_build_package_def unat_of_int_small)

section \<open>The specification of the stream\<close>

text \<open>\<open>frames bs\<close>: the complete packets at the front of a byte stream, and the bytes left over.\<close>

fun frames :: "byte list \<Rightarrow> byte list list \<times> byte list" where
  "frames bs =
     (if length bs < 18 then ([], bs)
      else let n = 18 + unat (hd_length bs) in
        if length bs < n then ([], bs)
        else case frames (drop n bs) of (fs, r) \<Rightarrow> (take n bs # fs, r))"

text \<open>\<open>sane bs\<close>: no packet header of the stream declares a length past what an \<^verbatim>\<open>int\<close> can hold.\<close>

fun sane :: "byte list \<Rightarrow> bool" where
  "sane bs =
     (if length bs < 18 then True
      else let n = 18 + unat (hd_length bs) in
        n \<le> nat INT_MAX \<and> (if length bs < n then True else sane (drop n bs)))"

declare frames.simps [simp del] sane.simps [simp del]

lemma frames_short: "length bs < 18 \<Longrightarrow> frames bs = ([], bs)"
  by (simp add: frames.simps)

lemma frames_partial: "length bs < 18 + unat (hd_length bs) \<Longrightarrow> frames bs = ([], bs)"
  by (simp add: frames.simps Let_def)

lemma frames_full:
  "18 + unat (hd_length bs) \<le> length bs \<Longrightarrow> n = 18 + unat (hd_length bs) \<Longrightarrow>
   frames bs = (take n bs # fst (frames (drop n bs)), snd (frames (drop n bs)))"
  by (subst frames.simps) (simp add: Let_def split: prod.splits)

lemma sane_full:
  "sane bs \<Longrightarrow> 18 \<le> length bs \<Longrightarrow> 18 + unat (hd_length bs) \<le> nat INT_MAX"
  by (subst (asm) sane.simps) (auto simp: Let_def)

lemma sane_drop:
  "sane bs \<Longrightarrow> 18 + unat (hd_length bs) \<le> length bs \<Longrightarrow> sane (drop (18 + unat (hd_length bs)) bs)"
  by (subst (asm) sane.simps) (auto simp: Let_def)

text \<open>Splitting is insensitive to where the stream is cut: the rest of the first part, glued to the
  second part, continues the split.\<close>

lemma frames_append:
  "frames (as @ bs) = (fst (frames as) @ fst (frames (snd (frames as) @ bs)), snd (frames (snd (frames as) @ bs)))"
proof (induction as rule: frames.induct)
  case (1 as)
  let ?n = "18 + unat (hd_length as)"
  show ?case
  proof (cases "?n \<le> length as")
    case True
    then have h: "hd_length (as @ bs) = hd_length as" and le: "?n \<le> length (as @ bs)"
      by (simp_all add: hd_length_append)
    have "frames (as @ bs) = (take ?n as # fst (frames (drop ?n as @ bs)), snd (frames (drop ?n as @ bs)))"
      unfolding frames_full [of "as @ bs", OF _ refl, unfolded h, OF le] using True by simp
    moreover have "frames (drop ?n as @ bs) = (fst (frames (drop ?n as)) @ fst (frames (snd (frames (drop ?n as)) @ bs)),
        snd (frames (snd (frames (drop ?n as)) @ bs)))"
      using 1 [of ?n] True by simp
    ultimately show ?thesis unfolding frames_full [OF True refl] by (simp only: fst_conv snd_conv append_Cons)
  next
    case False
    then have "frames as = ([], as)" by (simp add: frames_partial)
    then show ?thesis by simp
  qed
qed

text \<open>Splitting is done: what is left over holds no complete packet.\<close>

lemma frames_rest: "frames (snd (frames bs)) = ([], snd (frames bs)) \<and> length (snd (frames bs)) \<le> length bs"
proof (induction bs rule: frames.induct)
  case (1 bs)
  let ?n = "18 + unat (hd_length bs)"
  show ?case
  proof (cases "?n \<le> length bs")
    case True
    with 1 [of ?n] show ?thesis unfolding frames_full [OF True refl] by auto
  next
    case False
    then have "frames bs = ([], bs)" by (simp add: frames_partial)
    then show ?thesis by simp
  qed
qed

lemma sane_append:
  "sane (as @ bs) \<Longrightarrow> sane as \<and> sane (snd (frames as) @ bs)"
proof (induction as rule: frames.induct)
  case (1 as)
  let ?n = "18 + unat (hd_length as)"
  show ?case
  proof (cases "?n \<le> length as")
    case True
    then have h: "hd_length (as @ bs) = hd_length as" by (simp add: hd_length_append)
    then have "sane (drop ?n as @ bs)" "?n \<le> nat INT_MAX"
      using sane_drop [OF "1.prems"] sane_full [OF "1.prems"] True by simp_all
    moreover then have "sane (drop ?n as) \<and> sane (snd (frames (drop ?n as)) @ bs)"
      using "1.IH" [of ?n] True by simp
    ultimately show ?thesis unfolding frames_full [OF True refl]
      using True by (simp add: sane.simps [of as] Let_def)
  next
    case False
    then have "frames as = ([], as)" by (simp add: frames_partial)
    moreover have "sane as"
      using False sane_full [OF "1.prems"] by (auto simp: sane.simps [of as] Let_def hd_length_append)
    ultimately show ?thesis using "1.prems" by simp
  qed
qed

text \<open>The stream of a list of well-formed packets splits into exactly these packets.\<close>

definition pkg_wf :: "comm_pkg \<Rightarrow> bool" where
  "pkg_wf p \<longleftrightarrow> unat (pkg_length p) = length (pkg_data p)"

lemma frames_pkgs:
  "list_all pkg_wf ps \<Longrightarrow> length r < 18 \<Longrightarrow>
   frames (concat (map pkg_bytes ps) @ r) = (map pkg_bytes ps, r)"
proof (induction ps)
  case Nil
  then show ?case by (simp add: frames_short)
next
  case (Cons p ps)
  then have "18 + unat (pkg_length p) = length (pkg_bytes p)" by (simp add: pkg_wf_def)
  with Cons frames_full [of "pkg_bytes p @ concat (map pkg_bytes ps) @ r" "length (pkg_bytes p)"]
  show ?case by (simp add: hd_length_pkg_bytes)
qed

lemma sane_pkgs:
  "list_all pkg_wf ps \<Longrightarrow> length r < 18 \<Longrightarrow> int (length (concat (map pkg_bytes ps))) \<le> INT_MAX \<Longrightarrow>
   sane (concat (map pkg_bytes ps) @ r)"
proof (induction ps)
  case Nil
  then show ?case by (simp add: sane.simps)
next
  case (Cons p ps)
  then have "18 + unat (pkg_length p) = length (pkg_bytes p)" by (simp add: pkg_wf_def)
  with Cons show ?case
    by (subst sane.simps) (simp add: hd_length_pkg_bytes)
qed

interpretation pk: codec pkg_wf pkg_bytes pkg_of
  by unfold_locales (use pkg_of_pkg_bytes [where rest = "[]"] in \<open>simp add: pkg_wf_def\<close>)

end
