(* ===== verification/Comm_Stream.thy ===== *)
theory Comm_Stream
  imports Comm_Protocol
begin

text \<open>
  The receiving side of a connection: \<^verbatim>\<open>comm_tcp_t\<close> of \<^verbatim>\<open>comm_res.h\<close> and the first half of
  \<^verbatim>\<open>_read_content_process\<close> of \<^verbatim>\<open>comm_core.cpp\<close>, which glues the bytes left over from the last read to
  the bytes just read, cuts packets off and keeps the rest. The lemmas show that the packets handed
  on do not depend on how TCP cuts the stream into reads.
\<close>

datatype tcp_type = TCP_CLIENT | TCP_SERVER

text \<open>\<open>cache\<close> is the heap block the pointer refers to, with its real size; \<open>None\<close> is a null pointer.\<close>

record comm_tcp =
  tcp_kind :: tcp_type
  cache :: "byte list option"
  maxlength :: int
  tlength :: int

definition fresh_tcp :: comm_tcp where
  "fresh_tcp = \<lparr>tcp_kind = TCP_CLIENT, cache = None, maxlength = 0, tlength = 0\<rparr>"

text \<open>The \<^verbatim>\<open>while (1)\<close> loop over \<^verbatim>\<open>proto_parse_package\<close> and \<^verbatim>\<open>proto_check_pkg\<close>. It need not end
  (a header can make it stand still, see below), so it is a partial function.\<close>

partial_function (option) read_loop ::
  "byte list \<Rightarrow> int \<Rightarrow> int \<Rightarrow> comm_pkg list \<Rightarrow> (comm_pkg list \<times> int \<times> int) option" where
  "read_loop arr cursor remain tasks = do {
     (p, c, r) \<leftarrow> proto_parse_package arr cursor remain;
     case p of
       None \<Rightarrow> Some (tasks, c, r)
     | Some off \<Rightarrow>
         if proto_check_pkg (pkg_of (drop (nat off) arr)) \<noteq> 0 then read_loop arr c r tasks
         else read_loop arr c r (tasks @ [pkg_of (drop (nat off) arr)]) }"

text \<open>The same loop, cut off after a number of turns.\<close>

fun read_loop_turns ::
  "nat \<Rightarrow> byte list \<Rightarrow> int \<Rightarrow> int \<Rightarrow> comm_pkg list \<Rightarrow> (comm_pkg list \<times> int \<times> int) option" where
  "read_loop_turns 0 arr cursor remain tasks = None"
| "read_loop_turns (Suc k) arr cursor remain tasks = do {
     (p, c, r) \<leftarrow> proto_parse_package arr cursor remain;
     case p of
       None \<Rightarrow> Some (tasks, c, r)
     | Some off \<Rightarrow>
         if proto_check_pkg (pkg_of (drop (nat off) arr)) \<noteq> 0 then read_loop_turns k arr c r tasks
         else read_loop_turns k arr c r (tasks @ [pkg_of (drop (nat off) arr)]) }"

text \<open>The block the leftover is copied from: the assertion that the cache is there, and the \<^verbatim>\<open>memcpy\<close>.\<close>

definition cached_bytes :: "comm_tcp \<Rightarrow> byte list option" where
  "cached_bytes t =
     (if tlength t = 0 then Some []
      else do { c \<leftarrow> cache t; if 0 \<le> tlength t \<and> nat (tlength t) \<le> length c then Some (take (nat (tlength t)) c) else None })"

text \<open>Keeping the rest: a larger block if the old one is too small, then the \<^verbatim>\<open>memcpy\<close> into it.\<close>

definition store_rest :: "comm_tcp \<Rightarrow> byte list \<Rightarrow> int \<Rightarrow> int \<Rightarrow> comm_tcp option" where
  "store_rest t arr cursor remain =
     (let t1 = (if maxlength t < remain
                then t\<lparr>cache := Some (replicate (nat remain) 0), maxlength := remain\<rparr> else t);
          t2 = t1\<lparr>tlength := remain\<rparr> in
      if remain = 0 then Some t2
      else if remain < 0 \<or> cursor < 0 \<or> cursor + remain > int (length arr) then None
      else do {
        c \<leftarrow> cache t2;
        if nat remain \<le> length c
        then Some (t2\<lparr>cache := Some (take (nat remain) (drop (nat cursor) arr) @ drop (nat remain) c)\<rparr>)
        else None })"

definition read_content_parse :: "comm_tcp \<Rightarrow> int \<Rightarrow> byte list \<Rightarrow> (comm_tcp \<times> comm_pkg list) option" where
  "read_content_parse t sz content = do {
     total \<leftarrow> int_add (tlength t) sz;
     old \<leftarrow> cached_bytes t;
     new \<leftarrow> (if 0 \<le> sz \<and> nat sz \<le> length content then Some (take (nat sz) content) else None);
     (tasks, cursor, remain) \<leftarrow> read_loop (old @ new) 0 total [];
     t' \<leftarrow> store_rest t (old @ new) cursor remain;
     Some (t', tasks) }"

text \<open>A sequence of reads on one connection.\<close>

fun feed :: "comm_tcp \<Rightarrow> byte list list \<Rightarrow> (comm_tcp \<times> comm_pkg list) option" where
  "feed t [] = Some (t, [])"
| "feed t (c # cs) = do {
     (t1, ps) \<leftarrow> read_content_parse t (int (length c)) c;
     (t2, qs) \<leftarrow> feed t1 cs;
     Some (t2, ps @ qs) }"

section \<open>The invariant of the cache\<close>

definition tcp_ok :: "comm_tcp \<Rightarrow> bool" where
  "tcp_ok t \<longleftrightarrow> 0 \<le> tlength t \<and> tlength t \<le> maxlength t
     \<and> (case cache t of None \<Rightarrow> maxlength t = 0 | Some c \<Rightarrow> int (length c) = maxlength t)"

definition pending :: "comm_tcp \<Rightarrow> byte list" where
  "pending t = (case cache t of None \<Rightarrow> [] | Some c \<Rightarrow> take (nat (tlength t)) c)"

lemma tcp_ok_fresh [simp]: "tcp_ok fresh_tcp" "pending fresh_tcp = []"
  by (simp_all add: tcp_ok_def fresh_tcp_def pending_def)

lemma cached_bytes_ok: "tcp_ok t \<Longrightarrow> cached_bytes t = Some (pending t)"
  by (auto simp: tcp_ok_def cached_bytes_def pending_def split: option.splits)

lemma length_pending: "tcp_ok t \<Longrightarrow> int (length (pending t)) = tlength t"
  by (auto simp: tcp_ok_def pending_def split: option.splits)

lemma store_rest_ok:
  assumes "tcp_ok t" "0 \<le> cursor" "0 \<le> remain" "cursor + remain = int (length arr)"
  shows "\<exists>t'. store_rest t arr cursor remain = Some t' \<and> tcp_ok t' \<and> pending t' = drop (nat cursor) arr
    \<and> tcp_kind t' = tcp_kind t"
proof -
  have l: "length (drop (nat cursor) arr) = nat remain" using assms by simp
  show ?thesis
  proof (cases "maxlength t < remain")
    case True
    with assms l show ?thesis by (auto simp: store_rest_def tcp_ok_def pending_def)
  next
    case False
    with assms l show ?thesis
      by (cases "cache t"; cases "remain = 0") (auto simp: store_rest_def tcp_ok_def pending_def Let_def)
  qed
qed

section \<open>The loop implements the specification\<close>

text \<open>The packets the loop hands on: those \<^verbatim>\<open>proto_check_pkg\<close> accepts.\<close>

definition accepted :: "byte list list \<Rightarrow> comm_pkg list" where
  "accepted fs = filter (\<lambda>p. proto_check_pkg p = 0) (map pkg_of fs)"

lemma accepted_Nil [simp]: "accepted [] = []"
  by (simp add: accepted_def)

lemma accepted_append [simp]: "accepted (fs @ gs) = accepted fs @ accepted gs"
  by (simp add: accepted_def)

lemma req_len:
  assumes "18 + unat (hd_length bs) \<le> nat INT_MAX"
  shows "to_int (uint (hd_length bs) + 18) = int (18 + unat (hd_length bs))"
proof -
  have "int (unat (hd_length bs)) = uint (hd_length bs)" by simp
  moreover have "int (unat (hd_length bs)) \<le> 2147483629" using assms by linarith
  ultimately have "uint (hd_length bs) + 18 \<le> INT_MAX" by linarith
  then show ?thesis by (simp add: to_int_id)
qed

lemma rest_len: "0 \<le> c \<Longrightarrow> c + r = int (length arr) \<Longrightarrow> 0 \<le> r \<Longrightarrow> int (length (drop (nat c) arr)) = r"
  by simp

lemma uint_small: "0 \<le> r \<Longrightarrow> r \<le> INT_MAX \<Longrightarrow> uint (of_int r :: u64) = r"
  by (simp add: take_bit_int_eq_self unsigned_of_int)

lemma parse_none:
  assumes "0 \<le> c" "c + r = int (length arr)" "0 \<le> r" "r \<le> INT_MAX" "sane (drop (nat c) arr)"
    and "fst (frames (drop (nat c) arr)) = []"
  shows "proto_parse_package arr c r = Some (None, c, r)"
proof -
  let ?bs = "drop (nat c) arr" and ?n = "18 + unat (hd_length (drop (nat c) arr))"
  have l: "int (length ?bs) = r" by (rule rest_len [OF assms(1-3)])
  have u: "uint (of_int r :: u64) = r" by (rule uint_small [OF assms(3,4)])
  show ?thesis
  proof (cases "r < 18")
    case False
    then have "length ?bs < ?n" using assms(6) l frames_full [of ?bs ?n] by fastforce
    then have "r < int ?n" using l by linarith
    moreover have "?n \<le> nat INT_MAX" using sane_full [OF assms(5)] False l by linarith
    then have "to_int (uint (hd_length ?bs) + 18) = int ?n" by (rule req_len)
    ultimately show ?thesis using False assms u l by (simp add: proto_parse_package_def Let_def)
  qed (use u in \<open>simp add: proto_parse_package_def\<close>)
qed

lemma parse_some:
  assumes "0 \<le> c" "c + r = int (length arr)" "0 \<le> r" "r \<le> INT_MAX" "sane (drop (nat c) arr)"
    and n: "n = 18 + unat (hd_length (drop (nat c) arr))" "int n \<le> r"
  shows "proto_parse_package arr c r = Some (Some c, c + int n, r - int n)"
proof -
  let ?bs = "drop (nat c) arr"
  have l: "int (length ?bs) = r" by (rule rest_len [OF assms(1-3)])
  have u: "uint (of_int r :: u64) = r" by (rule uint_small [OF assms(3,4)])
  have "n \<le> nat INT_MAX" using sane_full [OF assms(5)] n l by linarith
  then have "to_int (uint (hd_length ?bs) + 18) = int n" using n(1) req_len by simp
  moreover have "\<not> r < 18" using n by linarith
  then have "\<not> uint (of_int r :: u64) < 18" "\<not> (c < 0 \<or> c + 18 > int (length arr))" using assms(1,2) u by auto
  ultimately show ?thesis using n(2) unfolding proto_parse_package_def Let_def by (simp only: if_False not_less [symmetric])
qed

lemma read_loop_frames:
  "bs = drop (nat c) arr \<Longrightarrow> 0 \<le> c \<Longrightarrow> c + r = int (length arr) \<Longrightarrow> 0 \<le> r \<Longrightarrow> r \<le> INT_MAX \<Longrightarrow> sane bs \<Longrightarrow>
   \<exists>c' r'. read_loop arr c r tasks = Some (tasks @ accepted (fst (frames bs)), c', r')
     \<and> 0 \<le> c' \<and> 0 \<le> r' \<and> c' + r' = int (length arr) \<and> drop (nat c') arr = snd (frames bs)"
proof (induction bs arbitrary: c r tasks rule: frames.induct)
  case (1 bs)
  let ?n = "18 + unat (hd_length bs)"
  have l: "int (length bs) = r" unfolding "1.prems"(1) by (rule rest_len) (use "1.prems" in auto)
  show ?case
  proof (cases "?n \<le> length bs")
    case False
    then have f: "frames bs = ([], bs)" by (simp add: frames_partial)
    then have "proto_parse_package arr c r = Some (None, c, r)"
      using "1.prems" by (intro parse_none) auto
    with f "1.prems" show ?thesis by (simp add: read_loop.simps [of arr c r])
  next
    case True
    note P = parse_some [OF "1.prems"(2,3,4,5), of ?n, folded "1.prems"(1), OF "1.prems"(6) refl]
    have ir: "int ?n \<le> r" using True l by linarith
    have d: "drop ?n bs = drop (nat (c + int ?n)) arr"
      using "1.prems"(1,2) by (simp add: nat_add_distrib add.commute)
    have s: "sane (drop ?n bs)" using sane_drop "1.prems"(6) True by blast
    have "pkg_of bs = pkg_of (take ?n bs)"
    proof -
      have "take ?n bs ! 0 = bs ! 0" "take ?n bs ! 13 = bs ! 13" "hd_length (take ?n bs) = hd_length bs"
        by (simp_all add: hd_length_def field_at_take)
      then show ?thesis by (simp add: pkg_of_def field_at_take)
    qed
    then have acc: "accepted (fst (frames bs)) =
        (if proto_check_pkg (pkg_of bs) = 0 then [pkg_of bs] else []) @ accepted (fst (frames (drop ?n bs)))"
      using frames_full [OF True refl] by (simp add: accepted_def)
    have IH: "\<exists>c' r'. read_loop arr (c + int ?n) (r - int ?n) ts = Some (ts @ accepted (fst (frames (drop ?n bs))), c', r')
        \<and> 0 \<le> c' \<and> 0 \<le> r' \<and> c' + r' = int (length arr) \<and> drop (nat c') arr = snd (frames (drop ?n bs))" for ts
      by (rule "1.IH") (use True "1.prems" ir s d in \<open>auto simp del: of_nat_add\<close>)
    have "read_loop arr c r tasks = read_loop arr (c + int ?n) (r - int ?n)
        (tasks @ (if proto_check_pkg (pkg_of bs) = 0 then [pkg_of bs] else []))"
      using P [OF ir] "1.prems"(1) by (simp add: read_loop.simps [of arr c r])
    then show ?thesis
      using IH [of "tasks @ (if proto_check_pkg (pkg_of bs) = 0 then [pkg_of bs] else [])"]
        arg_cong [OF frames_full [OF True refl], of snd]
      by (simp only: acc append_assoc snd_conv)
  qed
qed

lemma read_content_parse_ok:
  assumes ok: "tcp_ok t" and s: "sane (pending t @ c)" and l: "int (length (pending t @ c)) \<le> INT_MAX"
  shows "\<exists>t'. read_content_parse t (int (length c)) c = Some (t', accepted (fst (frames (pending t @ c))))
    \<and> tcp_ok t' \<and> pending t' = snd (frames (pending t @ c)) \<and> tcp_kind t' = tcp_kind t"
proof -
  let ?arr = "pending t @ c"
  have tl: "tlength t = int (length (pending t))" using length_pending [OF ok] by simp
  have add: "int_add (tlength t) (int (length c)) = Some (int (length ?arr))"
    using l by (simp add: int_add_def tl)
  obtain c' r' where L: "read_loop ?arr 0 (int (length ?arr)) [] = Some (accepted (fst (frames ?arr)), c', r')"
    "0 \<le> c'" "0 \<le> r'" "c' + r' = int (length ?arr)" "drop (nat c') ?arr = snd (frames ?arr)"
    using read_loop_frames [of ?arr 0 ?arr "int (length ?arr)" "[]"] s l by auto
  with store_rest_ok [OF ok, of c' r' ?arr] obtain t' where
    "store_rest t ?arr c' r' = Some t'" "tcp_ok t'" "pending t' = snd (frames ?arr)" "tcp_kind t' = tcp_kind t"
    by auto
  with add L(1) cached_bytes_ok [OF ok] show ?thesis
    by (simp add: read_content_parse_def)
qed

lemma feed_frames:
  "tcp_ok t \<Longrightarrow> fst (frames (pending t)) = [] \<Longrightarrow> sane (pending t @ concat cs) \<Longrightarrow>
   int (length (pending t @ concat cs)) \<le> INT_MAX \<Longrightarrow>
   \<exists>t'. feed t cs = Some (t', accepted (fst (frames (pending t @ concat cs))))
     \<and> tcp_ok t' \<and> pending t' = snd (frames (pending t @ concat cs))"
proof (induction cs arbitrary: t)
  case Nil
  have "frames (pending t) = ([], pending t)"
    using frames_append [of "pending t" "[]"] frames_rest [of "pending t"] Nil.prems(2)
    by (metis append_Nil2 frames_full frames_partial fst_conv list.discI not_less)
  with Nil show ?case by simp
next
  case (Cons c cs)
  let ?a = "pending t @ c"
  from Cons.prems have s: "sane (?a @ concat cs)" by simp
  obtain t1 where t1: "read_content_parse t (int (length c)) c = Some (t1, accepted (fst (frames ?a)))"
    "tcp_ok t1" "pending t1 = snd (frames ?a)"
    using read_content_parse_ok [OF Cons.prems(1), of c] sane_append [OF s] Cons.prems(4) by auto
  have "\<exists>t'. feed t1 cs = Some (t', accepted (fst (frames (pending t1 @ concat cs))))
     \<and> tcp_ok t' \<and> pending t' = snd (frames (pending t1 @ concat cs))"
    using t1 sane_append [OF s] frames_rest [of ?a] Cons.prems(4) by (intro Cons.IH) auto
  then obtain t2 where t2: "feed t1 cs = Some (t2, accepted (fst (frames (pending t1 @ concat cs))))"
    "tcp_ok t2" "pending t2 = snd (frames (pending t1 @ concat cs))" by auto
  have "frames (pending t @ concat (c # cs)) = (fst (frames ?a) @ fst (frames (pending t1 @ concat cs)),
      snd (frames (pending t1 @ concat cs)))"
    using frames_append [of ?a "concat cs"] t1(3) by simp
  with t1(1) t2 show ?case by simp
qed

lemma feed_fresh:
  assumes "sane (concat cs)" "int (length (concat cs)) \<le> INT_MAX"
  shows "\<exists>t. feed fresh_tcp cs = Some (t, accepted (fst (frames (concat cs))))
    \<and> tcp_ok t \<and> pending t = snd (frames (concat cs))"
  using feed_frames [of fresh_tcp cs] assms by (simp add: frames_short)

section \<open>Properties of the stream\<close>

text \<open>C1. However the network cuts a stream into reads, the packets a connection hands on are the
  accepted packets of the whole stream, in order, and the cache holds exactly the bytes after the
  last complete packet; no read or copy leaves its buffer. The stream is any bytes whose headers
  declare lengths an \<^verbatim>\<open>int\<close> can hold.\<close>

theorem stream_chunking:
  assumes "sane (concat cs)" "int (length (concat cs)) \<le> INT_MAX"
  shows "\<exists>t. feed fresh_tcp cs = Some (t, accepted (fst (frames (concat cs))))
    \<and> tcp_ok t \<and> pending t = snd (frames (concat cs))"
  using assms by (rule feed_fresh)

theorem stream_chunking_witness:
  "\<exists>t. feed fresh_tcp [[1, 0x78, 0x56, 0x34], [0x12, 1, 0, 0, 0, 0, 0, 0, 0, 1, 1, 0, 0], [0, 42, 9]]
     = Some (t, [\<lparr>pkg_version = 1, pkg_magic = 0x12345678, pkg_taskId = 1, pkg_type = 1, pkg_length = 1, pkg_data = [42]\<rparr>])
     \<and> tcp_ok t \<and> pending t = [9]"
proof -
  let ?cs = "[[1, 0x78, 0x56, 0x34], [0x12, 1, 0, 0, 0, 0, 0, 0, 0, 1, 1, 0, 0], [0, 42, 9]] :: byte list list"
  have f: "frames (concat ?cs) = ([butlast (concat ?cs)], [9])"
    by (simp add: frames.simps hd_length_def field_at_def dec32_def)
  have "sane (concat ?cs)" by (simp add: sane.simps hd_length_def field_at_def dec32_def)
  from stream_chunking [OF this] f show ?thesis
    by (simp add: accepted_def pkg_of_def hd_length_def field_at_def dec32_def dec64_def proto_check_pkg_def
        COMM_MAGIC_NUM_def COMM_CURRENT_VERSION_def)
qed

text \<open>C2. End to end: the packets one side builds with \<^verbatim>\<open>proto_build_package\<close> and writes in sequence come
  out on the other side as the same packets, for every way the stream is cut into reads.\<close>

theorem build_parse_roundtrip:
  assumes "\<forall>(d, ty, tid) \<in> set ms. int (length d) \<le> INT_MAX"
    and "concat cs = concat (map (\<lambda>(d, ty, tid). pkg_bytes (proto_build_package d (int (length d)) ty tid)) ms)"
    and "int (length (concat cs)) \<le> INT_MAX"
  shows "\<exists>t. feed fresh_tcp cs = Some (t, map (\<lambda>(d, ty, tid). proto_build_package d (int (length d)) ty tid) ms)
    \<and> pending t = [] \<and> map (\<lambda>(d, ty, tid). pkg_data (proto_build_package d (int (length d)) ty tid)) ms = map fst ms"
proof -
  let ?ps = "map (\<lambda>(d, ty, tid). proto_build_package d (int (length d)) ty tid) ms"
  have wf: "list_all pkg_wf ?ps"
    using assms(1) by (auto simp: list_all_iff pkg_wf_def intro!: proto_build_package_wf)
  have cs: "concat cs = concat (map pkg_bytes ?ps) @ []"
    using assms(2) by (simp add: comp_def case_prod_unfold)
  note F = frames_pkgs [OF wf, of "[]", folded cs] and S = sane_pkgs [OF wf, of "[]", folded cs]
  have "list_all (\<lambda>p. proto_check_pkg p = 0) ?ps"
    by (auto simp: list_all_iff proto_check_pkg_def proto_build_package_def)
  then have "accepted (map pkg_bytes ?ps) = ?ps"
    unfolding accepted_def pk.map_dec_enc [OF wf] by (simp only: filter_id_conv list_all_iff)
  then show ?thesis
    using feed_fresh [of cs] F S assms(3) cs
    by (auto simp: proto_build_package_def comp_def case_prod_unfold)
qed

theorem build_parse_roundtrip_witness:
  "\<exists>t. feed fresh_tcp [take 7 (pkg_bytes (proto_build_package [5, 6] 2 1 3)), drop 7 (pkg_bytes (proto_build_package [5, 6] 2 1 3))]
     = Some (t, [proto_build_package [5, 6] 2 1 3]) \<and> pending t = []"
  using build_parse_roundtrip [of "[([5, 6], 1, 3)]"
      "[take 7 (pkg_bytes (proto_build_package [5, 6] 2 1 3)), drop 7 (pkg_bytes (proto_build_package [5, 6] 2 1 3))]"]
  by (simp add: proto_build_package_def)

lemma read_loop_turns_sound:
  "read_loop_turns k arr c r tasks = Some res \<Longrightarrow> read_loop arr c r tasks = Some res"
proof (induction k arbitrary: c r tasks)
  case (Suc k)
  then obtain p c' r' where p: "proto_parse_package arr c r = Some (p, c', r')" by (auto simp: Option.bind_eq_Some_conv)
  with Suc show ?case
    by (cases p) (auto simp: read_loop.simps [of arr c r] split: if_splits)
qed simp

lemma read_loop_turns_end:
  "bs = drop (nat c) arr \<Longrightarrow> 0 \<le> c \<Longrightarrow> c + r = int (length arr) \<Longrightarrow> 0 \<le> r \<Longrightarrow> r \<le> INT_MAX \<Longrightarrow> sane bs \<Longrightarrow>
   length bs div 18 \<le> k \<Longrightarrow> \<exists>res. read_loop_turns (Suc k) arr c r tasks = Some res"
proof (induction bs arbitrary: c r tasks k rule: frames.induct)
  case (1 bs)
  let ?n = "18 + unat (hd_length bs)"
  have l: "int (length bs) = r" unfolding "1.prems"(1) by (rule rest_len) (use "1.prems" in auto)
  show ?case
  proof (cases "?n \<le> length bs")
    case False
    then have "fst (frames bs) = []" by (simp add: frames_partial)
    then have "proto_parse_package arr c r = Some (None, c, r)"
      using "1.prems" by (intro parse_none) auto
    then show ?thesis by simp
  next
    case True
    note P = parse_some [OF "1.prems"(2,3,4,5), of ?n, folded "1.prems"(1), OF "1.prems"(6) refl]
    have ir: "int ?n \<le> r" using True l by linarith
    have d: "drop ?n bs = drop (nat (c + int ?n)) arr"
      using "1.prems"(1,2) by (simp add: nat_add_distrib add.commute)
    have s: "sane (drop ?n bs)" using sane_drop "1.prems"(6) True by blast
    have "(length (drop ?n bs) + 18) div 18 \<le> length bs div 18" using True by (intro div_le_mono) simp
    then have "length (drop ?n bs) div 18 < length bs div 18" by simp
    then obtain k' where k': "k = Suc k'" "length (drop ?n bs) div 18 \<le> k'"
      using "1.prems"(7) by (cases k) auto
    have "\<exists>res. read_loop_turns (Suc k') arr (c + int ?n) (r - int ?n) ts = Some res" for ts
      by (rule "1.IH" [OF _ refl _ d _ _ _ _ s k'(2)]) (use True "1.prems"(2-6) ir in \<open>auto simp del: of_nat_add\<close>)
    with P [OF ir] k'(1) show ?thesis by simp
  qed
qed

text \<open>C38. The receive loop ends: on \<open>n\<close> bytes whose headers declare lengths an \<^verbatim>\<open>int\<close> can hold it returns within
  \<open>n div 18 + 1\<close> turns, one per packet header the bytes have room for and one to find no more.\<close>

theorem read_loop_terminates:
  assumes "sane arr" "int (length arr) \<le> INT_MAX"
  shows "\<exists>res. read_loop_turns (length arr div 18 + 1) arr 0 (int (length arr)) tasks = Some res
    \<and> read_loop arr 0 (int (length arr)) tasks = Some res"
  using read_loop_turns_end [of arr 0 arr "int (length arr)" "length arr div 18" tasks] read_loop_turns_sound assms by fastforce

theorem read_loop_terminates_witness:
  "\<exists>res. read_loop_turns 2 (pkg_bytes (proto_build_package [5, 6] 2 1 3)) 0 20 [] = Some res
    \<and> read_loop (pkg_bytes (proto_build_package [5, 6] 2 1 3)) 0 20 [] = Some res"
proof -
  have b: "pkg_bytes (proto_build_package [5, 6] 2 1 3) = [1, 0x78, 0x56, 0x34, 0x12, 3, 0, 0, 0, 0, 0, 0, 0, 1, 2, 0, 0, 0, 5, 6]"
    by code_simp
  have "sane (pkg_bytes (proto_build_package [5, 6] 2 1 3))"
    unfolding b by (simp add: sane.simps hd_length_def field_at_def dec32_def)
  moreover have l: "length (pkg_bytes (proto_build_package [5, 6] 2 1 3)) div 18 + 1 = 2"
    "int (length (pkg_bytes (proto_build_package [5, 6] 2 1 3))) = 20" by (simp_all add: b)
  moreover have "(20 :: int) \<le> INT_MAX" by simp
  ultimately show ?thesis
    using read_loop_terminates [of "pkg_bytes (proto_build_package [5, 6] 2 1 3)" "[]"] unfolding l by blast
qed

lemma parse_stands_still:
  assumes "0 \<le> c" "18 \<le> r" "c + r = int (length arr)" "r \<le> INT_MAX"
    and "hd_length (drop (nat c) arr) = 0xFFFFFFEE"
  shows "proto_parse_package arr c r = Some (Some c, c, r)"
proof -
  have "uint (of_int r :: u64) = r" by (rule uint_small) (use assms in auto)
  moreover have "to_int (uint (0xFFFFFFEE :: u32) + 18) = 0" by (simp add: to_int_def)
  ultimately show ?thesis using assms by (simp add: proto_parse_package_def)
qed

text \<open>C21. The bound on declared lengths is needed: a header that declares \<^verbatim>\<open>0xFFFFFFEE\<close> bytes makes the
  required length wrap to 0, \<^verbatim>\<open>proto_parse_package\<close> returns the packet without consuming anything, and
  the loop of \<^verbatim>\<open>_read_content_process\<close> never returns.\<close>

theorem read_loop_wraparound_hang:
  assumes c: "0 \<le> c" "18 \<le> r" "c + r = int (length arr)" "r \<le> INT_MAX"
    and h: "hd_length (drop (nat c) arr) = 0xFFFFFFEE"
  shows "proto_parse_package arr c r = Some (Some c, c, r) \<and> read_loop arr c r tasks = None"
proof -
  note P = parse_stands_still [OF c h]
  have "\<not> (a = arr \<and> x = c \<and> y = r)" if ret: "read_loop a x y ts = Some res" for a x y ts res
  proof (rule read_loop.raw_induct [where P = "\<lambda>a x y ts res. \<not> (a = arr \<and> x = c \<and> y = r)", OF _ ret])
    fix f a x y ts res
    assume IH: "\<And>a x y ts res. f a x y ts = Some res \<Longrightarrow> \<not> (a = arr \<and> x = c \<and> y = r)"
      and eq: "(do { (p, c, r) \<leftarrow> proto_parse_package a x y;
        case p of None \<Rightarrow> Some (ts, c, r)
        | Some off \<Rightarrow> if proto_check_pkg (pkg_of (drop (nat off) a)) \<noteq> 0 then f a c r ts
            else f a c r (ts @ [pkg_of (drop (nat off) a)]) }) = Some res"
    have "f arr c r us = None" for us using IH [of arr c r us] by (cases "f arr c r us") auto
    with eq P show "\<not> (a = arr \<and> x = c \<and> y = r)" by (auto split: if_splits)
  qed
  then have "read_loop arr c r tasks \<noteq> Some res" for res by blast
  then have "read_loop arr c r tasks = None" using not_None_eq by blast
  with P show ?thesis by simp
qed

theorem read_loop_wraparound_hang_witness:
  "read_loop [1, 0x78, 0x56, 0x34, 0x12, 1, 0, 0, 0, 0, 0, 0, 0, 1, 0xEE, 0xFF, 0xFF, 0xFF] 0 18 [] = None"
  using read_loop_wraparound_hang [of 0 18 "[1, 0x78, 0x56, 0x34, 0x12, 1, 0, 0, 0, 0, 0, 0, 0, 1, 0xEE, 0xFF, 0xFF, 0xFF]" "[]"]
  by (simp add: hd_length_def field_at_def dec32_def)

end
