(* ===== verification/Gqueue.thy ===== *)
theory Gqueue
  imports Ssn_Prelude
begin

text \<open>
  The double-ended linked queue of \<^verbatim>\<open>third/queue/Gqueue.c\<close>, on an explicit store: nodes and data
  blocks live at addresses, every dereference, \<^verbatim>\<open>memcpy\<close> and \<^verbatim>\<open>free\<close> is checked, and a
  null or dangling access, a read or write past a block, a double free or an overflow of the
  \<^verbatim>\<open>int\<close> counter is the result \<open>None\<close>. The lemmas show that none of these happens on a
  well-formed queue and that the pointer operations implement a first-in first-out list of
  messages; the locale \<open>fifo\<close> is the interface the thread pool relies on.
\<close>

section \<open>The store\<close>

record node =
  nd_data :: "addr option"
  nd_datalen :: u32
  nd_prev :: "addr option"
  nd_next :: "addr option"

record mem =
  nodes :: "addr \<Rightarrow> node option"
  bufs :: "addr \<Rightarrow> byte list option"
  brk :: addr

definition empty_mem :: mem where
  "empty_mem = \<lparr>nodes = Map.empty, bufs = Map.empty, brk = 0\<rparr>"

text \<open>\<^verbatim>\<open>malloc\<close> returns a fresh block; its contents are placeholders that no operation reads.\<close>

definition malloc_node :: "mem \<Rightarrow> addr \<times> mem" where
  "malloc_node m = (brk m, m\<lparr>nodes := (nodes m)(brk m \<mapsto>
     \<lparr>nd_data = None, nd_datalen = 0, nd_prev = None, nd_next = None\<rparr>), brk := Suc (brk m)\<rparr>)"

definition malloc_buf :: "nat \<Rightarrow> mem \<Rightarrow> addr \<times> mem" where
  "malloc_buf n m = (brk m, m\<lparr>bufs := (bufs m)(brk m \<mapsto> replicate n 0), brk := Suc (brk m)\<rparr>)"

definition get_node :: "addr option \<Rightarrow> mem \<Rightarrow> node option" where
  "get_node p m = Option.bind p (nodes m)"

definition set_node :: "addr option \<Rightarrow> (node \<Rightarrow> node) \<Rightarrow> mem \<Rightarrow> mem option" where
  "set_node p f m = do { a \<leftarrow> p; n \<leftarrow> nodes m a; Some (m\<lparr>nodes := (nodes m)(a \<mapsto> f n)\<rparr>) }"

definition get_buf :: "addr option \<Rightarrow> mem \<Rightarrow> byte list option" where
  "get_buf p m = Option.bind p (bufs m)"

definition memcpy_in :: "addr option \<Rightarrow> byte list \<Rightarrow> nat \<Rightarrow> mem \<Rightarrow> mem option" where
  "memcpy_in p src n m = do { a \<leftarrow> p; old \<leftarrow> bufs m a;
     if n \<le> length src \<and> n \<le> length old
     then Some (m\<lparr>bufs := (bufs m)(a \<mapsto> take n src @ drop n old)\<rparr>) else None }"

definition memcpy_out :: "byte list \<Rightarrow> byte list \<Rightarrow> nat \<Rightarrow> byte list option" where
  "memcpy_out dst src n =
     (if n \<le> length src \<and> n \<le> length dst then Some (take n src @ drop n dst) else None)"

definition free_node :: "addr option \<Rightarrow> mem \<Rightarrow> mem option" where
  "free_node p m = do { a \<leftarrow> p; _ \<leftarrow> nodes m a; Some (m\<lparr>nodes := (nodes m)(a := None)\<rparr>) }"

definition free_buf :: "addr option \<Rightarrow> mem \<Rightarrow> mem option" where
  "free_buf p m = do { a \<leftarrow> p; _ \<leftarrow> bufs m a; Some (m\<lparr>bufs := (bufs m)(a := None)\<rparr>) }"

section \<open>The operations\<close>

text \<open>The user handler is a callback; its effects are a state of type \<open>'s\<close> it is run on, and
  a call that crashes is \<open>None\<close>.\<close>

record 's easy_queue =
  q_size :: int
  q_head :: "addr option"
  q_tail :: "addr option"
  q_handler :: "(byte list \<Rightarrow> u32 \<Rightarrow> 's \<Rightarrow> 's option) option"

definition easy_queue_init ::
  "(byte list \<Rightarrow> u32 \<Rightarrow> 's \<Rightarrow> 's option) option \<Rightarrow> mem \<Rightarrow> (int \<times> 's easy_queue \<times> mem) option" where
  "easy_queue_init free_cb m = (let (p, m1) = malloc_node m in do {
     m2 \<leftarrow> set_node (Some p) (\<lambda>n. n\<lparr>nd_data := None, nd_datalen := 0, nd_next := None, nd_prev := None\<rparr>) m1;
     Some (0, \<lparr>q_size = 0, q_head = Some p, q_tail = Some p, q_handler = free_cb\<rparr>, m2) })"

definition easy_queue_push ::
  "'s easy_queue \<Rightarrow> byte list \<Rightarrow> u32 \<Rightarrow> mem \<Rightarrow> (int \<times> 's easy_queue \<times> mem) option" where
  "easy_queue_push q dat datalen m = (let (p, m1) = malloc_node m; (b, m2) = malloc_buf (unat datalen) m1 in do {
     m3 \<leftarrow> set_node (Some p) (\<lambda>n. n\<lparr>nd_data := Some b, nd_datalen := datalen\<rparr>) m2;
     m4 \<leftarrow> memcpy_in (Some b) dat (unat datalen) m3;
     m5 \<leftarrow> set_node (Some p) (\<lambda>n. n\<lparr>nd_next := None\<rparr>) m4;
     m6 \<leftarrow> set_node (q_tail q) (\<lambda>n. n\<lparr>nd_next := Some p\<rparr>) m5;
     m7 \<leftarrow> set_node (Some p) (\<lambda>n. n\<lparr>nd_prev := q_tail q\<rparr>) m6;
     sz \<leftarrow> int_add (q_size q) 1;
     Some (0, q\<lparr>q_tail := Some p, q_size := sz\<rparr>, m7) })"

text \<open>\<^verbatim>\<open>easy_queue_pop\<close>: the caller's buffer (or \<open>None\<close> for a null pointer) and its length go
  in and come out; on the error paths they hold the required length.\<close>

definition easy_queue_pop ::
  "'s easy_queue \<Rightarrow> byte list option \<Rightarrow> u32 \<Rightarrow> mem
     \<Rightarrow> (int \<times> byte list option \<times> u32 \<times> 's easy_queue \<times> mem) option" where
  "easy_queue_pop q buf buflen m = do {
     h \<leftarrow> get_node (q_head q) m;
     case nd_next h of
       None \<Rightarrow> Some (-1, buf, 0, q, m)
     | Some p \<Rightarrow> do {
         n \<leftarrow> get_node (Some p) m;
         if buf = None \<or> buflen < nd_datalen n then Some (-1, buf, nd_datalen n, q, m)
         else do {
           m1 \<leftarrow> set_node (q_head q) (\<lambda>x. x\<lparr>nd_next := nd_next n\<rparr>) m;
           (q1, m2) \<leftarrow> (case nd_next n of
               Some nx \<Rightarrow> do { m2 \<leftarrow> set_node (Some nx) (\<lambda>x. x\<lparr>nd_prev := q_head q\<rparr>) m1; Some (q, m2) }
             | None \<Rightarrow> Some (q\<lparr>q_tail := q_head q\<rparr>, m1));
           dat \<leftarrow> get_buf (nd_data n) m2;
           dst \<leftarrow> buf;
           buf' \<leftarrow> memcpy_out dst dat (unat (nd_datalen n));
           m3 \<leftarrow> free_buf (nd_data n) m2;
           m4 \<leftarrow> free_node (Some p) m3;
           sz \<leftarrow> int_add (q_size q1) (-1);
           Some (0, Some buf', nd_datalen n, q1\<lparr>q_size := sz\<rparr>, m4) } } }"

text \<open>The loop of \<^verbatim>\<open>easy_queue_clear\<close> walks from the tail to the sentinel. On an ill-formed list it
  might not end, so it is a partial function; that it returns on a well-formed queue is
  \<open>clear_loop_rel\<close>.\<close>

partial_function (option) clear_loop ::
  "'s easy_queue \<Rightarrow> mem \<Rightarrow> 's \<Rightarrow> ('s easy_queue \<times> mem \<times> 's) option" where
  "clear_loop q m s =
     (if q_tail q = q_head q then Some (q, m, s)
      else do {
        c \<leftarrow> get_node (q_tail q) m;
        m1 \<leftarrow> set_node (nd_prev c) (\<lambda>x. x\<lparr>nd_next := None\<rparr>) m;
        s1 \<leftarrow> (case q_handler q of
            Some h \<Rightarrow> do { d \<leftarrow> get_buf (nd_data c) m1; h d (nd_datalen c) s }
          | None \<Rightarrow> Some s);
        m2 \<leftarrow> free_buf (nd_data c) m1;
        m3 \<leftarrow> free_node (q_tail q) m2;
        sz \<leftarrow> int_add (q_size q) (-1);
        clear_loop (q\<lparr>q_tail := nd_prev c, q_size := sz\<rparr>) m3 s1 })"

declare clear_loop.simps [code]

definition easy_queue_clear ::
  "'s easy_queue \<Rightarrow> mem \<Rightarrow> 's \<Rightarrow> (int \<times> 's easy_queue \<times> mem \<times> 's) option" where
  "easy_queue_clear q m s = do {
     (q1, m1, s1) \<leftarrow> clear_loop q m s;
     if q_size q1 = 0 then Some (0, q1, m1, s1) else None }"

definition easy_queue_uninit :: "'s easy_queue \<Rightarrow> mem \<Rightarrow> (int \<times> mem) option" where
  "easy_queue_uninit q m = do { m1 \<leftarrow> free_node (q_head q) m; Some (0, m1) }"

definition easy_queue_size :: "'s easy_queue \<Rightarrow> int" where
  "easy_queue_size q = q_size q"

lemmas store_defs = malloc_node_def malloc_buf_def get_node_def set_node_def get_buf_def
  memcpy_in_def memcpy_out_def free_node_def free_buf_def int_add_def

section \<open>The well-formed queue and its contents\<close>

definition nxt :: "mem \<Rightarrow> addr \<Rightarrow> addr option" where
  "nxt m a = Option.bind (nodes m a) nd_next"

definition prv :: "mem \<Rightarrow> addr \<Rightarrow> addr option" where
  "prv m a = Option.bind (nodes m a) nd_prev"

text \<open>\<open>seg m p as\<close>: the nodes \<open>as\<close> follow \<open>p\<close>, linked in both directions.\<close>

fun seg :: "mem \<Rightarrow> addr \<Rightarrow> addr list \<Rightarrow> bool" where
  "seg m p [] = True"
| "seg m p (a # as) = (nxt m p = Some a \<and> prv m a = Some p \<and> seg m a as)"

definition data_at :: "mem \<Rightarrow> addr \<Rightarrow> addr option" where
  "data_at m a = Option.bind (nodes m a) nd_data"

definition holds :: "mem \<Rightarrow> addr \<Rightarrow> byte list \<Rightarrow> bool" where
  "holds m a x \<longleftrightarrow> (\<exists>n b. nodes m a = Some n \<and> nd_data n = Some b \<and> bufs m b = Some x
     \<and> unat (nd_datalen n) = length x)"

definition mem_ok :: "mem \<Rightarrow> bool" where
  "mem_ok m \<longleftrightarrow> (\<forall>a \<ge> brk m. nodes m a = None \<and> bufs m a = None)"

text \<open>\<open>queue_rel m q h as xs\<close>: in store \<open>m\<close> the queue \<open>q\<close> has the sentinel \<open>h\<close>, the nodes
  \<open>as\<close> in order, and they hold the messages \<open>xs\<close>.\<close>

definition queue_rel :: "mem \<Rightarrow> 's easy_queue \<Rightarrow> addr \<Rightarrow> addr list \<Rightarrow> byte list list \<Rightarrow> bool" where
  "queue_rel m q h as xs \<longleftrightarrow>
     q_head q = Some h \<and> q_tail q = Some (last (h # as)) \<and> q_size q = int (length as)
     \<and> nodes m h \<noteq> None \<and> distinct (h # as) \<and> seg m h as \<and> nxt m (last (h # as)) = None
     \<and> list_all2 (holds m) as xs \<and> distinct (map (data_at m) as) \<and> mem_ok m"

lemma seg_append: "seg m p (as @ bs) \<longleftrightarrow> seg m p as \<and> seg m (last (p # as)) bs"
  by (induction as arbitrary: p) auto

lemma seg_cong:
  "(\<And>x. x \<in> set (butlast (p # as)) \<Longrightarrow> nxt m' x = nxt m x) \<Longrightarrow>
   (\<And>x. x \<in> set as \<Longrightarrow> prv m' x = prv m x) \<Longrightarrow> seg m p as \<Longrightarrow> seg m' p as"
  by (induction as arbitrary: p) (auto split: if_splits)

lemma holds_all_cong:
  "list_all2 (holds m) as xs \<Longrightarrow> (\<And>a x. a \<in> set as \<Longrightarrow> holds m a x \<Longrightarrow> holds m' a x) \<Longrightarrow>
   list_all2 (holds m') as xs"
  by (auto simp: list_all2_conv_all_nth)

lemma mem_ok_fresh: "mem_ok m \<Longrightarrow> nodes m a = Some n \<Longrightarrow> a < brk m"
  "mem_ok m \<Longrightarrow> bufs m a = Some x \<Longrightarrow> a < brk m"
  by (auto simp: mem_ok_def not_le [symmetric])

lemma holds_alloc: "holds m a x \<Longrightarrow> nodes m a \<noteq> None"
  by (auto simp: holds_def)

lemma seg_alloc: "list_all2 (holds m) as xs \<Longrightarrow> a \<in> set as \<Longrightarrow> \<exists>n. nodes m a = Some n"
  by (auto simp: list_all2_conv_all_nth in_set_conv_nth holds_def)

text \<open>The contents of a queue, read off the store: the abstraction function of the refinement.\<close>

fun walk :: "nat \<Rightarrow> mem \<Rightarrow> addr \<Rightarrow> byte list list" where
  "walk 0 m p = []"
| "walk (Suc k) m p = (case nxt m p of None \<Rightarrow> []
     | Some a \<Rightarrow> the (get_buf (data_at m a) m) # walk k m a)"

definition contents :: "'s easy_queue \<times> mem \<Rightarrow> byte list list" where
  "contents qm = walk (nat (q_size (fst qm))) (snd qm) (the (q_head (fst qm)))"

definition queue_ok :: "'s easy_queue \<times> mem \<Rightarrow> bool" where
  "queue_ok qm \<longleftrightarrow> (\<exists>h as xs. queue_rel (snd qm) (fst qm) h as xs)"

lemma walk_seg: "seg m p as \<Longrightarrow> list_all2 (holds m) as xs \<Longrightarrow> walk (length as) m p = xs"
proof (induction as arbitrary: p xs)
  case Nil
  then show ?case by simp
next
  case (Cons a as)
  then obtain x ys where "xs = x # ys" and "holds m a x" and "list_all2 (holds m) as ys"
    by (auto simp: list_all2_Cons1)
  with Cons show ?case by (auto simp: holds_def data_at_def get_buf_def)
qed

lemma queue_rel_contents: "queue_rel m q h as xs \<Longrightarrow> contents (q, m) = xs"
  by (auto simp: queue_rel_def contents_def walk_seg)

lemma queue_rel_size: "queue_rel m q h as xs \<Longrightarrow> q_size q = int (length xs)"
  by (auto simp: queue_rel_def dest: list_all2_lengthD)

section \<open>The pointer operations implement the list operations\<close>

lemma easy_queue_init_rel:
  "mem_ok m \<Longrightarrow> \<exists>q m'. easy_queue_init cb m = Some (0, q, m') \<and> queue_rel m' q (brk m) [] [] \<and> q_handler q = cb"
  by (auto simp: easy_queue_init_def store_defs queue_rel_def nxt_def mem_ok_def)

text \<open>The store after \<^verbatim>\<open>push\<close>: the tail \<open>t\<close> linked to a new node with a copy of the data.\<close>

definition push_store :: "mem \<Rightarrow> addr \<Rightarrow> u32 \<Rightarrow> byte list \<Rightarrow> mem" where
  "push_store m t datalen x = m\<lparr>nodes := (nodes m)(t := map_option (\<lambda>n. n\<lparr>nd_next := Some (brk m)\<rparr>) (nodes m t),
       brk m \<mapsto> \<lparr>nd_data = Some (Suc (brk m)), nd_datalen = datalen, nd_prev = Some t, nd_next = None\<rparr>),
     bufs := (bufs m)(Suc (brk m) \<mapsto> x), brk := Suc (Suc (brk m))\<rparr>"

lemma easy_queue_push_eq:
  assumes "mem_ok m" and "q_tail q = Some t" and "nodes m t \<noteq> None"
    and "unat datalen \<le> length dat" and "0 \<le> q_size q" and "q_size q < INT_MAX"
  shows "easy_queue_push q dat datalen m = Some (0, q\<lparr>q_tail := Some (brk m), q_size := q_size q + 1\<rparr>,
     push_store m t datalen (take (unat datalen) dat))"
proof -
  have "t < brk m" using assms mem_ok_fresh by blast
  with assms show ?thesis
    by (auto simp: easy_queue_push_def store_defs push_store_def fun_upd_twist)
qed

lemma push_store_links:
  assumes "nodes m t \<noteq> None" "t \<noteq> brk m"
  shows "nxt (push_store m t l x) a = (if a = brk m then None else if a = t then Some (brk m) else nxt m a)"
    and "prv (push_store m t l x) a = (if a = brk m then Some t else prv m a)"
    and "data_at (push_store m t l x) a = (if a = brk m then Some (Suc (brk m)) else data_at m a)"
  using assms by (auto simp: push_store_def nxt_def prv_def data_at_def)

text \<open>\<open>last (h # as)\<close> stays folded: it is the tail of the queue, whether or not \<open>as\<close> is empty.\<close>

declare last.simps [simp del]

lemma last_Cons_snoc [simp]: "last (h # as @ [a]) = a"
  by (simp add: last.simps)

lemma last_single [simp]: "last [h] = h"
  by (simp add: last.simps)

lemma push_store_holds:
  assumes "mem_ok m" "holds m a y" "nodes m t \<noteq> None" "t \<noteq> brk m"
  shows "holds (push_store m t l x) a y"
proof -
  from assms(2) obtain n b where n: "nodes m a = Some n" "nd_data n = Some b" "bufs m b = Some y"
    "unat (nd_datalen n) = length y"
    by (auto simp: holds_def)
  with mem_ok_fresh [OF assms(1)] have "a < brk m" "b < brk m" by auto
  with n assms(3,4) show ?thesis unfolding holds_def push_store_def by (cases "a = t") auto
qed

lemma push_store_seg:
  assumes s: "seg m h as" and d: "distinct (h # as)" and new: "brk m \<notin> set (h # as)"
    and t: "nodes m (last (h # as)) \<noteq> None"
  shows "seg (push_store m (last (h # as)) l x) h (as @ [brk m])"
proof -
  have ne: "last (h # as) \<noteq> brk m" using new by (metis last_in_set list.discI)
  have "last (h # as) \<notin> set (butlast (h # as))"
    using d by (metis append_butlast_last_id distinct_butlast list.discI not_distinct_conv_prefix)
  then have "seg (push_store m (last (h # as)) l x) h as"
    by (intro seg_cong [OF _ _ s], unfold push_store_links [OF t ne])
      (use new in \<open>auto dest: in_set_butlastD split: if_splits\<close>)
  with ne show ?thesis by (simp add: seg_append push_store_links [OF t ne])
qed

lemma queue_rel_alive:
  "queue_rel m q h as xs \<Longrightarrow> a \<in> set (h # as) \<Longrightarrow> nodes m a \<noteq> None \<and> a \<noteq> brk m"
  unfolding queue_rel_def using seg_alloc mem_ok_fresh by fastforce

lemma holds_data_old:
  "mem_ok m \<Longrightarrow> list_all2 (holds m) as xs \<Longrightarrow> a \<in> set as \<Longrightarrow> data_at m a \<noteq> Some (Suc (brk m))"
  using mem_ok_fresh(2)
  by (fastforce simp: list_all2_conv_all_nth in_set_conv_nth holds_def data_at_def)

lemma easy_queue_push_rel:
  assumes R: "queue_rel m q h as xs" and len: "unat datalen \<le> length dat" and sz: "q_size q < INT_MAX"
  shows "\<exists>q' m'. easy_queue_push q dat datalen m = Some (0, q', m')
    \<and> queue_rel m' q' h (as @ [brk m]) (xs @ [take (unat datalen) dat]) \<and> q_handler q' = q_handler q"
proof -
  let ?t = "last (h # as)" and ?x = "take (unat datalen) dat"
  let ?m = "push_store m ?t datalen ?x"
  note q = R [unfolded queue_rel_def]
  then have ok: "mem_ok m" and H0: "list_all2 (holds m) as xs" by simp_all
  have t: "nodes m ?t \<noteq> None" "?t \<noteq> brk m" and new: "brk m \<notin> set (h # as)"
    using queue_rel_alive [OF R] by (metis last_in_set list.discI)+
  note L = push_store_links [OF t, of datalen ?x]
  have push: "easy_queue_push q dat datalen m = Some (0, q\<lparr>q_tail := Some (brk m), q_size := q_size q + 1\<rparr>, ?m)"
    using q t len sz by (intro easy_queue_push_eq) auto
  have "list_all2 (holds ?m) as xs"
    by (rule holds_all_cong [OF H0]) (rule push_store_holds [OF ok _ t])
  moreover have "holds ?m (brk m) ?x" using len by (simp add: push_store_def holds_def)
  ultimately have H: "list_all2 (holds ?m) (as @ [brk m]) (xs @ [?x])"
    by (simp add: list_all2_appendI)
  have S: "seg ?m h (as @ [brk m])" using q new t by (intro push_store_seg) auto
  have "map (data_at ?m) as = map (data_at m) as" using new by (auto simp: L)
  moreover have "Some (Suc (brk m)) \<notin> data_at m ` set as"
    using holds_data_old [OF ok H0] by (metis imageE)
  moreover have "data_at ?m (brk m) = Some (Suc (brk m))" by (simp add: L)
  moreover from q have "distinct (map (data_at m) as)" by simp
  ultimately have D: "distinct (map (data_at ?m) (as @ [brk m]))"
    by (simp only: map_append distinct_append) simp
  have "mem_ok ?m" "nodes ?m h \<noteq> None"
    using q t by (auto simp: push_store_def mem_ok_def)
  with push S H D q new show ?thesis by (auto simp: queue_rel_def L)
qed

text \<open>The store after a successful \<^verbatim>\<open>pop\<close>: the first node \<open>a\<close> bypassed, its data and itself freed.\<close>

definition bypass :: "mem \<Rightarrow> addr \<Rightarrow> addr \<Rightarrow> addr \<Rightarrow> node option" where
  "bypass m h a x = (if x = a then None
     else if x = h then map_option (\<lambda>n. n\<lparr>nd_next := nxt m a\<rparr>) (nodes m x)
     else if nxt m a = Some x then map_option (\<lambda>n. n\<lparr>nd_prev := Some h\<rparr>) (nodes m x)
     else nodes m x)"

definition pop_store :: "mem \<Rightarrow> addr \<Rightarrow> addr \<Rightarrow> mem" where
  "pop_store m h a = m\<lparr>nodes := bypass m h a, bufs := (bufs m)(the (data_at m a) := None)\<rparr>"

lemma easy_queue_pop_eq:
  assumes h: "q_head q = Some h" "nodes m h = Some hn" "nd_next hn = Some a" "h \<noteq> a"
    and a: "nodes m a = Some n" "nd_data n = Some b" "bufs m b = Some x" "unat (nd_datalen n) = length x"
    and nx: "\<And>c. nd_next n = Some c \<Longrightarrow> c \<noteq> h \<and> c \<noteq> a \<and> nodes m c \<noteq> None"
    and buf: "nd_datalen n \<le> buflen" "length x \<le> length dst" and sz: "0 < q_size q" "q_size q \<le> INT_MAX"
  shows "easy_queue_pop q (Some dst) buflen m = Some (0, Some (x @ drop (length x) dst), nd_datalen n,
     q\<lparr>q_tail := (if nd_next n = None then Some h else q_tail q), q_size := q_size q - 1\<rparr>, pop_store m h a)"
proof (cases "nd_next n")
  case None
  then show ?thesis using assms
    by (auto simp: easy_queue_pop_def store_defs pop_store_def bypass_def data_at_def nxt_def fun_eq_iff)
next
  case (Some c)
  with nx obtain cn where c: "c \<noteq> h" "c \<noteq> a" "nodes m c = Some cn" by auto
  with Some assms(1-8) buf sz show ?thesis
    by (auto simp: easy_queue_pop_def store_defs pop_store_def bypass_def data_at_def nxt_def fun_eq_iff)
qed

lemma pop_store_links:
  assumes "h \<noteq> a" "nxt m a \<noteq> Some h" "nodes m h \<noteq> None" "\<forall>c. nxt m a = Some c \<longrightarrow> nodes m c \<noteq> None"
  shows "nxt (pop_store m h a) x = (if x = a then None else if x = h then nxt m a else nxt m x)"
    and "prv (pop_store m h a) x = (if x = a then None else if nxt m a = Some x then Some h else prv m x)"
    and "data_at (pop_store m h a) x = (if x = a then None else data_at m x)"
  using assms by (auto simp: pop_store_def bypass_def nxt_def prv_def data_at_def split: if_splits)

lemma pop_store_holds:
  assumes "holds m x y" "x \<noteq> a" "data_at m x \<noteq> data_at m a" "data_at m a \<noteq> None"
  shows "holds (pop_store m h a) x y"
  using assms by (auto simp: holds_def pop_store_def bypass_def data_at_def)

lemma queue_rel_first:
  assumes R: "queue_rel m q h (a # as) (x # xs)"
  shows "nxt m h = Some a" "h \<noteq> a" "nxt m a \<noteq> Some h" "nxt m a \<noteq> Some a" "holds m a x" "nodes m h \<noteq> None"
    and "\<forall>c. nxt m a = Some c \<longrightarrow> nodes m c \<noteq> None" "nxt m a = (case as of [] \<Rightarrow> None | c # _ \<Rightarrow> Some c)"
proof -
  from R show n: "nxt m a = (case as of [] \<Rightarrow> None | c # _ \<Rightarrow> Some c)"
    by (cases as) (auto simp: queue_rel_def last.simps)
  from R show "nxt m h = Some a" "h \<noteq> a" "holds m a x" "nodes m h \<noteq> None"
    by (auto simp: queue_rel_def)
  from R n show "nxt m a \<noteq> Some h" "nxt m a \<noteq> Some a"
    by (auto simp: queue_rel_def split: list.splits)
  show "\<forall>c. nxt m a = Some c \<longrightarrow> nodes m c \<noteq> None"
    using n queue_rel_alive [OF R] by (auto split: list.splits)
qed

lemma pop_store_seg:
  assumes R: "queue_rel m q h (a # as) (x # xs)"
  shows "seg (pop_store m h a) h as" "nxt (pop_store m h a) (last (h # as)) = None"
proof -
  note F = queue_rel_first [OF R]
  note L = pop_store_links [OF F(2,3,6,7)]
  from R have d: "distinct (h # a # as)" and s: "seg m a as" and e: "nxt m (last (a # as)) = None"
    by (auto simp: queue_rel_def last.simps)
  show "seg (pop_store m h a) h as"
  proof (cases as)
    case (Cons c cs)
    with s d have "seg m c cs" "h \<notin> set (c # cs)" "a \<notin> set (c # cs)" "c \<notin> set cs" by auto
    then have "seg (pop_store m h a) c cs"
      using F(8) Cons by (intro seg_cong [of c cs "pop_store m h a" m]) (auto simp: L dest: in_set_butlastD split: if_splits)
    with Cons F(8) d show ?thesis by (auto simp: L)
  qed simp
  show "nxt (pop_store m h a) (last (h # as)) = None"
    using F d e by (cases as) (auto simp: L last.simps)
qed

lemma pop_store_rel:
  assumes R: "queue_rel m q h (a # as) (x # xs)"
  shows "queue_rel (pop_store m h a) (q\<lparr>q_tail := (if as = [] then Some h else q_tail q), q_size := q_size q - 1\<rparr>) h as xs"
proof -
  note F = queue_rel_first [OF R]
  note L = pop_store_links [OF F(2,3,6,7)] and S = pop_store_seg [OF R]
  from R have H: "list_all2 (holds m) as xs" and D: "distinct (map (data_at m) (a # as))"
    and d: "a \<notin> set as" "h \<noteq> a" by (auto simp: queue_rel_def)
  have "list_all2 (holds (pop_store m h a)) as xs"
  proof (rule holds_all_cong [OF H])
    fix c y assume c: "c \<in> set as" "holds m c y"
    then have "data_at m c \<noteq> data_at m a" using D by (metis distinct.simps(2) image_eqI list.set_map list.simps(9))
    with c d F(5) show "holds (pop_store m h a) c y" by (intro pop_store_holds) (auto simp: data_at_def holds_def)
  qed
  moreover have "map (data_at (pop_store m h a)) as = map (data_at m) as" using d by (auto simp: L)
  then have "distinct (map (data_at (pop_store m h a)) as)" using D by (simp del: map_eq_conv)
  moreover have "mem_ok (pop_store m h a)" "nodes (pop_store m h a) h \<noteq> None"
    using R F by (auto simp: queue_rel_def mem_ok_def pop_store_def bypass_def)
  moreover have "(if as = [] then Some h else q_tail q) = Some (last (h # as))"
    using R by (auto simp: queue_rel_def last.simps)
  ultimately show ?thesis using R S by (auto simp: queue_rel_def)
qed

lemma easy_queue_pop_rel:
  assumes R: "queue_rel m q h (a # as) (x # xs)" and buf: "length x \<le> unat buflen" "unat buflen \<le> length dst"
    and sz: "q_size q \<le> INT_MAX"
  shows "easy_queue_pop q (Some dst) buflen m = Some (0, Some (x @ drop (length x) dst), of_nat (length x),
    q\<lparr>q_tail := (if as = [] then Some h else q_tail q), q_size := q_size q - 1\<rparr>, pop_store m h a)"
proof -
  note F = queue_rel_first [OF R]
  from F(5) obtain n b where n: "nodes m a = Some n" "nd_data n = Some b" "bufs m b = Some x"
    "unat (nd_datalen n) = length x" by (auto simp: holds_def)
  from F(1) obtain hn where hn: "nodes m h = Some hn" "nd_next hn = Some a"
    by (cases "nodes m h") (auto simp: nxt_def)
  have nn: "nd_next n = nxt m a" using n by (simp add: nxt_def)
  then have "(nd_next n = None) = (as = [])" using F(8) by (cases as) auto
  moreover have "nd_datalen n = of_nat (length x)" by (simp flip: n(4))
  moreover have "easy_queue_pop q (Some dst) buflen m = Some (0, Some (x @ drop (length x) dst), nd_datalen n,
      q\<lparr>q_tail := (if nd_next n = None then Some h else q_tail q), q_size := q_size q - 1\<rparr>, pop_store m h a)"
    using R F nn buf sz by (intro easy_queue_pop_eq [OF _ hn _ n]) (auto simp: queue_rel_def word_le_nat_alt n)
  ultimately show ?thesis by simp
qed

lemma easy_queue_pop_empty:
  "queue_rel m q h [] [] \<Longrightarrow> easy_queue_pop q buf buflen m = Some (-1, buf, 0, q, m)"
  by (cases "nodes m h") (auto simp: easy_queue_pop_def queue_rel_def store_defs nxt_def)

lemma easy_queue_pop_short:
  assumes R: "queue_rel m q h (a # as) (x # xs)" and short: "buf = None \<or> unat buflen < length x"
  shows "easy_queue_pop q buf buflen m = Some (-1, buf, of_nat (length x), q, m)"
proof -
  from queue_rel_first [OF R] obtain n hn where n: "nodes m a = Some n" "unat (nd_datalen n) = length x"
    and hn: "nodes m h = Some hn" "nd_next hn = Some a"
    by (cases "nodes m h") (auto simp: nxt_def holds_def)
  have "nd_datalen n = of_nat (length x)" by (simp flip: n(2))
  moreover have "buf = None \<or> buflen < nd_datalen n" using short n by (simp add: word_less_nat_alt)
  ultimately show ?thesis using n hn R
    by (auto simp: easy_queue_pop_def queue_rel_def store_defs)
qed

subsection \<open>Clearing\<close>

text \<open>One round of the loop: the last node \<open>t\<close>, whose predecessor is \<open>p\<close>, cut off and freed.\<close>

definition cut_store :: "mem \<Rightarrow> addr \<Rightarrow> addr \<Rightarrow> mem" where
  "cut_store m p t = m\<lparr>bufs := (bufs m)(the (data_at m t) := None),
     nodes := (nodes m)(p := map_option (\<lambda>n. n\<lparr>nd_next := None\<rparr>) (nodes m p), t := None)\<rparr>"

lemma cut_store_links:
  assumes "p \<noteq> t"
  shows "nxt (cut_store m p t) x = (if x = t \<or> x = p then None else nxt m x)"
    and "prv (cut_store m p t) x = (if x = t then None else prv m x)"
    and "data_at (cut_store m p t) x = (if x = t then None else data_at m x)"
  using assms by (cases "nodes m p"; auto simp: cut_store_def nxt_def prv_def data_at_def)+

lemma cut_store_holds:
  "holds m x y \<Longrightarrow> x \<noteq> t \<Longrightarrow> data_at m x \<noteq> data_at m t \<Longrightarrow> data_at m t \<noteq> None \<Longrightarrow> holds (cut_store m p t) x y"
  by (cases "x = p") (auto simp: holds_def cut_store_def data_at_def)

lemma cut_store_rel:
  assumes R: "queue_rel m q h (as @ [t]) (xs @ [x])"
  shows "queue_rel (cut_store m (last (h # as)) t) (q\<lparr>q_tail := Some (last (h # as)), q_size := q_size q - 1\<rparr>) h as xs"
    and "last (h # as) \<noteq> t" "prv m t = Some (last (h # as))" "nodes m (last (h # as)) \<noteq> None"
proof -
  let ?p = "last (h # as)" and ?m = "cut_store m (last (h # as)) t"
  from R have s: "seg m h as" and d: "distinct (h # as)" "t \<notin> set (h # as)" and t: "holds m t x"
    and H: "list_all2 (holds m) as xs" and D: "distinct (map (data_at m) (as @ [t]))"
    by (auto simp: queue_rel_def seg_append list_all2_append1 list_all2_Cons1 dest: list_all2_lengthD)
  show ne: "?p \<noteq> t" using d(2) by (metis last_in_set list.discI)
  show "prv m t = Some ?p" using R by (simp add: queue_rel_def seg_append)
  show "nodes m ?p \<noteq> None" using queue_rel_alive [OF R, of ?p]
    by (metis Un_iff last_in_set list.discI set_append append_Cons)
  have "?p \<notin> set (butlast (h # as))"
    using d(1) by (metis append_butlast_last_id distinct_butlast list.discI not_distinct_conv_prefix)
  then have "seg ?m h as"
    by (intro seg_cong [OF _ _ s], unfold cut_store_links [OF ne])
      (use d in \<open>auto dest: in_set_butlastD split: if_splits\<close>)
  moreover have dt: "data_at m t \<noteq> None" "\<forall>c \<in> set as. data_at m c \<noteq> data_at m t"
    using t D by (auto simp: data_at_def holds_def) (metis imageI)
  then have "list_all2 (holds ?m) as xs"
    by (intro holds_all_cong [OF H], intro cut_store_holds) (use d in auto)
  moreover have "map (data_at ?m) as = map (data_at m) as" using d by (auto simp: cut_store_links [OF ne])
  then have "distinct (map (data_at ?m) as)" using D by (simp del: map_eq_conv)
  moreover have "mem_ok ?m" "nodes ?m h \<noteq> None"
    using R d by (auto simp: queue_rel_def mem_ok_def cut_store_def)
  ultimately show "queue_rel ?m (q\<lparr>q_tail := Some ?p, q_size := q_size q - 1\<rparr>) h as xs"
    using R d by (auto simp: queue_rel_def cut_store_links [OF ne])
qed

text \<open>The calls of the user handler during a clear.\<close>

fun run_handler :: "(byte list \<Rightarrow> u32 \<Rightarrow> 's \<Rightarrow> 's option) option \<Rightarrow> byte list list \<Rightarrow> 's \<Rightarrow> 's option" where
  "run_handler cb [] s = Some s"
| "run_handler None (x # xs) s = Some s"
| "run_handler (Some h) (x # xs) s = do { s1 \<leftarrow> h x (of_nat (length x)) s; run_handler (Some h) xs s1 }"

lemma run_handler_Cons:
  "run_handler cb (x # xs) s = Option.bind (run_handler cb [x] s) (run_handler cb xs)"
  by (cases cb; cases xs) (auto split: Option.bind_split)

lemma clear_loop_round:
  assumes R: "queue_rel m q h (as @ [t]) (xs @ [x])" and sz: "q_size q \<le> INT_MAX"
  shows "clear_loop q m s = Option.bind (run_handler (q_handler q) [x] s)
     (clear_loop (q\<lparr>q_tail := Some (last (h # as)), q_size := q_size q - 1\<rparr>) (cut_store m (last (h # as)) t))"
proof -
  note C = cut_store_rel [OF R]
  from R have q: "q_tail q = Some t" "q_head q = Some h" "h \<noteq> t" "q_size q = int (length as) + 1" "holds m t x"
    by (auto simp: queue_rel_def list_all2_append1 list_all2_Cons1 dest: list_all2_lengthD)
  then obtain n b where n: "nodes m t = Some n" "nd_data n = Some b" "bufs m b = Some x"
    "unat (nd_datalen n) = length x" by (auto simp: holds_def)
  have "nd_datalen n = of_nat (length x)" by (simp flip: n(4))
  with q n C(2,3,4) sz show ?thesis
    by (cases "q_handler q")
      (auto simp: clear_loop.simps [of q m s] store_defs cut_store_def data_at_def prv_def)
qed

lemma clear_loop_rel:
  "queue_rel m q h as xs \<Longrightarrow> q_size q \<le> INT_MAX \<Longrightarrow>
   \<exists>m'. queue_rel m' (q\<lparr>q_tail := Some h, q_size := 0\<rparr>) h [] [] \<and> dom (nodes m') = dom (nodes m) - set as
     \<and> dom (bufs m') = dom (bufs m) - {b. Some b \<in> data_at m ` set as}
     \<and> (\<forall>s. clear_loop q m s
         = map_option (\<lambda>s'. (q\<lparr>q_tail := Some h, q_size := 0\<rparr>, m', s')) (run_handler (q_handler q) (rev xs) s))"
proof (induction as arbitrary: m q xs rule: rev_induct)
  case Nil
  then have "xs = []" "q_tail q = Some h" "q_size q = 0" "q_head q = Some h" by (auto simp: queue_rel_def)
  with Nil show ?case by (intro exI [of _ m]) (auto simp: clear_loop.simps queue_rel_def)
next
  case (snoc t as)
  then obtain ys x where xs: "xs = ys @ [x]"
    by (auto simp: queue_rel_def list_all2_append1 list_all2_Cons1)
  let ?p = "last (h # as)" and ?q = "q\<lparr>q_tail := Some (last (h # as)), q_size := q_size q - 1\<rparr>"
  note R = snoc.prems(1) [unfolded xs]
  note C = cut_store_rel [OF R]
  from snoc.IH [OF C(1)] snoc.prems(2) obtain m' where
    m': "queue_rel m' (q\<lparr>q_tail := Some h, q_size := 0\<rparr>) h [] []"
      "dom (nodes m') = dom (nodes (cut_store m ?p t)) - set as"
      "dom (bufs m') = dom (bufs (cut_store m ?p t)) - {b. Some b \<in> data_at (cut_store m ?p t) ` set as}"
      "\<And>s. clear_loop ?q (cut_store m ?p t) s
         = map_option (\<lambda>s'. (q\<lparr>q_tail := Some h, q_size := 0\<rparr>, m', s')) (run_handler (q_handler q) (rev ys) s)"
    by auto
  from R have d: "t \<notin> set as" and h: "holds m t x"
    by (auto simp: queue_rel_def list_all2_append1 list_all2_Cons1 dest: list_all2_lengthD)
  from d have "data_at (cut_store m ?p t) ` set as = data_at m ` set as"
    by (auto simp: cut_store_links [OF C(2)] image_iff)
  then have "dom (bufs m') = dom (bufs m) - {b. Some b \<in> data_at m ` set (as @ [t])}"
    using m'(3) h by (auto simp: cut_store_def data_at_def holds_def)
  moreover have "dom (nodes m') = dom (nodes m) - set (as @ [t])"
    using m'(2) C(4) by (auto simp: cut_store_def)
  moreover have "clear_loop q m s = map_option (\<lambda>s'. (q\<lparr>q_tail := Some h, q_size := 0\<rparr>, m', s'))
      (run_handler (q_handler q) (rev xs) s)" for s
    unfolding clear_loop_round [OF R snoc.prems(2)] xs rev_append
    by (simp add: run_handler_Cons [of _ x "rev ys"] m'(4) split: Option.bind_split)
  ultimately show ?case using m'(1) by blast
qed

declare last.simps [simp]

section \<open>The queue interface\<close>

text \<open>What a client of the queue relies on: messages that fit come out in the order they went in,
  and an empty queue says so. \<open>cap\<close> bounds the number of messages a queue can count.\<close>

locale fifo =
  fixes inv :: "'q \<Rightarrow> bool" and list :: "'q \<Rightarrow> 'a list" and fits :: "'a \<Rightarrow> bool" and cap :: nat
    and push :: "'a \<Rightarrow> 'q \<Rightarrow> 'q option" and pop :: "'q \<Rightarrow> ('a \<times> 'q) option option"
  assumes push_law: "inv q \<Longrightarrow> fits x \<Longrightarrow> length (list q) < cap \<Longrightarrow>
      \<exists>q'. push x q = Some q' \<and> inv q' \<and> list q' = list q @ [x]"
    and pop_nil_law: "inv q \<Longrightarrow> list q = [] \<Longrightarrow> pop q = Some None"
    and pop_cons_law: "inv q \<Longrightarrow> list q = x # xs \<Longrightarrow> \<exists>q'. pop q = Some (Some (x, q')) \<and> inv q' \<and> list q' = xs"
begin

fun push_all :: "'a list \<Rightarrow> 'q \<Rightarrow> 'q option" where
  "push_all [] q = Some q"
| "push_all (x # xs) q = Option.bind (push x q) (push_all xs)"

fun pop_all :: "nat \<Rightarrow> 'q \<Rightarrow> ('a list \<times> 'q) option" where
  "pop_all 0 q = Some ([], q)"
| "pop_all (Suc n) q = (case pop q of
     Some (Some (x, q')) \<Rightarrow> map_option (\<lambda>(xs, q''). (x # xs, q'')) (pop_all n q')
   | Some None \<Rightarrow> Some ([], q) | None \<Rightarrow> None)"

lemma push_all_list:
  "inv q \<Longrightarrow> list_all fits xs \<Longrightarrow> length (list q) + length xs \<le> cap \<Longrightarrow>
   \<exists>q'. push_all xs q = Some q' \<and> inv q' \<and> list q' = list q @ xs"
proof (induction xs arbitrary: q)
  case (Cons x xs)
  then obtain q1 where q1: "push x q = Some q1" "inv q1" "list q1 = list q @ [x]"
    using push_law [of q x] by auto
  with Cons.IH [of q1] Cons.prems show ?case by auto
qed simp

lemma pop_all_list:
  "inv q \<Longrightarrow> \<exists>q'. pop_all n q = Some (take n (list q), q') \<and> inv q' \<and> list q' = drop n (list q)"
proof (induction n arbitrary: q)
  case (Suc n)
  show ?case
  proof (cases "list q")
    case Nil
    with Suc.prems pop_nil_law [of q] show ?thesis by auto
  next
    case (Cons x xs)
    with Suc.prems obtain q1 where "pop q = Some (Some (x, q1))" "inv q1" "list q1 = xs"
      using pop_cons_law [of q x xs] by auto
    with Suc.IH [of q1] Cons show ?thesis by auto
  qed
qed simp

end

text \<open>The queue of the code seen through that interface, for messages of at most \<open>n\<close> bytes: \<open>gq_pop n\<close>
  passes a buffer of \<open>n\<close> bytes.\<close>

definition gq_ok :: "nat \<Rightarrow> 's easy_queue \<times> mem \<Rightarrow> bool" where
  "gq_ok n qm \<longleftrightarrow> queue_ok qm \<and> q_size (fst qm) \<le> INT_MAX \<and> list_all (\<lambda>x. length x \<le> n) (contents qm)"

definition gq_push :: "byte list \<Rightarrow> 's easy_queue \<times> mem \<Rightarrow> ('s easy_queue \<times> mem) option" where
  "gq_push x qm = map_option snd (easy_queue_push (fst qm) x (of_nat (length x)) (snd qm))"

definition gq_pop :: "nat \<Rightarrow> 's easy_queue \<times> mem \<Rightarrow> (byte list \<times> ('s easy_queue \<times> mem)) option option" where
  "gq_pop n qm = map_option
     (\<lambda>(r, buf, len, q, m). if r = 0 then map_option (\<lambda>b. (take (unat len) b, (q, m))) buf else None)
     (easy_queue_pop (fst qm) (Some (replicate n 0)) (of_nat n) (snd qm))"

lemma unat_of_nat_len: "n < 2 ^ 32 \<Longrightarrow> unat (of_nat n :: u32) = n"
  by (simp add: unat_of_nat)

lemma gq_push_ok:
  assumes "gq_ok n qm" "n < 2 ^ 32" "length x \<le> n" "length (contents qm) < nat INT_MAX"
  shows "\<exists>q'. gq_push x qm = Some q' \<and> gq_ok n q' \<and> contents q' = contents qm @ [x]"
proof -
  obtain q m where qm: "qm = (q, m)" by (cases qm)
  with assms obtain h as xs where R: "queue_rel m q h as xs" by (auto simp: gq_ok_def queue_ok_def)
  from assms have u: "unat (of_nat (length x) :: u32) = length x" by (simp add: unat_of_nat_len)
  have sz: "q_size q < INT_MAX"
    using assms(4) queue_rel_size [OF R] by (simp add: qm queue_rel_contents [OF R])
  from easy_queue_push_rel [OF R _ sz, of "of_nat (length x)" x] u obtain q' m' where
    P: "easy_queue_push q x (of_nat (length x)) m = Some (0, q', m')" "queue_rel m' q' h (as @ [brk m]) (xs @ [x])"
    by auto
  then have "q_size q' \<le> INT_MAX" using queue_rel_size [OF P(2)] queue_rel_size [OF R] sz by simp
  with P R assms qm show ?thesis
    by (auto simp: gq_push_def gq_ok_def queue_ok_def queue_rel_contents)
qed

lemma queue_rel_NilD: "queue_rel m q h as [] \<Longrightarrow> as = []"
  by (auto simp: queue_rel_def)

lemma queue_okE:
  assumes "queue_ok (q, m)"
  obtains h as where "queue_rel m q h as (contents (q, m))"
  using assms queue_rel_contents by (fastforce simp: queue_ok_def)

lemma gq_pop_nil: "gq_ok n qm \<Longrightarrow> contents qm = [] \<Longrightarrow> gq_pop n qm = Some None"
proof -
  assume a: "gq_ok n qm" "contents qm = []"
  obtain q m where qm: "qm = (q, m)" by (cases qm)
  with a have "queue_ok (q, m)" by (simp add: gq_ok_def)
  then obtain h as where "queue_rel m q h as (contents (q, m))" by (rule queue_okE)
  then have "queue_rel m q h [] []" using a qm queue_rel_NilD by fastforce
  then show ?thesis by (simp add: qm gq_pop_def easy_queue_pop_empty)
qed

lemma gq_pop_cons:
  assumes "gq_ok n qm" "n < 2 ^ 32" "contents qm = x # xs"
  shows "\<exists>q'. gq_pop n qm = Some (Some (x, q')) \<and> gq_ok n q' \<and> contents q' = xs"
proof -
  obtain q m where qm: "qm = (q, m)" by (cases qm)
  with assms have "queue_ok (q, m)" by (simp add: gq_ok_def)
  then obtain h as' where "queue_rel m q h as' (contents (q, m))" by (rule queue_okE)
  then obtain a as where R: "queue_rel m q h (a # as) (x # xs)"
    using assms(3) qm by (cases as') (auto simp: queue_rel_def)
  let ?q = "q\<lparr>q_tail := (if as = [] then Some h else q_tail q), q_size := q_size q - 1\<rparr>"
  from assms qm have l: "length x \<le> n" "q_size q \<le> INT_MAX" by (auto simp: gq_ok_def)
  then have u: "unat (of_nat n :: u32) = n" "unat (of_nat (length x) :: u32) = length x"
    using assms(2) by (simp_all add: unat_of_nat_len)
  note P = pop_store_rel [OF R] and E = easy_queue_pop_rel [OF R, of "of_nat n" "replicate n 0"]
  have "gq_pop n qm = Some (Some (x, (?q, pop_store m h a)))"
    using E u l by (simp add: gq_pop_def qm)
  moreover have "queue_ok (?q, pop_store m h a)"
    unfolding queue_ok_def fst_conv snd_conv using P by blast
  moreover have "contents (?q, pop_store m h a) = xs" by (rule queue_rel_contents [OF P])
  ultimately show ?thesis using assms l by (auto simp: gq_ok_def)
qed

text \<open>The code's queue provides the interface; 24 is the size of the thread pool's messages.\<close>

interpretation gq: fifo "gq_ok 24" contents "\<lambda>x. length x \<le> 24" "nat INT_MAX" gq_push "gq_pop 24"
  by unfold_locales (rule gq_push_ok gq_pop_nil gq_pop_cons; simp)+

section \<open>Whole runs\<close>

text \<open>A client's sequence of calls: \<open>OpPush x\<close> pushes the bytes \<open>x\<close>, \<open>OpPop n\<close> pops into a buffer of \<open>n\<close> bytes.\<close>

datatype qop = OpPush "byte list" | OpPop nat

fun qrun :: "qop list \<Rightarrow> 's easy_queue \<times> mem \<Rightarrow> ('s easy_queue \<times> mem) option" where
  "qrun [] qm = Some qm"
| "qrun (OpPush x # ops) qm = do {
     (_, qm') \<leftarrow> easy_queue_push (fst qm) x (of_nat (length x)) (snd qm); qrun ops qm' }"
| "qrun (OpPop n # ops) qm = do {
     (_, _, _, qm') \<leftarrow> easy_queue_pop (fst qm) (Some (replicate n 0)) (of_nat n) (snd qm); qrun ops qm' }"

text \<open>The specification: a list of messages.\<close>

fun qspec :: "qop list \<Rightarrow> byte list list \<Rightarrow> byte list list" where
  "qspec [] xs = xs"
| "qspec (OpPush x # ops) xs = qspec ops (xs @ [x])"
| "qspec (OpPop n # ops) xs =
     qspec ops (case xs of [] \<Rightarrow> [] | y # ys \<Rightarrow> if length y \<le> n then ys else y # ys)"

fun op_fits :: "qop \<Rightarrow> bool" where
  "op_fits (OpPush x) = (length x < 2 ^ 32)"
| "op_fits (OpPop n) = (n < 2 ^ 32)"

text \<open>The store holds the queue's nodes and data blocks and nothing else.\<close>

definition owns :: "mem \<Rightarrow> addr \<Rightarrow> addr list \<Rightarrow> bool" where
  "owns m h as \<longleftrightarrow> dom (nodes m) = set (h # as) \<and> dom (bufs m) = {b. Some b \<in> data_at m ` set as}"

lemma owns_push:
  assumes "queue_rel m q h as xs" "owns m h as"
  shows "owns (push_store m (last (h # as)) l x) h (as @ [brk m])"
proof -
  have t: "nodes m (last (h # as)) \<noteq> None" "last (h # as) \<noteq> brk m"
    using queue_rel_alive [OF assms(1)] by (metis last_in_set list.discI)+
  have "brk m \<notin> set as" using queue_rel_alive [OF assms(1)] by auto
  then have "data_at (push_store m (last (h # as)) l x) ` set as = data_at m ` set as"
    by (auto simp: push_store_links [OF t] image_iff simp del: last.simps)
  moreover have "last (h # as) \<in> set (h # as)" by (metis last_in_set list.discI)
  ultimately show ?thesis
    using assms(2) t by (auto simp: owns_def push_store_def data_at_def simp del: last.simps split: if_splits)
qed

lemma owns_pop:
  assumes R: "queue_rel m q h (a # as) (x # xs)" and O: "owns m h (a # as)"
  shows "owns (pop_store m h a) h as"
proof -
  note F = queue_rel_first [OF R]
  from R have a: "a \<notin> set as" "h \<noteq> a" "data_at m a \<notin> data_at m ` set as" by (auto simp: queue_rel_def)
  have "data_at m a \<noteq> None" using F(5) by (auto simp: holds_def data_at_def)
  moreover from a have "data_at (pop_store m h a) ` set as = data_at m ` set as"
    by (auto simp: pop_store_links [OF F(2,3,6,7)] image_iff)
  moreover have "dom (nodes (pop_store m h a)) = dom (nodes m) - {a}"
    using F by (auto simp: pop_store_def bypass_def dom_def split: if_splits)
  ultimately show ?thesis using O a by (auto simp: owns_def pop_store_def)
qed

text \<open>One call keeps the queue well formed, owning its store, and follows the specification.\<close>

lemma qrun_step:
  assumes R: "queue_rel m q h as xs" and O: "owns m h as" and f: "op_fits x" and sz: "q_size q < INT_MAX"
  shows "\<exists>q' m' as'. qrun (x # ops) (q, m) = qrun ops (q', m') \<and> queue_rel m' q' h as' (qspec [x] xs)
     \<and> owns m' h as' \<and> q_handler q' = q_handler q \<and> q_size q' \<le> q_size q + 1"
proof (cases x)
  case (OpPush d)
  with f have u: "unat (of_nat (length d) :: u32) = length d" by (simp add: unat_of_nat_len)
  from easy_queue_push_rel [OF R _ sz, of "of_nat (length d)" d] u obtain q' m' where
    P: "easy_queue_push q d (of_nat (length d)) m = Some (0, q', m')" "queue_rel m' q' h (as @ [brk m]) (xs @ [d])"
      "q_handler q' = q_handler q" by auto
  moreover have "m' = push_store m (last (h # as)) (of_nat (length d)) (take (unat (of_nat (length d) :: u32)) d)"
    using P(1) R sz u queue_rel_alive [OF R, of "last (h # as)"]
    by (subst (asm) easy_queue_push_eq [of m q "last (h # as)"]) (auto simp: queue_rel_def split: if_splits)
  ultimately show ?thesis using OpPush owns_push [OF R O] queue_rel_size [OF R] queue_rel_size [OF P(2)]
    by (intro exI [of _ q'] exI [of _ m'] exI [of _ "as @ [brk m]"]) auto
next
  case (OpPop n)
  with f have u: "unat (of_nat n :: u32) = n" by (simp add: unat_of_nat_len)
  show ?thesis
  proof (cases as)
    case Nil
    with R have "xs = []" by (simp add: queue_rel_def)
    with Nil R O OpPop show ?thesis
      by (intro exI [of _ q] exI [of _ m] exI [of _ as]) (auto simp: easy_queue_pop_empty)
  next
    case (Cons a as')
    with R obtain y ys where xs: "xs = y # ys" by (auto simp: queue_rel_def list_all2_Cons1)
    note R' = R [unfolded Cons xs]
    show ?thesis
    proof (cases "length y \<le> n")
      case True
      with easy_queue_pop_rel [OF R', of "of_nat n" "replicate n 0"] u sz OpPop xs Cons
        pop_store_rel [OF R'] owns_pop [OF R'] O show ?thesis
        by (intro exI [of _ "q\<lparr>q_tail := (if as' = [] then Some h else q_tail q), q_size := q_size q - 1\<rparr>"]
            exI [of _ "pop_store m h a"] exI [of _ as']) auto
    next
      case False
      with easy_queue_pop_short [OF R', of "Some (replicate n 0)" "of_nat n"] u OpPop xs R O show ?thesis
        by (intro exI [of _ q] exI [of _ m] exI [of _ as]) auto
    qed
  qed
qed

lemma qspec_Cons: "qspec (x # ops) xs = qspec ops (qspec [x] xs)"
  by (cases x) simp_all

lemma qrun_rel:
  "queue_rel m q h as xs \<Longrightarrow> owns m h as \<Longrightarrow> list_all op_fits ops \<Longrightarrow> q_size q + int (length ops) < INT_MAX \<Longrightarrow>
   \<exists>q' m' as'. qrun ops (q, m) = Some (q', m') \<and> queue_rel m' q' h as' (qspec ops xs) \<and> owns m' h as'
     \<and> q_handler q' = q_handler q \<and> q_size q' < INT_MAX"
proof (induction ops arbitrary: m q as xs)
  case Nil
  then show ?case by auto
next
  case (Cons x ops)
  then have "op_fits x" "q_size q < INT_MAX" by auto
  with qrun_step [OF Cons.prems(1,2), of x ops] obtain q1 m1 as1 where
    s: "qrun (x # ops) (q, m) = qrun ops (q1, m1)" "queue_rel m1 q1 h as1 (qspec [x] xs)" "owns m1 h as1"
      "q_handler q1 = q_handler q" "q_size q1 \<le> q_size q + 1"
    by auto
  with Cons.IH [OF s(2,3)] Cons.prems(3,4) show ?case
    by (auto simp: qspec_Cons [of x ops])
qed

lemma qrun_from_init:
  assumes "list_all op_fits ops" "length ops < nat INT_MAX"
  shows "\<exists>q0 m0 q m h as. easy_queue_init cb empty_mem = Some (0, q0, m0) \<and> qrun ops (q0, m0) = Some (q, m)
     \<and> queue_rel m q h as (qspec ops []) \<and> owns m h as \<and> q_handler q = cb \<and> q_size q < INT_MAX"
proof -
  obtain q0 m0 where I: "easy_queue_init cb empty_mem = Some (0, q0, m0)" "queue_rel m0 q0 0 [] []"
    "q_handler q0 = cb"
    using easy_queue_init_rel [of empty_mem cb] by (auto simp: empty_mem_def mem_ok_def)
  from I(1) have "owns m0 0 []"
    by (auto simp: easy_queue_init_def store_defs owns_def empty_mem_def split: if_splits)
  moreover have "q_size q0 = 0" using queue_rel_size [OF I(2)] by simp
  ultimately show ?thesis using qrun_rel [OF I(2), of ops] assms I by fastforce
qed

section \<open>Properties of the queue\<close>



text \<open>C20. \<^verbatim>\<open>easy_queue_clear\<close> terminates, calls the user handler once on every message still queued, last
  message first, and together with \<^verbatim>\<open>easy_queue_uninit\<close> gives back every node and data block: after
  any run of pushes and pops no memory is leaked and nothing is freed twice.\<close>

theorem easy_queue_clear_refines:
  assumes "list_all op_fits ops" "length ops < nat INT_MAX"
    and "run_handler cb (rev (qspec ops [])) s = Some s'"
  shows "\<exists>q0 m0 q m q1 m1 m2. easy_queue_init cb empty_mem = Some (0, q0, m0) \<and> qrun ops (q0, m0) = Some (q, m)
     \<and> easy_queue_clear q m s = Some (0, q1, m1, s') \<and> contents (q1, m1) = []
     \<and> easy_queue_uninit q1 m1 = Some (0, m2) \<and> nodes m2 = Map.empty \<and> bufs m2 = Map.empty"
proof -
  obtain q0 m0 q m h as where r: "easy_queue_init cb empty_mem = Some (0, q0, m0)" "qrun ops (q0, m0) = Some (q, m)"
    "queue_rel m q h as (qspec ops [])" "owns m h as" "q_handler q = cb" "q_size q < INT_MAX"
    using qrun_from_init [OF assms(1,2), of cb] by auto
  then obtain m1 where c: "queue_rel m1 (q\<lparr>q_tail := Some h, q_size := 0\<rparr>) h [] []"
    "dom (nodes m1) = dom (nodes m) - set as" "dom (bufs m1) = dom (bufs m) - {b. Some b \<in> data_at m ` set as}"
    "clear_loop q m s = Some (q\<lparr>q_tail := Some h, q_size := 0\<rparr>, m1, s')"
    using clear_loop_rel [OF r(3)] assms(3) by auto
  from c(1) obtain n where n: "nodes m1 h = Some n" and q: "q_head q = Some h" by (auto simp: queue_rel_def)
  have "dom (nodes m1) = {h}" "dom (bufs m1) = {}"
    using c(2,3) r(3,4) by (auto simp: owns_def queue_rel_def)
  then have "(nodes m1)(h := None) = Map.empty" "bufs m1 = Map.empty"
    by (auto simp: fun_eq_iff dom_def)
  with r c n q queue_rel_contents [OF c(1)] show ?thesis
    by (simp add: easy_queue_clear_def easy_queue_uninit_def free_node_def)
qed

theorem easy_queue_clear_refines_witness:
  "\<exists>q0 m0 q m q1 m1 m2. easy_queue_init (Some (\<lambda>d _ s. Some (d # s))) empty_mem = Some (0, q0, m0)
     \<and> qrun [OpPush [7], OpPush [8], OpPush [9], OpPop 4] (q0, m0) = Some (q, m)
     \<and> easy_queue_clear q m [] = Some (0, q1, m1, [[8], [9]]) \<and> contents (q1, m1) = []
     \<and> easy_queue_uninit q1 m1 = Some (0, m2) \<and> nodes m2 = Map.empty \<and> bufs m2 = Map.empty"
  by (rule easy_queue_clear_refines) simp_all

end
