(* ===== verification/Threadpool.thy ===== *)
theory Threadpool
  imports Gqueue "HOL-Library.Multiset"
begin

text \<open>
  The thread pool of \<^verbatim>\<open>third/threadpool/threadpool.c\<close>: worker threads around a \<^verbatim>\<open>Gqueue\<close> guarded by
  a mutex, a condition variable and an exit semaphore. Jobs travel through the queue as the bytes of
  \<^verbatim>\<open>thread_param_t\<close>. A critical section of the mutex is one step (no thread blocks while it holds the
  mutex, \<^verbatim>\<open>uv_cond_wait\<close> releases it); everything else interleaves freely: \<open>tp_step\<close> is the step
  relation of the workers, of the thread that calls \<^verbatim>\<open>threadpool_uninit\<close> and of the clients that
  push work. Callbacks are recorded in the order they are made; a call through a null pointer is
  a crash.
\<close>

section \<open>Jobs\<close>

record thread_param =
  tp_data :: u64
  tp_proc :: u64
  tp_after :: u64

definition enc_param :: "thread_param \<Rightarrow> byte list" where
  "enc_param p = enc64 (tp_data p) @ enc64 (tp_proc p) @ enc64 (tp_after p)"

definition dec_param :: "byte list \<Rightarrow> thread_param" where
  "dec_param bs = \<lparr>tp_data = dec64 (field_at 0 8 bs), tp_proc = dec64 (field_at 8 8 bs), tp_after = dec64 (field_at 16 8 bs)\<rparr>"

datatype call = CallProc u64 u64 | CallAfter u64 u64 int

lemma length_enc_param [simp]: "length (enc_param p) = 24"
  by (simp add: enc_param_def)

lemma dec_enc_param [simp]: "dec_param (enc_param p) = p"
  by (simp add: dec_param_def enc_param_def field_at_def dec_enc64)

text \<open>The handler the pool registers with its queue: it calls \<^verbatim>\<open>after_proc\<close> without a null check.\<close>

definition queue_free_func :: "byte list \<Rightarrow> u32 \<Rightarrow> call list \<Rightarrow> call list option" where
  "queue_free_func dat len log =
     (let param = dec_param dat in
      if len \<noteq> 24 then None
      else if tp_after param = 0 then None
      else Some (log @ [CallAfter (tp_after param) (tp_data param) 1]))"

section \<open>The pool and its threads\<close>

text \<open>Where a worker is in the loop of \<^verbatim>\<open>thread_func\<close>: at the test of the exit semaphore, between
  \<^verbatim>\<open>uv_sem_trywait\<close> and \<^verbatim>\<open>uv_sem_post\<close> on the way out, at \<^verbatim>\<open>uv_mutex_lock\<close>, inside
  \<^verbatim>\<open>uv_cond_wait\<close>, woken and waiting for the mutex again, before \<^verbatim>\<open>proc\<close>, before \<^verbatim>\<open>after_proc\<close>, or
  returned.\<close>

datatype worker_pc = W_Check | W_Post | W_Lock | W_Wait | W_Relock
  | W_Run thread_param | W_After thread_param | W_Done

text \<open>Where the thread in \<^verbatim>\<open>threadpool_uninit\<close> is: not called yet, before the \<open>k\<close>-th \<^verbatim>\<open>uv_sem_post\<close>,
  before the critical section of \<^verbatim>\<open>_threadpool_cancel_all\<close>, joining thread \<open>k\<close>, before
  \<^verbatim>\<open>easy_queue_uninit\<close>, or done.\<close>

datatype closer_pc = C_Idle | C_Post nat | C_Clear | C_Join nat | C_Uninit | C_Freed

record pool =
  exit_sem :: nat
  queue :: "call list easy_queue"
  store :: mem
  thread_num :: nat
  pcs :: "nat \<Rightarrow> worker_pc"
  closer :: closer_pc
  calls :: "call list"

datatype 'a outcome = Step 'a | Blocked | Crash

definition broadcast :: "(nat \<Rightarrow> worker_pc) \<Rightarrow> nat \<Rightarrow> worker_pc" where
  "broadcast ps i = (if ps i = W_Wait then W_Relock else ps i)"

definition threadpool_init :: "nat \<Rightarrow> mem \<Rightarrow> pool option" where
  "threadpool_init threadnum m = do {
     (_, q, m') \<leftarrow> easy_queue_init (Some queue_free_func) m;
     Some \<lparr>exit_sem = 0, queue = q, store = m', thread_num = threadnum,
       pcs = (\<lambda>i. if i < threadnum then W_Check else W_Done), closer = C_Idle, calls = []\<rparr> }"

text \<open>\<^verbatim>\<open>easy_queue_pop\<close> into the local \<^verbatim>\<open>element\<close>: the return value and the element as read back.\<close>

definition pop_element ::
  "call list easy_queue \<times> mem \<Rightarrow> (int \<times> thread_param \<times> (call list easy_queue \<times> mem)) option" where
  "pop_element qm = map_option (\<lambda>(r, buf, len, qm'). (r, dec_param (the buf), qm'))
     (easy_queue_pop (fst qm) (Some (replicate 24 0)) 24 (snd qm))"

definition thread_func :: "nat \<Rightarrow> pool \<Rightarrow> pool outcome" where
  "thread_func i s = (case pcs s i of
     W_Check \<Rightarrow>
       if 0 < exit_sem s then Step (s\<lparr>exit_sem := exit_sem s - 1, pcs := (pcs s)(i := W_Post)\<rparr>)
       else Step (s\<lparr>pcs := (pcs s)(i := W_Lock)\<rparr>)
   | W_Post \<Rightarrow> Step (s\<lparr>exit_sem := exit_sem s + 1, pcs := (pcs s)(i := W_Done)\<rparr>)
   | W_Lock \<Rightarrow>
       (case pop_element (queue s, store s) of
          None \<Rightarrow> Crash
        | Some (r, element, q, m) \<Rightarrow>
            let s1 = s\<lparr>queue := q, store := m\<rparr> in
            if r = -1 then Step (s1\<lparr>pcs := (pcs s)(i := W_Wait)\<rparr>)
            else Step (s1\<lparr>pcs := (pcs s)(i := W_Run element)\<rparr>))
   | W_Wait \<Rightarrow> Blocked
   | W_Relock \<Rightarrow> Step (s\<lparr>pcs := (pcs s)(i := W_Check)\<rparr>)
   | W_Run p \<Rightarrow> Step (s\<lparr>calls := calls s @ (if tp_proc p \<noteq> 0 then [CallProc (tp_proc p) (tp_data p)] else []),
                       pcs := (pcs s)(i := W_After p)\<rparr>)
   | W_After p \<Rightarrow> Step (s\<lparr>calls := calls s @ (if tp_after p \<noteq> 0 then [CallAfter (tp_after p) (tp_data p) 1] else []),
                       pcs := (pcs s)(i := W_Check)\<rparr>)
   | W_Done \<Rightarrow> Blocked)"

definition threadpool_push_work :: "u64 \<Rightarrow> u64 \<Rightarrow> u64 \<Rightarrow> pool \<Rightarrow> (int \<times> pool) option" where
  "threadpool_push_work thread_param work after s =
     (if easy_queue_size (queue s) > 64 then Some (-1, s)
      else do {
        (_, q, m) \<leftarrow> easy_queue_push (queue s) (enc_param \<lparr>tp_data = thread_param, tp_proc = work, tp_after = after\<rparr>) 24 (store s);
        Some (0, s\<lparr>queue := q, store := m, pcs := broadcast (pcs s)\<rparr>) })"

text \<open>\<^verbatim>\<open>threadpool_uninit\<close>, with \<^verbatim>\<open>_threadpool_cancel_all\<close> inlined, one step at a time.\<close>

definition threadpool_uninit :: "pool \<Rightarrow> pool outcome" where
  "threadpool_uninit s = (case closer s of
     C_Idle \<Rightarrow> Step (s\<lparr>closer := C_Post 0\<rparr>)
   | C_Post k \<Rightarrow>
       if k < thread_num s then Step (s\<lparr>exit_sem := exit_sem s + 1, closer := C_Post (Suc k)\<rparr>)
       else Step (s\<lparr>closer := C_Clear\<rparr>)
   | C_Clear \<Rightarrow>
       (case easy_queue_clear (queue s) (store s) (calls s) of
          None \<Rightarrow> Crash
        | Some (_, q, m, log) \<Rightarrow>
            Step (s\<lparr>queue := q, store := m, calls := log, pcs := broadcast (pcs s), closer := C_Join 0\<rparr>))
   | C_Join k \<Rightarrow>
       if k < thread_num s then (if pcs s k = W_Done then Step (s\<lparr>closer := C_Join (Suc k)\<rparr>) else Blocked)
       else Step (s\<lparr>closer := C_Uninit\<rparr>)
   | C_Uninit \<Rightarrow>
       (case easy_queue_uninit (queue s) (store s) of
          None \<Rightarrow> Crash
        | Some (_, m) \<Rightarrow> Step (s\<lparr>store := m, closer := C_Freed\<rparr>))
   | C_Freed \<Rightarrow> Blocked)"

section \<open>Executions\<close>

text \<open>The jobs waiting in the queue.\<close>

definition jobs :: "pool \<Rightarrow> thread_param list" where
  "jobs s = map dec_param (contents (queue s, store s))"

text \<open>A step is a step of some worker, of the closing thread, a push by a client, or a spurious
  wake-up; the labels record what happens to jobs.\<close>

datatype label = L_Push thread_param int | L_Take nat thread_param | L_Cancel "thread_param list" | L_Tau

inductive tp_step :: "pool \<Rightarrow> label \<Rightarrow> pool \<Rightarrow> bool" where
  take_job: "i < thread_num s \<Longrightarrow> pcs s i = W_Lock \<Longrightarrow> thread_func i s = Step s' \<Longrightarrow> pcs s' i = W_Run p \<Longrightarrow>
    tp_step s (L_Take i p) s'"
| take_none: "i < thread_num s \<Longrightarrow> pcs s i = W_Lock \<Longrightarrow> thread_func i s = Step s' \<Longrightarrow> pcs s' i = W_Wait \<Longrightarrow>
    tp_step s L_Tau s'"
| work: "i < thread_num s \<Longrightarrow> pcs s i \<noteq> W_Lock \<Longrightarrow> thread_func i s = Step s' \<Longrightarrow> tp_step s L_Tau s'"
| spurious: "i < thread_num s \<Longrightarrow> pcs s i = W_Wait \<Longrightarrow> tp_step s L_Tau (s\<lparr>pcs := (pcs s)(i := W_Relock)\<rparr>)"
| push: "closer s \<noteq> C_Freed \<Longrightarrow> threadpool_push_work d w a s = Some (r, s') \<Longrightarrow>
    tp_step s (L_Push \<lparr>tp_data = d, tp_proc = w, tp_after = a\<rparr> r) s'"
| cancel: "closer s = C_Clear \<Longrightarrow> threadpool_uninit s = Step s' \<Longrightarrow> tp_step s (L_Cancel (jobs s)) s'"
| close: "closer s \<noteq> C_Clear \<Longrightarrow> threadpool_uninit s = Step s' \<Longrightarrow> tp_step s L_Tau s'"

inductive tp_run :: "pool \<Rightarrow> label list \<Rightarrow> pool \<Rightarrow> bool" where
  stop: "tp_run s [] s"
| go: "tp_run s ls s1 \<Longrightarrow> tp_step s1 l s2 \<Longrightarrow> tp_run s (ls @ [l]) s2"

text \<open>The jobs accepted by \<^verbatim>\<open>threadpool_push_work\<close>, taken by workers, and leaving the queue (taken or
  cancelled), in order.\<close>

fun accepted_of :: "label \<Rightarrow> thread_param list" where
  "accepted_of (L_Push p r) = (if r = 0 then [p] else [])"
| "accepted_of _ = []"

fun taken_of :: "label \<Rightarrow> thread_param list" where
  "taken_of (L_Take i p) = [p]"
| "taken_of _ = []"

fun leaving_of :: "label \<Rightarrow> thread_param list" where
  "leaving_of (L_Take i p) = [p]"
| "leaving_of (L_Cancel ps) = ps"
| "leaving_of _ = []"

section \<open>Queue facts in terms of jobs\<close>

lemma easy_queue_pop_ret:
  "easy_queue_pop q b l m = Some (r, b', l', q', m') \<Longrightarrow>
   (r = 0 \<and> b' \<noteq> None \<or> r = -1 \<and> q' = q \<and> m' = m) \<and> q_handler q' = q_handler q"
  by (auto simp: easy_queue_pop_def Option.bind_eq_Some_conv split: option.splits if_splits)

lemma easy_queue_push_handler: "easy_queue_push q d l m = Some (r, q', m') \<Longrightarrow> q_handler q' = q_handler q"
  by (auto simp: easy_queue_push_def Option.bind_eq_Some_conv split: prod.splits)

definition jobs_ok :: "call list easy_queue \<times> mem \<Rightarrow> bool" where
  "jobs_ok qm \<longleftrightarrow> gq_ok 24 qm \<and> list_all (\<lambda>x. length x = 24) (contents qm) \<and> q_handler (fst qm) = Some queue_free_func"

lemma pop_element_nil:
  assumes "jobs_ok qm" "contents qm = []"
  shows "\<exists>e. pop_element qm = Some (-1, e, qm)"
proof -
  have "gq_pop 24 qm = Some None" using assms unfolding jobs_ok_def by (intro gq.pop_nil_law) blast+
  then obtain r b l q m where "easy_queue_pop (fst qm) (Some (replicate 24 0)) 24 (snd qm) = Some (r, b, l, q, m)"
    and "r \<noteq> 0 \<or> b = None"
    by (auto simp: gq_pop_def split: if_splits)
  with easy_queue_pop_ret [OF this(1)] show ?thesis by (auto simp: pop_element_def)
qed

lemma dec_param_take: "24 \<le> n \<Longrightarrow> dec_param (take n bs) = dec_param bs"
  by (simp add: dec_param_def field_at_take)

lemma pop_element_cons:
  assumes ok: "jobs_ok qm" and c: "contents qm = x # xs"
  shows "\<exists>qm'. pop_element qm = Some (0, dec_param x, qm') \<and> jobs_ok qm' \<and> contents qm' = xs"
proof -
  obtain qm' where p: "gq_pop 24 qm = Some (Some (x, qm'))" "gq_ok 24 qm'" "contents qm' = xs"
    using gq.pop_cons_law [OF _ c] ok unfolding jobs_ok_def by blast
  then obtain b l where b: "easy_queue_pop (fst qm) (Some (replicate 24 0)) 24 (snd qm) = Some (0, Some b, l, qm')"
    and x: "take (unat l) b = x"
    by (auto simp: gq_pop_def split: if_splits)
  from ok c x have "24 \<le> unat l" by (auto simp: jobs_ok_def)
  then have "dec_param b = dec_param x" using x dec_param_take by metis
  moreover have "q_handler (fst qm') = q_handler (fst qm)"
    using easy_queue_pop_ret [of "fst qm" _ _ "snd qm" 0 "Some b" l "fst qm'" "snd qm'"] b by simp
  ultimately show ?thesis using b p ok c by (auto simp: pop_element_def jobs_ok_def)
qed

lemma push_job:
  assumes ok: "jobs_ok qm" and l: "length (contents qm) \<le> 64"
  shows "\<exists>r qm'. easy_queue_push (fst qm) (enc_param p) 24 (snd qm) = Some (r, qm') \<and> jobs_ok qm'
    \<and> contents qm' = contents qm @ [enc_param p]"
proof -
  obtain qm' where "gq_push (enc_param p) qm = Some qm'" "gq_ok 24 qm'" "contents qm' = contents qm @ [enc_param p]"
    using gq.push_law [of qm "enc_param p"] ok l by (auto simp: jobs_ok_def)
  then obtain r where e: "easy_queue_push (fst qm) (enc_param p) 24 (snd qm) = Some (r, qm')"
    by (auto simp: gq_push_def)
  moreover have "q_handler (fst qm') = q_handler (fst qm)"
    using easy_queue_push_handler [of "fst qm" _ _ "snd qm" r "fst qm'" "snd qm'"] e by simp
  ultimately show ?thesis using ok \<open>gq_ok 24 qm'\<close> \<open>contents qm' = _\<close> by (auto simp: jobs_ok_def)
qed

lemma jobs_ok_size: "jobs_ok (q, m) \<Longrightarrow> easy_queue_size q = int (length (contents (q, m)))"
  unfolding jobs_ok_def gq_ok_def
  by (metis easy_queue_size_def fst_conv queue_okE queue_rel_size)


text \<open>Cancelling: \<^verbatim>\<open>easy_queue_clear\<close> with the pool's handler.\<close>

definition cancel_call :: "thread_param \<Rightarrow> call" where
  "cancel_call p = CallAfter (tp_after p) (tp_data p) 1"

definition cancellable :: "thread_param \<Rightarrow> bool" where
  "cancellable p \<longleftrightarrow> tp_after p \<noteq> 0"

lemma run_queue_free_func:
  "list_all (\<lambda>x. length x = 24) xs \<Longrightarrow> run_handler (Some queue_free_func) xs log =
     (if list_all (\<lambda>x. cancellable (dec_param x)) xs then Some (log @ map (cancel_call \<circ> dec_param) xs) else None)"
  by (induction xs arbitrary: log) (auto simp: queue_free_func_def cancellable_def cancel_call_def Let_def)

lemma clear_jobs:
  assumes ok: "jobs_ok (q, m)"
  shows "\<exists>q' m'. jobs_ok (q', m') \<and> contents (q', m') = [] \<and>
    (\<forall>log. easy_queue_clear q m log =
      (let js = map dec_param (contents (q, m)) in
       if list_all cancellable js then Some (0, q', m', log @ map cancel_call (rev js)) else None))"
proof -
  from ok have "queue_ok (q, m)" by (simp add: jobs_ok_def gq_ok_def)
  then obtain h as where R: "queue_rel m q h as (contents (q, m))" by (rule queue_okE)
  let ?q = "q\<lparr>q_tail := Some h, q_size := 0\<rparr>"
  have "q_size q \<le> INT_MAX" using ok by (simp add: jobs_ok_def gq_ok_def)
  from clear_loop_rel [OF R this] obtain m' where m': "queue_rel m' ?q h [] []"
    "\<And>s. clear_loop q m s = map_option (\<lambda>s'. (?q, m', s')) (run_handler (q_handler q) (rev (contents (q, m))) s)"
    by blast
  have "queue_ok (?q, m')" unfolding queue_ok_def fst_conv snd_conv using m'(1) by blast
  then have "jobs_ok (?q, m')" "contents (?q, m') = []"
    using ok queue_rel_contents [OF m'(1)] by (simp_all add: jobs_ok_def gq_ok_def)
  moreover have "list_all (\<lambda>x. length x = 24) (rev (contents (q, m)))" using ok by (simp add: jobs_ok_def)
  moreover have "q_handler q = Some queue_free_func" using ok by (simp add: jobs_ok_def)
  ultimately show ?thesis
    by (intro exI [of _ ?q] exI [of _ m'])
      (simp add: easy_queue_clear_def m'(2) run_queue_free_func list_all_iff Let_def rev_map)
qed

section \<open>The invariant of the pool\<close>

fun joined :: "nat \<Rightarrow> closer_pc \<Rightarrow> nat" where
  "joined n (C_Join k) = k"
| "joined n C_Uninit = n"
| "joined n C_Freed = n"
| "joined n _ = 0"

definition pool_ok :: "nat \<Rightarrow> pool \<Rightarrow> bool" where
  "pool_ok n s \<longleftrightarrow> thread_num s = n \<and> (\<forall>i \<ge> n. pcs s i = W_Done) \<and> (\<forall>i < joined n (closer s). pcs s i = W_Done)
     \<and> (closer s \<noteq> C_Freed \<longrightarrow> jobs_ok (queue s, store s) \<and> length (jobs s) \<le> 65)"

lemma threadpool_init_ok:
  assumes "mem_ok m"
  shows "\<exists>s. threadpool_init n m = Some s \<and> pool_ok n s \<and> jobs s = [] \<and> calls s = [] \<and> closer s = C_Idle
    \<and> pcs s = (\<lambda>i. if i < n then W_Check else W_Done) \<and> exit_sem s = 0"
proof -
  obtain q m' where i: "easy_queue_init (Some queue_free_func) m = Some (0, q, m')" "queue_rel m' q (brk m) [] []"
    "q_handler q = Some queue_free_func"
    using easy_queue_init_rel [OF assms] by blast
  have "queue_ok (q, m')" unfolding queue_ok_def fst_conv snd_conv using i(2) by blast
  with i queue_rel_contents [OF i(2)] queue_rel_size [OF i(2)] show ?thesis
    by (simp add: threadpool_init_def pool_ok_def jobs_ok_def gq_ok_def jobs_def)
qed

text \<open>The critical section of a worker, in terms of jobs.\<close>

lemma lock_step_empty:
  assumes "jobs_ok (queue s, store s)" "jobs s = []" "pcs s i = W_Lock"
  shows "thread_func i s = Step (s\<lparr>pcs := (pcs s)(i := W_Wait)\<rparr>)"
  using pop_element_nil [OF assms(1)] assms(2,3) by (auto simp: jobs_def thread_func_def)

lemma lock_step_job:
  assumes "jobs_ok (queue s, store s)" "jobs s = p # ps" "pcs s i = W_Lock"
  shows "\<exists>q m. thread_func i s = Step (s\<lparr>queue := q, store := m, pcs := (pcs s)(i := W_Run p)\<rparr>)
    \<and> jobs_ok (q, m) \<and> map dec_param (contents (q, m)) = ps"
proof -
  from assms(2) obtain x xs where x: "contents (queue s, store s) = x # xs" "p = dec_param x" "ps = map dec_param xs"
    by (auto simp: jobs_def)
  from pop_element_cons [OF assms(1) x(1)] obtain q m where
    "pop_element (queue s, store s) = Some (0, dec_param x, q, m)" "jobs_ok (q, m)" "contents (q, m) = xs" by auto
  with x assms(3) show ?thesis by (intro exI [of _ q] exI [of _ m]) (simp add: thread_func_def)
qed

lemma push_full:
  assumes "jobs_ok (queue s, store s)" "64 < length (jobs s)"
  shows "threadpool_push_work d w a s = Some (-1, s)"
  using assms jobs_ok_size [OF assms(1)] by (simp add: threadpool_push_work_def jobs_def)

lemma push_room:
  assumes "jobs_ok (queue s, store s)" "length (jobs s) \<le> 64"
  shows "\<exists>q m. threadpool_push_work d w a s = Some (0, s\<lparr>queue := q, store := m, pcs := broadcast (pcs s)\<rparr>)
    \<and> jobs_ok (q, m) \<and> map dec_param (contents (q, m)) = jobs s @ [\<lparr>tp_data = d, tp_proc = w, tp_after = a\<rparr>]"
proof -
  let ?p = "\<lparr>tp_data = d, tp_proc = w, tp_after = a\<rparr>"
  have l: "length (contents (queue s, store s)) \<le> 64" using assms by (simp add: jobs_def)
  from push_job [OF assms(1) l, of ?p] obtain r0 q m where
    e: "easy_queue_push (queue s) (enc_param ?p) 24 (store s) = Some (r0, q, m)" "jobs_ok (q, m)"
    "contents (q, m) = contents (queue s, store s) @ [enc_param ?p]" by auto
  then show ?thesis
    using l jobs_ok_size [OF assms(1)]
    by (intro exI [of _ q] exI [of _ m]) (simp add: threadpool_push_work_def jobs_def)
qed

lemma jobs_upd [simp]:
  "jobs (s\<lparr>queue := q, store := m, pcs := ps\<rparr>) = map dec_param (contents (q, m))"
  by (simp add: jobs_def)

lemma broadcast_Done [simp]: "broadcast ps i = W_Done \<longleftrightarrow> ps i = W_Done"
  by (simp add: broadcast_def)

text \<open>The steps that do not touch the queue.\<close>

lemma work_frame:
  "thread_func i s = Step s' \<Longrightarrow> pcs s i \<noteq> W_Lock \<Longrightarrow>
   queue s' = queue s \<and> store s' = store s \<and> closer s' = closer s \<and> thread_num s' = thread_num s
   \<and> (\<exists>pc. pcs s' = (pcs s)(i := pc)) \<and> pcs s i \<noteq> W_Done"
  by (auto simp: thread_func_def split: worker_pc.splits if_splits)

lemma close_frame:
  "threadpool_uninit s = Step s' \<Longrightarrow> closer s \<noteq> C_Clear \<Longrightarrow>
   queue s' = queue s \<and> pcs s' = pcs s \<and> thread_num s' = thread_num s \<and> calls s' = calls s
   \<and> (store s' = store s \<or> closer s' = C_Freed)
   \<and> (\<forall>n. thread_num s = n \<longrightarrow> (\<forall>i < joined n (closer s). pcs s i = W_Done) \<longrightarrow> (\<forall>i < joined n (closer s'). pcs s i = W_Done))
   \<and> closer s \<noteq> C_Freed"
  by (auto simp: threadpool_uninit_def less_Suc_eq split: closer_pc.splits if_splits option.splits)

text \<open>The critical section of \<^verbatim>\<open>_threadpool_cancel_all\<close>.\<close>

lemma cancel_step:
  assumes "jobs_ok (queue s, store s)" "closer s = C_Clear"
  shows "\<exists>q m. jobs_ok (q, m) \<and> contents (q, m) = [] \<and> threadpool_uninit s =
    (if list_all cancellable (jobs s)
     then Step (s\<lparr>queue := q, store := m, calls := calls s @ map cancel_call (rev (jobs s)),
       pcs := broadcast (pcs s), closer := C_Join 0\<rparr>)
     else Crash)"
proof -
  from clear_jobs [OF assms(1), folded jobs_def] obtain q m where qm: "jobs_ok (q, m)" "contents (q, m) = []" and
    "easy_queue_clear (queue s) (store s) (calls s) = (if list_all cancellable (jobs s)
      then Some (0, q, m, calls s @ map cancel_call (rev (jobs s))) else None)"
    unfolding Let_def by blast
  with assms(2) show ?thesis by (intro exI [of _ q] exI [of _ m]) (simp add: threadpool_uninit_def)
qed

text \<open>What has happened when a worker leaves its critical section, and when a push returns.\<close>

lemma took_job:
  assumes ok: "jobs_ok (queue s, store s)" and i: "pcs s i = W_Lock" "thread_func i s = Step s'" "pcs s' i = W_Run p"
  shows "\<exists>q m. s' = s\<lparr>queue := q, store := m, pcs := (pcs s)(i := W_Run p)\<rparr> \<and> jobs_ok (q, m) \<and> jobs s = p # map dec_param (contents (q, m))"
proof (cases "jobs s")
  case Nil
  with lock_step_empty [OF ok Nil i(1)] i show ?thesis by auto
next
  case (Cons p' ps)
  from lock_step_job [OF ok Cons i(1)] obtain q m where
    e: "thread_func i s = Step (s\<lparr>queue := q, store := m, pcs := (pcs s)(i := W_Run p')\<rparr>)" "jobs_ok (q, m)" "map dec_param (contents (q, m)) = ps"
    by blast
  have s': "s' = s\<lparr>queue := q, store := m, pcs := (pcs s)(i := W_Run p')\<rparr>" using e(1) i(2) by simp
  then have "p' = p" using i(3) by simp
  with s' e(2,3) Cons show ?thesis by blast
qed

lemma took_none:
  assumes ok: "jobs_ok (queue s, store s)" and i: "pcs s i = W_Lock" "thread_func i s = Step s'" "pcs s' i = W_Wait"
  shows "s' = s\<lparr>pcs := (pcs s)(i := W_Wait)\<rparr>"
proof (cases "jobs s")
  case Nil
  with lock_step_empty [OF ok Nil i(1)] i show ?thesis by auto
next
  case (Cons p' ps)
  from lock_step_job [OF ok Cons i(1)] i show ?thesis by auto
qed

lemma pushed:
  assumes ok: "jobs_ok (queue s, store s)" and r: "threadpool_push_work d w a s = Some (r, s')"
  shows "r = -1 \<and> s' = s \<or> r = 0 \<and> length (jobs s) \<le> 64 \<and> (\<exists>q m. s' = s\<lparr>queue := q, store := m, pcs := broadcast (pcs s)\<rparr> \<and> jobs_ok (q, m)
    \<and> map dec_param (contents (q, m)) = jobs s @ [\<lparr>tp_data = d, tp_proc = w, tp_after = a\<rparr>])"
proof (cases "length (jobs s) \<le> 64")
  case True
  from push_room [OF ok True, of d w a] r True show ?thesis by auto
qed (use push_full [OF ok, of d w a] r in simp)

text \<open>What a step does to the queue of jobs and to the invariant.\<close>

lemma tp_step_ok:
  assumes "tp_step s l s'" "pool_ok n s"
  shows "pool_ok n s' \<and> (closer s' \<noteq> C_Freed \<longrightarrow> jobs s @ accepted_of l = leaving_of l @ jobs s')"
  using assms
proof (cases rule: tp_step.cases)
  case (take_job i p)
  then have ok: "jobs_ok (queue s, store s)" using assms(2) by (auto simp: pool_ok_def)
  from took_job [OF ok take_job(3-5)] take_job assms(2) show ?thesis by (auto simp: pool_ok_def)
next
  case (take_none i)
  then have ok: "jobs_ok (queue s, store s)" using assms(2) by (auto simp: pool_ok_def)
  from took_none [OF ok take_none(3-5)] take_none assms(2) show ?thesis by (auto simp: pool_ok_def jobs_def)
next
  case (work i)
  then show ?thesis using assms(2) work_frame [OF work(4) work(3)] by (auto simp: pool_ok_def jobs_def)
next
  case (spurious i)
  then show ?thesis using assms(2) by (auto simp: pool_ok_def jobs_def)
next
  case (push d w a r)
  then have ok: "jobs_ok (queue s, store s)" using assms(2) by (auto simp: pool_ok_def)
  from pushed [OF ok push(3)] push assms(2) show ?thesis by (auto simp: pool_ok_def simp del: length_map)
next
  case cancel
  then have ok: "jobs_ok (queue s, store s)" using assms(2) by (auto simp: pool_ok_def)
  from cancel_step [OF ok cancel(2)] cancel assms(2) show ?thesis
    by (auto simp: pool_ok_def jobs_def split: if_splits)
next
  case close
  then show ?thesis using assms(2) close_frame [OF close(3) close(2)] by (auto simp: pool_ok_def jobs_def)
qed

section \<open>Every accepted job is called back once\<close>

text \<open>The callbacks a job gives when a worker runs it, those still to come for a worker that has
  a job in hand, and those owed by a label of a run.\<close>

definition proc_call :: "thread_param \<Rightarrow> call list" where
  "proc_call p = (if tp_proc p \<noteq> 0 then [CallProc (tp_proc p) (tp_data p)] else [])"

definition after_call :: "thread_param \<Rightarrow> call list" where
  "after_call p = (if tp_after p \<noteq> 0 then [CallAfter (tp_after p) (tp_data p) 1] else [])"

fun in_hand :: "worker_pc \<Rightarrow> call multiset" where
  "in_hand (W_Run p) = mset (proc_call p @ after_call p)"
| "in_hand (W_After p) = mset (after_call p)"
| "in_hand _ = {#}"

fun owed :: "label \<Rightarrow> call multiset" where
  "owed (L_Take i p) = mset (proc_call p @ after_call p)"
| "owed (L_Cancel ps) = mset (map cancel_call ps)"
| "owed _ = {#}"

definition balance :: "pool \<Rightarrow> call multiset" where
  "balance s = mset (calls s) + (\<Sum>i < thread_num s. in_hand (pcs s i))"

lemma in_hand_broadcast [simp]: "in_hand (broadcast ps i) = in_hand (ps i)"
  by (simp add: broadcast_def)

lemma sum_in_hand_upd:
  fixes n :: nat
  assumes "i < n"
  shows "(\<Sum>j < n. in_hand ((ps(i := pc)) j)) + in_hand (ps i) = (\<Sum>j < n. in_hand (ps j)) + in_hand pc"
  using sum_change [OF assms, of "\<lambda>j. in_hand ((ps(i := pc)) j)" "\<lambda>j. in_hand (ps j)"] by simp

text \<open>A worker's step moves callbacks from its hand to the log.\<close>

lemma work_balance:
  assumes "thread_func i s = Step s'" "pcs s i \<noteq> W_Lock" "i < thread_num s"
  shows "balance s' = balance s"
proof -
  obtain pc new where e: "pcs s' = (pcs s)(i := pc)" "calls s' = calls s @ new" "thread_num s' = thread_num s"
    "mset new + in_hand pc = in_hand (pcs s i)"
    using assms by (fastforce simp: thread_func_def proc_call_def after_call_def split: worker_pc.splits if_splits)
  have "balance s' + in_hand (pcs s i)
      = mset (calls s) + mset new + ((\<Sum>j < thread_num s. in_hand (((pcs s)(i := pc)) j)) + in_hand (pcs s i))"
    by (simp add: balance_def e ac_simps)
  also have "\<dots> = mset (calls s) + (\<Sum>j < thread_num s. in_hand (pcs s j)) + (mset new + in_hand pc)"
    unfolding sum_in_hand_upd [OF assms(3)] by (simp add: ac_simps)
  also have "\<dots> = balance s + in_hand (pcs s i)" by (simp add: balance_def e)
  finally show ?thesis by simp
qed

lemma set_pc_balance:
  assumes "i < thread_num s" "in_hand (pcs s i) = {#}"
  shows "balance (s\<lparr>pcs := (pcs s)(i := pc)\<rparr>) = balance s + in_hand pc"
  using sum_in_hand_upd [OF assms(1), of "pcs s" pc] assms(2) by (simp add: balance_def)

lemma balance_queue [simp]: "balance (s\<lparr>queue := q, store := m, pcs := ps\<rparr>) = balance (s\<lparr>pcs := ps\<rparr>)"
  by (simp add: balance_def)

lemma tp_step_balance:
  assumes "tp_step s l s'" "pool_ok n s"
  shows "balance s' = balance s + owed l"
  using assms
proof (cases rule: tp_step.cases)
  case (take_job i p)
  then have ok: "jobs_ok (queue s, store s)" using assms(2) by (auto simp: pool_ok_def)
  from took_job [OF ok take_job(3-5)] take_job set_pc_balance [of i s] show ?thesis by auto
next
  case (take_none i)
  then have ok: "jobs_ok (queue s, store s)" using assms(2) by (auto simp: pool_ok_def)
  from took_none [OF ok take_none(3-5)] take_none set_pc_balance [of i s] show ?thesis by simp
next
  case (work i)
  then show ?thesis using work_balance by simp
next
  case (spurious i)
  then show ?thesis using set_pc_balance [of i s] by simp
next
  case (push d w a r)
  then have ok: "jobs_ok (queue s, store s)" using assms(2) by (auto simp: pool_ok_def)
  from pushed [OF ok push(3)] push show ?thesis by (auto simp: balance_def)
next
  case cancel
  then have ok: "jobs_ok (queue s, store s)" using assms(2) by (auto simp: pool_ok_def)
  from cancel_step [OF ok cancel(2)] cancel show ?thesis
    by (auto simp: balance_def rev_map [symmetric] split: if_splits)
next
  case close
  then show ?thesis using close_frame [OF close(3) close(2)] by (simp add: balance_def)
qed

section \<open>Runs\<close>

lemma tp_run_ok:
  assumes "tp_run s0 ls s" "pool_ok n s0"
  shows "pool_ok n s \<and> balance s = balance s0 + sum_list (map owed ls)
    \<and> (closer s \<noteq> C_Freed \<longrightarrow> jobs s0 @ concat (map accepted_of ls) = concat (map leaving_of ls) @ jobs s)"
  using assms
proof (induction rule: tp_run.induct)
  case (go s ls s1 l s2)
  from go have ok: "pool_ok n s1" by simp
  have f: "closer s1 \<noteq> C_Freed" if "closer s2 \<noteq> C_Freed"
    using go(2) that ok
    by (cases rule: tp_step.cases) (auto simp: pool_ok_def dest: work_frame close_frame)
  note st = tp_step_ok [OF go(2) ok] tp_step_balance [OF go(2) ok]
  have "jobs s @ concat (map accepted_of (ls @ [l])) = concat (map leaving_of (ls @ [l])) @ jobs s2"
    if "closer s2 \<noteq> C_Freed"
    using st(1) go(3) [OF go(4)] f [OF that] that by simp (metis append.assoc)
  with go st show ?case by (simp add: add.assoc)
qed simp

text \<open>A schedule: which thread makes the next step. \<open>exec\<close> runs it.\<close>

datatype move = M_Work nat | M_Close | M_Push u64 u64 u64

fun exec1 :: "move \<Rightarrow> pool \<Rightarrow> (label \<times> pool) option" where
  "exec1 (M_Work i) s = (if i < thread_num s then
     (case thread_func i s of
        Step s' \<Rightarrow> Some (if pcs s i = W_Lock then (case pcs s' i of W_Run p \<Rightarrow> L_Take i p | _ \<Rightarrow> L_Tau) else L_Tau, s')
      | _ \<Rightarrow> None) else None)"
| "exec1 M_Close s = (case threadpool_uninit s of
     Step s' \<Rightarrow> Some (if closer s = C_Clear then L_Cancel (jobs s) else L_Tau, s') | _ \<Rightarrow> None)"
| "exec1 (M_Push d w a) s = (if closer s = C_Freed then None
     else map_option (\<lambda>(r, s'). (L_Push \<lparr>tp_data = d, tp_proc = w, tp_after = a\<rparr> r, s')) (threadpool_push_work d w a s))"

fun exec :: "move list \<Rightarrow> pool \<Rightarrow> (label list \<times> pool) option" where
  "exec [] s = Some ([], s)"
| "exec (mv # mvs) s = do { (l, s1) \<leftarrow> exec1 mv s; (ls, s2) \<leftarrow> exec mvs s1; Some (l # ls, s2) }"

lemma lock_outcome:
  "thread_func i s = Step s' \<Longrightarrow> pcs s i = W_Lock \<Longrightarrow> pcs s' i = W_Wait \<or> (\<exists>p. pcs s' i = W_Run p)"
  by (auto simp: thread_func_def Let_def split: option.splits if_splits)

lemma exec1_step: "exec1 mv s = Some (l, s') \<Longrightarrow> tp_step s l s'"
proof (cases mv)
  case (M_Work i)
  assume "exec1 mv s = Some (l, s')"
  with M_Work have e: "i < thread_num s" "thread_func i s = Step s'"
    "l = (if pcs s i = W_Lock then (case pcs s' i of W_Run p \<Rightarrow> L_Take i p | _ \<Rightarrow> L_Tau) else L_Tau)"
    by (auto split: outcome.splits if_splits)
  then show ?thesis
    using lock_outcome [OF e(2)] by (cases "pcs s i = W_Lock") (auto intro: tp_step.intros)
qed (auto split: outcome.splits if_splits intro: tp_step.intros)

lemma tp_run_Cons: "tp_run s1 ls s2 \<Longrightarrow> tp_step s l s1 \<Longrightarrow> tp_run s (l # ls) s2"
proof (induction rule: tp_run.induct)
  case (stop s1)
  with tp_run.go [OF tp_run.stop] show ?case by fastforce
next
  case (go s1 ls s2 k s3)
  with tp_run.go show ?case by fastforce
qed

lemma exec_run: "exec mvs s = Some (ls, s') \<Longrightarrow> tp_run s ls s'"
  by (induction mvs arbitrary: s ls)
    (auto split: Option.bind_splits intro: tp_run.stop intro!: tp_run_Cons [OF _ exec1_step])

lemma exec_from_init:
  "map_option f (Option.bind (threadpool_init n m) (exec ms)) = Some v \<Longrightarrow>
   \<exists>s0 ls s. threadpool_init n m = Some s0 \<and> tp_run s0 ls s \<and> f (ls, s) = v"
  by (auto simp: Option.bind_eq_Some_conv dest!: exec_run)

lemma mem_ok_empty [simp]: "mem_ok empty_mem"
  by (simp add: mem_ok_def empty_mem_def)

section \<open>Properties of the pool\<close>

text \<open>C16. In every interleaving of workers, clients and the closing thread, jobs leave the queue in
  the order \<^verbatim>\<open>threadpool_push_work\<close> accepted them: the accepted jobs are the ones taken or cancelled
  followed by the ones still queued. At most 65 jobs wait, a push is refused (with -1) exactly when
  65 wait, and no worker ever crashes.\<close>

theorem threadpool_fifo:
  assumes "mem_ok m" "threadpool_init n m = Some s0" "tp_run s0 ls s" "closer s \<noteq> C_Freed"
  shows "concat (map accepted_of ls) = concat (map leaving_of ls) @ jobs s \<and> length (jobs s) \<le> 65
    \<and> (\<forall>i. thread_func i s \<noteq> Crash)
    \<and> (\<exists>s'. threadpool_push_work d w a s = Some (if length (jobs s) = 65 then -1 else 0, s'))"
proof -
  have i: "pool_ok n s0" "jobs s0 = []" using threadpool_init_ok [OF assms(1), of n] assms(2) by auto
  note r = tp_run_ok [OF assms(3) i(1)]
  from r assms(4) have ok: "jobs_ok (queue s, store s)" and l: "length (jobs s) \<le> 65" by (auto simp: pool_ok_def)
  have c: "thread_func j s \<noteq> Crash" for j
  proof (cases "pcs s j = W_Lock")
    case True
    with lock_step_empty [OF ok] lock_step_job [OF ok] show ?thesis by (cases "jobs s") (auto, force)
  qed (auto simp: thread_func_def split: worker_pc.splits)
  have "\<exists>s'. threadpool_push_work d w a s = Some (if length (jobs s) = 65 then -1 else 0, s')"
    using push_full [OF ok, of d w a] push_room [OF ok, of d w a] l by (cases "length (jobs s) = 65") auto
  with r i assms(4) l c show ?thesis by simp
qed

theorem threadpool_fifo_witness:
  "\<exists>s0 ls s s'. threadpool_init 1 empty_mem = Some s0 \<and> tp_run s0 ls s
    \<and> concat (map leaving_of ls) = [\<lparr>tp_data = 1, tp_proc = 7, tp_after = 0\<rparr>]
    \<and> jobs s = [\<lparr>tp_data = 2, tp_proc = 7, tp_after = 0\<rparr>]
    \<and> concat (map accepted_of ls) = [\<lparr>tp_data = 1, tp_proc = 7, tp_after = 0\<rparr>, \<lparr>tp_data = 2, tp_proc = 7, tp_after = 0\<rparr>]
    \<and> threadpool_push_work 3 7 0 s = Some (0, s')"
proof -
  have "map_option (\<lambda>(ls, s). (concat (map leaving_of ls), jobs s, closer s))
      (Option.bind (threadpool_init 1 empty_mem) (exec [M_Push 1 7 0, M_Push 2 7 0, M_Work 0, M_Work 0]))
    = Some ([\<lparr>tp_data = 1, tp_proc = 7, tp_after = 0\<rparr>], [\<lparr>tp_data = 2, tp_proc = 7, tp_after = 0\<rparr>], C_Idle)"
    by code_simp
  from exec_from_init [OF this] obtain s0 ls s where r: "threadpool_init 1 empty_mem = Some s0" "tp_run s0 ls s"
    "concat (map leaving_of ls) = [\<lparr>tp_data = 1, tp_proc = 7, tp_after = 0\<rparr>]"
    "jobs s = [\<lparr>tp_data = 2, tp_proc = 7, tp_after = 0\<rparr>]" "closer s \<noteq> C_Freed" by auto
  show ?thesis using threadpool_fifo [OF mem_ok_empty r(1,2,5), of 3 7 0] r(1-4) by auto
qed

text \<open>C17. Every callback is accounted for: at any time the calls made so far together with those the
  running workers still owe are exactly the \<^verbatim>\<open>proc\<close> and \<^verbatim>\<open>after_proc\<close> of each job taken and the
  \<^verbatim>\<open>after_proc\<close> of each job cancelled, once each. When \<^verbatim>\<open>threadpool_uninit\<close> frees the queue
  every worker has returned, so nothing is owed and no thread touches the freed queue.\<close>

theorem threadpool_callbacks_once:
  assumes "mem_ok m" "threadpool_init n m = Some s0" "tp_run s0 ls s"
  shows "mset (calls s) + (\<Sum>i < n. in_hand (pcs s i)) = sum_list (map owed ls)
    \<and> (closer s = C_Uninit \<or> closer s = C_Freed \<longrightarrow>
        mset (calls s) = sum_list (map owed ls) \<and> (\<forall>i. pcs s i = W_Done \<and> thread_func i s = Blocked))"
proof -
  obtain i: "pool_ok n s0" "calls s0 = []" "pcs s0 = (\<lambda>i. if i < n then W_Check else W_Done)"
    using threadpool_init_ok [OF assms(1), of n] assms(2) by auto
  then have "balance s0 = {#}" by (auto simp: balance_def intro!: sum.neutral)
  moreover note r = tp_run_ok [OF assms(3) i(1)]
  ultimately have "balance s = sum_list (map owed ls)" "thread_num s = n" by (simp_all add: pool_ok_def)
  then have b: "mset (calls s) + (\<Sum>i < n. in_hand (pcs s i)) = sum_list (map owed ls)"
    by (simp add: balance_def)
  have "\<forall>i. pcs s i = W_Done" if "closer s = C_Uninit \<or> closer s = C_Freed"
    using r that unfolding pool_ok_def by (metis joined.simps(2,3) leI)
  with b show ?thesis by (cases "closer s = C_Uninit \<or> closer s = C_Freed") (auto simp: thread_func_def)
qed

theorem threadpool_callbacks_once_witness:
  "\<exists>s0 ls s. threadpool_init 1 empty_mem = Some s0 \<and> tp_run s0 ls s \<and> closer s = C_Freed
    \<and> concat (map accepted_of ls) = [\<lparr>tp_data = 1, tp_proc = 7, tp_after = 0\<rparr>, \<lparr>tp_data = 2, tp_proc = 7, tp_after = 8\<rparr>]
    \<and> mset (calls s) = {#CallProc 7 1, CallAfter 8 2 1#} \<and> (\<forall>i. pcs s i = W_Done)"
proof -
  let ?p = "\<lparr>tp_data = 1, tp_proc = 7, tp_after = 0\<rparr>" and ?p' = "\<lparr>tp_data = 2, tp_proc = 7, tp_after = 8\<rparr>"
  have "map_option (\<lambda>(ls, s). (concat (map accepted_of ls), filter (\<lambda>l. l \<noteq> L_Tau) ls, closer s))
      (Option.bind (threadpool_init 1 empty_mem) (exec [M_Push 1 7 0, M_Work 0, M_Work 0, M_Push 2 7 8,
         M_Close, M_Close, M_Close, M_Close, M_Work 0, M_Work 0, M_Work 0, M_Work 0, M_Close, M_Close, M_Close]))
    = Some ([?p, ?p'], [L_Push ?p 0, L_Take 0 ?p, L_Push ?p' 0, L_Cancel [?p']], C_Freed)"
    by code_simp
  from exec_from_init [OF this] obtain s0 ls s where r: "threadpool_init 1 empty_mem = Some s0" "tp_run s0 ls s"
    "concat (map accepted_of ls) = [?p, ?p']" "filter (\<lambda>l. l \<noteq> L_Tau) ls = [L_Push ?p 0, L_Take 0 ?p, L_Push ?p' 0, L_Cancel [?p']]"
    "closer s = C_Freed" by auto
  have "sum_list (map owed ls) = sum_list (map owed (filter (\<lambda>l. l \<noteq> L_Tau) ls))"
    by (induction ls) auto
  then have "sum_list (map owed ls) = {#CallProc 7 1, CallAfter 8 2 1#}"
    by (simp add: r(4) proc_call_def after_call_def cancel_call_def)
  with threadpool_callbacks_once [OF mem_ok_empty r(1,2)] r(5)
  have "mset (calls s) = {#CallProc 7 1, CallAfter 8 2 1#} \<and> (\<forall>i. pcs s i = W_Done)" by simp
  with r(1,2,3,5) show ?thesis by blast
qed

text \<open>C18. Cancelling calls \<^verbatim>\<open>after_proc\<close> without a null check: in any reachable state where the closing
  thread is about to clear the queue, it crashes if and only if some queued job has a null
  \<^verbatim>\<open>after_proc\<close> (both callers of \<^verbatim>\<open>threadpool_push_work\<close> in the program pass null).\<close>

theorem cancel_null_crash:
  assumes "mem_ok m" "threadpool_init n m = Some s0" "tp_run s0 ls s" "closer s = C_Clear"
  shows "threadpool_uninit s = Crash \<longleftrightarrow> (\<exists>p \<in> set (jobs s). tp_after p = 0)"
proof -
  have "pool_ok n s0" using threadpool_init_ok [OF assms(1), of n] assms(2) by auto
  from tp_run_ok [OF assms(3) this] assms(4) have "jobs_ok (queue s, store s)" by (simp add: pool_ok_def)
  from cancel_step [OF this assms(4)] show ?thesis
    by (auto simp: list_all_iff cancellable_def split: if_splits)
qed

theorem cancel_null_crash_witness:
  "\<exists>s0 ls s. threadpool_init 1 empty_mem = Some s0 \<and> tp_run s0 ls s
    \<and> jobs s = [\<lparr>tp_data = 1, tp_proc = 7, tp_after = 0\<rparr>] \<and> threadpool_uninit s = Crash"
proof -
  have "map_option (\<lambda>(ls, s). (jobs s, closer s))
      (Option.bind (threadpool_init 1 empty_mem) (exec [M_Push 1 7 0, M_Close, M_Close, M_Close]))
    = Some ([\<lparr>tp_data = 1, tp_proc = 7, tp_after = 0\<rparr>], C_Clear)"
    by code_simp
  from exec_from_init [OF this] obtain s0 ls s where r: "threadpool_init 1 empty_mem = Some s0" "tp_run s0 ls s"
    "jobs s = [\<lparr>tp_data = 1, tp_proc = 7, tp_after = 0\<rparr>]" "closer s = C_Clear" by auto
  show ?thesis using cancel_null_crash [OF mem_ok_empty r(1,2,4)] r by auto
qed

text \<open>C19. \<^verbatim>\<open>threadpool_uninit\<close> can hang: with one worker, if the closing thread posts the semaphore and
  broadcasts between the worker's \<^verbatim>\<open>uv_sem_trywait\<close> and its \<^verbatim>\<open>uv_cond_wait\<close>, the worker waits
  for a signal that was already sent and \<^verbatim>\<open>uv_thread_join\<close> waits for the worker, although the
  exit semaphore is posted. Neither thread can make a step.\<close>

theorem threadpool_uninit_lost_wakeup:
  "\<exists>s0 ls s. threadpool_init 1 empty_mem = Some s0 \<and> tp_run s0 ls s \<and> concat (map accepted_of ls) = []
    \<and> closer s = C_Join 0 \<and> exit_sem s = 1 \<and> (\<forall>i. thread_func i s = Blocked) \<and> threadpool_uninit s = Blocked"
proof -
  let ?ms = "[M_Work 0, M_Close, M_Close, M_Close, M_Close, M_Work 0]"
  have "map_option (\<lambda>(ls, s). (concat (map accepted_of ls), closer s, exit_sem s, pcs s 0))
      (Option.bind (threadpool_init 1 empty_mem) (exec ?ms)) = Some ([], C_Join 0, 1, W_Wait)"
    by code_simp
  from exec_from_init [OF this] obtain s0 ls s where
    e: "threadpool_init 1 empty_mem = Some s0" "tp_run s0 ls s" "concat (map accepted_of ls) = []" "closer s = C_Join 0"
      "exit_sem s = 1" "pcs s 0 = W_Wait" by auto
  have "pool_ok 1 s0" using threadpool_init_ok [of empty_mem 1] e(1) by simp
  then have "pool_ok 1 s" using tp_run_ok [OF e(2)] by simp
  then have pc: "\<forall>i. pcs s i = W_Wait \<or> pcs s i = W_Done" and "thread_num s = 1"
    using e(6) by (auto simp: pool_ok_def) (metis Suc_leI neq0_conv)
  then have "threadpool_uninit s = Blocked" using e(4,6) by (simp add: threadpool_uninit_def)
  moreover have "thread_func i s = Blocked" for i
    using pc [THEN spec, of i] by (elim disjE) (simp_all add: thread_func_def)
  ultimately show ?thesis using e by blast
qed

end
