(* ===== verification/Gen_Id.thy ===== *)
theory Gen_Id
  imports Ssn_Prelude
begin

text \<open>
  The generators of task and connection ids (\<^verbatim>\<open>Communication/core/gen_id.cpp\<close>). Each call holds the
  generator's mutex for its whole body, so a call is one step on the counter, whatever thread makes
  it. The lemmas give the ids in closed form: connection ids run through \<open>1 .. 65535\<close> and start over,
  never producing the invalid id.
\<close>

definition INVALID_CONNID :: u16 where "INVALID_CONNID = 0"

definition GenTaskID_applyId :: "u64 \<Rightarrow> u64 \<times> u64" where
  "GenTaskID_applyId taskId = (taskId, taskId + 1)"

definition GenConnID_applyId :: "u16 \<Rightarrow> u16 \<times> u16" where
  "GenConnID_applyId taskId =
     (let t = (if taskId = INVALID_CONNID then taskId + 1 else taskId) in (t, t + 1))"

text \<open>The first \<open>n\<close> ids a generator hands out, from a given counter.\<close>

fun apply_ids :: "('c \<Rightarrow> 'i \<times> 'c) \<Rightarrow> nat \<Rightarrow> 'c \<Rightarrow> 'i list" where
  "apply_ids g 0 c = []"
| "apply_ids g (Suc n) c = (let (x, c') = g c in x # apply_ids g n c')"

lemma length_apply_ids [simp]: "length (apply_ids g n c) = n"
  by (induction n arbitrary: c) (auto split: prod.splits)

lemma task_ids_nth: "k < n \<Longrightarrow> apply_ids GenTaskID_applyId n c ! k = c + of_nat k"
proof (induction n arbitrary: c k)
  case (Suc n)
  then show ?case by (cases k) (auto simp: GenTaskID_applyId_def algebra_simps)
qed simp

text \<open>The counter as a position in the cycle of 65535 ids; the counter values 0 and 1 are the same
  position.\<close>

definition phase :: "u16 \<Rightarrow> nat" where
  "phase g = unat g - 1"

lemma unat_u16_Suc: "unat (g + 1 :: u16) = (if unat g = 65535 then 0 else unat g + 1)"
  using unat_lt [of g] by (simp add: unat_word_ariths)

lemma phase_less: "phase g < 65535"
  using unat_lt [of g] by (simp add: phase_def)

lemma conn_id_step:
  "unat (fst (GenConnID_applyId g)) = phase g + 1" "phase (snd (GenConnID_applyId g)) = (phase g + 1) mod 65535"
proof -
  define t where "t = (if g = 0 then 1 else g)"
  have t: "unat t = phase g + 1" by (auto simp: t_def phase_def unat_eq_0 Suc_leI unat_gt_0)
  have e: "GenConnID_applyId g = (t, t + 1)"
    by (simp add: GenConnID_applyId_def INVALID_CONNID_def t_def Let_def)
  show "unat (fst (GenConnID_applyId g)) = phase g + 1" by (simp add: e t)
  show "phase (snd (GenConnID_applyId g)) = (phase g + 1) mod 65535"
    using phase_less [of g] by (auto simp: e phase_def [of "t + 1"] unat_u16_Suc t)
qed

lemma conn_ids_unat:
  "k < n \<Longrightarrow> unat (apply_ids GenConnID_applyId n g ! k) = (phase g + k) mod 65535 + 1"
proof (induction n arbitrary: g k)
  case (Suc n)
  show ?case
  proof (cases k)
    case 0
    then show ?thesis using phase_less [of g] by (simp add: case_prod_unfold Let_def conn_id_step(1))
  next
    case (Suc k')
    with Suc.prems Suc.IH [of k' "snd (GenConnID_applyId g)"] show ?thesis
      by (simp add: case_prod_unfold Let_def conn_id_step(2) mod_add_left_eq)
  qed
qed simp

lemma add_mod_cancel: "(j + k) mod m = (j + l) mod m \<longleftrightarrow> k mod m = l mod (m :: nat)"
proof
  assume "(j + k) mod m = (j + l) mod m"
  then have "(int j + int k) mod int m = (int j + int l) mod int m" by (metis of_nat_add of_nat_mod)
  then have "(int j + int k - int j) mod int m = (int j + int l - int j) mod int m" by (rule mod_diff_cong) simp
  then show "k mod m = l mod m" by (simp flip: of_nat_mod)
qed (metis mod_add_right_eq)

section \<open>Properties\<close>

text \<open>C22. From any state of the generator no connection id is \<^verbatim>\<open>INVALID_CONNID\<close>, and two ids are equal
  exactly when the number of ids handed out between them is a multiple of 65535: up to 65535
  consecutive connections have distinct ids, and then the ids start over.\<close>

theorem conn_ids_period:
  "INVALID_CONNID \<notin> set (apply_ids GenConnID_applyId n g)
   \<and> (\<forall>k < n. \<forall>l < n. apply_ids GenConnID_applyId n g ! k = apply_ids GenConnID_applyId n g ! l
        \<longleftrightarrow> k mod 65535 = l mod 65535)"
proof -
  note u = conn_ids_unat [of _ n g]
  have "x \<noteq> 0" if "x \<in> set (apply_ids GenConnID_applyId n g)" for x
    using that u by (fastforce simp: in_set_conv_nth)
  moreover have "apply_ids GenConnID_applyId n g ! k = apply_ids GenConnID_applyId n g ! l \<longleftrightarrow> k mod 65535 = l mod 65535"
    if "k < n" "l < n" for k l
    unfolding word_unat_eq_iff u [OF that(1)] u [OF that(2)] using add_mod_cancel [of "phase g" k 65535 l] by simp
  ultimately show ?thesis unfolding INVALID_CONNID_def by blast
qed

theorem conn_ids_period_witness:
  "apply_ids GenConnID_applyId 3 65534 = [65534, 65535, 1] \<and> INVALID_CONNID \<notin> set (apply_ids GenConnID_applyId 3 65534)
   \<and> apply_ids GenConnID_applyId 3 65534 ! 0 \<noteq> apply_ids GenConnID_applyId 3 65534 ! 2"
proof -
  have "apply_ids GenConnID_applyId 3 65534 = [65534, 65535, 1]" by code_simp
  with conn_ids_period [of 3 65534] show ?thesis by fastforce
qed

end
