(* ===== verification/Comm_Res.thy ===== *)
theory Comm_Res
  imports Comm_Stream Threadpool Gen_Id
begin

text \<open>
  The shared state of the communication library (\<^verbatim>\<open>Communication/core/comm_res.h\<close>, \<^verbatim>\<open>.cpp\<close>,
  \<^verbatim>\<open>comm_define.h\<close>): tasks, connections, timers and the other libuv handles as objects on a heap, the
  client's tables of connections, tasks and timers, the server's table of connections, and the two
  loops. Every table operation takes its lock for its whole body and is one step on the state. The
  handle of a connection is the first member of its \<^verbatim>\<open>tcp_conn_t\<close>, so one address names both.
\<close>

section \<open>Data\<close>

datatype loop_type = CLIENT_LOOP | SERVER_LOOP

text \<open>The five task structs, by \<^verbatim>\<open>async_task_type\<close>: what each adds to \<^verbatim>\<open>abs_task_t\<close>.\<close>

datatype task_body =
    RW (rw_timeout: u32) (rw_connId: u16) (rw_indata: "byte list")
  | PUSH "byte list"
  | RESP u16 "byte list"
  | CONNECT u32 string int
  | CLOSE

record abs_task =
  t_err :: u32
  t_errmsg :: string
  t_taskId :: u64
  t_body :: task_body
  t_outdata :: "byte list"

record tcp_conn =
  tc_connId :: u16
  tc_tcp :: comm_tcp
  tc_ip :: string
  tc_port :: int

record timer_data =
  td_taskId :: u64
  td_data :: "addr option"

text \<open>A libuv handle: the loop it belongs to, what it is embedded in, whether \<^verbatim>\<open>uv_close\<close> was called,
  and whether it is reading or running. \<^verbatim>\<open>UV_TCP None\<close> is the listening socket, whose \<^verbatim>\<open>data\<close> is null.\<close>

datatype handle_kind = UV_TCP "tcp_conn option" | UV_TIMER timer_data | UV_ASYNC addr | UV_CHECK

record handle =
  h_loop :: loop_type
  h_kind :: handle_kind
  h_closing :: bool
  h_active :: bool

record client_loop =
  cl_running :: bool
  cl_inited :: bool
  cl_connTable :: "(u16, addr) smap"
  cl_taskTable :: "(u64, addr) smap"
  cl_timerTable :: "(u64, addr) smap"
  cl_pushmsg_cb :: bool
  cl_conn_cb :: bool
  cl_no_exit :: addr

record server_loop =
  sl_running :: bool
  sl_inited :: bool
  sl_connTable :: "(u16, addr) smap"
  sl_pool :: pool
  sl_listen :: addr
  sl_work_cb :: "(byte list \<Rightarrow> byte list) option"

text \<open>What the rest of the program and the peers see: callbacks, packets written, tasks notified with
  their error code and output data.\<close>

datatype effect =
    E_Conn u16 string bool
  | E_Push u16 "byte list"
  | E_Send addr "byte list"
  | E_Notify addr u32 "byte list"

text \<open>The whole state. \<open>w_tasks\<close> holds the tasks whose owner still waits for them: the owner of a task
  frees it when it is notified, so a notified task is gone and touching it is an error (\<open>None\<close>).
  \<open>w_writes\<close> and \<open>w_connects\<close> are the requests libuv will call back for.\<close>

record world =
  w_handles :: "addr \<Rightarrow> handle option"
  w_tasks :: "addr \<Rightarrow> abs_task option"
  w_brk :: addr
  w_cl :: client_loop
  w_sl :: server_loop
  w_writes :: "(addr \<times> addr) list"
  w_connects :: "(u64 \<times> addr) list"
  w_clt_gen :: u16
  w_svr_gen :: u16
  w_errmap :: "(int, string) smap"
  w_out :: "effect list"

definition emit :: "effect \<Rightarrow> world \<Rightarrow> world" where
  "emit e w = w\<lparr>w_out := w_out w @ [e]\<rparr>"

definition get_conn :: "addr \<Rightarrow> world \<Rightarrow> tcp_conn option" where
  "get_conn a w = do { h \<leftarrow> w_handles w a; case h_kind h of UV_TCP c \<Rightarrow> c | _ \<Rightarrow> None }"

definition get_timer :: "addr \<Rightarrow> world \<Rightarrow> timer_data option" where
  "get_timer a w = do { h \<leftarrow> w_handles w a; case h_kind h of UV_TIMER td \<Rightarrow> Some td | _ \<Rightarrow> None }"

definition set_handle :: "addr \<Rightarrow> handle option \<Rightarrow> world \<Rightarrow> world" where
  "set_handle a h w = w\<lparr>w_handles := (w_handles w)(a := h)\<rparr>"

definition set_conn :: "addr \<Rightarrow> tcp_conn \<Rightarrow> world \<Rightarrow> world option" where
  "set_conn a c w = do { h \<leftarrow> w_handles w a; Some (set_handle a (Some (h\<lparr>h_kind := UV_TCP (Some c)\<rparr>)) w) }"

definition new_handle :: "handle \<Rightarrow> world \<Rightarrow> addr \<times> world" where
  "new_handle h w = (w_brk w, set_handle (w_brk w) (Some h) (w\<lparr>w_brk := Suc (w_brk w)\<rparr>))"

definition set_task :: "addr \<Rightarrow> abs_task \<Rightarrow> world \<Rightarrow> world" where
  "set_task a t w = w\<lparr>w_tasks := (w_tasks w)(a := Some t)\<rparr>"

section \<open>The client's tables\<close>

definition cl_conn_find :: "u16 \<Rightarrow> world \<Rightarrow> addr option" where
  "cl_conn_find connId w = smap_find (cl_connTable (w_cl w)) connId"

definition put_cl_conns :: "(u16, addr) smap \<Rightarrow> world \<Rightarrow> world" where
  "put_cl_conns t w = w\<lparr>w_cl := w_cl w\<lparr>cl_connTable := t\<rparr>\<rparr>"

definition cl_conn_add :: "u16 \<Rightarrow> addr \<Rightarrow> world \<Rightarrow> (int \<times> world) option" where
  "cl_conn_add connId conn w = (case smap_find (cl_connTable (w_cl w)) connId of
     None \<Rightarrow> do {
       c \<leftarrow> get_conn conn w;
       w1 \<leftarrow> set_conn conn (c\<lparr>tc_connId := connId\<rparr>) w;
       Some (0, put_cl_conns (smap_put connId conn (cl_connTable (w_cl w))) w1) }
   | Some _ \<Rightarrow> Some (-1, w))"

definition cl_conn_del :: "u16 \<Rightarrow> world \<Rightarrow> addr option \<times> world" where
  "cl_conn_del connId w = (case smap_find (cl_connTable (w_cl w)) connId of
     Some conn \<Rightarrow> (Some conn, put_cl_conns (smap_erase connId (cl_connTable (w_cl w))) w)
   | None \<Rightarrow> (None, w))"

definition cl_conn_del2 :: "addr \<Rightarrow> world \<Rightarrow> world option" where
  "cl_conn_del2 conn w = do { c \<leftarrow> get_conn conn w; Some (snd (cl_conn_del (tc_connId c) w)) }"

fun find_ip :: "string \<Rightarrow> (u16, addr) smap \<Rightarrow> world \<Rightarrow> addr option option" where
  "find_ip ip [] w = Some None"
| "find_ip ip ((_, a) # t) w = do {
     c \<leftarrow> get_conn a w;
     if tc_ip c = ip then Some (Some a) else find_ip ip t w }"

definition cl_conn_find2 :: "string \<Rightarrow> world \<Rightarrow> addr option option" where
  "cl_conn_find2 ip w = find_ip ip (cl_connTable (w_cl w)) w"

definition cl_conn_list :: "world \<Rightarrow> (u16, addr) smap" where
  "cl_conn_list w = cl_connTable (w_cl w)"

definition cl_conn_clr :: "world \<Rightarrow> world" where
  "cl_conn_clr w = put_cl_conns [] w"

definition cl_conn_valid :: "u16 \<Rightarrow> world \<Rightarrow> bool" where
  "cl_conn_valid connId w = (smap_find (cl_connTable (w_cl w)) connId \<noteq> None)"

definition cl_conn_empty :: "world \<Rightarrow> bool" where
  "cl_conn_empty w = (cl_connTable (w_cl w) = [])"

definition put_cl_tasks :: "(u64, addr) smap \<Rightarrow> world \<Rightarrow> world" where
  "put_cl_tasks t w = w\<lparr>w_cl := w_cl w\<lparr>cl_taskTable := t\<rparr>\<rparr>"

definition cl_task_add :: "u64 \<Rightarrow> addr \<Rightarrow> world \<Rightarrow> world" where
  "cl_task_add taskId task w = put_cl_tasks (smap_put taskId task (cl_taskTable (w_cl w))) w"

definition cl_task_find :: "u64 \<Rightarrow> world \<Rightarrow> addr option" where
  "cl_task_find taskId w = smap_find (cl_taskTable (w_cl w)) taskId"

definition cl_task_del :: "u64 \<Rightarrow> world \<Rightarrow> addr option \<times> world" where
  "cl_task_del taskId w = (case smap_find (cl_taskTable (w_cl w)) taskId of
     Some task \<Rightarrow> (Some task, put_cl_tasks (smap_erase taskId (cl_taskTable (w_cl w))) w)
   | None \<Rightarrow> (None, w))"

text \<open>The loop of \<^verbatim>\<open>cl_task_del_by_connId\<close> over the table: the tasks taken out, in the order of the ids,
  and the entries kept.\<close>

fun split_by_connId ::
  "u16 \<Rightarrow> (u64, addr) smap \<Rightarrow> world \<Rightarrow> (addr list \<times> (u64, addr) smap) option" where
  "split_by_connId connId [] w = Some ([], [])"
| "split_by_connId connId ((k, a) # t) w = do {
     task \<leftarrow> w_tasks w a;
     (gone, kept) \<leftarrow> split_by_connId connId t w;
     case t_body task of
       RW _ c _ \<Rightarrow> if c = connId then Some (a # gone, kept) else Some (gone, (k, a) # kept)
     | _ \<Rightarrow> Some (gone, (k, a) # kept) }"

definition cl_task_del_by_connId :: "u16 \<Rightarrow> world \<Rightarrow> (addr list \<times> world) option" where
  "cl_task_del_by_connId connId w = do {
     (gone, kept) \<leftarrow> split_by_connId connId (cl_taskTable (w_cl w)) w;
     Some (gone, put_cl_tasks kept w) }"

definition cl_list_task :: "world \<Rightarrow> (u64, addr) smap" where
  "cl_list_task w = cl_taskTable (w_cl w)"

definition cl_task_clr :: "world \<Rightarrow> world" where
  "cl_task_clr w = put_cl_tasks [] w"

definition put_cl_timers :: "(u64, addr) smap \<Rightarrow> world \<Rightarrow> world" where
  "put_cl_timers t w = w\<lparr>w_cl := w_cl w\<lparr>cl_timerTable := t\<rparr>\<rparr>"

definition cl_timer_add :: "u64 \<Rightarrow> addr \<Rightarrow> world \<Rightarrow> world" where
  "cl_timer_add taskId timer w = put_cl_timers (smap_put taskId timer (cl_timerTable (w_cl w))) w"

definition cl_timer_find :: "u64 \<Rightarrow> world \<Rightarrow> addr option" where
  "cl_timer_find taskId w = smap_find (cl_timerTable (w_cl w)) taskId"

definition cl_timer_del :: "u64 \<Rightarrow> world \<Rightarrow> addr option \<times> world" where
  "cl_timer_del taskId w = (case smap_find (cl_timerTable (w_cl w)) taskId of
     Some timer \<Rightarrow> (Some timer, put_cl_timers (smap_erase taskId (cl_timerTable (w_cl w))) w)
   | None \<Rightarrow> (None, w))"

definition cl_list_timer :: "world \<Rightarrow> (u64, addr) smap" where
  "cl_list_timer w = cl_timerTable (w_cl w)"

definition cl_timer_clr :: "world \<Rightarrow> world" where
  "cl_timer_clr w = put_cl_timers [] w"

text \<open>The tables of tasks and timers.\<close>

interpretation task: id_table "\<lambda>w. smap_ok (cl_taskTable (w_cl w))" cl_task_find cl_task_add cl_task_del
  by unfold_locales (auto simp: cl_task_find_def cl_task_add_def cl_task_del_def put_cl_tasks_def map_simps split: option.splits)

interpretation timer: id_table "\<lambda>w. smap_ok (cl_timerTable (w_cl w))" cl_timer_find cl_timer_add cl_timer_del
  by unfold_locales (auto simp: cl_timer_find_def cl_timer_add_def cl_timer_del_def put_cl_timers_def map_simps split: option.splits)

section \<open>The server's table\<close>

definition put_sl_conns :: "(u16, addr) smap \<Rightarrow> world \<Rightarrow> world" where
  "put_sl_conns t w = w\<lparr>w_sl := w_sl w\<lparr>sl_connTable := t\<rparr>\<rparr>"

definition sl_conn_find :: "u16 \<Rightarrow> world \<Rightarrow> addr option" where
  "sl_conn_find connId w = smap_find (sl_connTable (w_sl w)) connId"

definition sl_conn_add :: "u16 \<Rightarrow> addr \<Rightarrow> world \<Rightarrow> (int \<times> world) option" where
  "sl_conn_add connId conn w = (case smap_find (sl_connTable (w_sl w)) connId of
     None \<Rightarrow> do {
       c \<leftarrow> get_conn conn w;
       w1 \<leftarrow> set_conn conn (c\<lparr>tc_connId := connId\<rparr>) w;
       Some (0, put_sl_conns (smap_put connId conn (sl_connTable (w_sl w))) w1) }
   | Some _ \<Rightarrow> Some (-1, w))"

definition sl_conn_del :: "u16 \<Rightarrow> world \<Rightarrow> addr option \<times> world" where
  "sl_conn_del connId w = (case smap_find (sl_connTable (w_sl w)) connId of
     Some conn \<Rightarrow> (Some conn, put_sl_conns (smap_erase connId (sl_connTable (w_sl w))) w)
   | None \<Rightarrow> (None, w))"

definition sl_conn_del2 :: "addr \<Rightarrow> world \<Rightarrow> world option" where
  "sl_conn_del2 conn w = do { c \<leftarrow> get_conn conn w; Some (snd (sl_conn_del (tc_connId c) w)) }"

definition sl_conn_list :: "world \<Rightarrow> (u16, addr) smap" where
  "sl_conn_list w = sl_connTable (w_sl w)"

definition sl_conn_clr :: "world \<Rightarrow> world" where
  "sl_conn_clr w = put_sl_conns [] w"

section \<open>Connections and asynchronous handles\<close>

text \<open>Results of libuv and system calls are inputs: \<open>r\<close> is what \<^verbatim>\<open>uv_tcp_init_ex\<close> returns.\<close>

definition init_tcp_conn :: "loop_type \<Rightarrow> int \<Rightarrow> addr \<Rightarrow> world \<Rightarrow> (int \<times> world) option" where
  "init_tcp_conn type r conn w = do {
     h \<leftarrow> w_handles w conn;
     c \<leftarrow> get_conn conn w;
     Some (r, set_handle conn (Some (h\<lparr>h_loop := type, h_kind := UV_TCP (Some (c\<lparr>tc_tcp := fresh_tcp\<rparr>))\<rparr>)) w) }"

definition new_async :: "loop_type \<Rightarrow> world \<Rightarrow> addr \<times> world" where
  "new_async type w = new_handle \<lparr>h_loop = type, h_kind = UV_ASYNC 0, h_closing = False, h_active = True\<rparr> w"

definition cl_create_async :: "world \<Rightarrow> (addr \<times> world) option" where
  "cl_create_async w =
     (if \<not> cl_inited (w_cl w) \<or> \<not> cl_running (w_cl w) then None else Some (new_async CLIENT_LOOP w))"

definition sl_create_async :: "world \<Rightarrow> (addr \<times> world) option" where
  "sl_create_async w =
     (if \<not> sl_inited (w_sl w) \<or> \<not> sl_running (w_sl w) then None else Some (new_async SERVER_LOOP w))"

text \<open>\<^verbatim>\<open>async->data = task; uv_async_send(async)\<close>.\<close>

definition async_submit :: "addr \<Rightarrow> addr \<Rightarrow> world \<Rightarrow> world option" where
  "async_submit async task w = do {
     h \<leftarrow> w_handles w async;
     Some (set_handle async (Some (h\<lparr>h_kind := UV_ASYNC task\<rparr>)) w) }"

section \<open>The life of the loops\<close>

definition init_client_loop :: "bool \<Rightarrow> bool \<Rightarrow> world \<Rightarrow> world" where
  "init_client_loop pushmsg_cb conn_cb w =
     w\<lparr>w_cl := w_cl w\<lparr>cl_inited := True, cl_running := False, cl_pushmsg_cb := pushmsg_cb, cl_conn_cb := conn_cb\<rparr>\<rparr>"

definition start_client_loop :: "world \<Rightarrow> int \<times> world" where
  "start_client_loop w =
     (let (a, w1) = new_handle \<lparr>h_loop = CLIENT_LOOP, h_kind = UV_CHECK, h_closing = False, h_active = True\<rparr> w
      in (0, w1\<lparr>w_cl := w_cl w1\<lparr>cl_no_exit := a, cl_running := True\<rparr>\<rparr>))"

text \<open>A loop thread returns from \<^verbatim>\<open>uv_run\<close> when its loop has no active or closing handle and no request;
  until then \<^verbatim>\<open>uv_thread_join\<close> in \<^verbatim>\<open>stop_*_loop\<close> waits, which is \<open>None\<close>.\<close>

definition loop_alive :: "loop_type \<Rightarrow> world \<Rightarrow> bool" where
  "loop_alive lt w \<longleftrightarrow> list_ex (\<lambda>a. case w_handles w a of
       Some h \<Rightarrow> h_loop h = lt \<and> (h_active h \<or> h_closing h) | None \<Rightarrow> False) [0..<w_brk w]
     \<or> list_ex (\<lambda>a. map_option h_loop (w_handles w a) = Some lt) (map fst (w_writes w) @ map snd (w_connects w))"

definition stop_client_loop :: "world \<Rightarrow> (int \<times> world) option" where
  "stop_client_loop w = (let w1 = w\<lparr>w_cl := w_cl w\<lparr>cl_running := False\<rparr>\<rparr> in
     if loop_alive CLIENT_LOOP w1 then None else Some (0, w1))"

definition uninit_client_loop :: "world \<Rightarrow> (int \<times> world) option" where
  "uninit_client_loop w = do {
     (_, w1) \<leftarrow> stop_client_loop w;
     Some (0, w1\<lparr>w_cl := w_cl w1\<lparr>cl_inited := False\<rparr>\<rparr>) }"

definition init_server_loop :: "(byte list \<Rightarrow> byte list) option \<Rightarrow> nat \<Rightarrow> world \<Rightarrow> world option" where
  "init_server_loop cb workthread_num w = do {
     pool \<leftarrow> threadpool_init workthread_num empty_mem;
     Some (w\<lparr>w_sl := w_sl w\<lparr>sl_pool := pool, sl_work_cb := cb, sl_inited := True, sl_running := False\<rparr>\<rparr>) }"

text \<open>\<^verbatim>\<open>_init_svr_tcp\<close>: \<open>r1\<close>, \<open>r2\<close>, \<open>r3\<close> are the results of \<^verbatim>\<open>uv_tcp_init_ex\<close>, \<^verbatim>\<open>uv_tcp_bind\<close> and \<^verbatim>\<open>uv_listen\<close>.
  On failure the handle is closed and one turn of the loop runs its close callback, which finds
  a null \<^verbatim>\<open>data\<close> pointer and does nothing.\<close>

definition init_svr_tcp :: "int \<Rightarrow> int \<Rightarrow> int \<Rightarrow> world \<Rightarrow> int \<times> world" where
  "init_svr_tcp r1 r2 r3 w =
     (if r1 \<noteq> 0 then (ERR_UV_LIBRARY, w)
      else let (a, w1) = new_handle \<lparr>h_loop = SERVER_LOOP, h_kind = UV_TCP None, h_closing = False, h_active = False\<rparr> w;
               w2 = w1\<lparr>w_sl := w_sl w1\<lparr>sl_listen := a\<rparr>\<rparr> in
        if r2 \<noteq> 0 then (ERR_UV_LIBRARY, set_handle a None w2)
        else if r3 \<noteq> 0 then (ERR_UV_LIBRARY, set_handle a None w2)
        else (0, set_handle a (Some \<lparr>h_loop = SERVER_LOOP, h_kind = UV_TCP None, h_closing = False, h_active = True\<rparr>) w2))"

definition start_server_loop :: "int \<Rightarrow> int \<Rightarrow> int \<Rightarrow> world \<Rightarrow> int \<times> world" where
  "start_server_loop r1 r2 r3 w =
     (let (err, w1) = init_svr_tcp r1 r2 r3 w in
      if err \<noteq> 0 then (-1, w1)
      else (0, w1\<lparr>w_sl := w_sl w1\<lparr>sl_running := True\<rparr>\<rparr>))"

definition stop_server_loop :: "world \<Rightarrow> (int \<times> world) option" where
  "stop_server_loop w = (let w1 = w\<lparr>w_sl := w_sl w\<lparr>sl_running := False\<rparr>\<rparr> in
     if loop_alive SERVER_LOOP w1 then None else Some (0, w1))"

definition uninit_server_loop :: "world \<Rightarrow> (int \<times> world) option" where
  "uninit_server_loop w = do {
     (_, w1) \<leftarrow> stop_server_loop w;
     Some (0, w1\<lparr>w_sl := w_sl w1\<lparr>sl_inited := False\<rparr>\<rparr>) }"

text \<open>The state when the program starts: static objects are zero, the tables are empty.\<close>

definition boot :: world where
  "boot = \<lparr>w_handles = \<lambda>_. None, w_tasks = \<lambda>_. None, w_brk = 1,
     w_cl = \<lparr>cl_running = False, cl_inited = False, cl_connTable = [], cl_taskTable = [], cl_timerTable = [],
       cl_pushmsg_cb = False, cl_conn_cb = False, cl_no_exit = 0\<rparr>,
     w_sl = \<lparr>sl_running = False, sl_inited = False, sl_connTable = [], sl_pool = the (threadpool_init 0 empty_mem),
       sl_listen = 0, sl_work_cb = None\<rparr>,
     w_writes = [], w_connects = [], w_clt_gen = 0, w_svr_gen = 0, w_errmap = ERRMAP, w_out = []\<rparr>"

end
