(* ===== verification/Comm_Core.thy ===== *)
theory Comm_Core
  imports Comm_Res
begin

text \<open>
  The callbacks of the communication library (\<^verbatim>\<open>Communication/core/comm_core.cpp\<close>), which libuv calls on
  the thread of a loop: each is a function on the state of \<open>Comm_Res\<close>. \<open>None\<close> is a call that does not
  return normally: a failed \<^verbatim>\<open>assert\<close>, an access to a freed object, a null pointer, or a wait that
  never ends. What libuv and the system return is an input.
\<close>

section \<open>Small helpers\<close>

definition running_of :: "loop_type \<Rightarrow> world \<Rightarrow> bool" where
  "running_of lt w = (case lt of CLIENT_LOOP \<Rightarrow> cl_running (w_cl w) | SERVER_LOOP \<Rightarrow> sl_running (w_sl w))"

definition inited_of :: "loop_type \<Rightarrow> world \<Rightarrow> bool" where
  "inited_of lt w = (case lt of CLIENT_LOOP \<Rightarrow> cl_inited (w_cl w) | SERVER_LOOP \<Rightarrow> sl_inited (w_sl w))"

definition set_err :: "addr \<Rightarrow> int \<Rightarrow> world \<Rightarrow> world option" where
  "set_err t e w = do { task \<leftarrow> w_tasks w t; Some (set_task t (task\<lparr>t_err := of_int e\<rparr>) w) }"

definition deactivate :: "addr \<Rightarrow> world \<Rightarrow> world option" where
  "deactivate a w = do { h \<leftarrow> w_handles w a; Some (set_handle a (Some (h\<lparr>h_active := False\<rparr>)) w) }"

definition activate :: "addr \<Rightarrow> world \<Rightarrow> world option" where
  "activate a w = do { h \<leftarrow> w_handles w a; Some (set_handle a (Some (h\<lparr>h_active := True\<rparr>)) w) }"

definition safe_uv_close :: "addr option \<Rightarrow> world \<Rightarrow> world option" where
  "safe_uv_close handle w = (case handle of
     None \<Rightarrow> Some w
   | Some a \<Rightarrow> do {
       h \<leftarrow> w_handles w a;
       if \<not> h_closing h then Some (set_handle a (Some (h\<lparr>h_closing := True, h_active := False\<rparr>)) w) else Some w })"

text \<open>\<^verbatim>\<open>uv_timer_stop\<close> and \<^verbatim>\<open>_safe_uv_close\<close> of a timer, as three of the callbacks do.\<close>

definition drop_timer :: "addr option \<Rightarrow> world \<Rightarrow> world option" where
  "drop_timer td w = (case td of
     None \<Rightarrow> Some w
   | Some a \<Rightarrow> do { w1 \<leftarrow> deactivate a w; safe_uv_close (Some a) w1 })"

section \<open>Ending a task\<close>

text \<open>The text for the task's error: \<^verbatim>\<open>task->err < 0\<close> compares an unsigned number.\<close>

definition task_errmsg :: "u32 \<Rightarrow> (int, string) smap \<Rightarrow> string \<times> (int, string) smap" where
  "task_errmsg err em = (if err < 0 then (uv_err_name True (sint err), em) else ssn_errmsg (sint err) em)"

definition notify_task :: "addr \<Rightarrow> world \<Rightarrow> world option" where
  "notify_task t w = do {
     task \<leftarrow> w_tasks w t;
     Some (emit (E_Notify t (t_err task) (t_outdata task)) (w\<lparr>w_tasks := (w_tasks w)(t := None)\<rparr>)) }"

definition write_errmsg :: "addr \<Rightarrow> world \<Rightarrow> world option" where
  "write_errmsg t w = do {
     task \<leftarrow> w_tasks w t;
     let (msg, em) = task_errmsg (t_err task) (w_errmap w) in
     Some (set_task t (task\<lparr>t_errmsg := msg\<rparr>) (w\<lparr>w_errmap := em\<rparr>)) }"

definition cl_finish_task :: "addr \<Rightarrow> world \<Rightarrow> world option" where
  "cl_finish_task t w = do {
     w1 \<leftarrow> write_errmsg t w;
     task \<leftarrow> w_tasks w1 t;
     let w2 = snd (cl_task_del (t_taskId task) w1);
     w3 \<leftarrow> (case cl_timer_find (t_taskId task) w2 of
        Some td \<Rightarrow> do { w3 \<leftarrow> drop_timer (Some td) w2; Some (snd (cl_timer_del (t_taskId task) w3)) }
      | None \<Rightarrow> Some w2);
     notify_task t w3 }"

definition sl_finish_task :: "addr \<Rightarrow> world \<Rightarrow> world option" where
  "sl_finish_task t w = do { w1 \<leftarrow> write_errmsg t w; notify_task t w1 }"

section \<open>Close, timer and write callbacks\<close>

text \<open>libuv has taken the handle out of its loop when it calls \<^verbatim>\<open>close_cb\<close>; the memory of a connection,
  timer or async handle is freed here.\<close>

definition close_cb :: "addr \<Rightarrow> world \<Rightarrow> world option" where
  "close_cb a w = do {
     h \<leftarrow> w_handles w a;
     let w1 = (case h_kind h of
       UV_TCP (Some c) \<Rightarrow>
         if tcp_kind (tc_tcp c) = TCP_CLIENT then
           (case h_loop h of
              SERVER_LOOP \<Rightarrow> snd (sl_conn_del (tc_connId c) w)
            | CLIENT_LOOP \<Rightarrow>
                let (r, w') = cl_conn_del (tc_connId c) w in
                if r \<noteq> None \<and> cl_conn_cb (w_cl w') then emit (E_Conn (tc_connId c) (tc_ip c) False) w' else w')
         else w
     | _ \<Rightarrow> w);
     Some (set_handle a None w1) }"

definition timer_cb :: "addr \<Rightarrow> world \<Rightarrow> world option" where
  "timer_cb a w = do {
     td \<leftarrow> get_timer a w;
     let w1 = snd (cl_timer_del (td_taskId td) w);
     let (task, w2) = cl_task_del (td_taskId td) w1;
     w3 \<leftarrow> (case task of
        Some t \<Rightarrow> do { w3 \<leftarrow> set_err t ERR_TIMEOUT w2; cl_finish_task t w3 }
      | None \<Rightarrow> Some w2);
     w4 \<leftarrow> safe_uv_close (td_data td) w3;
     safe_uv_close (Some a) w4 }"

text \<open>A new running timer for a task, with the handle its expiry closes.\<close>

definition start_timer :: "loop_type \<Rightarrow> u64 \<Rightarrow> addr option \<Rightarrow> world \<Rightarrow> world" where
  "start_timer lt taskId dat w =
     (let (a, w1) = new_handle \<lparr>h_loop = lt, h_kind = UV_TIMER \<lparr>td_taskId = taskId, td_data = dat\<rparr>,
          h_closing = False, h_active = True\<rparr> w
      in cl_timer_add taskId a w1)"

definition write_cb :: "addr \<Rightarrow> addr \<Rightarrow> int \<Rightarrow> world \<Rightarrow> world option" where
  "write_cb conn t status w = do {
     task \<leftarrow> w_tasks w t;
     case t_body task of
       RW timeout _ _ \<Rightarrow>
         if status \<noteq> 0 then do { w1 \<leftarrow> set_err t status w; cl_finish_task t w1 }
         else if timeout > 0 then do { h \<leftarrow> w_handles w conn; Some (start_timer (h_loop h) (t_taskId task) None w) }
         else Some w
     | PUSH _ \<Rightarrow> Some (w\<lparr>w_tasks := (w_tasks w)(t := None)\<rparr>)
     | RESP _ _ \<Rightarrow> do { w1 \<leftarrow> set_err t status w; sl_finish_task t w1 }
     | _ \<Rightarrow> None }"

section \<open>Requests on the server\<close>

text \<open>The address of \<^verbatim>\<open>svr_work_cb\<close> as a callback of the thread pool.\<close>

definition SVR_WORK_CB :: u64 where "SVR_WORK_CB = 1"

partial_function (option) retry_push :: "int \<Rightarrow> u64 \<Rightarrow> pool \<Rightarrow> pool option" where
  "retry_push err task p =
     (if err = -1 then do { (_, p1) \<leftarrow> threadpool_push_work task SVR_WORK_CB 0 p; retry_push err task p1 }
      else Some p)"

definition new_task :: "abs_task \<Rightarrow> world \<Rightarrow> addr \<times> world" where
  "new_task t w = (w_brk w, set_task (w_brk w) t (w\<lparr>w_brk := Suc (w_brk w)\<rparr>))"

definition server_handler_req :: "u16 \<Rightarrow> u64 \<Rightarrow> byte list \<Rightarrow> world \<Rightarrow> world option" where
  "server_handler_req connId taskId dat w =
     (let (t, w1) = new_task \<lparr>t_err = 0, t_errmsg = '''', t_taskId = taskId, t_body = RESP connId dat, t_outdata = []\<rparr> w
      in do {
        (err, p) \<leftarrow> threadpool_push_work (of_nat t) SVR_WORK_CB 0 (sl_pool (w_sl w1));
        p' \<leftarrow> retry_push err (of_nat t) p;
        Some (w1\<lparr>w_sl := w_sl w1\<lparr>sl_pool := p'\<rparr>\<rparr>) })"

text \<open>\<^verbatim>\<open>svr_work_cb\<close> on a worker thread, up to its wait for the notification: the user's function computes
  the answer, and an async handle brings the task back to the server loop. The handle pointer is
  used without a null check.\<close>

definition svr_work_cb :: "addr \<Rightarrow> world \<Rightarrow> world option" where
  "svr_work_cb t w = do {
     task \<leftarrow> w_tasks w t;
     w1 \<leftarrow> (case t_body task of
        RESP connId dat \<Rightarrow> Some (case sl_work_cb (w_sl w) of
            Some cb \<Rightarrow> set_task t (task\<lparr>t_body := RESP connId (cb dat)\<rparr>) w
          | None \<Rightarrow> w)
      | _ \<Rightarrow> None);
     (a, w2) \<leftarrow> sl_create_async w1;
     async_submit a t w2 }"

section \<open>Reading\<close>

definition client_pkg :: "u16 \<Rightarrow> comm_pkg \<Rightarrow> world \<Rightarrow> world option" where
  "client_pkg connId pkg w =
     (if pkg_type pkg = PKG_TYPE_COMMON then
        let (task, w1) = cl_task_del (pkg_taskId pkg) w; (td, w2) = cl_timer_del (pkg_taskId pkg) w1 in do {
          w3 \<leftarrow> drop_timer td w2;
          case task of
            None \<Rightarrow> Some w3
          | Some t \<Rightarrow> do {
              tk \<leftarrow> w_tasks w3 t;
              case t_body tk of
                RW _ _ _ \<Rightarrow> cl_finish_task t (set_task t (tk\<lparr>t_err := 0, t_outdata := pkg_data pkg\<rparr>) w3)
              | _ \<Rightarrow> None } }
      else if pkg_type pkg = PKG_TYPE_PUSH then
        Some (if cl_pushmsg_cb (w_cl w) then emit (E_Push connId (pkg_data pkg)) w else w)
      else None)"

definition server_pkg :: "u16 \<Rightarrow> comm_pkg \<Rightarrow> world \<Rightarrow> world option" where
  "server_pkg connId pkg w =
     (if pkg_type pkg = PKG_TYPE_COMMON then server_handler_req connId (pkg_taskId pkg) (pkg_data pkg) w
      else if pkg_type pkg = PKG_TYPE_ALIVE then Some w
      else None)"

fun each_pkg :: "(comm_pkg \<Rightarrow> world \<Rightarrow> world option) \<Rightarrow> comm_pkg list \<Rightarrow> world \<Rightarrow> world option" where
  "each_pkg f [] w = Some w"
| "each_pkg f (p # ps) w = do { w1 \<leftarrow> f p w; each_pkg f ps w1 }"

definition read_content_process :: "addr \<Rightarrow> int \<Rightarrow> byte list \<Rightarrow> world \<Rightarrow> world option" where
  "read_content_process a sz content w = do {
     h \<leftarrow> w_handles w a;
     conn \<leftarrow> get_conn a w;
     (tcp, taskList) \<leftarrow> read_content_parse (tc_tcp conn) sz content;
     w1 \<leftarrow> set_conn a (conn\<lparr>tc_tcp := tcp\<rparr>) w;
     case h_loop h of
       CLIENT_LOOP \<Rightarrow> each_pkg (client_pkg (tc_connId conn)) taskList w1
     | SERVER_LOOP \<Rightarrow>
         if sl_conn_find (tc_connId conn) w1 \<noteq> None then each_pkg (server_pkg (tc_connId conn)) taskList w1
         else Some w1 }"

text \<open>\<^verbatim>\<open>read_cb\<close>. After a read error the client takes the tasks of the connection out of the table and
  passes \<^verbatim>\<open>&(*it)\<close>, the address of a slot of the vector, to \<^verbatim>\<open>_cl_finish_task\<close>, which takes it for
  a task: with at least one such task the call has no defined result.\<close>

definition read_cb :: "addr \<Rightarrow> int \<Rightarrow> byte list \<Rightarrow> world \<Rightarrow> world option" where
  "read_cb a nread buf w =
     (if nread = 0 then Some w
      else if nread < 0 then do {
        w1 \<leftarrow> deactivate a w;
        w2 \<leftarrow> safe_uv_close (Some a) w1;
        h \<leftarrow> w_handles w2 a;
        conn \<leftarrow> get_conn a w2;
        case h_loop h of
          CLIENT_LOOP \<Rightarrow> do {
            let w3 = snd (cl_conn_del (tc_connId conn) w2);
            let w4 = (if cl_conn_cb (w_cl w3) then emit (E_Conn (tc_connId conn) (tc_ip conn) False) w3 else w3);
            (tasks, w5) \<leftarrow> cl_task_del_by_connId (tc_connId conn) w4;
            if tasks = [] then Some w5 else None }
        | SERVER_LOOP \<Rightarrow> Some (snd (sl_conn_del (tc_connId conn) w2)) }
      else read_content_process a nread buf w)"

section \<open>Accepting, writing, connecting\<close>

text \<open>What libuv and the system answer during one callback.\<close>

datatype write_res = W_Err int | W_Sent | W_Partial

record io =
  io_init :: int
  io_accept :: int
  io_peer :: int
  io_connect :: int
  io_ip :: string
  io_write :: "addr \<Rightarrow> write_res"
  io_junk :: u64

text \<open>\<^verbatim>\<open>listen_cb\<close>: deleting a connection whose handle libuv has initialised, or is closing, frees memory
  libuv still uses.\<close>

definition listen_cb :: "int \<Rightarrow> io \<Rightarrow> world \<Rightarrow> world option" where
  "listen_cb status i w =
     (if status \<noteq> 0 then Some w
      else let (a, w1) = new_handle \<lparr>h_loop = SERVER_LOOP,
             h_kind = UV_TCP (Some \<lparr>tc_connId = 0, tc_tcp = fresh_tcp, tc_ip = '''', tc_port = 0\<rparr>),
             h_closing = False, h_active = False\<rparr> w
      in do {
        (err, w2) \<leftarrow> init_tcp_conn SERVER_LOOP (io_init i) a w1;
        if err \<noteq> 0 then Some (set_handle a None w2)
        else if io_accept i \<noteq> 0 then None
        else if io_peer i \<noteq> 0 then None
        else do {
          c \<leftarrow> get_conn a w2;
          w3 \<leftarrow> set_conn a (c\<lparr>tc_ip := io_ip i, tc_port := -1\<rparr>) w2;
          let (connId, g) = GenConnID_applyId (w_svr_gen w3);
          (_, w4) \<leftarrow> sl_conn_add connId a (w3\<lparr>w_svr_gen := g\<rparr>);
          activate a w4 } })"

definition pkg_type_of :: "task_body \<Rightarrow> byte option" where
  "pkg_type_of b = (case b of
     RW _ _ _ \<Rightarrow> Some PKG_TYPE_COMMON | PUSH _ \<Rightarrow> Some PKG_TYPE_PUSH | RESP _ _ \<Rightarrow> Some PKG_TYPE_COMMON | _ \<Rightarrow> None)"

text \<open>\<^verbatim>\<open>_do_write\<close> releases the packet right after \<^verbatim>\<open>uv_write\<close>, so a write that libuv cannot finish at
  once will read freed memory: \<^verbatim>\<open>W_Partial\<close> has no defined result.\<close>

definition do_write :: "addr \<Rightarrow> byte list \<Rightarrow> addr \<Rightarrow> io \<Rightarrow> world \<Rightarrow> (int \<times> world) option" where
  "do_write conn indata t i w = do {
     task \<leftarrow> w_tasks w t;
     ty \<leftarrow> pkg_type_of (t_body task);
     _ \<leftarrow> w_handles w conn;
     let pkg = proto_build_package indata (int (length indata)) ty (t_taskId task);
     case io_write i conn of
       W_Sent \<Rightarrow> Some (0, emit (E_Send conn (pkg_bytes pkg)) (w\<lparr>w_writes := w_writes w @ [(conn, t)]\<rparr>))
     | W_Partial \<Rightarrow> None
     | W_Err r \<Rightarrow> do { w1 \<leftarrow> set_err t r w; Some (r, w1) } }"

definition connect_cb :: "u64 \<Rightarrow> addr \<Rightarrow> int \<Rightarrow> world \<Rightarrow> world option" where
  "connect_cb taskId conn status w =
     (let (task, w1) = cl_task_del taskId w in
      case task of
        None \<Rightarrow> Some w1
      | Some t \<Rightarrow> do {
          tk \<leftarrow> w_tasks w1 t;
          let (td, w2) = cl_timer_del (t_taskId tk) w1;
          w3 \<leftarrow> drop_timer td w2;
          if status \<noteq> 0 then do {
            w4 \<leftarrow> safe_uv_close (Some conn) w3;
            w5 \<leftarrow> set_err t status w4;
            cl_finish_task t w5 }
          else do {
            let (connId, g) = GenConnID_applyId (w_clt_gen w3);
            c \<leftarrow> get_conn conn w3;
            w4 \<leftarrow> set_conn conn (c\<lparr>tc_connId := connId\<rparr>) (w3\<lparr>w_clt_gen := g\<rparr>);
            (_, w5) \<leftarrow> cl_conn_add connId conn w4;
            let w6 = (if cl_conn_cb (w_cl w5) then emit (E_Conn connId (tc_ip c) True) w5 else w5);
            w7 \<leftarrow> activate conn w6;
            w8 \<leftarrow> set_err t 0 w7;
            cl_finish_task t w8 } })"

definition do_connect :: "addr \<Rightarrow> io \<Rightarrow> world \<Rightarrow> (int \<times> world) option" where
  "do_connect t i w = do {
     task \<leftarrow> w_tasks w t;
     case t_body task of
       CONNECT timeout ip port \<Rightarrow> do {
         found \<leftarrow> cl_conn_find2 ip w;
         if found \<noteq> None then do { w1 \<leftarrow> set_err t ERR_CONN_ALREADY_EXIST w; Some (-1, w1) }
         else do {
           let (conn, w1) = new_handle \<lparr>h_loop = CLIENT_LOOP,
             h_kind = UV_TCP (Some \<lparr>tc_connId = INVALID_CONNID, tc_tcp = fresh_tcp, tc_ip = ip, tc_port = port\<rparr>),
             h_closing = False, h_active = False\<rparr> w;
           (err, w2) \<leftarrow> init_tcp_conn CLIENT_LOOP (io_init i) conn w1;
           if err \<noteq> 0 then do { w3 \<leftarrow> set_err t err (set_handle conn None w2); Some (-1, w3) }
           else if io_connect i \<noteq> 0 then do {
             w3 \<leftarrow> set_err t (io_connect i) w2;
             w4 \<leftarrow> safe_uv_close (Some conn) w3;
             Some (-1, w4) }
           else
             let w3 = w2\<lparr>w_connects := w_connects w2 @ [(t_taskId task, conn)]\<rparr> in
             Some (0, if timeout > 0 then start_timer CLIENT_LOOP (t_taskId task) (Some conn) w3 else w3) } }
     | _ \<Rightarrow> None }"

text \<open>\<^verbatim>\<open>_do_push\<close>: a task per connection, whose \<^verbatim>\<open>taskId\<close> is never set (\<open>io_junk\<close>).\<close>

fun push_each :: "byte list \<Rightarrow> io \<Rightarrow> (u16, addr) smap \<Rightarrow> world \<Rightarrow> world option" where
  "push_each indata i [] w = Some w"
| "push_each indata i ((_, conn) # cs) w =
     (let (t, w1) = new_task \<lparr>t_err = 0, t_errmsg = '''', t_taskId = io_junk i, t_body = PUSH [], t_outdata = []\<rparr> w
      in do {
        (r, w2) \<leftarrow> do_write conn indata t i w1;
        push_each indata i cs (if r \<noteq> 0 then w2\<lparr>w_tasks := (w_tasks w2)(t := None)\<rparr> else w2) })"

definition do_push :: "addr \<Rightarrow> io \<Rightarrow> world \<Rightarrow> world option" where
  "do_push t i w = do {
     task \<leftarrow> w_tasks w t;
     case t_body task of
       PUSH indata \<Rightarrow> do { w1 \<leftarrow> push_each indata i (sl_conn_list w) w; set_err t 0 w1 }
     | _ \<Rightarrow> None }"

section \<open>Shutting down and dispatching\<close>

fun each_addr :: "(addr \<Rightarrow> world \<Rightarrow> world option) \<Rightarrow> addr list \<Rightarrow> world \<Rightarrow> world option" where
  "each_addr f [] w = Some w"
| "each_addr f (a # as) w = do { w1 \<leftarrow> f a w; each_addr f as w1 }"

definition stop_and_close :: "addr \<Rightarrow> world \<Rightarrow> world option" where
  "stop_and_close a w = do { w1 \<leftarrow> deactivate a w; safe_uv_close (Some a) w1 }"

definition close_timer_and_data :: "addr \<Rightarrow> world \<Rightarrow> world option" where
  "close_timer_and_data a w = do {
     w1 \<leftarrow> safe_uv_close (Some a) w;
     td \<leftarrow> get_timer a w1;
     safe_uv_close (td_data td) w1 }"

definition finish_shutdown :: "addr \<Rightarrow> world \<Rightarrow> world option" where
  "finish_shutdown t w = do { w1 \<leftarrow> set_err t ERR_SHUTDOWN w; cl_finish_task t w1 }"

definition client_shutdown :: "world \<Rightarrow> world option" where
  "client_shutdown w = do {
     let w1 = w\<lparr>w_cl := w_cl w\<lparr>cl_running := False\<rparr>\<rparr>;
     w2 \<leftarrow> each_addr stop_and_close (map snd (cl_conn_list w1)) w1;
     w3 \<leftarrow> each_addr close_timer_and_data (map snd (cl_list_timer w2)) w2;
     let w4 = cl_conn_clr (cl_timer_clr w3);
     w5 \<leftarrow> each_addr finish_shutdown (map snd (cl_list_task w4)) w4;
     stop_and_close (cl_no_exit (w_cl w5)) (cl_task_clr w5) }"

text \<open>\<^verbatim>\<open>threadpool_uninit\<close> called on the loop thread. A job still queued has a null \<^verbatim>\<open>after_proc\<close>, which the
  pool calls; a worker that has not finished its job needs the loop (to be handed its notification,
  or a handle from \<^verbatim>\<open>sl_create_async\<close>, which is null by now), so the join does not return.\<close>

definition resp_outstanding :: "world \<Rightarrow> bool" where
  "resp_outstanding w \<longleftrightarrow> list_ex (\<lambda>t. case w_tasks w t of
     Some task \<Rightarrow> (case t_body task of RESP _ _ \<Rightarrow> True | _ \<Rightarrow> False) | None \<Rightarrow> False) [0..<w_brk w]"

definition join_pool :: "world \<Rightarrow> world option" where
  "join_pool w = (if jobs (sl_pool (w_sl w)) \<noteq> [] \<or> resp_outstanding w then None else Some w)"

definition server_shutdown :: "world \<Rightarrow> world option" where
  "server_shutdown w = do {
     let w1 = w\<lparr>w_sl := w_sl w\<lparr>sl_running := False\<rparr>\<rparr>;
     w2 \<leftarrow> safe_uv_close (Some (sl_listen (w_sl w1))) w1;
     let allconn = map snd (sl_conn_list w2);
     w3 \<leftarrow> each_addr deactivate allconn w2;
     w4 \<leftarrow> join_pool w3;
     w5 \<leftarrow> each_addr (\<lambda>a. safe_uv_close (Some a)) allconn w4;
     Some (sl_conn_clr w5) }"

definition do_shutdown :: "loop_type \<Rightarrow> world \<Rightarrow> world option" where
  "do_shutdown lt w = (case lt of
     CLIENT_LOOP \<Rightarrow> do { w1 \<leftarrow> client_shutdown w; Some (w1\<lparr>w_cl := w_cl w1\<lparr>cl_running := False\<rparr>\<rparr>) }
   | SERVER_LOOP \<Rightarrow> do { w1 \<leftarrow> server_shutdown w; Some (w1\<lparr>w_sl := w_sl w1\<lparr>sl_running := False\<rparr>\<rparr>) })"

definition finish_on :: "loop_type \<Rightarrow> addr \<Rightarrow> world \<Rightarrow> world option" where
  "finish_on lt t w = (case lt of CLIENT_LOOP \<Rightarrow> cl_finish_task t w | SERVER_LOOP \<Rightarrow> sl_finish_task t w)"

definition run_task :: "loop_type \<Rightarrow> addr \<Rightarrow> io \<Rightarrow> world \<Rightarrow> world option" where
  "run_task lt t i w = do {
     task \<leftarrow> w_tasks w t;
     case t_body task of
       RW _ connId indata \<Rightarrow> do {
         let w1 = cl_task_add (t_taskId task) t w;
         case cl_conn_find connId w1 of
           None \<Rightarrow> do { w2 \<leftarrow> set_err t ERR_CONN_NOT_EXIST w1; cl_finish_task t w2 }
         | Some conn \<Rightarrow> do {
             (r, w2) \<leftarrow> do_write conn indata t i w1;
             if r \<noteq> 0 then cl_finish_task t w2 else Some w2 } }
     | RESP connId dat \<Rightarrow> (case sl_conn_find connId w of
           None \<Rightarrow> do { w1 \<leftarrow> set_err t ERR_CONN_NOT_EXIST w; sl_finish_task t w1 }
         | Some conn \<Rightarrow> do {
             (r, w1) \<leftarrow> do_write conn dat t i w;
             if r \<noteq> 0 then sl_finish_task t w1 else Some w1 })
     | PUSH _ \<Rightarrow> do { w1 \<leftarrow> do_push t i w; sl_finish_task t w1 }
     | CONNECT _ _ _ \<Rightarrow> do {
         (r, w1) \<leftarrow> do_connect t i (cl_task_add (t_taskId task) t w);
         if r \<noteq> 0 then cl_finish_task t w1 else Some w1 }
     | CLOSE \<Rightarrow> do { w1 \<leftarrow> do_shutdown lt w; finish_on lt t w1 } }"

definition async_cb :: "addr \<Rightarrow> io \<Rightarrow> world \<Rightarrow> world option" where
  "async_cb a i w = do {
     h \<leftarrow> w_handles w a;
     case h_kind h of
       UV_ASYNC t \<Rightarrow>
         if \<not> running_of (h_loop h) w \<or> \<not> inited_of (h_loop h) w then do {
           w1 \<leftarrow> set_err t ERR_NOT_READY w;
           w2 \<leftarrow> finish_on (h_loop h) t w1;
           safe_uv_close (Some a) w2 }
         else do {
           w1 \<leftarrow> run_task (h_loop h) t i w;
           safe_uv_close (Some a) w1 }
     | _ \<Rightarrow> None }"

end
