(* ===== verification/Client_Loop.thy ===== *)
theory Client_Loop
  imports Comm_Core
begin

text \<open>
  The client loop as a state machine: user threads submit tasks, libuv calls the callbacks of
  \<open>Comm_Core\<close>, in any order libuv allows. The invariant says that no caller is lost: a task whose owner
  still waits is either in an async handle the loop has not run yet or in the task table, where
  a reply, a timer or the shutdown will find it; and every task is notified at most once.
\<close>

section \<open>Steps\<close>

definition client_task :: "abs_task \<Rightarrow> bool" where
  "client_task task = (case t_body task of RW _ _ _ \<Rightarrow> True | CONNECT _ _ _ \<Rightarrow> True | _ \<Rightarrow> False)"

text \<open>\<open>pend w a t\<close>: \<open>a\<close> is an async handle of the client loop that carries \<open>t\<close> and has not been run.\<close>

definition pend :: "world \<Rightarrow> addr \<Rightarrow> addr \<Rightarrow> bool" where
  "pend w a t \<longleftrightarrow> (\<exists>h. w_handles w a = Some h \<and> h_loop h = CLIENT_LOOP \<and> h_kind h = UV_ASYNC t \<and> \<not> h_closing h)"

definition fresh_id :: "u64 \<Rightarrow> world \<Rightarrow> bool" where
  "fresh_id tid w \<longleftrightarrow> list_all (\<lambda>t. case w_tasks w t of
     Some task \<Rightarrow> client_task task \<longrightarrow> t_taskId task \<noteq> tid | None \<Rightarrow> True) [0..<w_brk w]"

lemma fresh_idD: "fresh_id tid w \<Longrightarrow> t < w_brk w \<Longrightarrow> w_tasks w t = Some task \<Longrightarrow> client_task task \<Longrightarrow> t_taskId task \<noteq> tid"
  by (force simp: fresh_id_def list_all_iff)

text \<open>What the loop does on its own thread.\<close>

inductive cl_event :: "world \<Rightarrow> world \<Rightarrow> bool" where
  ev_async: "pend w a t \<Longrightarrow> async_cb a i w = Some w' \<Longrightarrow> cl_event w w'"
| ev_read: "w_handles w a = Some h \<Longrightarrow> h_loop h = CLIENT_LOOP \<Longrightarrow> h_kind h = UV_TCP (Some c) \<Longrightarrow> h_active h \<Longrightarrow>
    read_cb a nread buf w = Some w' \<Longrightarrow> cl_event w w'"
| ev_write: "(conn, t) \<in> set (w_writes w) \<Longrightarrow> w_tasks w t = Some task \<Longrightarrow> client_task task \<Longrightarrow>
    write_cb conn t status (w\<lparr>w_writes := remove1 (conn, t) (w_writes w)\<rparr>) = Some w' \<Longrightarrow> cl_event w w'"
| ev_connect: "(tid, conn) \<in> set (w_connects w) \<Longrightarrow>
    connect_cb tid conn status (w\<lparr>w_connects := remove1 (tid, conn) (w_connects w)\<rparr>) = Some w' \<Longrightarrow> cl_event w w'"
| ev_timer: "w_handles w a = Some h \<Longrightarrow> h_kind h = UV_TIMER td \<Longrightarrow> h_active h \<Longrightarrow> timer_cb a w = Some w' \<Longrightarrow> cl_event w w'"
| ev_close: "w_handles w a = Some h \<Longrightarrow> h_loop h = CLIENT_LOOP \<Longrightarrow> h_closing h \<Longrightarrow> close_cb a w = Some w' \<Longrightarrow> cl_event w w'"

text \<open>A step: a thread submits a task under an id no other task has, or the loop runs a callback.\<close>

inductive cl_step :: "world \<Rightarrow> world \<Rightarrow> bool" where
  ev_submit: "cl_create_async w = Some (a, w1) \<Longrightarrow> new_task task w1 = (t, w2) \<Longrightarrow> async_submit a t w2 = Some w' \<Longrightarrow>
    t_body task = CLOSE \<or> client_task task \<and> fresh_id (t_taskId task) w \<Longrightarrow> cl_step w w'"
| ev_loop: "cl_event w w' \<Longrightarrow> cl_step w w'"

abbreviation cl_reach :: "world \<Rightarrow> world \<Rightarrow> bool" where
  "cl_reach \<equiv> reach cl_step"

section \<open>The invariant\<close>

definition notified :: "world \<Rightarrow> addr list" where
  "notified w = concat (map (\<lambda>e. case e of E_Notify t _ _ \<Rightarrow> [t] | _ \<Rightarrow> []) (w_out w))"

definition is_async :: "handle \<Rightarrow> bool" where
  "is_async h = (case h_kind h of UV_ASYNC _ \<Rightarrow> True | _ \<Rightarrow> False)"

text \<open>An address that is not, and never becomes, an async handle.\<close>

definition nonasync :: "world \<Rightarrow> addr \<Rightarrow> bool" where
  "nonasync w a \<longleftrightarrow> a < w_brk w \<and> (\<forall>h. w_handles w a = Some h \<longrightarrow> \<not> is_async h)"

definition heap_ok :: "world \<Rightarrow> bool" where
  "heap_ok w \<longleftrightarrow> (\<forall>a \<ge> w_brk w. w_handles w a = None \<and> w_tasks w a = None)
     \<and> distinct (notified w) \<and> (\<forall>t \<in> set (notified w). w_tasks w t = None \<and> t < w_brk w)"

text \<open>The loop is initialised and its tables are maps.\<close>

definition maps_ok :: "world \<Rightarrow> bool" where
  "maps_ok w \<longleftrightarrow> cl_inited (w_cl w) \<and> smap_ok (cl_connTable (w_cl w)) \<and> smap_ok (cl_taskTable (w_cl w)) \<and> smap_ok (cl_timerTable (w_cl w))"

text \<open>The handles the client refers to other than through async handles.\<close>

definition refs :: "world \<Rightarrow> addr set" where
  "refs w = snd ` set (cl_connTable (w_cl w)) \<union> snd ` set (cl_timerTable (w_cl w)) \<union> snd ` set (w_connects w)
     \<union> {cl_no_exit (w_cl w)} \<union> {c. \<exists>a td. get_timer a w = Some td \<and> td_data td = Some c}"

definition refs_ok :: "world \<Rightarrow> bool" where
  "refs_ok w \<longleftrightarrow> maps_ok w \<and> (\<forall>a \<in> refs w. nonasync w a)"

text \<open>The tasks: \<open>T\<close> is the task a callback is working on, which may be out of place for the moment.\<close>

definition tasks_ok :: "addr option \<Rightarrow> world \<Rightarrow> bool" where
  "tasks_ok T w \<longleftrightarrow>
     (\<forall>tid t. cl_task_find tid w = Some t \<longrightarrow> (\<exists>task. w_tasks w t = Some task \<and> t_taskId task = tid \<and> client_task task))
   \<and> (\<forall>t task. w_tasks w t = Some task \<longrightarrow> client_task task \<longrightarrow>
        (\<exists>a. pend w a t) \<or> cl_task_find (t_taskId task) w = Some t \<or> T = Some t)
   \<and> (\<forall>t t' task task'. w_tasks w t = Some task \<longrightarrow> w_tasks w t' = Some task' \<longrightarrow> client_task task \<longrightarrow> client_task task'
        \<longrightarrow> t_taskId task = t_taskId task' \<longrightarrow> t = t')
   \<and> (\<forall>a t. pend w a t \<longrightarrow> T = Some t \<or>
        (\<exists>task. w_tasks w t = Some task \<and> (client_task task \<or> t_body task = CLOSE) \<and> cl_task_find (t_taskId task) w \<noteq> Some t))
   \<and> (\<forall>a a' t. pend w a t \<longrightarrow> pend w a' t \<longrightarrow> a = a')
   \<and> (T = None \<longrightarrow> \<not> cl_running (w_cl w) \<longrightarrow> (\<forall>tid. cl_task_find tid w = None))"

text \<open>A task with a write request has been run.\<close>

definition writes_ok :: "addr option \<Rightarrow> world \<Rightarrow> bool" where
  "writes_ok T w \<longleftrightarrow> (\<forall>t \<in> snd ` set (w_writes w). t < w_brk w \<and> (\<forall>a. pend w a t \<longrightarrow> T = Some t))"

definition cl_inv :: "addr option \<Rightarrow> world \<Rightarrow> bool" where
  "cl_inv T w \<longleftrightarrow> heap_ok w \<and> refs_ok w \<and> tasks_ok T w \<and> writes_ok T w"

section \<open>Steps that leave the tasks alone\<close>

text \<open>All that \<open>tasks_ok\<close> reads of the state.\<close>

definition view where
  "view w = (\<lambda>t. map_option (\<lambda>k. (t_taskId k, t_body k)) (w_tasks w t), cl_taskTable (w_cl w),
     cl_running (w_cl w), pend w, notified w)"

definition base_ok :: "world \<Rightarrow> bool" where
  "base_ok w \<longleftrightarrow> heap_ok w \<and> refs_ok w"

definition keeps :: "world \<Rightarrow> world \<Rightarrow> bool" where
  "keeps w w' \<longleftrightarrow> (base_ok w \<longrightarrow> base_ok w' \<and> view w' = view w \<and> (\<forall>a. nonasync w a \<longrightarrow> nonasync w' a)
     \<and> set (w_writes w') \<subseteq> set (w_writes w) \<and> w_brk w \<le> w_brk w')"

lemma keeps_refl [simp, intro]: "keeps w w"
  by (simp add: keeps_def)

lemma keeps_trans [trans]: "keeps w w' \<Longrightarrow> keeps w' w'' \<Longrightarrow> keeps w w''"
  by (auto simp: keeps_def)

lemma view_task:
  assumes "view w' = view w" "w_tasks w t = Some task"
  shows "\<exists>task'. w_tasks w' t = Some task' \<and> t_taskId task' = t_taskId task \<and> t_body task' = t_body task"
proof -
  from assms(1) have "(\<lambda>t. map_option (\<lambda>k. (t_taskId k, t_body k)) (w_tasks w' t)) = (\<lambda>t. map_option (\<lambda>k. (t_taskId k, t_body k)) (w_tasks w t))"
    unfolding view_def by (rule Pair_inject)
  from fun_cong [OF this, of t] assms(2) show ?thesis by (cases "w_tasks w' t") simp_all
qed

lemma client_task_cong: "t_body task' = t_body task \<Longrightarrow> client_task task' = client_task task"
  by (simp add: client_task_def)

lemma tasks_ok_view1:
  assumes "view w' = view w" "tasks_ok T w"
  shows "tasks_ok T w'"
proof -
  note v = view_task [OF assms(1)] view_task [OF assms(1) [symmetric]]
  have e: "pend w' = pend w" "\<And>tid. cl_task_find tid w' = cl_task_find tid w" "cl_running (w_cl w') = cl_running (w_cl w)"
    using assms(1) by (auto simp: view_def cl_task_find_def)
  note o = assms(2) [unfolded tasks_ok_def]
  show ?thesis unfolding tasks_ok_def e
  proof (intro conjI allI impI)
    fix tid t assume "cl_task_find tid w = Some t"
    with o obtain task where "w_tasks w t = Some task" "t_taskId task = tid" "client_task task" by blast
    with v(1) show "\<exists>task. w_tasks w' t = Some task \<and> t_taskId task = tid \<and> client_task task"
      using client_task_cong by blast
  next
    fix t task assume "w_tasks w' t = Some task" "client_task task"
    with v(2) obtain task' where "w_tasks w t = Some task'" "t_taskId task' = t_taskId task" "client_task task'"
      using client_task_cong by blast
    with o show "(\<exists>a. pend w a t) \<or> cl_task_find (t_taskId task) w = Some t \<or> T = Some t" by metis
  next
    fix t t' task task' assume a: "w_tasks w' t = Some task" "w_tasks w' t' = Some task'" "client_task task" "client_task task'"
      "t_taskId task = t_taskId task'"
    from v(2) [OF a(1)] v(2) [OF a(2)] obtain k k' where "w_tasks w t = Some k" "w_tasks w t' = Some k'"
      "client_task k" "client_task k'" "t_taskId k = t_taskId k'"
      using client_task_cong a by metis
    with o show "t = t'" by blast
  next
    fix a t assume "pend w a t"
    with o consider "T = Some t" | task where "w_tasks w t = Some task" "client_task task \<or> t_body task = CLOSE"
      "cl_task_find (t_taskId task) w \<noteq> Some t" by blast
    then show "T = Some t \<or> (\<exists>task. w_tasks w' t = Some task \<and> (client_task task \<or> t_body task = CLOSE) \<and> cl_task_find (t_taskId task) w \<noteq> Some t)"
    proof cases
      case 2
      from v(1) [OF 2(1)] 2(2,3) client_task_cong show ?thesis by metis
    qed simp
  qed (use o in blast)+
qed

lemma writes_mono: "writes_ok T w \<Longrightarrow> set (w_writes w') \<subseteq> set (w_writes w) \<Longrightarrow> w_brk w \<le> w_brk w' \<Longrightarrow> pend w' = pend w \<Longrightarrow> writes_ok T w'"
  unfolding writes_ok_def by fastforce

lemma keeps_inv:
  assumes "cl_inv T w" "keeps w w'"
  shows "cl_inv T w'"
proof -
  have b: "base_ok w" using assms(1) by (simp add: cl_inv_def base_ok_def)
  with assms(2) have k: "base_ok w'" "view w' = view w" "set (w_writes w') \<subseteq> set (w_writes w)" "w_brk w \<le> w_brk w'"
    by (auto simp: keeps_def)
  then have "pend w' = pend w" by (simp add: view_def)
  with k assms(1) tasks_ok_view1 [OF k(2)] writes_mono [of T w w'] show ?thesis by (simp add: cl_inv_def base_ok_def)
qed

text \<open>\<open>keepsI\<close> splits the obligation; the next lemmas are the primitive updates.\<close>

lemma keepsI:
  assumes "heap_ok w \<Longrightarrow> heap_ok w'" "maps_ok w \<Longrightarrow> maps_ok w'" "heap_ok w \<Longrightarrow> view w' = view w"
    "\<And>a. nonasync w a \<Longrightarrow> nonasync w' a" "\<And>a. a \<in> refs w' \<Longrightarrow> a \<in> refs w \<or> nonasync w' a"
    "set (w_writes w') \<subseteq> set (w_writes w)" "w_brk w \<le> w_brk w'"
  shows "keeps w w'"
  using assms by (auto simp: keeps_def base_ok_def refs_ok_def)

lemma notified_simps [simp]:
  "notified (w\<lparr>w_handles := hs\<rparr>) = notified w" "notified (w\<lparr>w_tasks := ts\<rparr>) = notified w"
  "notified (w\<lparr>w_cl := c\<rparr>) = notified w" "notified (w\<lparr>w_brk := b\<rparr>) = notified w"
  "notified (w\<lparr>w_writes := x1\<rparr>) = notified w" "notified (w\<lparr>w_connects := x2\<rparr>) = notified w"
  "notified (w\<lparr>w_clt_gen := x3\<rparr>) = notified w" "notified (w\<lparr>w_errmap := x4\<rparr>) = notified w"
  "notified (w\<lparr>w_sl := x5\<rparr>) = notified w" "notified (w\<lparr>w_svr_gen := x6\<rparr>) = notified w"
  by (simp_all add: notified_def)

text \<open>A world whose handles, tasks, client loop, allocation mark, connect requests and notifications agree
  has the same invariant.\<close>

lemma keeps_same:
  assumes "w_handles w' = w_handles w" "w_tasks w' = w_tasks w" "w_brk w' = w_brk w" "w_cl w' = w_cl w"
    "set (w_connects w') \<subseteq> set (w_connects w)" "notified w' = notified w" "set (w_writes w') \<subseteq> set (w_writes w)"
  shows "keeps w w'"
proof -
  have p: "pend w' = pend w" and n: "nonasync w' a = nonasync w a" and g: "get_timer a w' = get_timer a w" for a
    by (auto simp: pend_def fun_eq_iff nonasync_def get_timer_def assms)
  show ?thesis
    by (rule keepsI) (use assms(5,7) in \<open>auto simp: heap_ok_def maps_ok_def refs_def view_def assms(1-4,6) p n g image_iff\<close>)
qed

lemma keeps_emit: "(\<And>t e d. ev \<noteq> E_Notify t e d) \<Longrightarrow> keeps w (emit ev w)"
  by (rule keeps_same) (auto simp: emit_def notified_def split: effect.splits)

lemma keeps_set_task:
  assumes "w_tasks w t = Some task" "t_taskId task' = t_taskId task" "t_body task' = t_body task"
  shows "keeps w (set_task t task' w)"
proof (rule keepsI)
  show "view (set_task t task' w) = view w" using assms by (auto simp: view_def set_task_def pend_def fun_eq_iff)
qed (use assms in \<open>auto simp: heap_ok_def maps_ok_def refs_def get_timer_def set_task_def nonasync_def\<close>)

lemma keeps_set_handle:
  assumes "w_handles w a = Some h"
    and "h_kind h' = h_kind h \<and> h_loop h' = h_loop h \<and> (is_async h \<longrightarrow> h_closing h' = h_closing h)
      \<or> (\<exists>c c'. h_kind h = UV_TCP c \<and> h_kind h' = UV_TCP c')"
  shows "keeps w (set_handle a (Some h') w)"
proof -
  let ?w = "set_handle a (Some h') w"
  have i: "is_async h' = is_async h" using assms(2) by (auto simp: is_async_def)
  then have n: "nonasync ?w b = nonasync w b" for b using assms(1) by (auto simp: nonasync_def set_handle_def)
  have g: "get_timer b ?w = get_timer b w" for b using assms by (auto simp: get_timer_def set_handle_def)
  have "h_kind h' = h_kind h \<and> h_loop h' = h_loop h \<and> h_closing h' = h_closing h \<or> \<not> is_async h \<and> \<not> is_async h'"
    using assms(2) i by (auto simp: is_async_def)
  then have p: "pend ?w = pend w" using assms(1) by (auto simp: pend_def set_handle_def fun_eq_iff is_async_def)
  have f: "w_cl ?w = w_cl w" "w_connects ?w = w_connects w" "w_tasks ?w = w_tasks w" "notified ?w = notified w" "w_brk ?w = w_brk w"
    "w_writes ?w = w_writes w"
    by (simp_all add: set_handle_def)
  show ?thesis
  proof (rule keepsI)
    show "heap_ok ?w" if "heap_ok w" using that assms(1) unfolding heap_ok_def f by (auto simp: set_handle_def)
  qed (auto simp: maps_ok_def refs_def view_def f p g n)
qed

lemma keeps_free_handle:
  assumes "w_handles w a = Some h" "h_closing h \<or> \<not> is_async h"
  shows "keeps w (set_handle a None w)"
proof -
  let ?w = "set_handle a None w"
  have n: "nonasync ?w b" if "nonasync w b" for b using that by (auto simp: nonasync_def set_handle_def)
  have g: "get_timer b ?w = Some td \<Longrightarrow> get_timer b w = Some td" for b td
    by (auto simp: get_timer_def set_handle_def split: if_splits)
  have p: "pend ?w = pend w" using assms by (auto simp: pend_def set_handle_def fun_eq_iff is_async_def)
  have f: "w_cl ?w = w_cl w" "w_connects ?w = w_connects w" "w_tasks ?w = w_tasks w" "notified ?w = notified w" "w_brk ?w = w_brk w"
    "w_writes ?w = w_writes w"
    by (simp_all add: set_handle_def)
  show ?thesis
  proof (rule keepsI)
    show "heap_ok ?w" if "heap_ok w" using that unfolding heap_ok_def f by (auto simp: set_handle_def)
    show "b \<in> refs w \<or> nonasync ?w b" if "b \<in> refs ?w" for b using that g unfolding refs_def f by blast
  qed (auto simp: maps_ok_def view_def f p n)
qed

lemma keeps_new_handle:
  assumes "new_handle h w = (a, w')" "\<not> is_async h" "\<And>td c. h_kind h = UV_TIMER td \<Longrightarrow> td_data td = Some c \<Longrightarrow> nonasync w c"
  shows "keeps w w'" "nonasync w' a" "w_handles w' a = Some h" "w_cl w' = w_cl w"
proof -
  from assms(1) have w': "w' = set_handle (w_brk w) (Some h) (w\<lparr>w_brk := Suc (w_brk w)\<rparr>)" and a: "a = w_brk w"
    by (auto simp: new_handle_def)
  show "nonasync w' a" "w_handles w' a = Some h" "w_cl w' = w_cl w"
    using assms(2) by (auto simp: w' a nonasync_def set_handle_def)
  have n: "nonasync w' b" if "nonasync w b" for b
    using that by (auto simp: w' nonasync_def set_handle_def)
  have g: "get_timer b w' = Some td \<Longrightarrow> get_timer b w = Some td \<or> h_kind h = UV_TIMER td" for b td
    by (auto simp: w' get_timer_def set_handle_def split: if_splits handle_kind.splits)
  have f: "w_cl w' = w_cl w" "w_connects w' = w_connects w" "w_tasks w' = w_tasks w" "notified w' = notified w" "w_brk w' = Suc (w_brk w)"
    "w_writes w' = w_writes w"
    by (simp_all add: w' set_handle_def)
  show "keeps w w'"
  proof (rule keepsI)
    show "heap_ok w'" if "heap_ok w" using that unfolding heap_ok_def f by (auto simp: w' set_handle_def less_Suc_eq)
    show "b \<in> refs w \<or> nonasync w' b" if "b \<in> refs w'" for b
      using that g n assms(3) unfolding refs_def f by blast
    show "view w' = view w" if "heap_ok w"
    proof -
      have "pend w' = pend w" using assms(2) that
        by (auto simp: w' pend_def set_handle_def fun_eq_iff is_async_def heap_ok_def)
      then show ?thesis by (simp add: view_def f)
    qed
  qed (auto simp: maps_ok_def f n)
qed

lemma put_same [simp]:
  "w_handles (put_cl_conns x w) = w_handles w" "w_tasks (put_cl_conns x w) = w_tasks w"
  "w_handles (put_cl_timers y w) = w_handles w" "w_tasks (put_cl_timers y w) = w_tasks w"
  "w_handles (put_cl_tasks z w) = w_handles w" "w_tasks (put_cl_tasks z w) = w_tasks w"
  "cl_timer_find tid (put_cl_tasks z w) = cl_timer_find tid w" "cl_task_find tid (put_cl_timers y w) = cl_task_find tid w"
  by (simp_all add: put_cl_conns_def put_cl_timers_def put_cl_tasks_def cl_timer_find_def cl_task_find_def)

lemma keeps_put_conns:
  assumes "smap_ok (cl_connTable (w_cl w)) \<Longrightarrow> smap_ok x" "\<And>a. a \<in> snd ` set x \<Longrightarrow> a \<in> snd ` set (cl_connTable (w_cl w)) \<or> nonasync w a"
  shows "keeps w (put_cl_conns x w)"
proof -
  let ?w = "put_cl_conns x w"
  have n: "nonasync ?w a = nonasync w a" and g: "get_timer a ?w = get_timer a w" and p: "pend ?w = pend w" for a
    by (auto simp: nonasync_def get_timer_def put_cl_conns_def pend_def fun_eq_iff)
  show ?thesis
  proof (rule keepsI)
    show "a \<in> refs w \<or> nonasync ?w a" if "a \<in> refs ?w" for a
      using that assms(2) [of a] by (simp add: refs_def n g) (auto simp: put_cl_conns_def)
    show "heap_ok ?w" if "heap_ok w" using that by (auto simp: heap_ok_def put_cl_conns_def)
    show "view ?w = view w" by (simp add: view_def p) (simp add: put_cl_conns_def)
  qed (use assms(1) n in \<open>auto simp: maps_ok_def put_cl_conns_def\<close>)
qed

lemma keeps_put_timers:
  assumes "smap_ok (cl_timerTable (w_cl w)) \<Longrightarrow> smap_ok x" "\<And>a. a \<in> snd ` set x \<Longrightarrow> a \<in> snd ` set (cl_timerTable (w_cl w)) \<or> nonasync w a"
  shows "keeps w (put_cl_timers x w)"
proof -
  let ?w = "put_cl_timers x w"
  have n: "nonasync ?w a = nonasync w a" and g: "get_timer a ?w = get_timer a w" and p: "pend ?w = pend w" for a
    by (auto simp: nonasync_def get_timer_def put_cl_timers_def pend_def fun_eq_iff)
  show ?thesis
  proof (rule keepsI)
    show "a \<in> refs w \<or> nonasync ?w a" if "a \<in> refs ?w" for a
      using that assms(2) [of a] by (simp add: refs_def n g) (auto simp: put_cl_timers_def)
    show "heap_ok ?w" if "heap_ok w" using that by (auto simp: heap_ok_def put_cl_timers_def)
    show "view ?w = view w" by (simp add: view_def p) (simp add: put_cl_timers_def)
  qed (use assms(1) n in \<open>auto simp: maps_ok_def put_cl_timers_def\<close>)
qed

section \<open>Operations that leave the tasks alone\<close>

lemma keeps_if: "(base_ok w \<Longrightarrow> keeps w w') \<Longrightarrow> keeps w w'"
  by (simp add: keeps_def)

lemma keepsD: "keeps w w' \<Longrightarrow> base_ok w \<Longrightarrow> base_ok w'" "keeps w w' \<Longrightarrow> base_ok w \<Longrightarrow> view w' = view w"
  "keeps w w' \<Longrightarrow> base_ok w \<Longrightarrow> nonasync w a \<Longrightarrow> nonasync w' a"
  "keeps w w' \<Longrightarrow> base_ok w \<Longrightarrow> set (w_writes w') \<subseteq> set (w_writes w)" "keeps w w' \<Longrightarrow> base_ok w \<Longrightarrow> w_brk w \<le> w_brk w'"
  by (simp_all add: keeps_def)

lemma live_below: "base_ok w \<Longrightarrow> w_handles w a = Some h \<Longrightarrow> a < w_brk w"
  by (auto simp: base_ok_def heap_ok_def not_le [symmetric])

lemma get_conn_iff: "get_conn a w = Some c \<longleftrightarrow> (\<exists>h. w_handles w a = Some h \<and> h_kind h = UV_TCP (Some c))"
  by (cases "w_handles w a") (auto simp: get_conn_def split: handle_kind.split)

lemma get_timer_iff: "get_timer a w = Some td \<longleftrightarrow> (\<exists>h. w_handles w a = Some h \<and> h_kind h = UV_TIMER td)"
  by (cases "w_handles w a") (auto simp: get_timer_def split: handle_kind.split)

lemma conn_nonasync: "base_ok w \<Longrightarrow> get_conn a w = Some c \<Longrightarrow> nonasync w a"
  using live_below [of w a] by (auto simp: get_conn_iff nonasync_def is_async_def)

lemma timer_nonasync: "base_ok w \<Longrightarrow> get_timer a w = Some td \<Longrightarrow> nonasync w a"
  using live_below [of w a] by (auto simp: get_timer_iff nonasync_def is_async_def)

lemma refs_nonasync: "base_ok w \<Longrightarrow> a \<in> refs w \<Longrightarrow> nonasync w a"
  by (simp add: base_ok_def refs_ok_def)

lemma timer_in_refs: "base_ok w \<Longrightarrow> cl_timer_find tid w = Some a \<Longrightarrow> a \<in> refs w"
  unfolding cl_timer_find_def base_ok_def refs_ok_def maps_ok_def
  by (auto simp: smap_find_in_iff refs_def intro!: rev_image_eqI)

lemma keeps_set_err: "set_err t e w = Some w' \<Longrightarrow> keeps w w'"
  by (auto simp: set_err_def Option.bind_eq_Some_conv intro: keeps_set_task)

lemma keeps_write_errmsg:
  assumes "write_errmsg t w = Some w'"
  shows "keeps w w'"
proof -
  from assms obtain task where t0: "w_tasks w t = Some task" by (auto simp: write_errmsg_def Option.bind_eq_Some_conv)
  obtain msg em where e: "task_errmsg (t_err task) (w_errmap w) = (msg, em)" by fastforce
  have t: "w_tasks w t = Some task" "w' = set_task t (task\<lparr>t_errmsg := msg\<rparr>) (w\<lparr>w_errmap := em\<rparr>)"
    using assms t0 e by (simp_all add: write_errmsg_def)
  have "keeps w (w\<lparr>w_errmap := em\<rparr>)" by (rule keeps_same) auto
  also have "keeps (w\<lparr>w_errmap := em\<rparr>) w'" unfolding t(2) by (rule keeps_set_task) (use t in auto)
  finally show ?thesis .
qed

lemma keeps_deactivate: "deactivate a w = Some w' \<Longrightarrow> keeps w w'"
  by (auto simp: deactivate_def Option.bind_eq_Some_conv intro: keeps_set_handle)

lemma keeps_activate: "activate a w = Some w' \<Longrightarrow> keeps w w'"
  by (auto simp: activate_def Option.bind_eq_Some_conv intro: keeps_set_handle)

lemma keeps_safe_close:
  "safe_uv_close ho w = Some w' \<Longrightarrow> (\<And>a. ho = Some a \<Longrightarrow> nonasync w a) \<Longrightarrow> keeps w w'"
  by (auto simp: safe_uv_close_def nonasync_def Option.bind_eq_Some_conv split: option.splits if_splits intro!: keeps_set_handle)

lemma keeps_drop_timer:
  assumes "drop_timer ho w = Some w'" "\<And>a. ho = Some a \<Longrightarrow> nonasync w a"
  shows "keeps w w'"
proof (cases ho)
  case None
  with assms show ?thesis by (simp add: drop_timer_def)
next
  case (Some a)
  with assms obtain w1 where w1: "deactivate a w = Some w1" "safe_uv_close (Some a) w1 = Some w'"
    by (auto simp: drop_timer_def Option.bind_eq_Some_conv)
  show ?thesis
  proof (rule keeps_if)
    assume b: "base_ok w"
    note k = keeps_deactivate [OF w1(1)]
    have "keeps w1 w'" by (rule keeps_safe_close [OF w1(2)]) (use assms(2) Some k b in \<open>auto simp: keeps_def\<close>)
    with k show ?thesis by (rule keeps_trans)
  qed
qed

lemma keeps_conn_del: "keeps w (snd (cl_conn_del i w))"
  by (auto simp: cl_conn_del_def smap_erase_def split: option.split intro!: keeps_put_conns)

lemma keeps_timer_del: "keeps w (snd (cl_timer_del i w))"
  by (auto simp: cl_timer_del_def smap_erase_def split: option.split intro!: keeps_put_timers)

lemma timer_del_ret: "cl_timer_del i w = (ho, w') \<Longrightarrow> ho = cl_timer_find i w \<and> w' = snd (cl_timer_del i w)"
  by (auto simp: cl_timer_del_def cl_timer_find_def split: option.splits)

lemma vals_smap_put: "snd ` set (smap_put k v m) \<subseteq> insert v (snd ` set m)"
  by (induction k v m rule: smap_put.induct) auto

lemma keeps_timer_add: "nonasync w a \<Longrightarrow> keeps w (cl_timer_add tid a w)"
  unfolding cl_timer_add_def
proof (rule keeps_put_timers)
  fix b assume "nonasync w a" "b \<in> snd ` set (smap_put tid a (cl_timerTable (w_cl w)))"
  then show "b \<in> snd ` set (cl_timerTable (w_cl w)) \<or> nonasync w b"
    using vals_smap_put [of tid a "cl_timerTable (w_cl w)"] by blast
qed (rule smap_ok_put)

lemma keeps_set_conn:
  "set_conn a c w = Some w' \<Longrightarrow> get_conn a w = Some c' \<Longrightarrow> keeps w w'"
  by (auto simp: set_conn_def get_conn_iff Option.bind_eq_Some_conv intro!: keeps_set_handle)

lemma set_conn_conn: "set_conn a c w = Some w' \<Longrightarrow> get_conn a w' = Some c"
  by (auto simp: set_conn_def get_conn_def set_handle_def Option.bind_eq_Some_conv)

lemma keeps_conn_add:
  assumes "cl_conn_add i conn w = Some (r, w')"
  shows "keeps w w'"
proof (cases "smap_find (cl_connTable (w_cl w)) i")
  case None
  with assms obtain c w1 where c: "get_conn conn w = Some c" "set_conn conn (c\<lparr>tc_connId := i\<rparr>) w = Some w1"
    "w' = put_cl_conns (smap_put i conn (cl_connTable (w_cl w))) w1"
    by (auto simp: cl_conn_add_def Option.bind_eq_Some_conv)
  from c(2) have cl: "w_cl w1 = w_cl w" by (auto simp: set_conn_def set_handle_def Option.bind_eq_Some_conv)
  note k = keeps_set_conn [OF c(2,1)]
  show ?thesis
  proof (rule keeps_if)
    assume b: "base_ok w"
    have "nonasync w1 conn" using conn_nonasync [OF b c(1)] k b by (simp add: keeps_def)
    then have "keeps w1 w'" unfolding c(3)
      using vals_smap_put [of i conn "cl_connTable (w_cl w)"] cl by (intro keeps_put_conns) auto
    with k show ?thesis by (rule keeps_trans)
  qed
qed (use assms in \<open>simp add: cl_conn_add_def\<close>)

lemma keeps_start_timer:
  assumes "\<And>c. dat = Some c \<Longrightarrow> nonasync w c"
  shows "keeps w (start_timer lt tid dat w)"
proof -
  let ?h = "\<lparr>h_loop = lt, h_kind = UV_TIMER \<lparr>td_taskId = tid, td_data = dat\<rparr>, h_closing = False, h_active = True\<rparr>"
  obtain a w1 where n: "new_handle ?h w = (a, w1)" by (cases "new_handle ?h w")
  note k = keeps_new_handle [OF n]
  have "keeps w w1" "nonasync w1 a" by (rule k; use assms in \<open>auto simp: is_async_def\<close>)+
  with keeps_timer_add [of w1 a tid] show ?thesis unfolding start_timer_def n Let_def by (auto intro: keeps_trans)
qed

lemma split_none: "split_by_connId i m w = Some ([], kept) \<Longrightarrow> kept = m"
proof (induction m arbitrary: kept)
  case (Cons kv m)
  then obtain task gone k where "w_tasks w (snd kv) = Some task" "split_by_connId i m w = Some (gone, k)"
    by (cases kv) (auto simp: Option.bind_eq_Some_conv)
  with Cons show ?case by (cases kv; cases "t_body task") (auto split: if_splits)
qed simp

lemma keeps_conn_cb: "keeps w (if b then emit (E_Conn i ip st) w else w)"
  by (auto intro: keeps_emit)

lemma keeps_sl_conn_del: "keeps w (snd (sl_conn_del i w))"
  by (auto simp: sl_conn_del_def put_sl_conns_def split: option.split intro!: keeps_same)

lemma del_handles [simp]: "w_handles (snd (cl_conn_del i w)) = w_handles w" "w_handles (snd (sl_conn_del i w)) = w_handles w"
  "w_handles (emit e w) = w_handles w"
  by (simp_all add: cl_conn_del_def sl_conn_del_def put_sl_conns_def emit_def split: option.split)

lemma keeps_close_cb:
  assumes "close_cb a w = Some w'" "w_handles w a = Some h" "h_closing h"
  shows "keeps w w'"
proof -
  obtain w1 where w1: "w' = set_handle a None w1" and h: "w_handles w1 a = Some h" and k: "keeps w w1"
  proof (cases "\<exists>c. h_kind h = UV_TCP (Some c) \<and> tcp_kind (tc_tcp c) = TCP_CLIENT")
    case True
    then obtain c where c: "h_kind h = UV_TCP (Some c)" "tcp_kind (tc_tcp c) = TCP_CLIENT" by blast
    show ?thesis
    proof (cases "h_loop h")
      case SERVER_LOOP
      with assms c have "w' = set_handle a None (snd (sl_conn_del (tc_connId c) w))" by (simp add: close_cb_def)
      with that assms(2) keeps_sl_conn_del show ?thesis by simp
    next
      case CLIENT_LOOP
      let ?w1 = "snd (cl_conn_del (tc_connId c) w)"
      let ?w2 = "if fst (cl_conn_del (tc_connId c) w) \<noteq> None \<and> cl_conn_cb (w_cl ?w1) then emit (E_Conn (tc_connId c) (tc_ip c) False) ?w1 else ?w1"
      from CLIENT_LOOP assms c have "w' = set_handle a None ?w2" by (simp add: close_cb_def case_prod_unfold Let_def)
      moreover have "keeps w ?w2" by (rule keeps_trans [OF keeps_conn_del keeps_conn_cb])
      ultimately show ?thesis using that assms(2) by simp
    qed
  next
    case False
    with assms(1,2) have "w' = set_handle a None w"
      by (auto simp: close_cb_def split: handle_kind.split_asm option.split_asm if_splits)
    with that assms(2) show ?thesis by blast
  qed
  have "keeps w1 w'" unfolding w1 by (rule keeps_free_handle [OF h disjI1 [OF assms(3)]])
  with k show ?thesis by (rule keeps_trans)
qed

section \<open>Ending a task\<close>

text \<open>The parts of the view.\<close>

definition v_tasks where "v_tasks w = (\<lambda>t. map_option (\<lambda>k. (t_taskId k, t_body k)) (w_tasks w t))"

abbreviation taskTable where "taskTable w \<equiv> cl_taskTable (w_cl w)"

lemma view_eq: "view w' = view w \<longleftrightarrow> v_tasks w' = v_tasks w \<and> taskTable w' = taskTable w
    \<and> cl_running (w_cl w') = cl_running (w_cl w) \<and> pend w' = pend w \<and> notified w' = notified w"
  by (simp add: view_def v_tasks_def)

lemma v_tasks_Some: "w_tasks w t = Some task \<Longrightarrow> v_tasks w t = Some (t_taskId task, t_body task)"
  by (simp add: v_tasks_def)

lemma v_tasks_SomeE: "v_tasks w t = Some v \<Longrightarrow> \<exists>task. w_tasks w t = Some task \<and> v = (t_taskId task, t_body task)"
  by (auto simp: v_tasks_def)

text \<open>\<open>retabled m w w'\<close>: the task table is now \<open>m\<close>, the rest is as it was; \<open>ended t w w'\<close>: the task \<open>t\<close> is notified and
  gone, its entry is out of the table, the rest is as it was.\<close>

definition retabled :: "(u64, addr) smap \<Rightarrow> world \<Rightarrow> world \<Rightarrow> bool" where
  "retabled m w w' \<longleftrightarrow> base_ok w' \<and> (\<forall>a. nonasync w a \<longrightarrow> nonasync w' a) \<and> v_tasks w' = v_tasks w \<and> taskTable w' = m
     \<and> cl_running (w_cl w') = cl_running (w_cl w) \<and> pend w' = pend w \<and> notified w' = notified w
     \<and> set (w_writes w') \<subseteq> set (w_writes w) \<and> w_brk w \<le> w_brk w'"

definition ended :: "addr \<Rightarrow> u64 \<Rightarrow> world \<Rightarrow> world \<Rightarrow> bool" where
  "ended t tid w w' \<longleftrightarrow> base_ok w' \<and> (\<forall>a. nonasync w a \<longrightarrow> nonasync w' a) \<and> v_tasks w' = (v_tasks w)(t := None)
     \<and> taskTable w' = smap_erase tid (taskTable w) \<and> cl_running (w_cl w') = cl_running (w_cl w) \<and> pend w' = pend w
     \<and> notified w' = notified w @ [t] \<and> set (w_writes w') \<subseteq> set (w_writes w) \<and> w_brk w \<le> w_brk w'"

lemma retabled_put:
  assumes "base_ok w" "smap_ok m"
  shows "retabled m w (put_cl_tasks m w)"
proof -
  have n: "nonasync (put_cl_tasks m w) = nonasync w" and g: "refs (put_cl_tasks m w) = refs w"
    and p: "pend (put_cl_tasks m w) = pend w"
    by (auto simp: nonasync_def put_cl_tasks_def refs_def get_timer_def pend_def fun_eq_iff)
  show ?thesis
    using assms unfolding retabled_def base_ok_def refs_ok_def n g p
    by (auto simp: put_cl_tasks_def heap_ok_def maps_ok_def v_tasks_def)
qed

lemma task_del_erase: "snd (cl_task_del tid w) = put_cl_tasks (smap_erase tid (taskTable w)) w"
  by (auto simp: cl_task_del_def smap_erase_absent put_cl_tasks_def split: option.split)

lemma task_del_ret: "cl_task_del tid w = (r, w') \<Longrightarrow> r = cl_task_find tid w \<and> w' = put_cl_tasks (smap_erase tid (taskTable w)) w"
  using task_del_erase [of tid w] by (auto simp: cl_task_del_def cl_task_find_def split: option.splits)

lemma maps_okD: "base_ok w \<Longrightarrow> smap_ok (taskTable w)"
  by (simp add: base_ok_def refs_ok_def maps_ok_def)

lemma notify_ended:
  assumes "base_ok w" "notify_task t w = Some w'"
  shows "base_ok w' \<and> (\<forall>a. nonasync w a \<longrightarrow> nonasync w' a) \<and> v_tasks w' = (v_tasks w)(t := None) \<and> taskTable w' = taskTable w
    \<and> cl_running (w_cl w') = cl_running (w_cl w) \<and> pend w' = pend w \<and> notified w' = notified w @ [t]
    \<and> w_writes w' = w_writes w \<and> w_brk w' = w_brk w"
proof -
  from assms(2) obtain task where t: "w_tasks w t = Some task"
    "w' = emit (E_Notify t (t_err task) (t_outdata task)) (w\<lparr>w_tasks := (w_tasks w)(t := None)\<rparr>)"
    by (auto simp: notify_task_def Option.bind_eq_Some_conv)
  have n: "nonasync w' = nonasync w" and g: "refs w' = refs w" and p: "pend w' = pend w"
    and c: "w_cl w' = w_cl w" and nt: "notified w' = notified w @ [t]" and h: "w_handles w' = w_handles w"
    and k: "w_tasks w' = (w_tasks w)(t := None)" "w_brk w' = w_brk w" "w_writes w' = w_writes w"
    by (auto simp: t(2) nonasync_def emit_def refs_def get_timer_def pend_def fun_eq_iff notified_def)
  have "t < w_brk w" using assms(1) t(1) by (auto simp: base_ok_def heap_ok_def not_le [symmetric])
  moreover have "t \<notin> set (notified w)" using assms(1) t(1) by (auto simp: base_ok_def heap_ok_def)
  ultimately have "heap_ok w'" using assms(1) unfolding base_ok_def heap_ok_def h k nt by auto
  then show ?thesis
    using assms(1) unfolding base_ok_def refs_ok_def maps_ok_def n g p c nt by (auto simp: v_tasks_def k)
qed

lemma finish_ended:
  assumes "base_ok w" "cl_finish_task t w = Some w'" "w_tasks w t = Some task"
  shows "ended t (t_taskId task) w w'"
proof -
  from assms(2) obtain w1 task1 where w1: "write_errmsg t w = Some w1" "w_tasks w1 t = Some task1"
    by (auto simp: cl_finish_task_def Option.bind_eq_Some_conv Let_def)
  note k1 = keepsD [OF keeps_write_errmsg [OF w1(1)] assms(1)]
  let ?id = "t_taskId task" and ?w2 = "put_cl_tasks (smap_erase (t_taskId task) (taskTable w1)) w1"
  have id: "t_taskId task1 = ?id" using view_task [OF k1(2) assms(3)] w1(2) by auto
  have r: "retabled (smap_erase ?id (taskTable w1)) w1 ?w2"
    by (rule retabled_put) (use k1(1) in \<open>simp_all add: maps_okD\<close>)
  then have b2: "base_ok ?w2" by (simp add: retabled_def)
  obtain w3 where w3: "keeps ?w2 w3" "notify_task t w3 = Some w'"
  proof (cases "cl_timer_find ?id ?w2")
    case None
    with assms(2) w1 id that [of ?w2] show ?thesis by (simp add: cl_finish_task_def task_del_erase)
  next
    case (Some td)
    with assms(2) w1 id obtain w3 where d: "drop_timer (Some td) ?w2 = Some w3" "notify_task t (snd (cl_timer_del ?id w3)) = Some w'"
      by (auto simp: cl_finish_task_def task_del_erase Option.bind_eq_Some_conv)
    have "nonasync ?w2 td" by (rule refs_nonasync [OF b2 timer_in_refs [OF b2 Some]])
    then have "keeps ?w2 w3" by (intro keeps_drop_timer [OF d(1)]) simp
    then have "keeps ?w2 (snd (cl_timer_del ?id w3))" by (rule keeps_trans [OF _ keeps_timer_del])
    with that d(2) show ?thesis by blast
  qed
  note k3 = keepsD [OF w3(1) b2]
  note n = notify_ended [OF k3(1) w3(2)]
  show ?thesis
    using n k3(2,3) r k1(2,3) subset_trans [OF k3(4) subset_trans [OF _ k1(4)]] order_trans [OF k1(5) order_trans [OF _ k3(5)]]
    unfolding ended_def retabled_def view_eq by simp
qed

text \<open>Ending a task keeps the invariant but for that task.\<close>

lemma endedD:
  assumes "ended t tid w w'"
  shows "cl_task_find i w' = (if i = tid then None else cl_task_find i w)" "pend w' = pend w" "cl_running (w_cl w') = cl_running (w_cl w)"
    "w_tasks w' x = Some k' \<Longrightarrow> x \<noteq> t \<and> (\<exists>k. w_tasks w x = Some k \<and> t_taskId k = t_taskId k' \<and> t_body k = t_body k')"
    "x \<noteq> t \<Longrightarrow> w_tasks w x = Some k \<Longrightarrow> \<exists>k'. w_tasks w' x = Some k' \<and> t_taskId k' = t_taskId k \<and> t_body k' = t_body k"
proof -
  note E = assms [unfolded ended_def]
  show "cl_task_find i w' = (if i = tid then None else cl_task_find i w)" "pend w' = pend w" "cl_running (w_cl w') = cl_running (w_cl w)"
    using E by (auto simp: cl_task_find_def map_simps)
  show "w_tasks w' x = Some k' \<Longrightarrow> x \<noteq> t \<and> (\<exists>k. w_tasks w x = Some k \<and> t_taskId k = t_taskId k' \<and> t_body k = t_body k')"
    using E v_tasks_Some [of w' x k'] v_tasks_SomeE [of w x] by (cases "x = t") (auto dest: sym)
  show "x \<noteq> t \<Longrightarrow> w_tasks w x = Some k \<Longrightarrow> \<exists>k'. w_tasks w' x = Some k' \<and> t_taskId k' = t_taskId k \<and> t_body k' = t_body k"
    using E v_tasks_Some [of w x k] v_tasks_SomeE [of w' x] by (auto dest: sym)
qed

lemma ended_tasks:
  assumes o: "tasks_ok T w" and E: "ended t tid w w'"
    and t: "w_tasks w t = Some task" "t_taskId task = tid" "client_task task \<or> taskTable w = []"
    and T: "T = Some t \<or> (\<forall>a. \<not> pend w a t)"
  shows "tasks_ok T w'"
  unfolding tasks_ok_def endedD(1-3) [OF E]
proof (intro conjI allI impI)
  note o = o [unfolded tasks_ok_def] and tk = endedD(4) [OF E] and tk2 = endedD(5) [OF E]
  { fix i x assume "(if i = tid then None else cl_task_find i w) = Some x"
    then have i: "i \<noteq> tid" "cl_task_find i w = Some x" by (auto split: if_splits)
    then obtain k where k: "w_tasks w x = Some k" "t_taskId k = i" "client_task k" using o by blast
    with t i(1) have "x \<noteq> t" by auto
    with k show "\<exists>k. w_tasks w' x = Some k \<and> t_taskId k = i \<and> client_task k" using tk2 client_task_cong by blast }
  { fix x k' assume a: "w_tasks w' x = Some k'" "client_task k'"
    from tk [OF a(1)] obtain k where k: "x \<noteq> t" "w_tasks w x = Some k" "t_taskId k = t_taskId k'" "client_task k"
      using a(2) client_task_cong by blast
    have "t_taskId k \<noteq> tid \<or> taskTable w = []" using o k(1,2,4) t by blast
    moreover have "(\<exists>a. pend w a x) \<or> cl_task_find (t_taskId k) w = Some x \<or> T = Some x" using o k by blast
    ultimately show "(\<exists>a. pend w a x) \<or> (if t_taskId k' = tid then None else cl_task_find (t_taskId k') w) = Some x \<or> T = Some x"
      using k(3) by (auto simp: cl_task_find_def) }
  { fix x y k k' assume a: "w_tasks w' x = Some k" "w_tasks w' y = Some k'" "client_task k" "client_task k'" "t_taskId k = t_taskId k'"
    from tk [OF a(1)] tk [OF a(2)] obtain j j' where "w_tasks w x = Some j" "w_tasks w y = Some j'" "t_taskId j = t_taskId j'"
      "client_task j" "client_task j'" using a client_task_cong by metis
    with o show "x = y" by blast }
  { fix a x assume x: "pend w a x"
    from o x consider "T = Some x" | k where "w_tasks w x = Some k" "client_task k \<or> t_body k = CLOSE" "cl_task_find (t_taskId k) w \<noteq> Some x"
      by blast
    then show "T = Some x \<or> (\<exists>k. w_tasks w' x = Some k \<and> (client_task k \<or> t_body k = CLOSE) \<and> (if t_taskId k = tid then None else cl_task_find (t_taskId k) w) \<noteq> Some x)"
    proof cases
      case (2 k)
      then show ?thesis using tk2 [of x k] client_task_cong x T by (metis option.distinct(1))
    qed simp }
  { fix i assume "T = None" "\<not> cl_running (w_cl w)"
    with o show "(if i = tid then None else cl_task_find i w) = None" by simp }
qed (use o [unfolded tasks_ok_def] in blast)

lemma inv_ended:
  assumes "tasks_ok T w" "writes_ok T w" "ended t tid w w'"
    and "w_tasks w t = Some task" "t_taskId task = tid" "client_task task \<or> taskTable w = []"
    and "T = Some t \<or> (\<forall>a. \<not> pend w a t)"
  shows "cl_inv T w'"
  using ended_tasks [OF assms(1,3-7)] writes_mono [OF assms(2), of w'] assms(3) [unfolded ended_def] by (simp add: cl_inv_def base_ok_def)

text \<open>A task is settled when it is gone, or in the table, and no async handle carries it.\<close>

lemma settle:
  assumes "cl_inv (Some t) w" "\<And>a. \<not> pend w a t"
    "\<And>task. w_tasks w t = Some task \<Longrightarrow> client_task task \<Longrightarrow> cl_task_find (t_taskId task) w = Some t"
    "cl_running (w_cl w) \<or> taskTable w = []"
  shows "cl_inv None w"
proof -
  note o = assms(1) [unfolded cl_inv_def tasks_ok_def]
  have "tasks_ok None w" unfolding tasks_ok_def
  proof (intro conjI allI impI)
    fix x k assume "w_tasks w x = Some k" "client_task k"
    with o assms(3) show "(\<exists>a. pend w a x) \<or> cl_task_find (t_taskId k) w = Some x \<or> None = Some x"
      by (cases "x = t") (simp, blast)
  next
    fix a x assume p: "pend w a x"
    with assms(2) have "Some t \<noteq> Some x" by auto
    with o p show "None = Some x \<or> (\<exists>task. w_tasks w x = Some task \<and> (client_task task \<or> t_body task = CLOSE) \<and> cl_task_find (t_taskId task) w \<noteq> Some x)"
      by blast
  next
    fix i assume "\<not> cl_running (w_cl w)"
    with assms(4) show "cl_task_find i w = None" by (simp add: cl_task_find_def)
  qed (use o in blast)+
  moreover have "writes_ok None w" using o assms(2) by (auto simp: writes_ok_def)
  ultimately show ?thesis using o by (simp add: cl_inv_def)
qed

lemma inv_base: "cl_inv T w \<Longrightarrow> base_ok w"
  by (simp add: cl_inv_def base_ok_def)

text \<open>A task of the table is live, has the right id, and no async handle carries it.\<close>

lemma table_task:
  assumes "cl_inv None w" "cl_task_find tid w = Some t"
  shows "\<exists>task. w_tasks w t = Some task \<and> t_taskId task = tid \<and> client_task task" "\<not> pend w a t"
proof -
  note o = assms(1) [unfolded cl_inv_def tasks_ok_def]
  from o assms(2) obtain task where t: "w_tasks w t = Some task" "t_taskId task = tid" "client_task task" by blast
  then show "\<exists>task. w_tasks w t = Some task \<and> t_taskId task = tid \<and> client_task task" by blast
  show "\<not> pend w a t"
  proof
    assume "pend w a t"
    with o obtain k where "w_tasks w t = Some k" "cl_task_find (t_taskId k) w \<noteq> Some t" by blast
    with t assms(2) show False by simp
  qed
qed

text \<open>Taking a task out of the table leaves the invariant but for that task.\<close>

lemma inv_take:
  assumes "cl_inv None w" "cl_task_find tid w = Some t"
  shows "cl_inv (Some t) (put_cl_tasks (smap_erase tid (taskTable w)) w)"
proof -
  let ?w = "put_cl_tasks (smap_erase tid (taskTable w)) w"
  note o = assms(1) [unfolded cl_inv_def tasks_ok_def]
  note r = retabled_put [OF inv_base [OF assms(1)], of "smap_erase tid (taskTable w)", simplified maps_okD [OF inv_base [OF assms(1)]] smap_ok_erase]
  then have p: "pend ?w = pend w" "cl_running (w_cl ?w) = cl_running (w_cl w)" and b: "base_ok ?w" by (auto simp: retabled_def)
  have f: "cl_task_find i ?w = (if i = tid then None else cl_task_find i w)" for i
    by (simp add: cl_task_find_def put_cl_tasks_def map_simps)
  obtain task where t: "w_tasks w t = Some task" "t_taskId task = tid" "client_task task" using table_task(1) [OF assms] by blast
  have "tasks_ok (Some t) ?w" unfolding tasks_ok_def p f put_same
  proof (intro conjI allI impI)
    fix x k assume k: "w_tasks w x = Some k" "client_task k"
    with o have "(\<exists>a. pend w a x) \<or> cl_task_find (t_taskId k) w = Some x" by blast
    moreover have "t_taskId k = tid \<Longrightarrow> t = x" using o k t by blast
    ultimately show "(\<exists>a. pend w a x) \<or> (if t_taskId k = tid then None else cl_task_find (t_taskId k) w) = Some x \<or> Some t = Some x" by auto
  next
    fix i x assume "(if i = tid then None else cl_task_find i w) = Some x"
    then show "\<exists>k. w_tasks w x = Some k \<and> t_taskId k = i \<and> client_task k" using o by (auto split: if_splits)
  next
    fix a x assume "pend w a x"
    with o obtain k where "w_tasks w x = Some k" "client_task k \<or> t_body k = CLOSE" "cl_task_find (t_taskId k) w \<noteq> Some x" by blast
    then show "Some t = Some x \<or> (\<exists>k. w_tasks w x = Some k \<and> (client_task k \<or> t_body k = CLOSE) \<and> (if t_taskId k = tid then None else cl_task_find (t_taskId k) w) \<noteq> Some x)"
      by auto
  next
    fix i assume "Some t = None"
    then show "(if i = tid then None else cl_task_find i w) = None" by simp
  qed (use o in blast)+
  moreover have "writes_ok None ?w" using writes_mono [of None w ?w] r assms(1) by (simp add: retabled_def cl_inv_def)
  then have "writes_ok (Some t) ?w" by (auto simp: writes_ok_def)
  ultimately show ?thesis using b by (simp add: cl_inv_def base_ok_def)
qed

lemma finish_inv:
  assumes "cl_inv (Some t) w" "w_tasks w t = Some task" "client_task task \<or> taskTable w = []"
    and "cl_finish_task t w = Some w'"
  shows "cl_inv (Some t) w'" "w_tasks w' t = None" "pend w' = pend w" "nonasync w a \<Longrightarrow> nonasync w' a"
    "cl_running (w_cl w') = cl_running (w_cl w)" "taskTable w' = smap_erase (t_taskId task) (taskTable w)"
proof -
  note e = finish_ended [OF inv_base [OF assms(1)] assms(4,2)]
  show "cl_inv (Some t) w'"
    by (rule inv_ended [OF _ _ e assms(2) refl assms(3)]) (use assms(1) in \<open>simp_all add: cl_inv_def\<close>)
  from e have "v_tasks w' t = None" by (simp add: ended_def)
  then show "w_tasks w' t = None" by (simp add: v_tasks_def)
  show "pend w' = pend w" "cl_running (w_cl w') = cl_running (w_cl w)" "taskTable w' = smap_erase (t_taskId task) (taskTable w)"
    using e by (simp_all add: ended_def)
  show "nonasync w a \<Longrightarrow> nonasync w' a" using e by (simp add: ended_def)
qed

text \<open>What the timer, the reply and the connect callback do with a task of the table.\<close>

lemma take_finish:
  assumes "cl_inv None w" "cl_task_find tid w = Some t" "keeps (put_cl_tasks (smap_erase tid (taskTable w)) w) w1"
    "cl_finish_task t w1 = Some w2"
  shows "cl_inv None w2" "nonasync w a \<Longrightarrow> nonasync w2 a"
proof -
  let ?w = "put_cl_tasks (smap_erase tid (taskTable w)) w"
  note i = inv_take [OF assms(1,2)]
  note k = keepsD [OF assms(3) inv_base [OF i]]
  obtain task where t: "w_tasks w t = Some task" "client_task task" using table_task(1) [OF assms(1,2)] by blast
  then have "w_tasks ?w t = Some task" by simp
  from view_task [OF k(2) this] obtain task1 where t1: "w_tasks w1 t = Some task1" "t_body task1 = t_body task" by blast
  have p: "\<not> pend w1 a t" for a
    using k(2) table_task(2) [OF assms(1,2)] by (auto simp: view_eq pend_def fun_eq_iff)
  have c: "client_task task1" using t1(2) t(2) client_task_cong by blast
  note f = finish_inv [OF keeps_inv [OF i assms(3)] t1(1) disjI1 [OF c] assms(4)]
  have "cl_running (w_cl w)" using assms(1,2) by (auto simp: cl_inv_def tasks_ok_def)
  then have "cl_running (w_cl w2)" using f(5) k(2) by (simp add: view_eq put_cl_tasks_def)
  then show "cl_inv None w2" using f(2,3) p by (intro settle [OF f(1)]) auto
  show "nonasync w2 a" if "nonasync w a"
    by (rule f(4), rule k(3)) (use that in \<open>simp add: nonasync_def put_cl_tasks_def\<close>)
qed

lemma task_del_none: "cl_task_find tid w = None \<Longrightarrow> cl_task_del tid w = (None, w)"
  by (simp add: cl_task_del_def cl_task_find_def)

lemma task_del_some: "cl_task_find tid w = Some t \<Longrightarrow> cl_task_del tid w = (Some t, put_cl_tasks (smap_erase tid (taskTable w)) w)"
  by (simp add: cl_task_del_def cl_task_find_def)

section \<open>Every step keeps the invariant\<close>

lemma timer_cb_inv:
  assumes "cl_inv None w" "timer_cb a w = Some w'"
  shows "cl_inv None w'"
proof -
  from assms(2) obtain td where td: "get_timer a w = Some td" by (auto simp: timer_cb_def Option.bind_eq_Some_conv)
  let ?w1 = "snd (cl_timer_del (td_taskId td) w)"
  have i1: "cl_inv None ?w1" by (rule keeps_inv [OF assms(1) keeps_timer_del])
  note b = inv_base [OF assms(1)]
  have nd: "nonasync w c" if "td_data td = Some c" for c
    using refs_nonasync [OF b] td that by (auto simp: refs_def)
  note m1 = keepsD(3) [OF keeps_timer_del b, of _ "td_taskId td"]
  obtain w3 where w3: "cl_inv None w3" "\<And>c. nonasync w c \<Longrightarrow> nonasync w3 c"
    "Option.bind (safe_uv_close (td_data td) w3) (safe_uv_close (Some a)) = Some w'"
  proof (cases "cl_task_find (td_taskId td) ?w1")
    case None
    with assms(2) td show ?thesis by (intro that [OF i1 m1]) (simp_all add: timer_cb_def task_del_none)
  next
    case (Some t)
    let ?w2 = "put_cl_tasks (smap_erase (td_taskId td) (taskTable ?w1)) ?w1"
    from assms(2) td Some obtain w3 w4 where f: "set_err t ERR_TIMEOUT ?w2 = Some w3" "cl_finish_task t w3 = Some w4"
      "Option.bind (safe_uv_close (td_data td) w4) (safe_uv_close (Some a)) = Some w'"
      by (auto simp: timer_cb_def task_del_some Option.bind_eq_Some_conv)
    note tf = take_finish [OF i1 Some keeps_set_err [OF f(1)] f(2)]
    from that [OF tf(1) tf(2) [OF m1] f(3)] show ?thesis .
  qed
  from w3(3) obtain w4 where c: "safe_uv_close (td_data td) w3 = Some w4" "safe_uv_close (Some a) w4 = Some w'"
    by (auto simp: Option.bind_eq_Some_conv)
  have k: "keeps w3 w4" by (rule keeps_safe_close [OF c(1)]) (use w3(2) nd in blast)
  have "nonasync w4 a" using keepsD(3) [OF k inv_base [OF w3(1)] w3(2) [OF timer_nonasync [OF b td]]] .
  then have "keeps w4 w'" by (intro keeps_safe_close [OF c(2)]) simp
  with k show ?thesis by (intro keeps_inv [OF keeps_inv [OF w3(1)]])
qed

lemma client_pkg_inv:
  assumes "cl_inv None w" "client_pkg i pkg w = Some w'"
  shows "cl_inv None w'"
proof (cases "pkg_type pkg = PKG_TYPE_COMMON")
  case False
  with assms(2) have "keeps w w'" by (auto simp: client_pkg_def split: if_splits intro: keeps_emit)
  with assms(1) show ?thesis by (rule keeps_inv)
next
  case True
  let ?id = "pkg_taskId pkg"
  show ?thesis
  proof (cases "cl_task_find ?id w")
    case None
    obtain td w2 where d: "cl_timer_del ?id w = (td, w2)" by fastforce
    with assms(2) True None have w': "drop_timer td w2 = Some w'"
      by (auto simp: client_pkg_def task_del_none Option.bind_eq_Some_conv)
    note r = timer_del_ret [OF d]
    have k: "keeps w w2" using keeps_timer_del [of w ?id] r by simp
    have "nonasync w2 a" if "td = Some a" for a
      using keepsD(3) [OF k inv_base [OF assms(1)]] refs_nonasync timer_in_refs that r inv_base [OF assms(1)] by metis
    from keeps_drop_timer [OF w' this] k assms(1) show ?thesis by (meson keeps_inv keeps_trans)
  next
    case (Some t)
    let ?w1 = "put_cl_tasks (smap_erase ?id (taskTable w)) w"
    obtain td w2 where d: "cl_timer_del ?id ?w1 = (td, w2)" by fastforce
    with assms(2) True Some obtain w3 where w3: "drop_timer td w2 = Some w3"
      and rest: "Option.bind (w_tasks w3 t) (\<lambda>tk. case t_body tk of RW _ _ _ \<Rightarrow>
        cl_finish_task t (set_task t (tk\<lparr>t_err := 0, t_outdata := pkg_data pkg\<rparr>) w3) | _ \<Rightarrow> None) = Some w'"
      by (auto simp: client_pkg_def task_del_some Option.bind_eq_Some_conv)
    from rest obtain tk where t0: "w_tasks w3 t = Some tk" by (auto simp: Option.bind_eq_Some_conv)
    with rest have tk: "w_tasks w3 t = Some tk"
      "cl_finish_task t (set_task t (tk\<lparr>t_err := 0, t_outdata := pkg_data pkg\<rparr>) w3) = Some w'"
      by (auto split: task_body.split_asm)
    note b1 = inv_base [OF inv_take [OF assms(1) Some]]
    note r = timer_del_ret [OF d]
    have k: "keeps ?w1 w2" using keeps_timer_del [of ?w1 ?id] r by simp
    have "nonasync w2 a" if "td = Some a" for a
      using keepsD(3) [OF k b1] refs_nonasync [OF b1] timer_in_refs [OF b1] that r by metis
    note k3 = keeps_trans [OF k keeps_drop_timer [OF w3 this]]
    have "keeps w3 (set_task t (tk\<lparr>t_err := 0, t_outdata := pkg_data pkg\<rparr>) w3)" by (rule keeps_set_task [OF tk(1)]) simp_all
    from take_finish(1) [OF assms(1) Some keeps_trans [OF k3 this] tk(2)] show ?thesis .
  qed
qed

lemma each_pkg_inv: "cl_inv None w \<Longrightarrow> each_pkg (client_pkg i) ps w = Some w' \<Longrightarrow> cl_inv None w'"
  by (induction ps arbitrary: w) (auto simp: Option.bind_eq_Some_conv dest: client_pkg_inv)

lemma read_cb_inv:
  assumes "cl_inv None w" "w_handles w a = Some h" "h_loop h = CLIENT_LOOP" "h_kind h = UV_TCP (Some c)"
    "read_cb a nread buf w = Some w'"
  shows "cl_inv None w'"
proof -
  have gc: "get_conn a w = Some c" using assms by (simp add: get_conn_iff)
  consider "nread = 0" | "nread < 0" | "nread > 0" by linarith
  then show ?thesis
  proof cases
    case 1
    with assms show ?thesis by (simp add: read_cb_def)
  next
    case 3
    with assms(5) have "read_content_process a nread buf w = Some w'" by (simp add: read_cb_def)
    with assms(2,3) gc obtain tcp ps w1 where "set_conn a (c\<lparr>tc_tcp := tcp\<rparr>) w = Some w1"
      "each_pkg (client_pkg (tc_connId c)) ps w1 = Some w'"
      by (auto simp: read_content_process_def Option.bind_eq_Some_conv)
    then show ?thesis using each_pkg_inv [OF keeps_inv [OF assms(1) keeps_set_conn]] gc by blast
  next
    case 2
    with assms(5) obtain w1 w2 where w1: "deactivate a w = Some w1" "safe_uv_close (Some a) w1 = Some w2"
      by (auto simp: read_cb_def Option.bind_eq_Some_conv)
    note k1 = keeps_deactivate [OF w1(1)]
    have k2: "keeps w1 w2"
      by (rule keeps_safe_close [OF w1(2)])
        (use keepsD(3) [OF k1 inv_base [OF assms(1)] conn_nonasync [OF inv_base [OF assms(1)] gc]] in simp)
    obtain h2 where h2: "w_handles w2 a = Some h2" "h_loop h2 = CLIENT_LOOP" "h_kind h2 = UV_TCP (Some c)"
      using w1 assms(2-4) by (auto simp: deactivate_def safe_uv_close_def set_handle_def split: if_splits)
    let ?w3 = "snd (cl_conn_del (tc_connId c) w2)"
    let ?w4 = "if cl_conn_cb (w_cl ?w3) then emit (E_Conn (tc_connId c) (tc_ip c) False) ?w3 else ?w3"
    from 2 assms(5) w1 h2 have "cl_task_del_by_connId (tc_connId c) ?w4 = Some ([], w')"
      by (auto simp: read_cb_def get_conn_def Option.bind_eq_Some_conv split: if_splits)
    then have "w' = put_cl_tasks (taskTable ?w4) ?w4"
      by (auto simp: cl_task_del_by_connId_def Option.bind_eq_Some_conv dest!: split_none)
    then have "w' = ?w4" by (simp add: put_cl_tasks_def)
    moreover have "keeps w ?w4"
      by (rule keeps_trans [OF keeps_trans [OF k1 k2] keeps_trans [OF keeps_conn_del keeps_conn_cb]])
    ultimately show ?thesis using keeps_inv [OF assms(1)] by simp
  qed
qed

lemma connect_failed:
  assumes i0: "cl_inv None w0" and f0: "cl_task_find tid w0 = Some t" and k3: "keeps (put_cl_tasks (smap_erase tid (taskTable w0)) w0) w3"
    and n0: "nonasync w0 conn"
    and f: "safe_uv_close (Some conn) w3 = Some w4" "set_err t status w4 = Some w5" "cl_finish_task t w5 = Some w'"
  shows "cl_inv None w'"
proof -
  let ?w1 = "put_cl_tasks (smap_erase tid (taskTable w0)) w0"
  have "nonasync ?w1 conn" using n0 by (simp add: nonasync_def put_cl_tasks_def)
  then have "keeps w3 w4" by (intro keeps_safe_close [OF f(1)]) (use keepsD(3) [OF k3 inv_base [OF inv_take [OF i0 f0]]] in simp)
  from take_finish(1) [OF i0 f0 keeps_trans [OF k3 keeps_trans [OF this keeps_set_err [OF f(2)]]] f(3)] show ?thesis .
qed

lemma connect_done:
  assumes i0: "cl_inv None w0" and f0: "cl_task_find tid w0 = Some t" and k3: "keeps (put_cl_tasks (smap_erase tid (taskTable w0)) w0) w3"
    and f: "get_conn conn w3 = Some c" "set_conn conn (c\<lparr>tc_connId := cid\<rparr>) (w3\<lparr>w_clt_gen := g\<rparr>) = Some w4" "cl_conn_add cid conn w4 = Some (rr, w5)"
      "activate conn (if cl_conn_cb (w_cl w5) then emit (E_Conn cid (tc_ip c) True) w5 else w5) = Some w7"
      "set_err t 0 w7 = Some w8" "cl_finish_task t w8 = Some w'"
  shows "cl_inv None w'"
proof -
  have "keeps w3 (w3\<lparr>w_clt_gen := g\<rparr>)" by (rule keeps_same) auto
  also have "keeps (w3\<lparr>w_clt_gen := g\<rparr>) w4" by (rule keeps_set_conn [OF f(2)]) (use f(1) in \<open>simp add: get_conn_def\<close>)
  also note keeps_conn_add [OF f(3)]
  also note keeps_conn_cb
  also note keeps_activate [OF f(4)]
  also note keeps_set_err [OF f(5)]
  finally show ?thesis using take_finish(1) [OF i0 f0 keeps_trans [OF k3] f(6)] by blast
qed

lemma connect_cb_inv:
  assumes "cl_inv None w" "(tid, conn) \<in> set (w_connects w)"
    "connect_cb tid conn status (w\<lparr>w_connects := remove1 (tid, conn) (w_connects w)\<rparr>) = Some w'"
  shows "cl_inv None w'"
proof -
  let ?w0 = "w\<lparr>w_connects := remove1 (tid, conn) (w_connects w)\<rparr>"
  have k0: "keeps w ?w0" by (rule keeps_same) (auto dest: in_set_remove1 [THEN iffD1, rotated] notin_set_remove1 intro: set_remove1_subset [THEN subsetD])
  note i0 = keeps_inv [OF assms(1) k0]
  have "conn \<in> refs w" using assms(2) by (auto simp: refs_def intro: rev_image_eqI)
  then have n0: "nonasync ?w0 conn" using keepsD(3) [OF k0] refs_nonasync inv_base [OF assms(1)] by blast
  show ?thesis
  proof (cases "cl_task_find tid ?w0")
    case None
    with assms(3) i0 show ?thesis by (simp add: connect_cb_def task_del_none)
  next
    case (Some t)
    let ?w1 = "put_cl_tasks (smap_erase tid (taskTable ?w0)) ?w0"
    from assms(3) Some obtain tk where tk: "w_tasks ?w1 t = Some tk"
      by (auto simp: connect_cb_def task_del_some Option.bind_eq_Some_conv)
    obtain td w2 where d: "cl_timer_del (t_taskId tk) ?w1 = (td, w2)" by fastforce
    with assms(3) Some tk obtain w3 where w3: "drop_timer td w2 = Some w3"
      by (auto simp: connect_cb_def task_del_some Option.bind_eq_Some_conv)
    note b1 = inv_base [OF inv_take [OF i0 Some]]
    note r = timer_del_ret [OF d]
    have k: "keeps ?w1 w2" using keeps_timer_del [of ?w1 "t_taskId tk"] r by simp
    have "nonasync w2 a" if "td = Some a" for a
      using keepsD(3) [OF k b1] refs_nonasync [OF b1] timer_in_refs [OF b1] that r by metis
    note k3 = keeps_trans [OF k keeps_drop_timer [OF w3 this]]
    obtain cid g where g: "GenConnID_applyId (w_clt_gen w3) = (cid, g)" by fastforce
    show ?thesis
      using assms(3) Some tk d w3 g connect_failed [OF i0 Some k3 n0] connect_done [OF i0 Some k3]
      by (cases "status = 0") (auto simp: connect_cb_def task_del_some Option.bind_eq_Some_conv)
  qed
qed

lemma inv_weaken: "cl_inv None w \<Longrightarrow> cl_inv (Some t) w"
  unfolding cl_inv_def tasks_ok_def writes_ok_def by blast

lemma live_client_place:
  assumes "cl_inv None w" "w_tasks w t = Some task" "client_task task" "\<And>a. \<not> pend w a t"
  shows "cl_task_find (t_taskId task) w = Some t" "cl_running (w_cl w)"
proof -
  note o = assms(1) [unfolded cl_inv_def tasks_ok_def]
  show f: "cl_task_find (t_taskId task) w = Some t" using o assms(2-4) by blast
  show "cl_running (w_cl w)"
  proof (rule ccontr)
    assume "\<not> cl_running (w_cl w)"
    with o have "cl_task_find (t_taskId task) w = None" by blast
    with f show False by simp
  qed
qed

lemma write_cb_inv:
  assumes "cl_inv None w" "(conn, t) \<in> set (w_writes w)" "w_tasks w t = Some task" "client_task task"
    "write_cb conn t status (w\<lparr>w_writes := remove1 (conn, t) (w_writes w)\<rparr>) = Some w'"
  shows "cl_inv None w'"
proof -
  let ?w0 = "w\<lparr>w_writes := remove1 (conn, t) (w_writes w)\<rparr>"
  have k0: "keeps w ?w0" by (rule keeps_same) (auto intro: set_remove1_subset [THEN subsetD])
  note i0 = keeps_inv [OF assms(1) k0]
  have np: "\<not> pend ?w0 a t" for a
    using assms(1,2) by (auto simp: cl_inv_def writes_ok_def pend_def)
  from assms(3,4) obtain tmo cid dat where rw: "t_body task = RW tmo cid dat"
    using assms(5) by (cases "t_body task") (auto simp: client_task_def write_cb_def)
  note pl = live_client_place [OF i0 _ assms(4) np]
  show ?thesis
  proof (cases "status = 0")
    case True
    with assms(3,5) rw have "keeps ?w0 w'"
      by (auto simp: write_cb_def Option.bind_eq_Some_conv split: if_splits intro: keeps_start_timer)
    with i0 show ?thesis by (rule keeps_inv)
  next
    case False
    with assms(3,5) rw obtain w1 where w1: "set_err t status ?w0 = Some w1" "cl_finish_task t w1 = Some w'"
      by (auto simp: write_cb_def Option.bind_eq_Some_conv)
    note k1 = keepsD [OF keeps_set_err [OF w1(1)] inv_base [OF i0]]
    have "w_tasks ?w0 t = Some task" using assms(3) by simp
    from view_task [OF k1(2) this] obtain task1 where t0: "w_tasks w1 t = Some task1" "t_body task1 = t_body task" by blast
    then have t1: "w_tasks w1 t = Some task1" "client_task task1" using assms(4) client_task_cong by blast+
    note f = finish_inv [OF inv_weaken [OF keeps_inv [OF i0 keeps_set_err [OF w1(1)]]] t1(1) disjI1 [OF t1(2)] w1(2)]
    have "cl_running (w_cl w')" using f(5) k1(2) pl(2) assms(3) by (simp add: view_eq)
    moreover have "\<not> pend w' a t" for a using f(3) k1(2) np by (simp add: view_eq)
    ultimately show ?thesis using f(2) by (intro settle [OF f(1)]) auto
  qed
qed

text \<open>Closing the async handle that carried the task being run.\<close>

lemma close_async_inv:
  assumes "cl_inv (Some t) w" "pend w a t" "safe_uv_close (Some a) w = Some w'"
  shows "cl_inv (Some t) w'" "\<not> pend w' b t" "w_tasks w' = w_tasks w" "w_cl w' = w_cl w"
proof -
  from assms(2,3) obtain h where h: "w_handles w a = Some h" "h_kind h = UV_ASYNC t" "h_loop h = CLIENT_LOOP"
    and w': "w' = set_handle a (Some (h\<lparr>h_closing := True, h_active := False\<rparr>)) w"
    by (auto simp: pend_def safe_uv_close_def)
  note o = assms(1) [unfolded cl_inv_def tasks_ok_def]
  have p: "pend w' b x \<longleftrightarrow> b \<noteq> a \<and> pend w b x" for b x by (auto simp: w' pend_def set_handle_def)
  show f: "w_tasks w' = w_tasks w" "w_cl w' = w_cl w" by (simp_all add: w' set_handle_def)
  show "\<not> pend w' b t" using o assms(2) p by blast
  have g: "get_timer b w' = get_timer b w" for b using h by (auto simp: w' get_timer_def set_handle_def)
  have n: "nonasync w' = nonasync w"
    using h by (auto simp: w' nonasync_def set_handle_def is_async_def fun_eq_iff)
  have r: "refs w' = refs w" unfolding refs_def g f by (simp add: w' set_handle_def)
  have "heap_ok w'" using o h by (auto simp: heap_ok_def w' set_handle_def)
  moreover have "refs_ok w'" using o unfolding refs_ok_def maps_ok_def n r f by blast
  moreover have "tasks_ok (Some t) w'" unfolding tasks_ok_def f p cl_task_find_def [of _ w'] cl_task_find_def [of _ w, symmetric]
  proof (intro conjI allI impI)
    fix x k assume k: "w_tasks w x = Some k" "client_task k"
    with o have "(\<exists>b. pend w b x) \<or> cl_task_find (t_taskId k) w = Some x \<or> Some t = Some x" by blast
    moreover have "x = t" if "pend w a x" using that assms(2) by (auto simp: pend_def)
    ultimately show "(\<exists>b. b \<noteq> a \<and> pend w b x) \<or> cl_task_find (t_taskId k) w = Some x \<or> Some t = Some x" by metis
  qed (use o in blast)+
  moreover have "writes_ok (Some t) w'" using o by (auto simp: writes_ok_def p) (auto simp: w' set_handle_def)
  ultimately show "cl_inv (Some t) w'" by (simp add: cl_inv_def)
qed

text \<open>What running a task must leave behind: the invariant but for the task, which is gone or in the table.\<close>

definition settled :: "addr \<Rightarrow> addr \<Rightarrow> world \<Rightarrow> bool" where
  "settled a t w \<longleftrightarrow> cl_inv (Some t) w \<and> pend w a t
     \<and> (\<forall>task. w_tasks w t = Some task \<longrightarrow> client_task task \<longrightarrow> cl_task_find (t_taskId task) w = Some t)
     \<and> (cl_running (w_cl w) \<or> taskTable w = [])"

lemma settled_close: "settled a t w \<Longrightarrow> safe_uv_close (Some a) w = Some w' \<Longrightarrow> cl_inv None w'"
  using close_async_inv [of t w a w'] settle [of t w'] unfolding settled_def
  by (simp add: cl_task_find_def)

lemma settled_keeps: "settled a t w \<Longrightarrow> keeps w w' \<Longrightarrow> settled a t w'"
proof -
  assume s: "settled a t w" and k: "keeps w w'"
  then have i: "cl_inv (Some t) w" by (simp add: settled_def)
  note K = keepsD [OF k inv_base [OF i]]
  have "cl_task_find tid w' = cl_task_find tid w" for tid using K(2) by (simp add: view_eq cl_task_find_def)
  moreover have "w_tasks w' t = Some task \<Longrightarrow> \<exists>task'. w_tasks w t = Some task' \<and> t_taskId task' = t_taskId task \<and> t_body task' = t_body task" for task
    by (rule view_task [OF K(2) [symmetric]])
  ultimately show ?thesis using s keeps_inv [OF i k] K(2) client_task_cong unfolding settled_def view_eq by metis
qed

lemma settled_finish:
  assumes "cl_inv (Some t) w" "pend w a t" "w_tasks w t = Some task" "client_task task \<or> taskTable w = []"
    "cl_running (w_cl w) \<or> taskTable w = []" "cl_finish_task t w = Some w'"
  shows "settled a t w'"
  using finish_inv [OF assms(1,3,4,6)] assms(2,5) by (auto simp: settled_def smap_erase_def)

lemma task_add_inv:
  assumes "cl_inv (Some t) w" "pend w a t" "w_tasks w t = Some task" "client_task task" "cl_running (w_cl w)"
  shows "settled a t (cl_task_add (t_taskId task) t w)"
proof -
  let ?w = "cl_task_add (t_taskId task) t w"
  note o = assms(1) [unfolded cl_inv_def tasks_ok_def]
  have sm: "smap_ok (taskTable w)" by (rule maps_okD [OF inv_base [OF assms(1)]])
  note r = retabled_put [OF inv_base [OF assms(1)], of "smap_put (t_taskId task) t (taskTable w)", folded cl_task_add_def]
  have r: "retabled (smap_put (t_taskId task) t (taskTable w)) w ?w" by (rule r) (simp add: sm)
  have f: "cl_task_find i ?w = (if i = t_taskId task then Some t else cl_task_find i w)" for i
    using r sm by (simp add: cl_task_find_def retabled_def map_simps)
  have p: "pend ?w = pend w" "cl_running (w_cl ?w) = cl_running (w_cl w)" "w_tasks ?w = w_tasks w"
    using r by (simp_all add: retabled_def cl_task_add_def)
  have "tasks_ok (Some t) ?w" unfolding tasks_ok_def f p
  proof (intro conjI allI impI)
    fix i x assume "(if i = t_taskId task then Some t else cl_task_find i w) = Some x"
    then show "\<exists>k. w_tasks w x = Some k \<and> t_taskId k = i \<and> client_task k"
      using o assms(3,4) by (cases "i = t_taskId task") simp_all
  next
    fix x k assume k: "w_tasks w x = Some k" "client_task k"
    with o have "(\<exists>b. pend w b x) \<or> cl_task_find (t_taskId k) w = Some x \<or> Some t = Some x" by blast
    moreover have "x = t" if "t_taskId k = t_taskId task" using o k assms(3,4) that by blast
    ultimately show "(\<exists>b. pend w b x) \<or> (if t_taskId k = t_taskId task then Some t else cl_task_find (t_taskId k) w) = Some x \<or> Some t = Some x"
      by auto
  next
    fix b x assume "pend w b x"
    with o consider "Some t = Some x" | k where "x \<noteq> t" "w_tasks w x = Some k" "client_task k \<or> t_body k = CLOSE" "cl_task_find (t_taskId k) w \<noteq> Some x"
      by blast
    then show "Some t = Some x \<or> (\<exists>k. w_tasks w x = Some k \<and> (client_task k \<or> t_body k = CLOSE) \<and> (if t_taskId k = t_taskId task then Some t else cl_task_find (t_taskId k) w) \<noteq> Some x)"
      by cases auto
  qed (use o assms(5) in blast)+
  moreover have "writes_ok (Some t) ?w" using o writes_mono [of "Some t" w ?w] r by (simp add: retabled_def)
  ultimately show ?thesis using r assms by (simp add: settled_def cl_inv_def retabled_def base_ok_def p f)
qed

lemma keeps_connects:
  assumes "nonasync w conn"
  shows "keeps w (w\<lparr>w_connects := w_connects w @ [(i, conn)]\<rparr>)"
proof -
  let ?w = "w\<lparr>w_connects := w_connects w @ [(i, conn)]\<rparr>"
  have n: "nonasync ?w a = nonasync w a" and p: "pend ?w = pend w" and r: "refs ?w = insert conn (refs w)" for a
    by (auto simp: nonasync_def pend_def fun_eq_iff refs_def get_timer_def)
  show ?thesis
    by (rule keepsI) (use assms in \<open>auto simp: n r heap_ok_def maps_ok_def view_def p\<close>)
qed

lemma settled_set_write:
  assumes "settled a t w" "w_tasks w t = Some task"
  shows "settled a t (w\<lparr>w_writes := w_writes w @ [(c, t)]\<rparr>)"
proof -
  let ?w = "w\<lparr>w_writes := w_writes w @ [(c, t)]\<rparr>"
  have n: "nonasync ?w = nonasync w" and p: "pend ?w = pend w" and r: "refs ?w = refs w"
    by (auto simp: nonasync_def pend_def fun_eq_iff refs_def get_timer_def)
  have i: "cl_inv (Some t) w" using assms(1) by (simp add: settled_def)
  then have "t < w_brk w" using assms(2) by (auto simp: cl_inv_def heap_ok_def not_le [symmetric])
  then have "writes_ok (Some t) ?w" using i by (auto simp: cl_inv_def writes_ok_def p)
  moreover have "tasks_ok (Some t) ?w" by (rule tasks_ok_view1 [of _ w]) (use i p in \<open>simp_all add: view_def cl_inv_def\<close>)
  ultimately show ?thesis using assms(1)
    unfolding settled_def cl_inv_def refs_ok_def maps_ok_def heap_ok_def n p r by (simp add: cl_task_find_def)
qed

lemma settled_do_write:
  assumes "settled a t w" "do_write conn dat t i w = Some (r, w')"
  shows "settled a t w'"
proof -
  from assms(2) obtain task where t: "w_tasks w t = Some task" by (auto simp: do_write_def Option.bind_eq_Some_conv)
  show ?thesis
  proof (cases "io_write i conn")
    case (W_Err e)
    with assms(2) have "keeps w w'"
      by (auto simp: do_write_def Option.bind_eq_Some_conv intro: keeps_set_err)
    with assms(1) show ?thesis by (rule settled_keeps)
  next
    case W_Sent
    with assms(2) t obtain bs where "w' = emit (E_Send conn bs) (w\<lparr>w_writes := w_writes w @ [(conn, t)]\<rparr>)"
      by (auto simp: do_write_def Option.bind_eq_Some_conv)
    with settled_keeps [OF settled_set_write [OF assms(1) t] keeps_emit] show ?thesis by simp
  next
    case W_Partial
    with assms(2) show ?thesis by (auto simp: do_write_def Option.bind_eq_Some_conv)
  qed
qed

lemma init_conn_keeps:
  assumes "init_tcp_conn lt r conn w = Some (r', w')"
  shows "keeps w w'" "r' = r" "\<exists>h c. w_handles w' conn = Some h \<and> h_kind h = UV_TCP (Some c)"
  using assms by (auto simp: init_tcp_conn_def get_conn_iff Option.bind_eq_Some_conv set_handle_def [of conn "Some _" w, symmetric]
      intro!: keeps_set_handle) (auto simp: set_handle_def)

text \<open>The three ends of \<^verbatim>\<open>_do_connect\<close> once it has a handle.\<close>

lemma connect_ends:
  assumes b: "base_ok w2" and n2: "nonasync w2 conn" and h2: "w_handles w2 conn = Some h2" "\<not> is_async h2"
  shows "set_err t e (set_handle conn None w2) = Some w' \<Longrightarrow> keeps w2 w'"
    and "set_err t e w2 = Some w3 \<Longrightarrow> safe_uv_close (Some conn) w3 = Some w' \<Longrightarrow> keeps w2 w'"
    and "keeps w2 (if tmo > 0 then start_timer CLIENT_LOOP tid (Some conn) (w2\<lparr>w_connects := w_connects w2 @ [(tid, conn)]\<rparr>)
      else w2\<lparr>w_connects := w_connects w2 @ [(tid, conn)]\<rparr>)"
proof -
  have "keeps w2 (set_handle conn None w2)" using h2 by (intro keeps_free_handle) auto
  then show "keeps w2 w'" if "set_err t e (set_handle conn None w2) = Some w'" using keeps_set_err [OF that] by (rule keeps_trans)
  show "keeps w2 w'" if e: "set_err t e w2 = Some w3" "safe_uv_close (Some conn) w3 = Some w'"
  proof -
    note k3 = keeps_set_err [OF e(1)]
    have "keeps w3 w'" by (rule keeps_safe_close [OF e(2)]) (use keepsD(3) [OF k3 b n2] in simp)
    with k3 show ?thesis by (rule keeps_trans)
  qed
  let ?w3 = "w2\<lparr>w_connects := w_connects w2 @ [(tid, conn)]\<rparr>"
  have k3: "keeps w2 ?w3" by (rule keeps_connects [OF n2])
  have "nonasync ?w3 conn" using n2 by (simp add: nonasync_def)
  then have "keeps ?w3 (if tmo > 0 then start_timer CLIENT_LOOP tid (Some conn) ?w3 else ?w3)" by (auto intro!: keeps_start_timer)
  with k3 show "keeps w2 (if tmo > 0 then start_timer CLIENT_LOOP tid (Some conn) ?w3 else ?w3)" by (rule keeps_trans)
qed

lemma do_connect_keeps:
  assumes "base_ok w" "do_connect t i w = Some (r, w')"
  shows "keeps w w'"
proof -
  from assms(2) obtain task where t0: "w_tasks w t = Some task" by (auto simp: do_connect_def Option.bind_eq_Some_conv)
  with assms(2) obtain tmo ip port found where t: "w_tasks w t = Some task" "t_body task = CONNECT tmo ip port"
    "cl_conn_find2 ip w = Some found"
    by (cases "t_body task") (auto simp: do_connect_def Option.bind_eq_Some_conv)
  show ?thesis
  proof (cases "found = None")
    case False
    with assms(2) t show ?thesis by (auto simp: do_connect_def Option.bind_eq_Some_conv intro: keeps_set_err)
  next
    case True
    define h where "h = \<lparr>h_loop = CLIENT_LOOP, h_kind = UV_TCP (Some \<lparr>tc_connId = INVALID_CONNID, tc_tcp = fresh_tcp, tc_ip = ip, tc_port = port\<rparr>), h_closing = False, h_active = False\<rparr>"
    obtain conn w1 where n: "new_handle h w = (conn, w1)" by fastforce
    have n1: "keeps w w1" "nonasync w1 conn" by (rule keeps_new_handle [OF n]; simp add: h_def is_async_def)+
    from assms(2) t True n obtain w2 where w2: "init_tcp_conn CLIENT_LOOP (io_init i) conn w1 = Some (io_init i, w2)"
      using init_conn_keeps(2) by (auto simp: do_connect_def h_def Option.bind_eq_Some_conv)
    note I = init_conn_keeps [OF w2]
    have k2: "keeps w w2" by (rule keeps_trans [OF n1(1) I(1)])
    have n2: "nonasync w2 conn" by (rule keepsD(3) [OF I(1) keepsD(1) [OF n1(1) assms(1)] n1(2)])
    from I(3) obtain h2 where h2: "w_handles w2 conn = Some h2" "\<not> is_async h2" by (auto simp: is_async_def)
    note ends = connect_ends [OF keepsD(1) [OF k2 assms(1)] n2 h2]
    have "keeps w2 w'"
      using assms(2) t True n w2 ends(1,2) ends(3) [of tmo "t_taskId task"]
      by (cases "io_init i = 0"; cases "io_connect i = 0") (auto simp: do_connect_def h_def Let_def Option.bind_eq_Some_conv)
    with k2 show ?thesis by (rule keeps_trans)
  qed
qed

lemma do_write_v_tasks: "do_write conn dat t i w = Some (r, w') \<Longrightarrow> v_tasks w' = v_tasks w"
  by (cases "io_write i conn")
    (auto simp: do_write_def emit_def set_err_def set_task_def v_tasks_def fun_eq_iff Option.bind_eq_Some_conv)

text \<open>Ending the task being run, when it is a client task.\<close>

lemma settled_finish_client:
  assumes "settled a t w" "cl_finish_task t w = Some w'" "v_tasks w t = Some (t_taskId task, t_body task)" "client_task task"
  shows "settled a t w'"
proof -
  from v_tasks_SomeE [OF assms(3)] obtain k where k: "w_tasks w t = Some k" "t_body k = t_body task" by auto
  have "client_task k" using k(2) assms(4) client_task_cong by blast
  with assms(1) show ?thesis by (intro settled_finish [OF _ _ k(1) _ _ assms(2)]) (auto simp: settled_def)
qed

text \<open>The shutdown of the client loop, run for the task \<open>t\<close>.\<close>

lemma each_keeps:
  assumes "base_ok w" "each_addr f as w = Some w'" "\<And>a. a \<in> set as \<Longrightarrow> nonasync w a"
    "\<And>a v v'. base_ok v \<Longrightarrow> nonasync v a \<Longrightarrow> f a v = Some v' \<Longrightarrow> keeps v v'"
  shows "keeps w w'"
  using assms(1-3)
proof (induction as arbitrary: w)
  case (Cons a as)
  then obtain w1 where w1: "f a w = Some w1" "each_addr f as w1 = Some w'" by (auto simp: Option.bind_eq_Some_conv)
  have k: "keeps w w1" using assms(4) [OF Cons.prems(1) _ w1(1)] Cons.prems(3) by simp
  note D = keepsD [OF k Cons.prems(1)]
  have "keeps w1 w'" by (rule Cons.IH [OF D(1) w1(2)]) (use D(3) Cons.prems(3) in simp)
  with k show ?case by (rule keeps_trans)
qed simp

lemma stop_and_close_keeps: "base_ok v \<Longrightarrow> nonasync v a \<Longrightarrow> stop_and_close a v = Some v' \<Longrightarrow> keeps v v'"
  unfolding stop_and_close_def Option.bind_eq_Some_conv
  using keeps_deactivate keepsD(3) keeps_safe_close keeps_trans by (metis option.sel)

lemma close_timer_keeps:
  assumes "base_ok v" "nonasync v a" "close_timer_and_data a v = Some v'"
  shows "keeps v v'"
proof -
  from assms(3) obtain v1 td where v1: "safe_uv_close (Some a) v = Some v1" "get_timer a v1 = Some td" "safe_uv_close (td_data td) v1 = Some v'"
    by (auto simp: close_timer_and_data_def Option.bind_eq_Some_conv)
  have k: "keeps v v1" by (rule keeps_safe_close [OF v1(1)]) (use assms(2) in simp)
  note b = keepsD(1) [OF k assms(1)]
  have "keeps v1 v'" by (rule keeps_safe_close [OF v1(3)]) (use refs_nonasync [OF b] v1(2) in \<open>auto simp: refs_def\<close>)
  with k show ?thesis by (rule keeps_trans)
qed

lemma erase_head: "smap_ok ((k, v) # m) \<Longrightarrow> smap_erase k ((k, v) # m) = m"
  by (force simp: smap_erase_def smap_ok_Cons intro!: filter_True)

lemma finish_one_inv:
  assumes i: "cl_inv (Some t) w" and t: "w_tasks w t = Some task" "\<not> client_task task" and m: "taskTable w = (tid, x) # m"
    and f: "finish_shutdown x w = Some w2"
  shows "cl_inv (Some t) w2 \<and> taskTable w2 = m \<and> pend w2 = pend w \<and> v_tasks w2 t = v_tasks w t
    \<and> cl_running (w_cl w2) = cl_running (w_cl w) \<and> notified w2 = notified w @ [x] \<and> w_tasks w x \<noteq> None
    \<and> (\<exists>task2. w_tasks w2 t = Some task2 \<and> \<not> client_task task2)"
proof -
  from f obtain w1 where w1: "set_err x ERR_SHUTDOWN w = Some w1" "cl_finish_task x w1 = Some w2"
    by (auto simp: finish_shutdown_def Option.bind_eq_Some_conv)
  have tf: "cl_task_find tid w = Some x" using m by (simp add: cl_task_find_def)
  note o = i [unfolded cl_inv_def tasks_ok_def]
  from o tf obtain k where k: "w_tasks w x = Some k" "t_taskId k = tid" "client_task k" by blast
  with t have xt: "x \<noteq> t" by auto
  have np: "\<not> pend w a x" for a
  proof
    assume "pend w a x"
    with o xt obtain k' where "w_tasks w x = Some k'" "cl_task_find (t_taskId k') w \<noteq> Some x" by blast
    with k tf show False by simp
  qed
  note K = keepsD [OF keeps_set_err [OF w1(1)] inv_base [OF i]]
  note i1 = keeps_inv [OF i keeps_set_err [OF w1(1)]]
  from view_task [OF K(2) k(1)] obtain k1 where k1: "w_tasks w1 x = Some k1" "t_taskId k1 = tid" "t_body k1 = t_body k"
    using k(2) by auto
  note e = finish_ended [OF inv_base [OF i1] w1(2) k1(1), unfolded k1(2)]
  have c1: "client_task k1" using k1(3) k(3) client_task_cong by blast
  have i2: "cl_inv (Some t) w2"
    by (rule inv_ended [OF _ _ e k1(1,2) disjI1 [OF c1]]) (use i1 np K(2) in \<open>auto simp: cl_inv_def view_eq\<close>)
  have sm: "smap_ok ((tid, x) # m)" using maps_okD [OF inv_base [OF i]] m by simp
  have t2: "taskTable w2 = m" using e K(2) m erase_head [OF sm] by (simp add: ended_def view_eq)
  have v2: "v_tasks w2 t = v_tasks w t" "pend w2 = pend w" "cl_running (w_cl w2) = cl_running (w_cl w)" "notified w2 = notified w @ [x]"
    using e K(2) xt by (simp_all add: ended_def view_eq)
  from v_tasks_SomeE [of w2 t] v2(1) v_tasks_Some [OF t(1)] obtain task2 where
    t2': "w_tasks w2 t = Some task2" "t_body task2 = t_body task" by auto
  with t(2) have "\<not> client_task task2" using client_task_cong by blast
  with i2 t2 v2 k t2' show ?thesis by auto
qed

lemma finish_all_inv:
  assumes "cl_inv (Some t) w" "w_tasks w t = Some task" "\<not> client_task task" "taskTable w = m"
    "each_addr finish_shutdown (map snd m) w = Some w'"
  shows "cl_inv (Some t) w' \<and> taskTable w' = [] \<and> pend w' = pend w \<and> v_tasks w' t = v_tasks w t
    \<and> cl_running (w_cl w') = cl_running (w_cl w) \<and> notified w' = notified w @ map snd m"
  using assms
proof (induction m arbitrary: w task)
  case (Cons kv m)
  obtain tid x where kv: "kv = (tid, x)" by fastforce
  with Cons.prems obtain w2 where w2: "finish_shutdown x w = Some w2" and rest: "each_addr finish_shutdown (map snd m) w2 = Some w'"
    by (auto simp: Option.bind_eq_Some_conv)
  note F = finish_one_inv [OF Cons.prems(1-3) Cons.prems(4) [unfolded kv] w2]
  then obtain task2 where "w_tasks w2 t = Some task2" "\<not> client_task task2" by blast
  with F Cons.IH [OF _ this _ rest] kv show ?case by simp
qed simp

lemma set_running_inv:
  assumes "cl_inv (Some t) w"
  shows "cl_inv (Some t) (w\<lparr>w_cl := w_cl w\<lparr>cl_running := b\<rparr>\<rparr>)"
proof -
  let ?w = "w\<lparr>w_cl := w_cl w\<lparr>cl_running := b\<rparr>\<rparr>"
  have n: "nonasync ?w = nonasync w" and p: "pend ?w = pend w" and r: "refs ?w = refs w"
    and f: "cl_task_find i ?w = cl_task_find i w" for i
    by (auto simp: nonasync_def pend_def fun_eq_iff refs_def get_timer_def cl_task_find_def)
  show ?thesis
    using assms unfolding cl_inv_def heap_ok_def refs_ok_def maps_ok_def tasks_ok_def writes_ok_def n p r f by simp
qed

lemma errmsg_frame: "write_errmsg t w = Some w' \<Longrightarrow> w_cl w' = w_cl w" "set_err t e w = Some w' \<Longrightarrow> w_cl w' = w_cl w"
  "notify_task t w = Some w' \<Longrightarrow> w_cl w' = w_cl w"
  by (auto simp: write_errmsg_def set_err_def notify_task_def emit_def set_task_def Option.bind_eq_Some_conv case_prod_unfold Let_def)

lemma finish_tables:
  "cl_finish_task t w = Some w' \<Longrightarrow> cl_timerTable (w_cl w) = [] \<Longrightarrow>
   cl_connTable (w_cl w') = cl_connTable (w_cl w) \<and> cl_timerTable (w_cl w') = []"
  by (auto simp: cl_finish_task_def task_del_erase cl_timer_find_def put_cl_tasks_def Option.bind_eq_Some_conv dest!: errmsg_frame)

lemma finish_all_tables:
  "each_addr finish_shutdown as w = Some w' \<Longrightarrow> cl_timerTable (w_cl w) = [] \<Longrightarrow>
   cl_connTable (w_cl w') = cl_connTable (w_cl w) \<and> cl_timerTable (w_cl w') = []"
proof (induction as arbitrary: w)
  case (Cons a as)
  then obtain w1 w2 where w1: "set_err a ERR_SHUTDOWN w = Some w1" "cl_finish_task a w1 = Some w2"
    and rest: "each_addr finish_shutdown as w2 = Some w'"
    by (auto simp: finish_shutdown_def [of a w] Option.bind_eq_Some_conv)
  with finish_tables [OF w1(2)] errmsg_frame(2) [OF w1(1)] Cons.prems Cons.IH [OF rest] show ?case by simp
qed simp

lemma shutdown_closes:
  assumes b1: "base_ok w" and s: "each_addr stop_and_close (map snd (cl_conn_list w)) w = Some w2"
    "each_addr close_timer_and_data (map snd (cl_list_timer w2)) w2 = Some w3"
  shows "keeps w (cl_conn_clr (cl_timer_clr w3))"
proof -
  have k2: "keeps w w2"
    by (rule each_keeps [OF b1 s(1) _ stop_and_close_keeps])
      (use refs_nonasync [OF b1] in \<open>auto simp: cl_conn_list_def refs_def intro: rev_image_eqI\<close>)
  note b2 = keepsD(1) [OF k2 b1]
  have k3: "keeps w2 w3"
    by (rule each_keeps [OF b2 s(2) _ close_timer_keeps])
      (use refs_nonasync [OF b2] in \<open>auto simp: cl_list_timer_def refs_def intro: rev_image_eqI\<close>)
  have "keeps w3 (cl_timer_clr w3)" unfolding cl_timer_clr_def by (rule keeps_put_timers) auto
  also have "keeps (cl_timer_clr w3) (cl_conn_clr (cl_timer_clr w3))" unfolding cl_conn_clr_def by (rule keeps_put_conns) auto
  finally show ?thesis using k2 k3 by (blast intro: keeps_trans)
qed

lemma client_shutdown_inv:
  assumes "cl_inv (Some t) w" "w_tasks w t = Some task" "\<not> client_task task" "client_shutdown w = Some w'"
  shows "cl_inv (Some t) w' \<and> taskTable w' = [] \<and> pend w' = pend w \<and> v_tasks w' t = v_tasks w t
    \<and> notified w' = notified w @ map snd (taskTable w) \<and> cl_connTable (w_cl w') = [] \<and> cl_timerTable (w_cl w') = []"
proof -
  let ?w1 = "w\<lparr>w_cl := w_cl w\<lparr>cl_running := False\<rparr>\<rparr>"
  from assms(4) obtain w2 w3 w5 where
    s: "each_addr stop_and_close (map snd (cl_conn_list ?w1)) ?w1 = Some w2"
      "each_addr close_timer_and_data (map snd (cl_list_timer w2)) w2 = Some w3"
      "each_addr finish_shutdown (map snd (cl_list_task (cl_conn_clr (cl_timer_clr w3)))) (cl_conn_clr (cl_timer_clr w3)) = Some w5"
      "stop_and_close (cl_no_exit (w_cl w5)) (cl_task_clr w5) = Some w'"
    unfolding client_shutdown_def Option.bind_eq_Some_conv Let_def by blast
  let ?w4 = "cl_conn_clr (cl_timer_clr w3)"
  note i1 = set_running_inv [OF assms(1), of False]
  note b1 = inv_base [OF i1]
  note k4 = shutdown_closes [OF b1 s(1,2)]
  note K = keepsD [OF k4 b1]
  have "w_tasks ?w1 t = Some task" using assms(2) by simp
  from view_task [OF K(2) this] obtain task4 where t4: "w_tasks ?w4 t = Some task4" "\<not> client_task task4"
    using assms(3) client_task_cong by blast
  have m: "taskTable ?w4 = taskTable w" using K(2) by (simp add: view_eq)
  note F = finish_all_inv [OF keeps_inv [OF i1 k4] t4 m s(3) [unfolded cl_list_task_def m]]
  have e: "cl_task_clr w5 = w5" using F by (simp add: cl_task_clr_def put_cl_tasks_def)
  have i5: "cl_inv (Some t) w5" using F by simp
  have k5: "keeps w5 w'"
    by (rule stop_and_close_keeps [OF inv_base [OF i5] _ s(4) [unfolded e]])
      (use refs_nonasync [OF inv_base [OF i5]] in \<open>auto simp: refs_def\<close>)
  have tabs: "cl_connTable (w_cl w') = cl_connTable (w_cl w5)" "cl_timerTable (w_cl w') = cl_timerTable (w_cl w5)"
    using s(4) [unfolded e] by (auto simp: stop_and_close_def deactivate_def safe_uv_close_def set_handle_def Option.bind_eq_Some_conv split: if_splits)
  have "cl_timerTable (w_cl ?w4) = []" "cl_connTable (w_cl ?w4) = []"
    by (simp_all add: cl_conn_clr_def cl_timer_clr_def put_cl_conns_def put_cl_timers_def)
  with finish_all_tables [OF s(3)] tabs have "cl_connTable (w_cl w') = []" "cl_timerTable (w_cl w') = []" by simp_all
  moreover have "view w' = view w5" by (rule keepsD(2) [OF k5 inv_base [OF i5]])
  moreover have "pend ?w1 = pend w" "v_tasks ?w1 = v_tasks w" "notified ?w1 = notified w"
    by (auto simp: pend_def fun_eq_iff v_tasks_def)
  ultimately show ?thesis using F K(2) keeps_inv [OF i5 k5] by (simp add: view_eq)
qed

lemma run_close_settled:
  assumes "cl_inv None w" "pend w a t" "w_tasks w t = Some task" "t_body task = CLOSE" "run_task CLIENT_LOOP t i w = Some w'"
  shows "settled a t w'"
proof -
  have c: "\<not> client_task task" using assms(4) by (simp add: client_task_def)
  from assms(3-5) obtain w1 where w1: "client_shutdown w = Some w1"
    and f: "cl_finish_task t (w1\<lparr>w_cl := w_cl w1\<lparr>cl_running := False\<rparr>\<rparr>) = Some w'"
    by (auto simp: run_task_def do_shutdown_def finish_on_def Option.bind_eq_Some_conv)
  note S = client_shutdown_inv [OF inv_weaken [OF assms(1)] assms(3) c w1]
  let ?w2 = "w1\<lparr>w_cl := w_cl w1\<lparr>cl_running := False\<rparr>\<rparr>"
  from S v_tasks_SomeE [of w1 t] v_tasks_Some [OF assms(3)] obtain task1 where t1: "w_tasks ?w2 t = Some task1" by auto
  have "pend ?w2 = pend w1" by (auto simp: pend_def fun_eq_iff)
  then show ?thesis
    using S assms(2) by (intro settled_finish [OF set_running_inv _ t1 _ _ f]) simp_all
qed

text \<open>A client task that has been put into the table: it is ended, or stays there.\<close>

lemma table_task_settled:
  assumes "settled a t w1" "v_tasks w1 t = Some (t_taskId task, t_body task)" "client_task task"
    and "settled a t w2" "v_tasks w2 t = v_tasks w1 t" "(if r \<noteq> (0 :: int) then cl_finish_task t w2 else Some w2) = Some w'"
  shows "settled a t w'"
  using assms settled_finish_client [OF assms(4) _ _ assms(3)] by (auto split: if_splits)

lemma run_rw_settled:
  assumes s1: "settled a t (cl_task_add (t_taskId task) t w)" and v1: "v_tasks (cl_task_add (t_taskId task) t w) t = Some (t_taskId task, t_body task)"
    and t: "w_tasks w t = Some task" "t_body task = RW tmo cid dat" and r: "run_task CLIENT_LOOP t i w = Some w'"
  shows "settled a t w'"
proof -
  let ?w1 = "cl_task_add (t_taskId task) t w"
  have c: "client_task task" using t(2) by (simp add: client_task_def)
  have b1: "base_ok ?w1" using s1 inv_base by (auto simp: settled_def)
  show ?thesis
  proof (cases "cl_conn_find cid ?w1")
    case None
    with r t obtain w2 where w2: "set_err t ERR_CONN_NOT_EXIST ?w1 = Some w2" "cl_finish_task t w2 = Some w'"
      by (auto simp: run_task_def Option.bind_eq_Some_conv)
    have "v_tasks w2 t = Some (t_taskId task, t_body task)"
      using keepsD(2) [OF keeps_set_err [OF w2(1)] b1] v1 by (simp add: view_eq)
    from settled_finish_client [OF settled_keeps [OF s1 keeps_set_err [OF w2(1)]] w2(2) this c] show ?thesis .
  next
    case (Some conn)
    with r t obtain e w2 where w2: "do_write conn dat t i ?w1 = Some (e, w2)" "(if e \<noteq> 0 then cl_finish_task t w2 else Some w2) = Some w'"
      by (auto simp: run_task_def Option.bind_eq_Some_conv)
    from table_task_settled [OF s1 v1 c settled_do_write [OF s1 w2(1)] _ w2(2)] do_write_v_tasks [OF w2(1)] show ?thesis by simp
  qed
qed

lemma run_connect_settled:
  assumes s1: "settled a t (cl_task_add (t_taskId task) t w)" and v1: "v_tasks (cl_task_add (t_taskId task) t w) t = Some (t_taskId task, t_body task)"
    and t: "w_tasks w t = Some task" "t_body task = CONNECT tmo ip port" and r: "run_task CLIENT_LOOP t i w = Some w'"
  shows "settled a t w'"
proof -
  let ?w1 = "cl_task_add (t_taskId task) t w"
  have c: "client_task task" using t(2) by (simp add: client_task_def)
  have b1: "base_ok ?w1" using s1 inv_base by (auto simp: settled_def)
  from r t obtain e w2 where w2: "do_connect t i ?w1 = Some (e, w2)" "(if e \<noteq> 0 then cl_finish_task t w2 else Some w2) = Some w'"
    by (auto simp: run_task_def Option.bind_eq_Some_conv)
  note k2 = do_connect_keeps [OF b1 w2(1)]
  from table_task_settled [OF s1 v1 c settled_keeps [OF s1 k2] _ w2(2)] keepsD(2) [OF k2 b1] show ?thesis by (simp add: view_eq)
qed

lemma run_task_settled:
  assumes "cl_inv None w" "pend w a t" "cl_running (w_cl w)" "run_task CLIENT_LOOP t i w = Some w'"
  shows "settled a t w'"
proof -
  from assms(4) obtain task where t: "w_tasks w t = Some task" by (auto simp: run_task_def Option.bind_eq_Some_conv)
  have c: "client_task task \<or> t_body task = CLOSE"
    using assms(1,2) t unfolding cl_inv_def tasks_ok_def by (metis option.distinct(1) option.inject)
  show ?thesis
  proof (cases "client_task task")
    case False
    with c run_close_settled [OF assms(1,2) t _ assms(4)] show ?thesis by blast
  next
    case True
    note s1 = task_add_inv [OF inv_weaken [OF assms(1)] assms(2) t True assms(3)]
    have v1: "v_tasks (cl_task_add (t_taskId task) t w) t = Some (t_taskId task, t_body task)"
      using v_tasks_Some [OF t] by (simp add: cl_task_add_def v_tasks_def)
    show ?thesis
      using True run_rw_settled [OF s1 v1 t _ assms(4)] run_connect_settled [OF s1 v1 t _ assms(4)]
      by (cases "t_body task") (auto simp: client_task_def)
  qed
qed

lemma async_cb_inv:
  assumes "cl_inv None w" "pend w a t" "async_cb a i w = Some w'"
  shows "cl_inv None w'"
proof -
  from assms(2) obtain h where h: "w_handles w a = Some h" "h_loop h = CLIENT_LOOP" "h_kind h = UV_ASYNC t" by (auto simp: pend_def)
  have ini: "cl_inited (w_cl w)" using assms(1) by (simp add: cl_inv_def refs_ok_def maps_ok_def)
  show ?thesis
  proof (cases "cl_running (w_cl w)")
    case True
    with assms(3) h ini obtain w1 where w1: "run_task CLIENT_LOOP t i w = Some w1" "safe_uv_close (Some a) w1 = Some w'"
      by (auto simp: async_cb_def running_of_def inited_of_def Option.bind_eq_Some_conv)
    from settled_close [OF run_task_settled [OF assms(1,2) True w1(1)] w1(2)] show ?thesis .
  next
    case False
    with assms(3) h obtain w1 w2 where w1: "set_err t ERR_NOT_READY w = Some w1" "cl_finish_task t w1 = Some w2" "safe_uv_close (Some a) w2 = Some w'"
      by (auto simp: async_cb_def running_of_def finish_on_def Option.bind_eq_Some_conv)
    note K = keepsD [OF keeps_set_err [OF w1(1)] inv_base [OF assms(1)]]
    have "cl_task_find tid w = None" for tid using assms(1) False by (simp add: cl_inv_def tasks_ok_def)
    then have "smap_find (taskTable w) tid = None" for tid by (simp add: cl_task_find_def)
    then have "taskTable w = []" by (cases "taskTable w") (auto, metis option.distinct(1))
    then have e: "taskTable w1 = []" using K(2) by (simp add: view_eq)
    from w1(2) obtain k where k: "w_tasks w1 t = Some k" by (auto simp: cl_finish_task_def write_errmsg_def Option.bind_eq_Some_conv)
    have "settled a t w2"
      by (rule settled_finish [OF inv_weaken [OF keeps_inv [OF assms(1) keeps_set_err [OF w1(1)]]] _ k _ _ w1(2)])
        (use K(2) assms(2) e in \<open>simp_all add: view_eq\<close>)
    from settled_close [OF this w1(3)] show ?thesis .
  qed
qed

text \<open>A new task in a new async handle.\<close>

lemma submit_tasks:
  assumes inv: "cl_inv None w" and cl: "w_cl w' = w_cl w" and ts: "w_tasks w' = (w_tasks w)(t \<mapsto> task)"
    and p: "\<And>b x. pend w' b x \<longleftrightarrow> b = a \<and> x = t \<or> pend w b x" and np: "\<And>b. \<not> pend w b t" and fr: "w_tasks w t = None"
    and k: "t_body task = CLOSE \<or> client_task task" and fid: "\<And>z j. w_tasks w z = Some j \<Longrightarrow> client_task j \<Longrightarrow> client_task task \<Longrightarrow> t_taskId j \<noteq> t_taskId task"
  shows "tasks_ok None w'"
  unfolding tasks_ok_def p ts cl cl_task_find_def [of _ w'] cl_task_find_def [of _ w, symmetric]
proof (intro conjI allI impI)
  note o = inv [unfolded cl_inv_def tasks_ok_def]
  { fix i x assume "cl_task_find i w = Some x"
    with o obtain k where "w_tasks w x = Some k" "t_taskId k = i" "client_task k" by blast
    with fr show "\<exists>k. ((w_tasks w)(t \<mapsto> task)) x = Some k \<and> t_taskId k = i \<and> client_task k" by auto }
  { fix x k assume "((w_tasks w)(t \<mapsto> task)) x = Some k" "client_task k"
    with o show "(\<exists>b. b = a \<and> x = t \<or> pend w b x) \<or> cl_task_find (t_taskId k) w = Some x \<or> None = Some x"
      by (metis fun_upd_other) }
  { fix x y k k' assume e: "((w_tasks w)(t \<mapsto> task)) x = Some k" "((w_tasks w)(t \<mapsto> task)) y = Some k'" "client_task k" "client_task k'" "t_taskId k = t_taskId k'"
    show "x = y"
    proof (cases "x = t \<or> y = t")
      case True
      with e fid show ?thesis by (auto split: if_splits)
    next
      case False
      with e have "w_tasks w x = Some k" "w_tasks w y = Some k'" by simp_all
      with e(3-5) o show ?thesis by blast
    qed }
  { fix b x assume q: "b = a \<and> x = t \<or> pend w b x"
    have "cl_task_find i w \<noteq> Some t" for i using o fr by (metis option.distinct(1))
    with k o q np show "None = Some x \<or> (\<exists>k. ((w_tasks w)(t \<mapsto> task)) x = Some k \<and> (client_task k \<or> t_body k = CLOSE) \<and> cl_task_find (t_taskId k) w \<noteq> Some x)"
      by (metis fun_upd_apply option.distinct(1)) }
  { fix b b' x assume "b = a \<and> x = t \<or> pend w b x" "b' = a \<and> x = t \<or> pend w b' x"
    with o np show "b = b'" by blast }
  { fix i assume "\<not> cl_running (w_cl w)"
    with o show "cl_task_find i w = None" by blast }
qed

lemma submit_inv:
  assumes "cl_inv None w" "cl_create_async w = Some (a, w1)" "new_task task w1 = (t, w2)" "async_submit a t w2 = Some w'"
    "t_body task = CLOSE \<or> client_task task \<and> fresh_id (t_taskId task) w"
  shows "cl_inv None w'"
proof -
  let ?h = "\<lparr>h_loop = CLIENT_LOOP, h_kind = UV_ASYNC t, h_closing = False, h_active = True\<rparr>"
  from assms(2-4) have a: "a = w_brk w" "t = Suc (w_brk w)" and
    w': "w_handles w' = (w_handles w)(a \<mapsto> ?h)" "w_tasks w' = (w_tasks w)(t \<mapsto> task)" "w_brk w' = Suc t"
      "w_cl w' = w_cl w" "w_connects w' = w_connects w" "notified w' = notified w" "w_writes w' = w_writes w"
    by (auto simp: cl_create_async_def new_async_def new_handle_def new_task_def async_submit_def set_handle_def set_task_def
        notified_def fun_eq_iff Option.bind_eq_Some_conv split: if_splits)
  note o = assms(1) [unfolded cl_inv_def tasks_ok_def]
  have fr: "w_handles w x = None \<and> w_tasks w x = None" if "x \<ge> w_brk w" for x using o that by (auto simp: heap_ok_def)
  have p: "pend w' b x \<longleftrightarrow> b = a \<and> x = t \<or> pend w b x" for b x
    using fr [of a] a by (auto simp: pend_def w'(1))
  have np: "\<not> pend w b t" for b
    using o fr [of t] a by (metis Suc_n_not_le_n linorder_le_cases not_None_eq option.distinct(1))
  have n: "nonasync w b \<Longrightarrow> nonasync w' b" for b using a by (auto simp: nonasync_def w')
  have g: "get_timer b w' = get_timer b w" for b using fr [of a] a by (auto simp: get_timer_def w')
  have fid: "t_taskId j \<noteq> t_taskId task" if "w_tasks w z = Some j" "client_task j" "client_task task" for z j
    using assms(5) that fresh_idD [of _ w z j] fr [of z] by (force simp: client_task_def not_le)
  have "refs w' = refs w" by (simp add: refs_def w' g)
  then have "refs_ok w'" using o n by (auto simp: refs_ok_def maps_ok_def w')
  moreover have "heap_ok w'" using o a by (auto simp: heap_ok_def w' less_Suc_eq)
  moreover have "tasks_ok None w'" by (rule submit_tasks [OF assms(1) w'(4,2) p np]) (use fr [of t] a assms(5) fid in auto)
  moreover have "writes_ok None w'" using o np a by (auto simp: writes_ok_def w' p less_Suc_eq)
  ultimately show ?thesis by (simp add: cl_inv_def)
qed

lemma cl_event_inv: "cl_event w w' \<Longrightarrow> cl_inv None w \<Longrightarrow> cl_inv None w'"
proof (induction rule: cl_event.induct)
  case (ev_timer w a h td w')
  then show ?case using timer_cb_inv by blast
next
  case (ev_close w a h w')
  then show ?case using keeps_inv keeps_close_cb by blast
qed (rule async_cb_inv read_cb_inv write_cb_inv connect_cb_inv; assumption)+

lemma cl_step_inv: "cl_step w w' \<Longrightarrow> cl_inv None w \<Longrightarrow> cl_inv None w'"
  by (induction rule: cl_step.induct) (rule submit_inv cl_event_inv; assumption)+

interpretation cl: machine cl_step "cl_inv None"
  by unfold_locales (rule cl_step_inv)

lemmas cl_reach_inv = cl.reach_inv

end
