(* ===== verification/Client_Props.thy ===== *)
theory Client_Props
  imports Client_Loop
begin

text \<open>
  What the invariant of the client loop gives: no caller is lost, the shutdown ends every task, and
  where the code goes wrong.
\<close>

definition started :: "bool \<Rightarrow> bool \<Rightarrow> world" where
  "started pushmsg_cb conn_cb = snd (start_client_loop (init_client_loop pushmsg_cb conn_cb boot))"

lemma started_simps:
  "w_handles (started pb cb) = (\<lambda>_. None)(1 \<mapsto> \<lparr>h_loop = CLIENT_LOOP, h_kind = UV_CHECK, h_closing = False, h_active = True\<rparr>)"
  "w_tasks (started pb cb) = (\<lambda>_. None)" "w_brk (started pb cb) = 2" "w_writes (started pb cb) = []"
  "w_connects (started pb cb) = []" "w_out (started pb cb) = []"
  "w_cl (started pb cb) = \<lparr>cl_running = True, cl_inited = True, cl_connTable = [], cl_taskTable = [], cl_timerTable = [],
       cl_pushmsg_cb = pb, cl_conn_cb = cb, cl_no_exit = 1\<rparr>"
  by (simp_all add: started_def start_client_loop_def init_client_loop_def new_handle_def set_handle_def boot_def)

lemma boot_inv: "cl_inv None (started pb cb)"
  by (simp add: started_simps cl_inv_def heap_ok_def
      refs_ok_def maps_ok_def refs_def nonasync_def is_async_def get_timer_def tasks_ok_def writes_ok_def notified_def
      cl_task_find_def pend_def)

section \<open>The shutdown returns\<close>

text \<open>The handles the shutdown uses are there.\<close>

definition live :: "world \<Rightarrow> addr \<Rightarrow> bool" where
  "live w a \<longleftrightarrow> w_handles w a \<noteq> None"

definition handles_live :: "world \<Rightarrow> bool" where
  "handles_live w \<longleftrightarrow> list_all (live w) (map snd (cl_connTable (w_cl w))) \<and> live w (cl_no_exit (w_cl w))
     \<and> list_all (\<lambda>a. \<exists>td. get_timer a w = Some td \<and> (\<forall>c. td_data td = Some c \<longrightarrow> live w c)) (map snd (cl_timerTable (w_cl w)))"

text \<open>Flags of handles may change, nothing else about them.\<close>

definition same_handles :: "world \<Rightarrow> world \<Rightarrow> bool" where
  "same_handles w w' \<longleftrightarrow> (\<forall>a. map_option h_kind (w_handles w' a) = map_option h_kind (w_handles w a)) \<and> w_cl w' = w_cl w
     \<and> w_tasks w' = w_tasks w \<and> w_writes w' = w_writes w"

lemma same_live: "same_handles w w' \<Longrightarrow> live w' a = live w a"
  unfolding same_handles_def live_def by (metis map_option_is_None)

lemma get_timer_kind: "get_timer a w = (case map_option h_kind (w_handles w a) of Some (UV_TIMER td) \<Rightarrow> Some td | _ \<Rightarrow> None)"
  by (cases "w_handles w a") (auto simp: get_timer_def split: handle_kind.split)

lemma same_timer: "same_handles w w' \<Longrightarrow> get_timer a w' = get_timer a w"
  by (simp add: same_handles_def get_timer_kind)

lemma same_trans: "same_handles w w' \<Longrightarrow> same_handles w' w'' \<Longrightarrow> same_handles w w''"
  by (simp add: same_handles_def)

lemma deactivate_total: "live w a \<Longrightarrow> \<exists>w'. deactivate a w = Some w' \<and> same_handles w w'"
  by (auto simp: live_def deactivate_def same_handles_def set_handle_def)

lemma safe_close_total: "(\<And>a. ho = Some a \<Longrightarrow> live w a) \<Longrightarrow> \<exists>w'. safe_uv_close ho w = Some w' \<and> same_handles w w'"
  by (cases ho) (auto simp: live_def safe_uv_close_def same_handles_def set_handle_def)

lemma stop_and_close_total: "live w a \<Longrightarrow> \<exists>w'. stop_and_close a w = Some w' \<and> same_handles w w'"
proof -
  assume "live w a"
  then obtain w1 where w1: "deactivate a w = Some w1" "same_handles w w1" using deactivate_total by blast
  then obtain w2 where "safe_uv_close (Some a) w1 = Some w2" "same_handles w1 w2"
    using safe_close_total [of "Some a" w1] same_live [OF w1(2)] \<open>live w a\<close> by auto
  with w1 show ?thesis using same_trans by (auto simp: stop_and_close_def)
qed

lemma close_timer_total:
  assumes "get_timer a w = Some td" "\<And>c. td_data td = Some c \<Longrightarrow> live w c"
  shows "\<exists>w'. close_timer_and_data a w = Some w' \<and> same_handles w w'"
proof -
  have "live w a" using assms(1) by (auto simp: get_timer_iff live_def)
  then obtain w1 where w1: "safe_uv_close (Some a) w = Some w1" "same_handles w w1" using safe_close_total [of "Some a" w] by auto
  then have "get_timer a w1 = Some td" using same_timer assms(1) by simp
  moreover obtain w2 where "safe_uv_close (td_data td) w1 = Some w2" "same_handles w1 w2"
    using safe_close_total [of "td_data td" w1] assms(2) same_live [OF w1(2)] by auto
  ultimately show ?thesis using w1 same_trans by (auto simp: close_timer_and_data_def)
qed

lemma each_total:
  assumes "\<And>a. a \<in> set as \<Longrightarrow> P a w" "\<And>v v' a. P a v \<Longrightarrow> same_handles v v' \<Longrightarrow> P a v'"
    "\<And>a v. P a v \<Longrightarrow> \<exists>v'. f a v = Some v' \<and> same_handles v v'"
  shows "\<exists>w'. each_addr f as w = Some w' \<and> same_handles w w'"
  using assms(1)
proof (induction as arbitrary: w)
  case (Cons a as)
  then obtain w1 where w1: "f a w = Some w1" "same_handles w w1" using assms(3) [of a w] by auto
  with Cons assms(2) obtain w2 where "each_addr f as w1 = Some w2" "same_handles w1 w2" by (metis list.set_intros(2))
  with w1 same_trans show ?case by auto
qed (simp add: same_handles_def)

lemma finish_total:
  assumes "w_tasks w t = Some task" "cl_timerTable (w_cl w) = []"
  shows "\<exists>w'. cl_finish_task t w = Some w'"
proof -
  obtain w1 where w1: "write_errmsg t w = Some w1" using assms(1) by (simp add: write_errmsg_def case_prod_unfold Let_def)
  moreover obtain task1 where "w_tasks w1 t = Some task1"
    using w1 assms(1) by (auto simp: write_errmsg_def set_task_def case_prod_unfold Let_def)
  moreover have "cl_timer_find i (put_cl_tasks m w1) = None" for i m
    using assms(2) errmsg_frame(1) [OF w1] by (simp add: cl_timer_find_def put_cl_tasks_def)
  ultimately show ?thesis by (auto simp: cl_finish_task_def task_del_erase notify_task_def)
qed

lemma finish_all_total:
  assumes "cl_inv (Some t) w" "w_tasks w t = Some task" "\<not> client_task task" "cl_timerTable (w_cl w) = []" "taskTable w = m"
  shows "\<exists>w'. each_addr finish_shutdown (map snd m) w = Some w'"
  using assms
proof (induction m arbitrary: w task)
  case (Cons kv m)
  obtain tid x where kv: "kv = (tid, x)" by fastforce
  have "cl_task_find tid w = Some x" using Cons.prems(5) kv by (simp add: cl_task_find_def)
  then obtain k where "w_tasks w x = Some k" using Cons.prems(1) unfolding cl_inv_def tasks_ok_def by blast
  then obtain w1 where w1: "set_err x ERR_SHUTDOWN w = Some w1" "\<exists>k1. w_tasks w1 x = Some k1"
    by (simp add: set_err_def set_task_def)
  moreover note errmsg_frame(2) [OF w1(1)]
  ultimately obtain w2 where w2: "cl_finish_task x w1 = Some w2" "cl_timerTable (w_cl w2) = []"
    using finish_total [of w1 x] finish_tables [of x w1] Cons.prems(4) by fastforce
  have f: "finish_shutdown x w = Some w2" using w1(1) w2(1) by (simp add: finish_shutdown_def)
  note F = finish_one_inv [OF Cons.prems(1-3) Cons.prems(5) [unfolded kv] f]
  then obtain task2 where "w_tasks w2 t = Some task2" "\<not> client_task task2" by blast
  with F w2 Cons.IH [OF _ this] f kv show ?case by auto
qed simp

lemma finish_handles:
  "cl_finish_task t w = Some w' \<Longrightarrow> cl_timerTable (w_cl w) = [] \<Longrightarrow> w_handles w' = w_handles w \<and> cl_no_exit (w_cl w') = cl_no_exit (w_cl w)"
proof -
  assume f: "cl_finish_task t w = Some w'" and e: "cl_timerTable (w_cl w) = []"
  from f obtain w1 where w1: "write_errmsg t w = Some w1" by (auto simp: cl_finish_task_def Option.bind_eq_Some_conv)
  then have c: "w_cl w1 = w_cl w" "w_handles w1 = w_handles w"
    by (auto simp: write_errmsg_def set_task_def Option.bind_eq_Some_conv case_prod_unfold Let_def)
  from f w1 e c show ?thesis
    by (auto simp: cl_finish_task_def task_del_erase cl_timer_find_def put_cl_tasks_def notify_task_def emit_def Option.bind_eq_Some_conv)
qed

lemma finish_all_handles:
  "each_addr finish_shutdown as w = Some w' \<Longrightarrow> cl_timerTable (w_cl w) = [] \<Longrightarrow>
   w_handles w' = w_handles w \<and> cl_no_exit (w_cl w') = cl_no_exit (w_cl w)"
proof (induction as arbitrary: w)
  case (Cons a as)
  then obtain w1 w2 where w1: "set_err a ERR_SHUTDOWN w = Some w1" "cl_finish_task a w1 = Some w2"
    and rest: "each_addr finish_shutdown as w2 = Some w'"
    by (auto simp: finish_shutdown_def [of a w] Option.bind_eq_Some_conv)
  from w1(1) have "w_handles w1 = w_handles w" by (auto simp: set_err_def set_task_def Option.bind_eq_Some_conv)
  with finish_tables [OF w1(2)] finish_handles [OF w1(2)] errmsg_frame(2) [OF w1(1)] Cons.prems Cons.IH [OF rest]
  show ?case by simp
qed simp

lemma client_shutdown_total:
  assumes "cl_inv (Some t) w" "w_tasks w t = Some task" "\<not> client_task task" "handles_live w"
  shows "\<exists>w'. client_shutdown w = Some w'"
proof -
  let ?w1 = "w\<lparr>w_cl := w_cl w\<lparr>cl_running := False\<rparr>\<rparr>"
  note i1 = set_running_inv [OF assms(1), of False]
  have l1: "live ?w1 = live w" and g1: "get_timer a ?w1 = get_timer a w" for a by (auto simp: live_def get_timer_def fun_eq_iff)
  have "\<exists>w2. each_addr stop_and_close (map snd (cl_conn_list ?w1)) ?w1 = Some w2 \<and> same_handles ?w1 w2"
    by (rule each_total [of _ "\<lambda>a w. live w a"])
      (use stop_and_close_total same_live assms(4) l1 in \<open>auto simp: handles_live_def list_all_iff cl_conn_list_def\<close>)
  then obtain w2 where w2: "each_addr stop_and_close (map snd (cl_conn_list ?w1)) ?w1 = Some w2" "same_handles ?w1 w2" by blast
  define P where "P = (\<lambda>a v. \<exists>td. get_timer a v = Some td \<and> (\<forall>c. td_data td = Some c \<longrightarrow> live v c))"
  have "\<exists>w3. each_addr close_timer_and_data (map snd (cl_list_timer w2)) w2 = Some w3 \<and> same_handles w2 w3"
  proof (rule each_total [of _ P])
    show "P a w2" if "a \<in> set (map snd (cl_list_timer w2))" for a
      using that assms(4) w2(2) same_timer [OF w2(2)] same_live [OF w2(2)] l1 g1
      by (auto simp: P_def handles_live_def list_all_iff cl_list_timer_def same_handles_def)
    show "P a v'" if "P a v" "same_handles v v'" for a v v' using that same_timer same_live by (simp add: P_def)
    show "\<exists>v'. close_timer_and_data a v = Some v' \<and> same_handles v v'" if "P a v" for a v
      using that close_timer_total by (auto simp: P_def)
  qed
  then obtain w3 where w3: "each_addr close_timer_and_data (map snd (cl_list_timer w2)) w2 = Some w3" "same_handles w2 w3" by blast
  let ?w4 = "cl_conn_clr (cl_timer_clr w3)"
  note k4 = shutdown_closes [OF inv_base [OF i1] w2(1) w3(1)]
  note K = keepsD [OF k4 inv_base [OF i1]]
  have "w_tasks ?w1 t = Some task" using assms(2) by simp
  from view_task [OF K(2) this] obtain task4 where t4: "w_tasks ?w4 t = Some task4" "\<not> client_task task4"
    using assms(3) client_task_cong by blast
  have e4: "cl_timerTable (w_cl ?w4) = []" by (simp add: cl_conn_clr_def cl_timer_clr_def put_cl_conns_def put_cl_timers_def)
  obtain w5 where w5: "each_addr finish_shutdown (map snd (cl_list_task ?w4)) ?w4 = Some w5"
    using finish_all_total [OF keeps_inv [OF i1 k4] t4 e4 refl] by (auto simp: cl_list_task_def)
  have f: "w_handles w5 = w_handles ?w4 \<and> cl_no_exit (w_cl w5) = cl_no_exit (w_cl ?w4)"
    by (rule finish_all_handles [OF w5 e4])
  have n4: "cl_no_exit (w_cl ?w4) = cl_no_exit (w_cl w)" "w_handles ?w4 = w_handles w3"
    using w2(2) w3(2) by (simp_all add: cl_conn_clr_def cl_timer_clr_def put_cl_conns_def put_cl_timers_def same_handles_def)
  have "live w3 (cl_no_exit (w_cl w))" using assms(4) same_live [OF w3(2)] same_live [OF w2(2)] l1 by (simp add: handles_live_def)
  then have "live (cl_task_clr w5) (cl_no_exit (w_cl w5))" using f n4 by (simp add: live_def cl_task_clr_def)
  from stop_and_close_total [OF this] show ?thesis
    using w2 w3 w5 by (auto simp: client_shutdown_def)
qed

lemma writes_frame:
  "deactivate a w = Some w' \<Longrightarrow> w_writes w' = w_writes w" "safe_uv_close ho w = Some w' \<Longrightarrow> w_writes w' = w_writes w"
  "set_err t e w = Some w' \<Longrightarrow> w_writes w' = w_writes w" "write_errmsg t w = Some w' \<Longrightarrow> w_writes w' = w_writes w"
  "notify_task t w = Some w' \<Longrightarrow> w_writes w' = w_writes w"
  "w_writes (put_cl_tasks m w) = w_writes w" "w_writes (put_cl_conns mc w) = w_writes w" "w_writes (put_cl_timers m w) = w_writes w"
  by (auto simp: deactivate_def safe_uv_close_def set_err_def write_errmsg_def notify_task_def set_handle_def set_task_def emit_def
      put_cl_tasks_def put_cl_conns_def put_cl_timers_def Option.bind_eq_Some_conv case_prod_unfold Let_def split: option.splits if_splits)

lemma finish_writes:
  assumes "cl_finish_task t w = Some w'" "cl_timerTable (w_cl w) = []"
  shows "w_writes w' = w_writes w"
proof -
  from assms(1) obtain w1 where w1: "write_errmsg t w = Some w1" by (auto simp: cl_finish_task_def Option.bind_eq_Some_conv)
  from assms w1 errmsg_frame(1) [OF w1] obtain m where "notify_task t (put_cl_tasks m w1) = Some w'"
    by (auto simp: cl_finish_task_def task_del_erase cl_timer_find_def put_cl_tasks_def Option.bind_eq_Some_conv)
  from writes_frame(5) [OF this] writes_frame(4) [OF w1] show ?thesis by (simp add: writes_frame(6))
qed

lemma each_writes:
  "each_addr f as w = Some w' \<Longrightarrow> (\<And>a v v'. f a v = Some v' \<Longrightarrow> w_writes v' = w_writes v) \<Longrightarrow> w_writes w' = w_writes w"
  by (induction as arbitrary: w) (auto simp: Option.bind_eq_Some_conv)

lemma finish_all_writes:
  "each_addr finish_shutdown as w = Some w' \<Longrightarrow> cl_timerTable (w_cl w) = [] \<Longrightarrow> w_writes w' = w_writes w"
proof (induction as arbitrary: w)
  case (Cons a as)
  then obtain w1 w2 where w1: "set_err a ERR_SHUTDOWN w = Some w1" "cl_finish_task a w1 = Some w2"
    and rest: "each_addr finish_shutdown as w2 = Some w'"
    by (auto simp: finish_shutdown_def [of a w] Option.bind_eq_Some_conv)
  with finish_tables [OF w1(2)] finish_writes [OF w1(2)] writes_frame(3) [OF w1(1)] errmsg_frame(2) [OF w1(1)] Cons.prems Cons.IH [OF rest]
  show ?case by simp
qed simp

lemma stop_writes: "stop_and_close a w = Some w' \<Longrightarrow> w_writes w' = w_writes w"
  "close_timer_and_data a w = Some w' \<Longrightarrow> w_writes w' = w_writes w"
  by (auto simp: stop_and_close_def close_timer_and_data_def Option.bind_eq_Some_conv dest!: writes_frame(1-5))

lemma client_shutdown_writes:
  assumes "client_shutdown w = Some w'"
  shows "w_writes w' = w_writes w"
proof -
  let ?w1 = "w\<lparr>w_cl := w_cl w\<lparr>cl_running := False\<rparr>\<rparr>"
  from assms obtain w2 w3 w5 where
    s: "each_addr stop_and_close (map snd (cl_conn_list ?w1)) ?w1 = Some w2"
      "each_addr close_timer_and_data (map snd (cl_list_timer w2)) w2 = Some w3"
      "each_addr finish_shutdown (map snd (cl_list_task (cl_conn_clr (cl_timer_clr w3)))) (cl_conn_clr (cl_timer_clr w3)) = Some w5"
      "stop_and_close (cl_no_exit (w_cl w5)) (cl_task_clr w5) = Some w'"
    unfolding client_shutdown_def Option.bind_eq_Some_conv Let_def by blast
  have "w_writes w2 = w_writes w" using each_writes [OF s(1)] stop_writes(1) by simp
  moreover have "w_writes w3 = w_writes w2" by (rule each_writes [OF s(2) stop_writes(2)])
  moreover have "w_writes w5 = w_writes (cl_conn_clr (cl_timer_clr w3))"
    by (rule finish_all_writes [OF s(3)]) (simp add: cl_conn_clr_def cl_timer_clr_def put_cl_conns_def put_cl_timers_def)
  moreover have "w_writes w' = w_writes w5" using stop_writes(1) [OF s(4)] by (simp add: cl_task_clr_def writes_frame)
  ultimately show ?thesis by (simp add: cl_conn_clr_def cl_timer_clr_def writes_frame)
qed

section \<open>A scheduler for examples\<close>

datatype cl_move = Do_Submit abs_task | Do_Async addr io | Do_Read addr int "byte list" | Do_Write addr addr int
  | Do_Connect u64 addr int | Do_Timer addr | Do_Close addr

definition is_pend :: "world \<Rightarrow> addr \<Rightarrow> bool" where
  "is_pend w a = (case w_handles w a of
     Some h \<Rightarrow> h_loop h = CLIENT_LOOP \<and> is_async h \<and> \<not> h_closing h | None \<Rightarrow> False)"

lemma is_pend: "is_pend w a \<Longrightarrow> \<exists>t. pend w a t"
  by (auto simp: is_pend_def pend_def is_async_def split: option.splits handle_kind.splits)

fun cl_exec1 :: "cl_move \<Rightarrow> world \<Rightarrow> world option" where
  "cl_exec1 (Do_Submit task) w =
     (if t_body task = CLOSE \<or> client_task task \<and> fresh_id (t_taskId task) w
      then do { (a, w1) \<leftarrow> cl_create_async w; let (t, w2) = new_task task w1; async_submit a t w2 } else None)"
| "cl_exec1 (Do_Async a i) w = (if is_pend w a then async_cb a i w else None)"
| "cl_exec1 (Do_Read a n buf) w = do {
     h \<leftarrow> w_handles w a;
     if h_loop h = CLIENT_LOOP \<and> h_active h \<and> (case h_kind h of UV_TCP (Some _) \<Rightarrow> True | _ \<Rightarrow> False)
     then read_cb a n buf w else None }"
| "cl_exec1 (Do_Write c t st) w = do {
     task \<leftarrow> w_tasks w t;
     if client_task task \<and> (c, t) \<in> set (w_writes w)
     then write_cb c t st (w\<lparr>w_writes := remove1 (c, t) (w_writes w)\<rparr>) else None }"
| "cl_exec1 (Do_Connect tid c st) w =
     (if (tid, c) \<in> set (w_connects w) then connect_cb tid c st (w\<lparr>w_connects := remove1 (tid, c) (w_connects w)\<rparr>) else None)"
| "cl_exec1 (Do_Timer a) w = do {
     h \<leftarrow> w_handles w a;
     if h_active h \<and> (case h_kind h of UV_TIMER _ \<Rightarrow> True | _ \<Rightarrow> False) then timer_cb a w else None }"
| "cl_exec1 (Do_Close a) w = do {
     h \<leftarrow> w_handles w a; if h_loop h = CLIENT_LOOP \<and> h_closing h then close_cb a w else None }"

fun cl_exec :: "cl_move list \<Rightarrow> world \<Rightarrow> world option" where
  "cl_exec [] w = Some w"
| "cl_exec (mv # mvs) w = do { w1 \<leftarrow> cl_exec1 mv w; cl_exec mvs w1 }"

definition loop_move :: "cl_move \<Rightarrow> bool" where
  "loop_move mv = (case mv of Do_Submit _ \<Rightarrow> False | _ \<Rightarrow> True)"

lemma cl_exec1_event:
  assumes e: "cl_exec1 mv w = Some w'" and l: "loop_move mv"
  shows "cl_event w w'"
proof (cases mv)
  case (Do_Read a n buf)
  with e obtain h where h: "w_handles w a = Some h" by (auto simp: Option.bind_eq_Some_conv)
  with e Do_Read obtain c where "h_loop h = CLIENT_LOOP" "h_kind h = UV_TCP (Some c)" "h_active h" "read_cb a n buf w = Some w'"
    by (cases "h_kind h") (auto split: if_splits option.split_asm)
  with h show ?thesis by (intro ev_read)
next
  case (Do_Timer a)
  with e obtain h where h: "w_handles w a = Some h" by (auto simp: Option.bind_eq_Some_conv)
  with e Do_Timer obtain td where "h_kind h = UV_TIMER td" "h_active h" "timer_cb a w = Some w'"
    by (cases "h_kind h") (auto split: if_splits)
  with h show ?thesis by (intro ev_timer)
qed (use e l in \<open>auto simp: loop_move_def Option.bind_eq_Some_conv split: if_splits dest!: is_pend intro: cl_event.intros\<close>)

lemma cl_exec1_step:
  assumes "cl_exec1 mv w = Some w'"
  shows "cl_step w w'"
proof (cases mv)
  case (Do_Submit task)
  with assms have e: "Option.bind (cl_create_async w) (\<lambda>(a, w1). let (t, w2) = new_task task w1 in async_submit a t w2) = Some w'"
    and g: "t_body task = CLOSE \<or> client_task task \<and> fresh_id (t_taskId task) w" by (auto split: if_splits)
  from e obtain a w1 where a: "cl_create_async w = Some (a, w1)" by (auto simp: Option.bind_eq_Some_conv)
  obtain t w2 where t: "new_task task w1 = (t, w2)" by fastforce
  from e a t have "async_submit a t w2 = Some w'" by simp
  from ev_submit [OF a t this g] show ?thesis .
qed (rule ev_loop, rule cl_exec1_event [OF assms], simp add: loop_move_def)+

lemma cl_exec_reach: "cl_exec mvs w = Some w' \<Longrightarrow> cl_reach w0 w \<Longrightarrow> cl_reach w0 w'"
  by (induction mvs arbitrary: w) (auto simp: Option.bind_eq_Some_conv dest!: cl_exec1_step intro: reach_step)

lemma exec_started:
  "map_option f (cl_exec mvs (started pb cb)) = Some v \<Longrightarrow> \<exists>w. cl_reach (started pb cb) w \<and> f w = v"
  using cl_exec_reach [OF _ reach_start] by auto

section \<open>Properties of the client loop\<close>

text \<open>C7. No caller is lost and none is woken twice. In every state the client loop can reach from its
  start, under every order of submissions and callbacks, each task is notified at most once and is
  never touched again; and every send or connect task whose caller still waits is either carried by
  an async handle the loop has yet to run or is registered in the task table under its own id.\<close>

theorem client_no_lost_caller:
  assumes "cl_reach (started pb cb) w"
  shows "distinct (notified w) \<and> (\<forall>t \<in> set (notified w). w_tasks w t = None)
    \<and> (\<forall>t task. w_tasks w t = Some task \<longrightarrow> client_task task \<longrightarrow>
         (\<exists>a. pend w a t) \<or> cl_task_find (t_taskId task) w = Some t)
    \<and> (\<forall>tid t. cl_task_find tid w = Some t \<longrightarrow> (\<exists>task. w_tasks w t = Some task \<and> t_taskId task = tid \<and> client_task task))"
  using cl_reach_inv [OF assms boot_inv] unfolding cl_inv_def heap_ok_def tasks_ok_def by blast

text \<open>Two tasks for the examples: a request to connection 1 and a connect.\<close>

definition sample_io :: io where
  "sample_io = \<lparr>io_init = 0, io_accept = 0, io_peer = 0, io_connect = 0, io_ip = ''10.0.0.2'', io_write = \<lambda>_. W_Sent, io_junk = 0\<rparr>"

definition sample_task :: "u64 \<Rightarrow> task_body \<Rightarrow> abs_task" where
  "sample_task tid b = \<lparr>t_err = 0, t_errmsg = '''', t_taskId = tid, t_body = b, t_outdata = []\<rparr>"

text \<open>A connect, its completion, and a request written to the new connection.\<close>

definition sample_moves :: "cl_move list" where
  "sample_moves = [Do_Submit (sample_task 0 (CONNECT 1000 ''10.0.0.2'' 10038)), Do_Async 2 sample_io, Do_Connect 0 4 0,
     Do_Submit (sample_task 1 (RW 1000 1 [7, 8])), Do_Async 6 sample_io]"

lemma sample_run:
  "map_option (\<lambda>w. (notified w, cl_taskTable (w_cl w), map_option t_body (w_tasks w 7), map (\<lambda>a. map_option h_closing (w_handles w a)) [2, 4, 5, 6], w_writes w, cl_running (w_cl w)))
     (cl_exec sample_moves (started True True))
   = Some ([3], [(1, 7)], Some (RW 1000 1 [7, 8]), [Some True, Some False, Some True, Some True], [(4, 7)], True)"
  by code_simp

theorem client_no_lost_caller_witness:
  "\<exists>w task. cl_reach (started True True) w \<and> notified w = [3] \<and> w_tasks w 3 = None
    \<and> w_tasks w 7 = Some task \<and> t_body task = RW 1000 1 [7, 8] \<and> ((\<exists>a. pend w a 7) \<or> cl_task_find (t_taskId task) w = Some 7)"
proof -
  from exec_started [OF sample_run] obtain w where w: "cl_reach (started True True) w" "notified w = [3]"
    "map_option t_body (w_tasks w 7) = Some (RW 1000 1 [7, 8])" by auto
  then obtain task where t: "w_tasks w 7 = Some task" "t_body task = RW 1000 1 [7, 8]" by auto
  have "client_task task" using t(2) by (simp add: client_task_def)
  with client_no_lost_caller [OF w(1)] w t show ?thesis by auto
qed

lemma close_run:
  assumes "cl_reach (started pb cb) w" "pend w a t" "w_tasks w t = Some task" "t_body task = CLOSE"
    "cl_running (w_cl w)" "handles_live w"
  shows "\<exists>w'. async_cb a i w = Some w' \<and> notified w' = notified w @ map snd (taskTable w) @ [t]
    \<and> taskTable w' = [] \<and> cl_connTable (w_cl w') = [] \<and> cl_timerTable (w_cl w') = [] \<and> \<not> cl_running (w_cl w')
    \<and> (\<forall>x \<in> set (map snd (taskTable w)). w_tasks w' x = None) \<and> w_writes w' = w_writes w"
proof -
  note inv = cl_reach_inv [OF assms(1) boot_inv]
  have c: "\<not> client_task task" using assms(4) by (simp add: client_task_def)
  from client_shutdown_total [OF inv_weaken [OF inv] assms(3) c assms(6)] obtain w1 where w1: "client_shutdown w = Some w1" by blast
  note S = client_shutdown_inv [OF inv_weaken [OF inv] assms(3) c w1]
  let ?w2 = "w1\<lparr>w_cl := w_cl w1\<lparr>cl_running := False\<rparr>\<rparr>"
  from S v_tasks_SomeE [of w1 t] v_tasks_Some [OF assms(3)] obtain task1 where t1: "w_tasks ?w2 t = Some task1" by auto
  have e2: "cl_timerTable (w_cl ?w2) = []" using S by simp
  from finish_total [OF t1 e2] obtain w3 where w3: "cl_finish_task t ?w2 = Some w3" by blast
  note i2 = set_running_inv [of t w1 False]
  note F = finish_inv [OF i2 t1 _ w3] and E = finish_ended [OF inv_base [OF i2] w3 t1] and Tb = finish_tables [OF w3 e2]
  have p2: "pend ?w2 = pend w1" by (auto simp: pend_def fun_eq_iff)
  have p3: "pend w3 a t" using F(3) S assms(2) p2 by simp
  then obtain w4 where w4: "safe_uv_close (Some a) w3 = Some w4"
    by (auto simp: pend_def safe_uv_close_def)
  from assms(2) obtain h where h: "w_handles w a = Some h" "h_loop h = CLIENT_LOOP" "h_kind h = UV_ASYNC t" by (auto simp: pend_def)
  have ini: "cl_inited (w_cl w)" using inv by (simp add: cl_inv_def refs_ok_def maps_ok_def)
  have r: "run_task CLIENT_LOOP t i w = Some w3"
    using assms(3,4) w1 w3 by (simp add: run_task_def do_shutdown_def finish_on_def)
  have a4: "async_cb a i w = Some w4" using h ini assms(5) r w4 by (simp add: async_cb_def running_of_def inited_of_def)
  have same: "w_cl w4 = w_cl w3" "w_tasks w4 = w_tasks w3" "notified w4 = notified w3"
    using w4 by (auto simp: safe_uv_close_def set_handle_def Option.bind_eq_Some_conv split: if_splits)
  have n: "notified w3 = notified w @ map snd (taskTable w) @ [t]" using E S by (simp add: ended_def)
  have i4: "cl_inv None w4" by (rule async_cb_inv [OF inv assms(2) a4])
  have "w_tasks w4 x = None" if "x \<in> set (map snd (taskTable w))" for x
    using i4 n same that by (auto simp: cl_inv_def heap_ok_def)
  moreover have "w_writes w4 = w_writes w"
    using writes_frame(2) [OF w4] finish_writes [OF w3 e2] client_shutdown_writes [OF w1] by simp
  ultimately show ?thesis using a4 n same F S Tb by (auto simp: smap_erase_def)
qed


lemma sample_close:
  "\<exists>w task. cl_reach (started True True) w \<and> pend w 8 9 \<and> w_tasks w 9 = Some task \<and> t_body task = CLOSE
    \<and> cl_running (w_cl w) \<and> handles_live w \<and> taskTable w = [(1, 7)] \<and> notified w = [3] \<and> w_writes w = [(4, 7)]"
proof -
  have "map_option (\<lambda>w. (notified w, cl_taskTable (w_cl w), cl_running (w_cl w), map_option t_body (w_tasks w 9), map_option h_kind (w_handles w 8), is_pend w 8,
      list_all (live w) (map snd (cl_connTable (w_cl w))), live w (cl_no_exit (w_cl w)), cl_timerTable (w_cl w), w_writes w))
     (cl_exec (sample_moves @ [Do_Submit (sample_task 0 CLOSE)]) (started True True))
   = Some ([3], [(1, 7)], True, Some CLOSE, Some (UV_ASYNC 9), True, True, True, [], [(4, 7)])"
    by code_simp
  from exec_started [OF this] obtain w where w: "cl_reach (started True True) w" "notified w = [3]" "taskTable w = [(1, 7)]"
    "cl_running (w_cl w)" "map_option t_body (w_tasks w 9) = Some CLOSE" "map_option h_kind (w_handles w 8) = Some (UV_ASYNC 9)" "is_pend w 8"
    "list_all (live w) (map snd (cl_connTable (w_cl w)))" "live w (cl_no_exit (w_cl w))" "cl_timerTable (w_cl w) = []" "w_writes w = [(4, 7)]"
    by auto
  from is_pend [OF w(7)] w(6) have "pend w 8 9" by (auto simp: pend_def)
  with w show ?thesis by (auto simp: handles_live_def)
qed


text \<open>C24. The shutdown leaves write callbacks with dangling tasks: when the loop runs the close task while
  the write callback of a request is still to come, the request's task is notified (so its owner, a
  stack frame of \<^verbatim>\<open>async_send\<close>, may be gone), and the write callback, which libuv makes afterwards, uses it.\<close>

theorem write_after_close_dangles:
  assumes "cl_reach (started pb cb) w" "pend w a t" "w_tasks w t = Some task" "t_body task = CLOSE"
    "cl_running (w_cl w)" "handles_live w" "(conn, x) \<in> set (w_writes w)" "x \<in> snd ` set (taskTable w)"
  shows "\<exists>w'. async_cb a i w = Some w' \<and> (conn, x) \<in> set (w_writes w')
    \<and> write_cb conn x status (w'\<lparr>w_writes := remove1 (conn, x) (w_writes w')\<rparr>) = None"
proof -
  from close_run [OF assms(1-6), of i] obtain w' where "async_cb a i w = Some w'" "w_writes w' = w_writes w" "w_tasks w' x = None"
    using assms(8) by (auto simp: image_iff)
  with assms(7) show ?thesis by (auto simp: write_cb_def)
qed

theorem write_after_close_dangles_witness:
  "\<exists>w w'. cl_reach (started True True) w \<and> async_cb 8 sample_io w = Some w' \<and> (4, 7) \<in> set (w_writes w')
    \<and> write_cb 4 7 0 (w'\<lparr>w_writes := remove1 (4, 7) (w_writes w')\<rparr>) = None"
proof -
  from sample_close obtain w task where w: "cl_reach (started True True) w" "pend w 8 9" "w_tasks w 9 = Some task" "t_body task = CLOSE"
    "cl_running (w_cl w)" "handles_live w" "taskTable w = [(1, 7)]" "w_writes w = [(4, 7)]" by blast
  then show ?thesis using write_after_close_dangles [OF w(1-6), of 4 7 sample_io 0] by auto
qed

lemma split_takes:
  "split_by_connId i m w = Some (gone, kept) \<Longrightarrow> (k, a) \<in> set m \<Longrightarrow> w_tasks w a = Some task \<Longrightarrow> t_body task = RW x i y \<Longrightarrow> a \<in> set gone"
proof (induction m arbitrary: gone kept)
  case (Cons kv m)
  then obtain tk gone' k' where "w_tasks w (snd kv) = Some tk" "split_by_connId i m w = Some (gone', k')"
    by (cases kv) (auto simp: Option.bind_eq_Some_conv)
  with Cons show ?case by (cases kv; cases "t_body tk") (auto split: if_splits)
qed simp

text \<open>C23. A connection that fails while a request on it is outstanding: \<^verbatim>\<open>read_cb\<close> takes the request out of
  the task table but hands the address of a vector slot to \<^verbatim>\<open>_cl_finish_task\<close>, so the callback has no
  defined behaviour and the caller of the request is not notified.\<close>

theorem read_error_outstanding_undefined:
  assumes "w_handles w a = Some h" "h_loop h = CLIENT_LOOP" "h_kind h = UV_TCP (Some c)" "nread < 0"
    "cl_inv None w" "cl_task_find tid w = Some t" "w_tasks w t = Some task" "t_body task = RW timeout (tc_connId c) dat"
  shows "read_cb a nread buf w = None"
proof (rule ccontr)
  assume "read_cb a nread buf w \<noteq> None"
  then obtain w' where r: "read_cb a nread buf w = Some w'" by blast
  with assms(4) obtain w1 w2 where w1: "deactivate a w = Some w1" "safe_uv_close (Some a) w1 = Some w2"
    by (auto simp: read_cb_def Option.bind_eq_Some_conv)
  obtain h2 where h2: "w_handles w2 a = Some h2" "h_loop h2 = CLIENT_LOOP" "h_kind h2 = UV_TCP (Some c)"
    using w1 assms(1-3) by (auto simp: deactivate_def safe_uv_close_def set_handle_def split: if_splits)
  let ?w3 = "snd (cl_conn_del (tc_connId c) w2)"
  let ?w4 = "if cl_conn_cb (w_cl ?w3) then emit (E_Conn (tc_connId c) (tc_ip c) False) ?w3 else ?w3"
  from assms(4) r w1 h2 obtain gone kept where g: "split_by_connId (tc_connId c) (taskTable ?w4) ?w4 = Some (gone, kept)" "gone = []"
    by (simp add: read_cb_def get_conn_def cl_task_del_by_connId_def Let_def case_prod_unfold)
      (auto simp: Option.bind_eq_Some_conv split: if_splits)
  have "w_cl w2 = w_cl w" "w_tasks w2 = w_tasks w"
    using w1 by (auto simp: deactivate_def safe_uv_close_def set_handle_def Option.bind_eq_Some_conv split: if_splits)
  then have "taskTable ?w4 = taskTable w" "w_tasks ?w4 = w_tasks w"
    by (auto simp: cl_conn_del_def put_cl_conns_def emit_def split: option.splits)
  moreover have "(tid, t) \<in> set (taskTable w)"
    using assms(5,6) by (simp add: cl_task_find_def smap_find_in_iff cl_inv_def refs_ok_def maps_ok_def)
  ultimately show False using split_takes [OF g(1), of tid t task] assms(7,8) g(2) by simp
qed

text \<open>A connection with a request outstanding on it: the reply does not come, the connection is reset.\<close>

theorem read_error_outstanding_undefined_witness:
  "\<exists>w. cl_reach (started True True) w \<and> cl_task_find 1 w = Some 7 \<and> read_cb 4 (-104) [] w = None"
proof -
  have "map_option (\<lambda>w. (cl_task_find 1 w, map_option t_body (w_tasks w 7), map_option (\<lambda>h. (h_loop h, case h_kind h of UV_TCP (Some c) \<Rightarrow> Some (tc_connId c) | _ \<Rightarrow> None)) (w_handles w 4)))
     (cl_exec sample_moves (started True True))
   = Some (Some 7, Some (RW 1000 1 [7, 8]), Some (CLIENT_LOOP, Some 1))"
    by code_simp
  from exec_started [OF this] obtain w h task where w: "cl_reach (started True True) w" "cl_task_find 1 w = Some 7"
    "w_tasks w 7 = Some task" "t_body task = RW 1000 1 [7, 8]" "w_handles w 4 = Some h" "h_loop h = CLIENT_LOOP"
    "(case h_kind h of UV_TCP (Some c) \<Rightarrow> Some (tc_connId c) | _ \<Rightarrow> None) = Some 1" by auto
  then obtain c where c: "h_kind h = UV_TCP (Some c)" "tc_connId c = 1" by (auto split: handle_kind.split_asm option.split_asm)
  have "read_cb 4 (-104) [] w = None"
    by (rule read_error_outstanding_undefined [OF w(5,6) c(1) _ cl_reach_inv [OF w(1) boot_inv] w(2,3)]) (use w(4) c(2) in auto)
  with w show ?thesis by blast
qed

end
