(* ===== verification/Connreq_Mgr.thy ===== *)
theory Connreq_Mgr
  imports Threadpool
begin

text \<open>
  Connecting to discovered servers (\<^verbatim>\<open>bridge/connreq_mgr.cpp\<close>): a list of requests guarded by a mutex,
  and a pool of four threads that connect. A request for an address is queued only when none is
  pending; the job deletes the request when its connect has returned. The methods hold the mutex for
  their whole body, so each is one step; the pool is the one of \<open>Threadpool\<close>. A parameter block
  (\<^verbatim>\<open>thread_param_t\<close>) is an object on the heap, whose address is chosen by \<^verbatim>\<open>new\<close>.
\<close>

record peer_info =
  pi_ip :: string
  pi_port :: int

record host_req =
  hr_reqs :: "peer_info list"
  hr_params :: "u64 \<Rightarrow> peer_info option"
  hr_cb :: "nat option"
  hr_pool :: pool

text \<open>The address of \<^verbatim>\<open>HostChangeReq::threadpool_work\<close>.\<close>

definition CONN_WORK :: u64 where "CONN_WORK = 2"

definition HostChangeReq :: "host_req option" where
  "HostChangeReq = do {
     pool \<leftarrow> threadpool_init 4 empty_mem;
     Some \<lparr>hr_reqs = [], hr_params = (\<lambda>_. None), hr_cb = None, hr_pool = pool\<rparr> }"

definition SetCallBack :: "nat option \<Rightarrow> host_req \<Rightarrow> host_req" where
  "SetCallBack cb s = s\<lparr>hr_cb := cb\<rparr>"

definition RegisterConnectServerCallback :: "nat option \<Rightarrow> host_req \<Rightarrow> host_req" where
  "RegisterConnectServerCallback cb s = SetCallBack cb s"

fun has_req :: "string \<Rightarrow> peer_info list \<Rightarrow> bool" where
  "has_req ip [] = False"
| "has_req ip (p # ps) = (if pi_ip p = ip then True else has_req ip ps)"

text \<open>\<open>a\<close> is the address \<^verbatim>\<open>new\<close> returns. The result of \<^verbatim>\<open>threadpool_push_work\<close> is ignored.\<close>

definition addsvrconn :: "u64 \<Rightarrow> string \<Rightarrow> int \<Rightarrow> host_req \<Rightarrow> host_req option" where
  "addsvrconn a ip port s =
     (if has_req ip (hr_reqs s) then Some s
      else let peer = \<lparr>pi_ip = ip, pi_port = port\<rparr>;
               s1 = s\<lparr>hr_reqs := hr_reqs s @ [peer], hr_params := (hr_params s)(a := Some peer)\<rparr> in do {
        (_, pool) \<leftarrow> threadpool_push_work a CONN_WORK 0 (hr_pool s1);
        Some (s1\<lparr>hr_pool := pool\<rparr>) })"

fun erase_reqs :: "string \<Rightarrow> peer_info list \<Rightarrow> peer_info list" where
  "erase_reqs ip [] = []"
| "erase_reqs ip (p # ps) = (if pi_ip p = ip then erase_reqs ip ps else p # erase_reqs ip ps)"

definition delsvrconn :: "string \<Rightarrow> host_req \<Rightarrow> host_req" where
  "delsvrconn ip s = s\<lparr>hr_reqs := erase_reqs ip (hr_reqs s)\<rparr>"

definition clrmsg :: "host_req \<Rightarrow> host_req" where
  "clrmsg s = s\<lparr>hr_reqs := []\<rparr>"

definition deliver_addsvr_msg :: "u64 \<Rightarrow> string option \<Rightarrow> int \<Rightarrow> host_req \<Rightarrow> host_req option" where
  "deliver_addsvr_msg a ip port s = (case ip of None \<Rightarrow> Some s | Some i \<Rightarrow> addsvrconn a i port s)"

text \<open>The job, once \<^verbatim>\<open>ssn_connect\<close> has returned \<open>err\<close> (which is only printed).\<close>

definition threadpool_work :: "int \<Rightarrow> u64 \<Rightarrow> host_req \<Rightarrow> host_req option" where
  "threadpool_work err param s = do {
     peer \<leftarrow> hr_params s param;
     let s1 = delsvrconn (pi_ip peer) s;
     Some (s1\<lparr>hr_params := (hr_params s1)(param := None)\<rparr>) }"

section \<open>Executions\<close>

text \<open>Requests from any thread, jobs finishing, and the other steps of the workers. \<^verbatim>\<open>new\<close> returns memory
  that is not in use.\<close>

inductive cr_step :: "host_req \<Rightarrow> host_req \<Rightarrow> bool" where
  add: "hr_params s a = None \<Longrightarrow> deliver_addsvr_msg a ip port s = Some s' \<Longrightarrow> cr_step s s'"
| work_done: "i < thread_num (hr_pool s) \<Longrightarrow> pcs (hr_pool s) i = W_Run p \<Longrightarrow> tp_proc p = CONN_WORK \<Longrightarrow>
    threadpool_work err (tp_data p) s = Some s1 \<Longrightarrow> thread_func i (hr_pool s1) = Step pl \<Longrightarrow>
    cr_step s (s1\<lparr>hr_pool := pl\<rparr>)"
| worker: "i < thread_num (hr_pool s) \<Longrightarrow> (\<forall>p. pcs (hr_pool s) i \<noteq> W_Run p) \<Longrightarrow> thread_func i (hr_pool s) = Step pl \<Longrightarrow>
    cr_step s (s\<lparr>hr_pool := pl\<rparr>)"

abbreviation cr_reach :: "host_req \<Rightarrow> host_req \<Rightarrow> bool" where
  "cr_reach \<equiv> reach cr_step"

text \<open>The attempts that are queued or running, and the addresses they are for.\<close>

fun in_run :: "worker_pc \<Rightarrow> thread_param multiset" where
  "in_run (W_Run p) = {#p#}"
| "in_run _ = {#}"

definition attempts :: "pool \<Rightarrow> thread_param multiset" where
  "attempts pl = mset (jobs pl) + (\<Sum>i < thread_num pl. in_run (pcs pl i))"

definition attempt_ips :: "host_req \<Rightarrow> string option multiset" where
  "attempt_ips s = image_mset (\<lambda>p. map_option pi_ip (hr_params s (tp_data p))) (attempts (hr_pool s))"

definition req_ips :: "host_req \<Rightarrow> string list" where
  "req_ips s = map pi_ip (hr_reqs s)"

section \<open>The invariant\<close>

definition cr_inv :: "host_req \<Rightarrow> bool" where
  "cr_inv s \<longleftrightarrow> pool_ok 4 (hr_pool s) \<and> closer (hr_pool s) = C_Idle
     \<and> (\<forall>p \<in># attempts (hr_pool s). tp_proc p = CONN_WORK \<and> tp_after p = 0)
     \<and> distinct (req_ips s)
     \<and> (\<forall>d. count (image_mset tp_data (attempts (hr_pool s))) d \<le> 1)
     \<and> attempt_ips s \<subseteq># mset (map Some (req_ips s))"

lemma has_req_iff: "has_req ip ps \<longleftrightarrow> ip \<in> pi_ip ` set ps"
  by (induction ps) auto

lemma erase_reqs_filter: "erase_reqs ip ps = filter (\<lambda>p. pi_ip p \<noteq> ip) ps"
  by (induction ps) auto

lemma sum_in_run_upd:
  fixes n :: nat
  assumes "i < n"
  shows "(\<Sum>j < n. in_run ((ps(i := pc)) j)) + in_run (ps i) = (\<Sum>j < n. in_run (ps j)) + in_run pc"
proof -
  have "(\<Sum>j < n. in_run (f j)) = in_run (f i) + (\<Sum>j \<in> {..<n} - {i}. in_run (f j))" for f
    using assms by (simp add: sum.remove)
  from this [of ps] this [of "ps(i := pc)"] show ?thesis by (simp add: ac_simps)
qed

lemma in_run_broadcast [simp]: "in_run (broadcast ps i) = in_run (ps i)"
  by (simp add: broadcast_def)

text \<open>What the steps of the pool do to the attempts.\<close>

lemma attempts_push:
  assumes "pool_ok 4 pl" "closer pl = C_Idle"
  shows "\<exists>r pl'. threadpool_push_work d w a pl = Some (r, pl') \<and> pool_ok 4 pl' \<and> closer pl' = C_Idle
    \<and> attempts pl' = (if length (jobs pl) \<le> 64 then add_mset \<lparr>tp_data = d, tp_proc = w, tp_after = a\<rparr> (attempts pl) else attempts pl)
    \<and> (64 < length (jobs pl) \<longrightarrow> pl' = pl)
    \<and> (length (jobs pl) \<le> 64 \<longrightarrow> jobs pl' = jobs pl @ [\<lparr>tp_data = d, tp_proc = w, tp_after = a\<rparr>])"
proof -
  have ok: "jobs_ok (queue pl, store pl)" using assms by (simp add: pool_ok_def)
  show ?thesis
  proof (cases "64 < length (jobs pl)")
    case True
    with push_full [OF ok True] assms show ?thesis by simp
  next
    case False
    then have l: "length (jobs pl) \<le> 64" by simp
    from push_room [OF ok l, of d w a] obtain q m where
      q: "threadpool_push_work d w a pl = Some (0, pl\<lparr>queue := q, store := m, pcs := broadcast (pcs pl)\<rparr>)" "jobs_ok (q, m)"
      "map dec_param (contents (q, m)) = jobs pl @ [\<lparr>tp_data = d, tp_proc = w, tp_after = a\<rparr>]" by blast
    then have "pool_ok 4 (pl\<lparr>queue := q, store := m, pcs := broadcast (pcs pl)\<rparr>)"
      using assms l by (auto simp: pool_ok_def simp del: length_map)
    with q assms l show ?thesis by (auto simp: attempts_def)
  qed
qed

lemma attempts_worker:
  assumes "pool_ok 4 pl" "closer pl = C_Idle" "i < thread_num pl" "thread_func i pl = Step pl'"
  shows "pool_ok 4 pl' \<and> closer pl' = C_Idle
    \<and> attempts pl = attempts pl' + (case pcs pl i of W_Run p \<Rightarrow> {#p#} | _ \<Rightarrow> {#})"
proof (cases "pcs pl i = W_Lock")
  case True
  have ok: "jobs_ok (queue pl, store pl)" using assms by (simp add: pool_ok_def)
  show ?thesis
  proof (cases "jobs pl")
    case Nil
    with lock_step_empty [OF ok Nil True] assms True sum_in_run_upd [OF assms(3), of "pcs pl" W_Wait] show ?thesis
      by (auto simp: pool_ok_def attempts_def jobs_def)
  next
    case (Cons p ps)
    with lock_step_job [OF ok Cons True] assms True sum_in_run_upd [OF assms(3), of "pcs pl" "W_Run p"] show ?thesis
      by (auto simp: pool_ok_def attempts_def simp del: length_map)
  qed
next
  case False
  note f = work_frame [OF assms(4) False]
  then obtain pc where pc: "pcs pl' = (pcs pl)(i := pc)" by blast
  have "in_run (pcs pl' i) = {#}" using assms(4) False
    by (auto simp: thread_func_def split: worker_pc.splits if_splits)
  then have "in_run pc = {#}" by (simp add: pc)
  with f pc assms sum_in_run_upd [OF assms(3), of "pcs pl" pc] show ?thesis
    by (auto simp: pool_ok_def attempts_def jobs_def split: worker_pc.splits)
qed

lemma filter_ips: "distinct (map f ps) \<Longrightarrow> map f (filter (\<lambda>p. f p \<noteq> x) ps) = remove1 x (map f ps)"
  by (subst distinct_remove1_removeAll) (auto simp: removeAll_filter_not_eq filter_map o_def intro!: arg_cong [where f = "map f"] filter_cong)

lemma attempts_live:
  assumes "cr_inv s" "p \<in># attempts (hr_pool s)"
  obtains peer where "hr_params s (tp_data p) = Some peer" "pi_ip peer \<in> set (req_ips s)"
proof -
  have "map_option pi_ip (hr_params s (tp_data p)) \<in># attempt_ips s"
    using assms(2) by (auto simp: attempt_ips_def)
  then have "map_option pi_ip (hr_params s (tp_data p)) \<in> Some ` set (req_ips s)"
    using assms(1) mset_subset_eqD [of "attempt_ips s"] by (fastforce simp: cr_inv_def)
  then show ?thesis using that by auto
qed

lemma cr_inv_add:
  assumes inv: "cr_inv s" and fresh: "hr_params s a = None" and e: "addsvrconn a ip port s = Some s'"
  shows "cr_inv s'"
proof (cases "has_req ip (hr_reqs s)")
  case True
  with e inv show ?thesis by (simp add: addsvrconn_def)
next
  case False
  let ?j = "\<lparr>tp_data = a, tp_proc = CONN_WORK, tp_after = 0\<rparr>"
  from inv have pl: "pool_ok 4 (hr_pool s)" "closer (hr_pool s) = C_Idle" by (simp_all add: cr_inv_def)
  obtain r pl' where p: "threadpool_push_work a CONN_WORK 0 (hr_pool s) = Some (r, pl')" "pool_ok 4 pl'" "closer pl' = C_Idle"
    "attempts pl' = (if length (jobs (hr_pool s)) \<le> 64 then add_mset ?j (attempts (hr_pool s)) else attempts (hr_pool s))"
    using attempts_push [OF pl, of a CONN_WORK 0] by blast
  with e False have s': "s' = s\<lparr>hr_reqs := hr_reqs s @ [\<lparr>pi_ip = ip, pi_port = port\<rparr>],
      hr_params := (hr_params s)(a := Some \<lparr>pi_ip = ip, pi_port = port\<rparr>), hr_pool := pl'\<rparr>"
    by (simp add: addsvrconn_def Let_def)
  have na: "tp_data q \<noteq> a" if "q \<in># attempts (hr_pool s)" for q
    using attempts_live [OF inv that] fresh by fastforce
  have same: "image_mset (\<lambda>p. map_option pi_ip (((hr_params s)(a := Some x)) (tp_data p))) (attempts (hr_pool s)) = attempt_ips s" for x
    unfolding attempt_ips_def using na by (intro image_mset_cong) auto
  have sub: "attempt_ips s \<subseteq># mset (map Some (req_ips s))" using inv by (simp add: cr_inv_def)
  then have "attempt_ips s' \<subseteq># mset (map Some (req_ips s'))"
    unfolding attempt_ips_def [of s'] using same subset_mset.order_trans [OF sub]
    by (auto simp: s' p(4) req_ips_def)
  moreover have "count (image_mset tp_data (attempts (hr_pool s))) a = 0"
    using na by (auto simp: count_eq_zero_iff)
  ultimately show ?thesis using inv p False
    by (auto simp: cr_inv_def s' req_ips_def has_req_iff)
qed

lemma cr_inv_done:
  assumes inv: "cr_inv s" and i: "i < thread_num (hr_pool s)" "pcs (hr_pool s) i = W_Run p"
    and e: "threadpool_work err (tp_data p) s = Some s1" "thread_func i (hr_pool s1) = Step pl"
  shows "cr_inv (s1\<lparr>hr_pool := pl\<rparr>)"
proof -
  from inv have ok: "pool_ok 4 (hr_pool s)" "closer (hr_pool s) = C_Idle" and d: "distinct (map pi_ip (hr_reqs s))"
    by (simp_all add: cr_inv_def req_ips_def)
  obtain peer where pr: "hr_params s (tp_data p) = Some peer" using e(1) by (auto simp: threadpool_work_def Option.bind_eq_Some_conv)
  have s1: "s1 = s\<lparr>hr_reqs := erase_reqs (pi_ip peer) (hr_reqs s), hr_params := (hr_params s)(tp_data p := None)\<rparr>"
    using e(1) pr by (simp add: threadpool_work_def delsvrconn_def)
  have at: "pool_ok 4 pl" "closer pl = C_Idle" "attempts (hr_pool s) = add_mset p (attempts pl)"
    using attempts_worker [OF ok i(1), of pl] e(2) i(2) by (simp_all add: s1)
  have nd: "tp_data q \<noteq> tp_data p" if "q \<in># attempts pl" for q
  proof
    assume "tp_data q = tp_data p"
    then have "count (image_mset tp_data (attempts (hr_pool s))) (tp_data p) \<ge> 2"
      using that at(3) by (auto dest!: multi_member_split)
    moreover have "count (image_mset tp_data (attempts (hr_pool s))) (tp_data p) \<le> 1" using inv by (simp add: cr_inv_def)
    ultimately show False by linarith
  qed
  have ips: "attempt_ips s = add_mset (Some (pi_ip peer)) (attempt_ips (s1\<lparr>hr_pool := pl\<rparr>))"
    unfolding attempt_ips_def at(3) s1 using pr nd by (auto intro!: image_mset_cong)
  have "attempt_ips (s1\<lparr>hr_pool := pl\<rparr>) \<subseteq># mset (map Some (req_ips s)) - {#Some (pi_ip peer)#}"
    using inv unfolding cr_inv_def ips by (simp add: insert_subset_eq_iff)
  moreover have "mset (map Some (req_ips s)) - {#Some (pi_ip peer)#} = mset (map Some (req_ips (s1\<lparr>hr_pool := pl\<rparr>)))"
  proof -
    have "p \<in># attempts (hr_pool s)" by (simp add: at(3))
    then obtain peer' where "hr_params s (tp_data p) = Some peer'" "pi_ip peer' \<in> set (req_ips s)"
      by (rule attempts_live [OF inv])
    with pr have "{#pi_ip peer#} \<subseteq># mset (req_ips s)" by simp
    from image_mset_Diff [OF this, of Some] filter_ips [OF d, of "pi_ip peer"] show ?thesis
      by (simp add: s1 req_ips_def erase_reqs_filter multiset.map_comp)
  qed
  moreover have "distinct (req_ips (s1\<lparr>hr_pool := pl\<rparr>))"
    using filter_ips [OF d, of "pi_ip peer"] d by (simp add: s1 req_ips_def erase_reqs_filter distinct_map_filter)
  moreover have "count (image_mset tp_data (attempts pl)) d \<le> 1" for d
  proof -
    have "count (image_mset tp_data (attempts pl)) d \<le> count (image_mset tp_data (attempts (hr_pool s))) d"
      by (simp add: at(3))
    also have "\<dots> \<le> 1" using inv by (simp add: cr_inv_def)
    finally show ?thesis .
  qed
  ultimately show ?thesis using inv at by (simp add: cr_inv_def)
qed

lemma cr_inv_step:
  assumes "cr_step s s'" "cr_inv s"
  shows "cr_inv s'"
  using assms(1)
proof (cases rule: cr_step.cases)
  case (add a ip port)
  then show ?thesis using assms(2) cr_inv_add
    by (cases ip) (auto simp: deliver_addsvr_msg_def)
next
  case (work_done i p err s1 pl)
  then show ?thesis using cr_inv_done [OF assms(2)] by blast
next
  case (worker i pl)
  then have "attempts pl = attempts (hr_pool s)" "pool_ok 4 pl" "closer pl = C_Idle"
    using attempts_worker [of "hr_pool s" i pl] assms(2) by (auto simp: cr_inv_def split: worker_pc.splits)
  with worker(1) assms(2) show ?thesis by (simp add: cr_inv_def attempt_ips_def req_ips_def)
qed

lemma cr_inv_init: "\<exists>s. HostChangeReq = Some s \<and> cr_inv s \<and> hr_reqs s = [] \<and> jobs (hr_pool s) = []
    \<and> attempts (hr_pool s) = {#} \<and> hr_params s = (\<lambda>_. None)"
proof -
  obtain pl where pl: "threadpool_init 4 empty_mem = Some pl" "pool_ok 4 pl" "jobs pl = []" "closer pl = C_Idle"
    "pcs pl = (\<lambda>i. if i < 4 then W_Check else W_Done)"
    using threadpool_init_ok [of empty_mem 4] by auto
  then have "in_run (pcs pl i) = {#}" for i by simp
  with pl(3) have "attempts pl = {#}" by (simp add: attempts_def)
  with pl show ?thesis by (simp add: HostChangeReq_def cr_inv_def req_ips_def attempt_ips_def)
qed

lemma cr_start_inv: "HostChangeReq = Some s \<Longrightarrow> cr_inv s"
  using cr_inv_init by (metis option.inject)

interpretation cr: machine cr_step cr_inv
  by unfold_locales (rule cr_inv_step)

lemmas cr_reach_inv = cr.reach_inv

text \<open>Requests for different addresses, none of them served yet.\<close>

lemma many_requests:
  assumes "HostChangeReq = Some s0" "n \<le> 65"
  shows "\<exists>s. cr_reach s0 s \<and> req_ips s = map (\<lambda>k. replicate k CHR ''a'') [0..<n] \<and> length (jobs (hr_pool s)) = n
    \<and> (\<forall>k. n \<le> k \<and> k < 100 \<longrightarrow> hr_params s (of_nat k) = None)"
  using assms(2)
proof (induction n)
  case 0
  have "hr_reqs s0 = []" "jobs (hr_pool s0) = []" "hr_params s0 = (\<lambda>_. None)"
    using cr_inv_init assms(1) by (metis option.inject)+
  then show ?case by (intro exI [of _ s0]) (auto simp: req_ips_def intro: reach_start)
next
  case (Suc n)
  then obtain s where s: "cr_reach s0 s" "req_ips s = map (\<lambda>k. replicate k CHR ''a'') [0..<n]"
    "length (jobs (hr_pool s)) = n" "\<forall>k. n \<le> k \<and> k < 100 \<longrightarrow> hr_params s (of_nat k) = None" by auto
  have inv: "cr_inv s" using cr_start_inv [OF assms(1)] cr_reach_inv [OF s(1)] by blast
  then have pl: "pool_ok 4 (hr_pool s)" "closer (hr_pool s) = C_Idle" by (simp_all add: cr_inv_def)
  let ?ip = "replicate n CHR ''a''"
  have "?ip \<notin> set (req_ips s)" by (auto simp: s(2))
  then have nr: "\<not> has_req ?ip (hr_reqs s)" by (simp add: has_req_iff req_ips_def)
  obtain r pl' where p: "threadpool_push_work (of_nat n) CONN_WORK 0 (hr_pool s) = Some (r, pl')"
    "length (jobs pl') = Suc n"
    using attempts_push [OF pl, of "of_nat n" CONN_WORK 0] Suc.prems s(3) by auto
  define s' where "s' = s\<lparr>hr_reqs := hr_reqs s @ [\<lparr>pi_ip = ?ip, pi_port = 10038\<rparr>],
      hr_params := (hr_params s)(of_nat n := Some \<lparr>pi_ip = ?ip, pi_port = 10038\<rparr>), hr_pool := pl'\<rparr>"
  have "addsvrconn (of_nat n) ?ip 10038 s = Some s'" using nr p by (simp add: addsvrconn_def Let_def s'_def)
  then have "cr_step s s'" using s(4) Suc.prems
    by (intro cr_step.add [of s "of_nat n" "Some ?ip" 10038]) (auto simp: deliver_addsvr_msg_def)
  moreover have "(of_nat k :: u64) \<noteq> of_nat n" if "n < k" "k < 100" for k
  proof -
    have "unat (of_nat k :: u64) = k" "unat (of_nat n :: u64) = n" using that by (simp_all add: unat_of_nat)
    with that show ?thesis by (metis less_irrefl)
  qed
  moreover have "req_ips s' = map (\<lambda>k. replicate k CHR ''a'') [0..<Suc n]"
    using s(2) by (simp add: s'_def req_ips_def)
  ultimately show ?case using s(1,4) p(2)
    by (intro exI [of _ s']) (auto simp: s'_def intro: reach_step)
qed

text \<open>C31. Whatever the interleaving of requests and workers, at most one connection attempt per address is
  queued or running, every such attempt is for a pending request and owns a live parameter block (so
  no block is used after it is freed, or freed twice), and no address is requested twice. An address
  for which a request is pending is not queued again.\<close>

theorem connreq_single_attempt:
  "HostChangeReq = Some s0 \<and> cr_reach s0 s \<Longrightarrow>
   attempt_ips s \<subseteq># mset (map Some (req_ips s)) \<and> distinct (req_ips s)
   \<and> (\<forall>p \<in># attempts (hr_pool s). \<exists>s'. threadpool_work err (tp_data p) s = Some s')
   \<and> (\<forall>a ip port. ip \<in> set (req_ips s) \<longrightarrow> addsvrconn a ip port s = Some s)"
proof -
  assume a: "HostChangeReq = Some s0 \<and> cr_reach s0 s"
  then have inv: "cr_inv s" using cr_start_inv cr_reach_inv by blast
  have "\<exists>s'. threadpool_work err (tp_data p) s = Some s'" if "p \<in># attempts (hr_pool s)" for p
    by (rule attempts_live [OF inv that]) (simp add: threadpool_work_def Let_def)
  moreover have "addsvrconn a ip port s = Some s" if "ip \<in> set (req_ips s)" for a ip port
    using that by (simp add: addsvrconn_def has_req_iff req_ips_def)
  moreover have "attempt_ips s \<subseteq># mset (map Some (req_ips s))" "distinct (req_ips s)"
    using inv by (simp_all add: cr_inv_def)
  ultimately show ?thesis by blast
qed

theorem connreq_single_attempt_witness:
  "\<exists>s0 s. HostChangeReq = Some s0 \<and> cr_reach s0 s \<and> req_ips s = ['''', ''a''] \<and> length (jobs (hr_pool s)) = 2
     \<and> attempt_ips s \<subseteq># mset (map Some (req_ips s)) \<and> addsvrconn 9 ''a'' 1 s = Some s"
proof -
  obtain s0 where s0: "HostChangeReq = Some s0" using cr_inv_init by blast
  obtain s where s: "cr_reach s0 s" "req_ips s = map (\<lambda>k. replicate k CHR ''a'') [0..<2]" "length (jobs (hr_pool s)) = 2"
    using many_requests [OF s0, of 2] by auto
  then have r: "req_ips s = ['''', ''a'']" by (simp add: numeral_2_eq_2)
  have "addsvrconn 9 ''a'' 1 s = Some s" "attempt_ips s \<subseteq># mset (map Some (req_ips s))"
    using connreq_single_attempt [of s0 s 0] s0 s(1) by (simp_all add: r)
  with s(1,3) s0 r show ?thesis by blast
qed

section \<open>Requests that are lost\<close>

definition stuck :: "string \<Rightarrow> host_req \<Rightarrow> bool" where
  "stuck ip s \<longleftrightarrow> ip \<in> set (req_ips s) \<and> Some ip \<notin># attempt_ips s"

lemma stuck_add:
  assumes "cr_inv s" "stuck ip s" "hr_params s a = None" "addsvrconn a ip' port s = Some s'"
  shows "stuck ip s'"
proof (cases "has_req ip' (hr_reqs s)")
  case True
  with assms show ?thesis by (simp add: addsvrconn_def)
next
  case False
  with assms(2) have ne: "ip' \<noteq> ip" by (auto simp: stuck_def has_req_iff req_ips_def)
  from assms(1) have pl: "pool_ok 4 (hr_pool s)" "closer (hr_pool s) = C_Idle" by (simp_all add: cr_inv_def)
  obtain r pl' where p: "threadpool_push_work a CONN_WORK 0 (hr_pool s) = Some (r, pl')"
    "attempts pl' = (if length (jobs (hr_pool s)) \<le> 64
       then add_mset \<lparr>tp_data = a, tp_proc = CONN_WORK, tp_after = 0\<rparr> (attempts (hr_pool s)) else attempts (hr_pool s))"
    using attempts_push [OF pl, of a CONN_WORK 0] by blast
  with assms(4) False have s': "s' = s\<lparr>hr_reqs := hr_reqs s @ [\<lparr>pi_ip = ip', pi_port = port\<rparr>],
      hr_params := (hr_params s)(a := Some \<lparr>pi_ip = ip', pi_port = port\<rparr>), hr_pool := pl'\<rparr>"
    by (simp add: addsvrconn_def Let_def)
  have "tp_data q \<noteq> a" if "q \<in># attempts (hr_pool s)" for q
    using attempts_live [OF assms(1) that] assms(3) by fastforce
  with assms(2) ne show ?thesis
    by (auto simp: stuck_def s' p(2) attempt_ips_def req_ips_def split: if_splits)
qed

lemma stuck_step:
  assumes "cr_step s s'" "cr_inv s" "stuck ip s"
  shows "stuck ip s'"
  using assms(1)
proof (cases rule: cr_step.cases)
  case (add a ip' port)
  then show ?thesis using assms(2,3) stuck_add by (cases ip') (auto simp: deliver_addsvr_msg_def)
next
  case (work_done i p err s1 pl)
  from assms(2) have ok: "pool_ok 4 (hr_pool s)" "closer (hr_pool s) = C_Idle" by (simp_all add: cr_inv_def)
  obtain peer where pr: "hr_params s (tp_data p) = Some peer"
    using work_done(5) by (auto simp: threadpool_work_def Option.bind_eq_Some_conv)
  then have s1: "s1 = s\<lparr>hr_reqs := erase_reqs (pi_ip peer) (hr_reqs s), hr_params := (hr_params s)(tp_data p := None)\<rparr>"
    using work_done(5) by (simp add: threadpool_work_def delsvrconn_def)
  have at: "attempts (hr_pool s) = add_mset p (attempts pl)"
    using attempts_worker [OF ok work_done(2), of pl] work_done(3,6) by (simp add: s1)
  have "pi_ip peer \<noteq> ip" using assms(3) pr by (auto simp: stuck_def attempt_ips_def at)
  with assms(3) show ?thesis
    by (auto simp: stuck_def work_done(1) s1 attempt_ips_def at req_ips_def erase_reqs_filter split: if_splits)
next
  case (worker i pl)
  then have "attempts pl = attempts (hr_pool s)"
    using attempts_worker [of "hr_pool s" i pl] assms(2) by (auto simp: cr_inv_def split: worker_pc.splits)
  with worker(1) assms(3) show ?thesis by (simp add: stuck_def attempt_ips_def req_ips_def)
qed

interpretation stuck: stable_machine cr_step cr_inv "stuck ip" for ip
  by unfold_locales (rule stuck_step)

text \<open>C32. A server discovered while 65 requests wait is lost for good: the pool refuses the job, the refusal
  is ignored, and the address stays in the list of requests. No attempt for it ever exists again, and
  every later announcement of that server is dropped as already pending.\<close>

theorem connreq_full_pool_loses_server:
  "HostChangeReq = Some s0 \<and> cr_reach s0 s \<and> 65 \<le> length (jobs (hr_pool s)) \<and> ip \<notin> set (req_ips s)
     \<and> hr_params s a = None \<and> addsvrconn a ip port s = Some s1 \<and> cr_reach s1 s2 \<Longrightarrow>
   Some ip \<notin># attempt_ips s2 \<and> (\<forall>a' port'. addsvrconn a' ip port' s2 = Some s2)"
proof -
  assume h: "HostChangeReq = Some s0 \<and> cr_reach s0 s \<and> 65 \<le> length (jobs (hr_pool s)) \<and> ip \<notin> set (req_ips s)
     \<and> hr_params s a = None \<and> addsvrconn a ip port s = Some s1 \<and> cr_reach s1 s2"
  then have inv: "cr_inv s" using cr_start_inv cr_reach_inv by blast
  then have pl: "pool_ok 4 (hr_pool s)" "closer (hr_pool s) = C_Idle" by (simp_all add: cr_inv_def)
  have "\<not> has_req ip (hr_reqs s)" using h by (simp add: has_req_iff req_ips_def)
  moreover obtain r where "threadpool_push_work a CONN_WORK 0 (hr_pool s) = Some (r, hr_pool s)"
    using attempts_push [OF pl, of a CONN_WORK 0] h by auto
  ultimately have s1: "s1 = s\<lparr>hr_reqs := hr_reqs s @ [\<lparr>pi_ip = ip, pi_port = port\<rparr>],
      hr_params := (hr_params s)(a := Some \<lparr>pi_ip = ip, pi_port = port\<rparr>)\<rparr>"
    using h by (simp add: addsvrconn_def Let_def)
  have na: "tp_data q \<noteq> a \<and> Some ip \<noteq> map_option pi_ip (hr_params s (tp_data q))" if "q \<in># attempts (hr_pool s)" for q
    by (rule attempts_live [OF inv that]) (use h in auto)
  have "Some ip \<notin># attempt_ips s1"
  proof
    assume "Some ip \<in># attempt_ips s1"
    then obtain q where "q \<in># attempts (hr_pool s)" "Some ip = map_option pi_ip (hr_params s1 (tp_data q))"
      by (auto simp: attempt_ips_def s1)
    with na [of q] show False by (auto simp: s1)
  qed
  then have "stuck ip s1" by (simp add: stuck_def s1 req_ips_def)
  moreover have "cr_inv s1" using cr_inv_add [OF inv] h by blast
  ultimately have "stuck ip s2" using stuck.reach_stable h by blast
  then show ?thesis by (simp add: stuck_def addsvrconn_def has_req_iff req_ips_def)
qed

theorem connreq_full_pool_loses_server_witness:
  "\<exists>s0 s s1. HostChangeReq = Some s0 \<and> cr_reach s0 s \<and> length (jobs (hr_pool s)) = 65
     \<and> addsvrconn 65 ''192.168.0.9'' 10038 s = Some s1 \<and> Some ''192.168.0.9'' \<notin># attempt_ips s1
     \<and> (\<forall>a' port'. addsvrconn a' ''192.168.0.9'' port' s1 = Some s1)"
proof -
  obtain s0 where s0: "HostChangeReq = Some s0" using cr_inv_init by blast
  obtain s where s: "cr_reach s0 s" "req_ips s = map (\<lambda>k. replicate k CHR ''a'') [0..<65]" "length (jobs (hr_pool s)) = 65"
    "\<forall>k. 65 \<le> k \<and> k < 100 \<longrightarrow> hr_params s (of_nat k) = None"
    using many_requests [OF s0, of 65] by auto
  have f: "hr_params s 65 = None" using s(4) [rule_format, of 65] by simp
  have "''192.168.0.9'' \<noteq> replicate k CHR ''a''" for k by (cases k) auto
  then have ni: "''192.168.0.9'' \<notin> set (req_ips s)" by (auto simp: s(2))
  have "cr_inv s" using cr_start_inv [OF s0] cr_reach_inv [OF s(1)] by blast
  then obtain r pl' where "threadpool_push_work 65 CONN_WORK 0 (hr_pool s) = Some (r, pl')"
    using attempts_push [of "hr_pool s" 65 CONN_WORK 0] by (auto simp: cr_inv_def)
  then have "\<exists>s1. addsvrconn 65 ''192.168.0.9'' 10038 s = Some s1" by (simp add: addsvrconn_def Let_def)
  then obtain s1 where s1: "addsvrconn 65 ''192.168.0.9'' 10038 s = Some s1" by blast
  have "65 \<le> length (jobs (hr_pool s))" using s(3) by simp
  with connreq_full_pool_loses_server [of s0 s "''192.168.0.9''" 65 10038 s1 s1] s0 s(1) ni f s1 reach_start [of cr_step s1]
  have "Some ''192.168.0.9'' \<notin># attempt_ips s1 \<and> (\<forall>a' port'. addsvrconn a' ''192.168.0.9'' port' s1 = Some s1)" by blast
  with s0 s(1,3) s1 show ?thesis by blast
qed

end
