(* ===== verification/Comm_Api.thy ===== *)
theory Comm_Api
  imports Client_Props Connreq_Mgr
begin

text \<open>
  The calls of the communication library (\<^verbatim>\<open>Communication/comm.cpp\<close>) and the blocking requests behind
  them (\<^verbatim>\<open>Communication/async/async_task.cpp\<close>). A blocking call is two functions: the part up to
  \<^verbatim>\<open>uv_sem_wait(&task.common.notify)\<close>, which hands a task on the caller's stack to the loop and either
  returns at once (\<open>Ret\<close>) or waits for that task (\<open>Wait\<close>), and the part after it, which gets the error
  and the data the task was notified with. \<open>g\<close> is the counter of the task ids; \<open>junk\<close> is what
  the stack holds where the code does not initialise \<^verbatim>\<open>task.common.err\<close>.
\<close>

section \<open>Blocking requests\<close>

datatype call = Ret int | Wait addr

definition stack_task :: "u32 \<Rightarrow> u64 \<Rightarrow> task_body \<Rightarrow> abs_task" where
  "stack_task junk taskId body = \<lparr>t_err = junk, t_errmsg = '''', t_taskId = taskId, t_body = body, t_outdata = []\<rparr>"

text \<open>\<^verbatim>\<open>std::string::assign(p, n)\<close>.\<close>

definition assign :: "byte list \<Rightarrow> int \<Rightarrow> byte list option" where
  "assign p n = (if n < 0 \<or> nat n > length p then None else Some (take (nat n) p))"

text \<open>\<^verbatim>\<open>async->data = &task; uv_async_send(async)\<close>.\<close>

definition send_task :: "addr \<Rightarrow> abs_task \<Rightarrow> world \<Rightarrow> (call \<times> world) option" where
  "send_task async task w = (let (t, w1) = new_task task w in do { w2 \<leftarrow> async_submit async t w1; Some (Wait t, w2) })"

definition async_send :: "u16 \<Rightarrow> byte list \<Rightarrow> int \<Rightarrow> u32 \<Rightarrow> u32 \<Rightarrow> u64 \<Rightarrow> world \<Rightarrow> (call \<times> u64 \<times> world) option" where
  "async_send connId indata inlen timeout junk g w =
     (if \<not> cl_conn_valid connId w then Some (Ret ERR_CONN_NOT_EXIST, g, w)
      else case cl_create_async w of
        None \<Rightarrow> Some (Ret ERR_NOT_READY, g, w)
      | Some (async, w1) \<Rightarrow> do {
          dat \<leftarrow> assign indata inlen;
          let (taskId, g1) = GenTaskID_applyId g;
          (r, w2) \<leftarrow> send_task async (stack_task junk taskId (RW timeout connId dat)) w1;
          Some (r, g1, w2) })"

text \<open>After the notification: \<^verbatim>\<open>*outlen\<close> is an \<^verbatim>\<open>int\<close>, and \<^verbatim>\<open>memcpy\<close> copies that many bytes.\<close>

definition async_send_end :: "u32 \<Rightarrow> byte list \<Rightarrow> (int \<times> (byte list \<times> int) option) option" where
  "async_send_end err outdata =
     (if err \<noteq> 0 then Some (sint err, None)
      else let outlen = sint (of_nat (length outdata) :: u32) in
        if outlen < 0 then None else Some (0, Some (take (nat outlen) outdata, outlen)))"

text \<open>\<^verbatim>\<open>strcpy(task.ip, ip)\<close> writes the text and its terminator into \<^verbatim>\<open>char ip[64]\<close>.\<close>

definition async_conn :: "string \<Rightarrow> int \<Rightarrow> u32 \<Rightarrow> u32 \<Rightarrow> u64 \<Rightarrow> world \<Rightarrow> (call \<times> u64 \<times> world) option" where
  "async_conn ip port timeout junk g w =
     (case cl_create_async w of
        None \<Rightarrow> Some (Ret ERR_NOT_READY, g, w)
      | Some (async, w1) \<Rightarrow>
          if length ip + 1 > 64 then None
          else do {
            let (taskId, g1) = GenTaskID_applyId g;
            (r, w2) \<leftarrow> send_task async (stack_task junk taskId (CONNECT timeout ip port)) w1;
            Some (r, g1, w2) })"

definition async_conn_end :: "u32 \<Rightarrow> int" where
  "async_conn_end err = sint err"

definition async_push :: "byte list \<Rightarrow> int \<Rightarrow> u32 \<Rightarrow> world \<Rightarrow> (call \<times> world) option" where
  "async_push indata inlen junk w = (case sl_create_async w of
     None \<Rightarrow> Some (Ret ERR_NOT_READY, w)
   | Some (async, w1) \<Rightarrow> do {
       dat \<leftarrow> assign indata inlen;
       send_task async (stack_task junk 0 (PUSH dat)) w1 })"

definition async_push_end :: "u32 \<Rightarrow> int" where
  "async_push_end err = sint err"

definition async_close_client :: "u32 \<Rightarrow> world \<Rightarrow> (call \<times> world) option" where
  "async_close_client junk w = (case cl_create_async w of
     None \<Rightarrow> Some (Ret ERR_NOT_READY, w)
   | Some (async, w1) \<Rightarrow> send_task async (stack_task junk 0 CLOSE) w1)"

definition async_close_server :: "u32 \<Rightarrow> world \<Rightarrow> (call \<times> world) option" where
  "async_close_server junk w = (case sl_create_async w of
     None \<Rightarrow> Some (Ret ERR_NOT_READY, w)
   | Some (async, w1) \<Rightarrow> send_task async (stack_task junk 0 CLOSE) w1)"

definition async_close_end :: "u32 \<Rightarrow> int" where
  "async_close_end err = sint err"

section \<open>The calls of the library\<close>

definition ssn_startup_client :: "bool \<Rightarrow> bool \<Rightarrow> world \<Rightarrow> world" where
  "ssn_startup_client pushmsg_cb conn_cb w = snd (start_client_loop (init_client_loop pushmsg_cb conn_cb w))"

definition ssn_shutdown_client :: "u32 \<Rightarrow> world \<Rightarrow> (call \<times> world) option" where
  "ssn_shutdown_client junk w = async_close_client junk w"

definition ssn_shutdown_client_end :: "u32 \<Rightarrow> world \<Rightarrow> (int \<times> world) option" where
  "ssn_shutdown_client_end e w =
     (let err = async_close_end e in if err \<noteq> 0 then Some (err, w) else uninit_client_loop w)"

definition ssn_startup_server :: "(byte list \<Rightarrow> byte list) option \<Rightarrow> nat \<Rightarrow> int \<Rightarrow> int \<Rightarrow> int \<Rightarrow> world \<Rightarrow> (int \<times> world) option" where
  "ssn_startup_server cb workthread_num r1 r2 r3 w = do {
     w1 \<leftarrow> init_server_loop cb workthread_num w;
     Some (start_server_loop r1 r2 r3 w1) }"

definition ssn_shutdown_server :: "u32 \<Rightarrow> world \<Rightarrow> (call \<times> world) option" where
  "ssn_shutdown_server junk w = async_close_server junk w"

definition ssn_shutdown_server_end :: "u32 \<Rightarrow> world \<Rightarrow> (int \<times> world) option" where
  "ssn_shutdown_server_end e w =
     (let err = async_close_end e in if err \<noteq> 0 then Some (err, w) else uninit_server_loop w)"

text \<open>A null pointer is \<open>None\<close>; \<open>outs\<close> says that the two output pointers are not null.\<close>

definition ssn_send ::
  "u16 \<Rightarrow> byte list option \<Rightarrow> int \<Rightarrow> bool \<Rightarrow> u32 \<Rightarrow> u32 \<Rightarrow> u64 \<Rightarrow> world \<Rightarrow> (call \<times> u64 \<times> world) option" where
  "ssn_send connId indata inlen outs timeout junk g w = (case indata of
     None \<Rightarrow> Some (Ret ERR_PARAM, g, w)
   | Some p \<Rightarrow> if inlen \<le> 0 \<or> \<not> outs then Some (Ret ERR_PARAM, g, w) else async_send connId p inlen timeout junk g w)"

definition ssn_connect_is_exist :: "string option \<Rightarrow> world \<Rightarrow> bool option" where
  "ssn_connect_is_exist ip w = (case ip of
     None \<Rightarrow> Some False
   | Some i \<Rightarrow> do { r \<leftarrow> cl_conn_find2 i w; Some (r \<noteq> None) })"

definition ssn_connect :: "string option \<Rightarrow> int \<Rightarrow> u32 \<Rightarrow> u32 \<Rightarrow> u64 \<Rightarrow> world \<Rightarrow> (call \<times> u64 \<times> world) option" where
  "ssn_connect ip port timeout junk g w = (case ip of
     None \<Rightarrow> Some (Ret ERR_PARAM, g, w)
   | Some i \<Rightarrow> do {
       ex \<leftarrow> ssn_connect_is_exist ip w;
       if ex then Some (Ret ERR_CONN_ALREADY_EXIST, g, w) else async_conn i port timeout junk g w })"

definition ssn_connect_oriented :: "u64 \<Rightarrow> string option \<Rightarrow> int \<Rightarrow> host_req \<Rightarrow> host_req option" where
  "ssn_connect_oriented a ip port s = deliver_addsvr_msg a ip port s"

definition ssn_push :: "byte list option \<Rightarrow> int \<Rightarrow> u32 \<Rightarrow> world \<Rightarrow> (call \<times> world) option" where
  "ssn_push indata inlen junk w = (case indata of
     None \<Rightarrow> Some (Ret ERR_PARAM, w)
   | Some p \<Rightarrow> if inlen \<le> 0 then Some (Ret ERR_PARAM, w) else async_push p inlen junk w)"

section \<open>Tasks do not appear from nowhere\<close>

text \<open>Every client task there is after a step was there before, with the same id. Only a call adds one.\<close>

definition no_new :: "world \<Rightarrow> world \<Rightarrow> bool" where
  "no_new w w' \<longleftrightarrow> (\<forall>t task'. w_tasks w' t = Some task' \<longrightarrow> client_task task' \<longrightarrow>
     (\<exists>task. w_tasks w t = Some task \<and> client_task task \<and> t_taskId task = t_taskId task'))"

lemma no_new_refl [simp]: "no_new w w"
  by (simp add: no_new_def)

lemma no_new_trans [trans]: "no_new w w1 \<Longrightarrow> no_new w1 w2 \<Longrightarrow> no_new w w2"
  unfolding no_new_def by metis

lemma no_new_same: "w_tasks w' = w_tasks w \<Longrightarrow> no_new w w'"
  by (simp add: no_new_def)

lemma no_new_upd:
  assumes "w_tasks w t = Some k" "w_tasks w' = (w_tasks w)(t \<mapsto> k')" "t_body k' = t_body k" "t_taskId k' = t_taskId k"
  shows "no_new w w'"
  using assms client_task_cong [OF assms(3)] by (auto simp: no_new_def split: if_splits)

lemma no_new_del: "w_tasks w' = (w_tasks w)(t := None) \<Longrightarrow> no_new w w'"
  by (auto simp: no_new_def split: if_splits)

lemma no_new_set_err: "set_err t e w = Some w' \<Longrightarrow> no_new w w'"
  by (auto simp: set_err_def set_task_def Option.bind_eq_Some_conv intro: no_new_upd)

lemma no_new_errmsg: "write_errmsg t w = Some w' \<Longrightarrow> no_new w w'"
  by (auto simp: write_errmsg_def set_task_def Option.bind_eq_Some_conv case_prod_unfold Let_def intro: no_new_upd)

lemma no_new_notify: "notify_task t w = Some w' \<Longrightarrow> no_new w w'"
  by (auto simp: notify_task_def emit_def Option.bind_eq_Some_conv intro: no_new_del)

lemma tasks_frame [simp]:
  "w_tasks (put_cl_conns c w) = w_tasks w" "w_tasks (put_cl_tasks m w) = w_tasks w" "w_tasks (put_cl_timers m w) = w_tasks w"
  "w_tasks (emit e w) = w_tasks w" "w_tasks (set_handle a h w) = w_tasks w" "w_tasks (snd (new_handle hh w)) = w_tasks w"
  "w_tasks (snd (cl_conn_del i w)) = w_tasks w" "w_tasks (snd (cl_task_del k w)) = w_tasks w" "w_tasks (snd (cl_timer_del k w)) = w_tasks w"
  "w_tasks (start_timer lt tid dat w) = w_tasks w" "w_tasks (cl_task_add k t w) = w_tasks w"
  "w_tasks (snd (sl_conn_del i w)) = w_tasks w"
  by (auto simp: put_cl_conns_def put_cl_tasks_def put_cl_timers_def emit_def set_handle_def new_handle_def cl_conn_del_def cl_task_del_def
      cl_timer_del_def start_timer_def cl_timer_add_def cl_task_add_def sl_conn_del_def put_sl_conns_def Let_def split: option.splits)

lemma tasks_kept:
  "deactivate a w = Some w' \<Longrightarrow> w_tasks w' = w_tasks w" "activate a w = Some w' \<Longrightarrow> w_tasks w' = w_tasks w"
  "safe_uv_close ho w = Some w' \<Longrightarrow> w_tasks w' = w_tasks w" "drop_timer ho w = Some w' \<Longrightarrow> w_tasks w' = w_tasks w"
  "set_conn a c w = Some w' \<Longrightarrow> w_tasks w' = w_tasks w" "init_tcp_conn lt r a w = Some (r', w') \<Longrightarrow> w_tasks w' = w_tasks w"
  "close_cb a w = Some w' \<Longrightarrow> w_tasks w' = w_tasks w" "stop_and_close a w = Some w' \<Longrightarrow> w_tasks w' = w_tasks w"
  "close_timer_and_data a w = Some w' \<Longrightarrow> w_tasks w' = w_tasks w"
proof -
  show d: "deactivate a w = Some w' \<Longrightarrow> w_tasks w' = w_tasks w" for a w w' by (auto simp: deactivate_def Option.bind_eq_Some_conv)
  show "activate a w = Some w' \<Longrightarrow> w_tasks w' = w_tasks w" by (auto simp: activate_def Option.bind_eq_Some_conv)
  show c: "safe_uv_close ho w = Some w' \<Longrightarrow> w_tasks w' = w_tasks w" for ho w w'
    by (auto simp: safe_uv_close_def Option.bind_eq_Some_conv split: option.splits if_splits)
  show "drop_timer ho w = Some w' \<Longrightarrow> w_tasks w' = w_tasks w"
    by (auto simp: drop_timer_def Option.bind_eq_Some_conv dest!: d c split: option.splits)
  show "set_conn a c w = Some w' \<Longrightarrow> w_tasks w' = w_tasks w" by (auto simp: set_conn_def Option.bind_eq_Some_conv)
  show "init_tcp_conn lt r a w = Some (r', w') \<Longrightarrow> w_tasks w' = w_tasks w" by (auto simp: init_tcp_conn_def Option.bind_eq_Some_conv)
  show "close_cb a w = Some w' \<Longrightarrow> w_tasks w' = w_tasks w"
    by (auto simp: close_cb_def Option.bind_eq_Some_conv Let_def case_prod_unfold split: handle_kind.split option.split loop_type.split)
  show "stop_and_close a w = Some w' \<Longrightarrow> w_tasks w' = w_tasks w"
    by (auto simp: stop_and_close_def Option.bind_eq_Some_conv dest!: d c)
  show "close_timer_and_data a w = Some w' \<Longrightarrow> w_tasks w' = w_tasks w"
    by (auto simp: close_timer_and_data_def Option.bind_eq_Some_conv dest!: c)
qed

lemma no_new_finish: "cl_finish_task t w = Some w' \<Longrightarrow> no_new w w'"
proof -
  assume f: "cl_finish_task t w = Some w'"
  then obtain w1 k where w1: "write_errmsg t w = Some w1" "w_tasks w1 t = Some k"
    by (auto simp: cl_finish_task_def Option.bind_eq_Some_conv)
  let ?w2 = "snd (cl_task_del (t_taskId k) w1)"
  have "\<exists>w3. w_tasks w3 = w_tasks w1 \<and> notify_task t w3 = Some w'"
  proof (cases "cl_timer_find (t_taskId k) ?w2")
    case None
    with f w1 show ?thesis by (intro exI [of _ ?w2]) (simp add: cl_finish_task_def Let_def)
  next
    case (Some td)
    with f w1 obtain v where v: "drop_timer (Some td) ?w2 = Some v" "notify_task t (snd (cl_timer_del (t_taskId k) v)) = Some w'"
      by (auto simp: cl_finish_task_def Let_def Option.bind_eq_Some_conv)
    with tasks_kept(4) [OF v(1)] show ?thesis by (intro exI [of _ "snd (cl_timer_del (t_taskId k) v)"]) simp
  qed
  then obtain w3 where "w_tasks w3 = w_tasks w1" "notify_task t w3 = Some w'" by blast
  with no_new_errmsg [OF w1(1)] no_new_notify no_new_same show ?thesis using no_new_trans by blast
qed

lemma no_new_err_finish: "set_err t e w = Some w1 \<Longrightarrow> cl_finish_task t w1 = Some w' \<Longrightarrow> no_new w w'"
  using no_new_set_err no_new_finish no_new_trans by blast

lemma no_new_sl_finish: "sl_finish_task t w = Some w' \<Longrightarrow> no_new w w'"
  by (auto simp: sl_finish_task_def Option.bind_eq_Some_conv intro: no_new_trans dest!: no_new_errmsg no_new_notify)

lemma no_new_timer_cb: "timer_cb a w = Some w' \<Longrightarrow> no_new w w'"
proof -
  assume c: "timer_cb a w = Some w'"
  then obtain td where td: "get_timer a w = Some td" by (auto simp: timer_cb_def Option.bind_eq_Some_conv)
  let ?w1 = "snd (cl_timer_del (td_taskId td) w)"
  obtain task w2 where d: "cl_task_del (td_taskId td) ?w1 = (task, w2)" by fastforce
  then have e2: "w_tasks w2 = w_tasks w" using tasks_frame(8) [of "td_taskId td" ?w1] by simp
  from c td d obtain w3 w4 where w3: "(case task of Some t \<Rightarrow> do { w3 \<leftarrow> set_err t ERR_TIMEOUT w2; cl_finish_task t w3 } | None \<Rightarrow> Some w2) = Some w3"
    and w4: "safe_uv_close (td_data td) w3 = Some w4" "safe_uv_close (Some a) w4 = Some w'"
    by (auto simp: timer_cb_def Option.bind_eq_Some_conv)
  have "no_new w2 w3" using w3 by (auto simp: Option.bind_eq_Some_conv intro: no_new_err_finish split: option.splits)
  moreover have "w_tasks w' = w_tasks w3" using tasks_kept(3) [OF w4(1)] tasks_kept(3) [OF w4(2)] by simp
  ultimately show ?thesis using e2 by (simp add: no_new_def)
qed

lemma no_new_client_pkg: "client_pkg i p w = Some w' \<Longrightarrow> no_new w w'"
proof (cases "pkg_type p = PKG_TYPE_COMMON")
  case True
  assume c: "client_pkg i p w = Some w'"
  obtain task w1 where d1: "cl_task_del (pkg_taskId p) w = (task, w1)" by fastforce
  obtain td w2 where d2: "cl_timer_del (pkg_taskId p) w1 = (td, w2)" by fastforce
  have e: "w_tasks w2 = w_tasks w"
    using tasks_frame(8) [of "pkg_taskId p" w] tasks_frame(9) [of "pkg_taskId p" w1] d1 d2 by simp
  from c True d1 d2 obtain w3 where w3: "drop_timer td w2 = Some w3"
    and r: "(case task of None \<Rightarrow> Some w3 | Some t \<Rightarrow> do { tk \<leftarrow> w_tasks w3 t; case t_body tk of
        RW _ _ _ \<Rightarrow> cl_finish_task t (set_task t (tk\<lparr>t_err := 0, t_outdata := pkg_data p\<rparr>) w3) | _ \<Rightarrow> None }) = Some w'"
    by (auto simp: client_pkg_def Option.bind_eq_Some_conv)
  have "no_new w3 w'"
  proof (cases task)
    case (Some t)
    with r obtain tk where t1: "w_tasks w3 t = Some tk" by (auto simp: Option.bind_eq_Some_conv)
    with r Some have tk: "w_tasks w3 t = Some tk"
      "cl_finish_task t (set_task t (tk\<lparr>t_err := 0, t_outdata := pkg_data p\<rparr>) w3) = Some w'"
      by (cases "t_body tk"; simp)+
    have "no_new w3 (set_task t (tk\<lparr>t_err := 0, t_outdata := pkg_data p\<rparr>) w3)"
      by (rule no_new_upd [OF tk(1), of _ "tk\<lparr>t_err := 0, t_outdata := pkg_data p\<rparr>"]) (simp_all add: set_task_def)
    with no_new_finish [OF tk(2)] no_new_trans show ?thesis by blast
  qed (use r in simp)
  with e tasks_kept(4) [OF w3] show ?thesis by (simp add: no_new_def)
next
  case False
  assume "client_pkg i p w = Some w'"
  with False show ?thesis by (auto simp: client_pkg_def intro: no_new_same split: if_splits)
qed

lemma no_new_each_pkg: "each_pkg (client_pkg i) ps w = Some w' \<Longrightarrow> no_new w w'"
  by (induction ps arbitrary: w) (auto simp: Option.bind_eq_Some_conv intro: no_new_trans dest!: no_new_client_pkg)

lemma no_new_read_cb:
  assumes "w_handles w a = Some h" "h_loop h = CLIENT_LOOP" "read_cb a nread buf w = Some w'"
  shows "no_new w w'"
proof (cases "nread < 0")
  case True
  with assms(3) obtain w1 w2 where w2: "deactivate a w = Some w1" "safe_uv_close (Some a) w1 = Some w2"
    by (auto simp: read_cb_def Option.bind_eq_Some_conv)
  have "h_loop (the (w_handles w2 a)) = CLIENT_LOOP" "w_handles w2 a \<noteq> None"
    using w2 assms(1,2) by (auto simp: deactivate_def safe_uv_close_def set_handle_def Option.bind_eq_Some_conv split: if_splits)
  with True assms(3) w2 have "w_tasks w' = w_tasks w2"
    by (auto simp: read_cb_def Option.bind_eq_Some_conv Let_def cl_task_del_by_connId_def split: if_splits)
  then show ?thesis using tasks_kept(1) [OF w2(1)] tasks_kept(3) [OF w2(2)] by (simp add: no_new_same)
next
  case False
  show ?thesis
  proof (cases "nread = 0")
    case True
    with assms(3) show ?thesis by (simp add: read_cb_def)
  next
    case nz: False
    with False assms obtain conn tcp ps w1 where c: "get_conn a w = Some conn" "set_conn a (conn\<lparr>tc_tcp := tcp\<rparr>) w = Some w1"
      "each_pkg (client_pkg (tc_connId conn)) ps w1 = Some w'"
      by (auto simp: read_cb_def read_content_process_def Option.bind_eq_Some_conv)
    show ?thesis using no_new_each_pkg [OF c(3)] tasks_kept(5) [OF c(2)] by (simp add: no_new_def)
  qed
qed

lemma no_new_conn_add: "cl_conn_add i a w = Some (r, w') \<Longrightarrow> w_tasks w' = w_tasks w"
  by (auto simp: cl_conn_add_def Option.bind_eq_Some_conv dest!: tasks_kept(5) split: option.splits)

lemma no_new_connect_cb: "connect_cb tid conn st w = Some w' \<Longrightarrow> no_new w w'"
proof -
  assume c: "connect_cb tid conn st w = Some w'"
  obtain task w1 where d: "cl_task_del tid w = (task, w1)" by fastforce
  then have e1: "w_tasks w1 = w_tasks w" using tasks_frame(8) [of tid w] by simp
  show ?thesis
  proof (cases task)
    case None
    with c d e1 show ?thesis by (simp add: connect_cb_def no_new_same)
  next
    case (Some t)
    with c d obtain tk where tk: "w_tasks w1 t = Some tk" by (auto simp: connect_cb_def Option.bind_eq_Some_conv)
    obtain td w2 where d2: "cl_timer_del (t_taskId tk) w1 = (td, w2)" by fastforce
    then have e2: "w_tasks w2 = w_tasks w" using e1 tasks_frame(9) [of "t_taskId tk" w1] by simp
    from c d Some tk d2 obtain w3 where w3: "drop_timer td w2 = Some w3" by (auto simp: connect_cb_def Option.bind_eq_Some_conv)
    have "\<exists>v u e. w_tasks v = w_tasks w3 \<and> set_err t e v = Some u \<and> cl_finish_task t u = Some w'"
    proof (cases "st = 0")
      case False
      with c d Some tk d2 w3 show ?thesis
        by (auto simp: connect_cb_def Option.bind_eq_Some_conv dest!: tasks_kept(3))
    next
      case True
      obtain connId g where id: "GenConnID_applyId (w_clt_gen w3) = (connId, g)" by fastforce
      from True c d Some tk d2 w3 id obtain cc w4 r w5 w7 u where s: "set_conn conn (cc\<lparr>tc_connId := connId\<rparr>) (w3\<lparr>w_clt_gen := g\<rparr>) = Some w4"
        "cl_conn_add connId conn w4 = Some (r, w5)"
        "activate conn (if cl_conn_cb (w_cl w5) then emit (E_Conn connId (tc_ip cc) True) w5 else w5) = Some w7"
        "set_err t 0 w7 = Some u" "cl_finish_task t u = Some w'"
        by (auto simp: connect_cb_def Option.bind_eq_Some_conv Let_def)
      have "w_tasks w7 = w_tasks w3"
        using tasks_kept(5) [OF s(1)] no_new_conn_add [OF s(2)] tasks_kept(2) [OF s(3)] by (auto split: if_splits)
      with s show ?thesis by blast
    qed
    then obtain v u e where "w_tasks v = w_tasks w" "set_err t e v = Some u" "cl_finish_task t u = Some w'"
      using tasks_kept(4) [OF w3] e2 by auto
    with no_new_err_finish show ?thesis by (metis no_new_same no_new_trans)
  qed
qed

lemma no_new_write_cb:
  assumes "w_tasks w t = Some task" "client_task task" "write_cb conn t st w = Some w'"
  shows "no_new w w'"
  using assms by (cases "t_body task")
    (auto simp: write_cb_def client_task_def Option.bind_eq_Some_conv intro: no_new_same no_new_err_finish split: if_splits)

lemma no_new_do_write: "do_write conn dat t i w = Some (r, w') \<Longrightarrow> no_new w w'"
  by (cases "io_write i conn") (auto simp: do_write_def Option.bind_eq_Some_conv Let_def intro: no_new_same no_new_set_err)

lemma no_new_do_connect: "do_connect t i w = Some (r, w') \<Longrightarrow> no_new w w'"
proof -
  assume c: "do_connect t i w = Some (r, w')"
  then obtain k where k: "w_tasks w t = Some k" by (auto simp: do_connect_def Option.bind_eq_Some_conv)
  show ?thesis
  proof (cases "t_body k")
    case (CONNECT timeout ip port)
    with c k obtain found where f: "cl_conn_find2 ip w = Some found" by (auto simp: do_connect_def Option.bind_eq_Some_conv)
    show ?thesis
    proof (cases found)
      case (Some x)
      with c k CONNECT f show ?thesis by (auto simp: do_connect_def Option.bind_eq_Some_conv intro: no_new_set_err)
    next
      case None
      let ?h = "\<lparr>h_loop = CLIENT_LOOP, h_kind = UV_TCP (Some \<lparr>tc_connId = INVALID_CONNID, tc_tcp = fresh_tcp, tc_ip = ip, tc_port = port\<rparr>),
             h_closing = False, h_active = False\<rparr>"
      obtain conn w1 where n: "new_handle ?h w = (conn, w1)" by fastforce
      then have e1: "w_tasks w1 = w_tasks w" using tasks_frame(6) [of ?h w] by simp
      from c k CONNECT f None n obtain err w2 where w2: "init_tcp_conn CLIENT_LOOP (io_init i) conn w1 = Some (err, w2)"
        by (auto simp: do_connect_def Option.bind_eq_Some_conv)
      then have e2: "w_tasks w2 = w_tasks w" using tasks_kept(6) [OF w2] e1 by simp
      from c k CONNECT f None n w2 have
        "(if err \<noteq> 0 then do { w3 \<leftarrow> set_err t err (set_handle conn None w2); Some (-1, w3) }
           else if io_connect i \<noteq> 0 then do { w3 \<leftarrow> set_err t (io_connect i) w2; w4 \<leftarrow> safe_uv_close (Some conn) w3; Some (-1, w4) }
           else let w3 = w2\<lparr>w_connects := w_connects w2 @ [(t_taskId k, conn)]\<rparr> in
             Some (0, if timeout > 0 then start_timer CLIENT_LOOP (t_taskId k) (Some conn) w3 else w3)) = Some (r, w')"
        by (simp add: do_connect_def)
      then have "no_new w2 w'"
        by (cases "err = 0"; cases "io_connect i = 0")
          (auto simp: Option.bind_eq_Some_conv Let_def no_new_def dest!: no_new_set_err tasks_kept(3) split: if_splits)
      with e2 show ?thesis by (simp add: no_new_def)
    qed
  qed (use c k in \<open>simp_all add: do_connect_def\<close>)
qed

lemma no_new_each: "each_addr f as w = Some w' \<Longrightarrow> (\<And>a v v'. f a v = Some v' \<Longrightarrow> no_new v v') \<Longrightarrow> no_new w w'"
proof (induction as arbitrary: w)
  case (Cons a as)
  then obtain w1 where "f a w = Some w1" "each_addr f as w1 = Some w'" by (auto simp: Option.bind_eq_Some_conv)
  with Cons no_new_trans show ?case by metis
qed simp

lemma no_new_shutdown: "client_shutdown w = Some w' \<Longrightarrow> no_new w w'"
proof -
  let ?w1 = "w\<lparr>w_cl := w_cl w\<lparr>cl_running := False\<rparr>\<rparr>"
  assume "client_shutdown w = Some w'"
  then obtain w2 w3 w5 where
    s: "each_addr stop_and_close (map snd (cl_conn_list ?w1)) ?w1 = Some w2"
      "each_addr close_timer_and_data (map snd (cl_list_timer w2)) w2 = Some w3"
      "each_addr finish_shutdown (map snd (cl_list_task (cl_conn_clr (cl_timer_clr w3)))) (cl_conn_clr (cl_timer_clr w3)) = Some w5"
      "stop_and_close (cl_no_exit (w_cl w5)) (cl_task_clr w5) = Some w'"
    unfolding client_shutdown_def Option.bind_eq_Some_conv Let_def by blast
  have "no_new ?w1 w2" by (rule no_new_each [OF s(1)]) (auto intro: no_new_same tasks_kept(8))
  moreover have "no_new w2 w3" by (rule no_new_each [OF s(2)]) (auto intro: no_new_same tasks_kept(9))
  moreover have "no_new (cl_conn_clr (cl_timer_clr w3)) w5"
    by (rule no_new_each [OF s(3)]) (auto simp: finish_shutdown_def Option.bind_eq_Some_conv intro: no_new_err_finish)
  ultimately show ?thesis using tasks_kept(8) [OF s(4)]
    by (simp add: cl_conn_clr_def cl_timer_clr_def cl_task_clr_def no_new_def) metis
qed

lemma no_new_run_task:
  assumes "w_tasks w t = Some task" "client_task task \<or> t_body task = CLOSE" "run_task CLIENT_LOOP t i w = Some w'"
  shows "no_new w w'"
proof (cases "t_body task")
  case (RW timeout connId dat)
  let ?w1 = "cl_task_add (t_taskId task) t w"
  show ?thesis
  proof (cases "cl_conn_find connId ?w1")
    case None
    with assms(1,3) RW have "no_new ?w1 w'"
      by (auto simp: run_task_def Option.bind_eq_Some_conv intro: no_new_err_finish)
    then show ?thesis by (simp add: no_new_def)
  next
    case (Some conn)
    with assms(1,3) RW obtain r w2 where "do_write conn dat t i ?w1 = Some (r, w2)" "(if r \<noteq> 0 then cl_finish_task t w2 else Some w2) = Some w'"
      by (auto simp: run_task_def Option.bind_eq_Some_conv)
    then have "no_new ?w1 w'" by (auto intro: no_new_trans no_new_finish no_new_do_write split: if_splits)
    then show ?thesis by (simp add: no_new_def)
  qed
next
  case (CONNECT timeout ip port)
  with assms(1,3) obtain r w2 where "do_connect t i (cl_task_add (t_taskId task) t w) = Some (r, w2)"
    "(if r \<noteq> 0 then cl_finish_task t w2 else Some w2) = Some w'"
    by (auto simp: run_task_def Option.bind_eq_Some_conv)
  then have "no_new (cl_task_add (t_taskId task) t w) w'"
    by (auto intro: no_new_trans no_new_finish no_new_do_connect split: if_splits)
  then show ?thesis by (simp add: no_new_def)
next
  case CLOSE
  with assms(1,3) obtain w1 where w1: "client_shutdown w = Some w1" "cl_finish_task t (w1\<lparr>w_cl := w_cl w1\<lparr>cl_running := False\<rparr>\<rparr>) = Some w'"
    by (auto simp: run_task_def do_shutdown_def finish_on_def Option.bind_eq_Some_conv)
  have "no_new w1 w'" using no_new_finish [OF w1(2)] by (simp add: no_new_def)
  with no_new_shutdown [OF w1(1)] no_new_trans show ?thesis by blast
qed (use assms(2) in \<open>simp_all add: client_task_def\<close>)

lemma no_new_async_cb:
  assumes "cl_inv None w" "pend w a t" "async_cb a i w = Some w'"
  shows "no_new w w'"
proof -
  from assms(1,2) obtain task where k: "w_tasks w t = Some task" "client_task task \<or> t_body task = CLOSE"
    unfolding cl_inv_def tasks_ok_def by blast
  from assms(2) obtain h where h: "w_handles w a = Some h" "h_loop h = CLIENT_LOOP" "h_kind h = UV_ASYNC t" by (auto simp: pend_def)
  show ?thesis
  proof (cases "cl_running (w_cl w) \<and> cl_inited (w_cl w)")
    case True
    with assms(3) h obtain w1 where w1: "run_task CLIENT_LOOP t i w = Some w1" "safe_uv_close (Some a) w1 = Some w'"
      by (auto simp: async_cb_def running_of_def inited_of_def Option.bind_eq_Some_conv)
    show ?thesis using no_new_run_task [OF k w1(1)] tasks_kept(3) [OF w1(2)] by (simp add: no_new_def)
  next
    case False
    with assms(3) h obtain w1 w2 where w1: "set_err t ERR_NOT_READY w = Some w1" "cl_finish_task t w1 = Some w2"
      "safe_uv_close (Some a) w2 = Some w'"
      by (auto simp: async_cb_def running_of_def inited_of_def finish_on_def Option.bind_eq_Some_conv)
    show ?thesis using no_new_err_finish [OF w1(1,2)] tasks_kept(3) [OF w1(3)] by (simp add: no_new_def)
  qed
qed

lemma no_new_event:
  assumes "cl_event w w'" "cl_inv None w"
  shows "no_new w w'"
  using assms
proof (induction rule: cl_event.induct)
  case (ev_write conn t w task status w')
  then show ?case using no_new_write_cb [of "w\<lparr>w_writes := remove1 (conn, t) (w_writes w)\<rparr>" t task conn status w']
    by (simp add: no_new_def)
next
  case (ev_connect tid conn w status w')
  then show ?case using no_new_connect_cb [of tid conn status "w\<lparr>w_connects := remove1 (tid, conn) (w_connects w)\<rparr>" w']
    by (simp add: no_new_def)
qed (auto intro: no_new_async_cb no_new_read_cb no_new_timer_cb no_new_same dest: tasks_kept(7))

section \<open>Executions of a client program\<close>

text \<open>\<open>api_run pb cb n g w\<close>: a client that started with the callbacks \<open>pb\<close>, \<open>cb\<close> and made \<open>n\<close> calls since, from
  any threads, interleaved with the callbacks of its loop.\<close>

inductive api_run :: "bool \<Rightarrow> bool \<Rightarrow> nat \<Rightarrow> u64 \<Rightarrow> world \<Rightarrow> bool" for pb cb where
  run_start: "api_run pb cb 0 0 (ssn_startup_client pb cb boot)"
| run_send: "api_run pb cb n g w \<Longrightarrow> ssn_send connId indata inlen outs timeout junk g w = Some (r, g', w') \<Longrightarrow> api_run pb cb (Suc n) g' w'"
| run_connect: "api_run pb cb n g w \<Longrightarrow> ssn_connect ip port timeout junk g w = Some (r, g', w') \<Longrightarrow> api_run pb cb (Suc n) g' w'"
| run_shutdown: "api_run pb cb n g w \<Longrightarrow> ssn_shutdown_client junk w = Some (r, w') \<Longrightarrow> api_run pb cb (Suc n) g w'"
| run_loop: "api_run pb cb n g w \<Longrightarrow> cl_event w w' \<Longrightarrow> api_run pb cb n g w'"

text \<open>The ids handed out so far are \<open>0 \<dots> m - 1\<close>, and every waiting task has one of them.\<close>

definition ids_ok :: "nat \<Rightarrow> u64 \<Rightarrow> world \<Rightarrow> bool" where
  "ids_ok n g w \<longleftrightarrow> (\<exists>m \<le> n. g = of_nat m \<and>
     (\<forall>t task. w_tasks w t = Some task \<longrightarrow> client_task task \<longrightarrow> (\<exists>k < m. t_taskId task = of_nat k)))"

lemma ids_ok_mono: "ids_ok n g w \<Longrightarrow> no_new w w' \<Longrightarrow> ids_ok (n + d) g w'"
  unfolding ids_ok_def no_new_def by (metis le_add1 le_trans)

lemma ids_fresh:
  assumes "ids_ok n g w" "n < 2 ^ 64"
  shows "fresh_id g w"
proof -
  from assms(1) obtain m where m: "m \<le> n" "g = of_nat m"
    "\<And>t task. w_tasks w t = Some task \<Longrightarrow> client_task task \<Longrightarrow> \<exists>k < m. t_taskId task = of_nat k" by (auto simp: ids_ok_def)
  have "(of_nat k :: u64) \<noteq> of_nat m" if "k < m" for k
  proof -
    have "unat (of_nat k :: u64) = k" "unat (of_nat m :: u64) = m"
      using that m(1) assms(2) by (simp_all add: unat_of_nat)
    with that show ?thesis by auto
  qed
  with m show ?thesis by (fastforce simp: fresh_id_def list_all_iff split: option.split)
qed

lemma send_task_step:
  assumes "cl_create_async w = Some (a, w1)" "send_task a task w1 = Some (r, w')"
  shows "\<exists>t w2. new_task task w1 = (t, w2) \<and> async_submit a t w2 = Some w' \<and> r = Wait t
    \<and> w_tasks w' = (w_tasks w)(t \<mapsto> task) \<and> w_tasks w1 = w_tasks w"
  using assms
  by (auto simp: send_task_def new_task_def async_submit_def cl_create_async_def new_async_def new_handle_def set_handle_def set_task_def
      Option.bind_eq_Some_conv split: if_splits)

text \<open>A call that waits has submitted a task with the next id; one that returns has changed nothing.\<close>

lemma submit_call:
  assumes "cl_create_async w = Some (a, w1)" "send_task a (stack_task junk g body) w1 = Some (r, w')"
    and ids: "ids_ok n g w" "n < 2 ^ 64" and b: "client_task (stack_task junk g body)"
  shows "cl_step w w' \<and> ids_ok (Suc n) (g + 1) w'"
proof -
  from send_task_step [OF assms(1,2)] obtain t w2 where s: "new_task (stack_task junk g body) w1 = (t, w2)" "async_submit a t w2 = Some w'"
    "w_tasks w' = (w_tasks w)(t \<mapsto> stack_task junk g body)" by blast
  have "cl_step w w'"
    by (rule ev_submit [OF assms(1) s(1,2)]) (use ids_fresh [OF ids] b in \<open>simp add: stack_task_def\<close>)
  moreover from ids(1) obtain m where m: "m \<le> n" "g = of_nat m"
    "\<And>t task. w_tasks w t = Some task \<Longrightarrow> client_task task \<Longrightarrow> \<exists>k < m. t_taskId task = of_nat k" by (auto simp: ids_ok_def)
  have "ids_ok (Suc n) (g + 1) w'"
    unfolding ids_ok_def using m by (intro exI [of _ "Suc m"]) (auto simp: s(3) stack_task_def less_Suc_eq split: if_splits)
  ultimately show ?thesis by blast
qed

lemma submit_bind:
  "Option.bind (send_task a task w1) (\<lambda>(r, w2). Some (r, g1, w2)) = Some (r, g', w') \<longleftrightarrow> send_task a task w1 = Some (r, w') \<and> g' = g1"
  by (cases "send_task a task w1") auto

lemma send_submits:
  assumes "ssn_send connId indata inlen outs timeout junk g w = Some (r, g', w')"
  shows "g' = g \<and> w' = w \<or> (\<exists>a w1 dat. cl_create_async w = Some (a, w1)
    \<and> send_task a (stack_task junk g (RW timeout connId dat)) w1 = Some (r, w') \<and> g' = g + 1)"
proof (cases "indata = None \<or> inlen \<le> 0 \<or> \<not> outs \<or> \<not> cl_conn_valid connId w \<or> cl_create_async w = None")
  case True
  with assms show ?thesis by (auto simp: ssn_send_def async_send_def split: option.splits if_splits)
next
  case False
  then obtain p a w1 where p: "indata = Some p" "cl_create_async w = Some (a, w1)" by auto
  with False assms obtain dat where "assign p inlen = Some dat" by (auto simp: ssn_send_def async_send_def Option.bind_eq_Some_conv)
  with p False assms have "send_task a (stack_task junk g (RW timeout connId dat)) w1 = Some (r, w') \<and> g' = g + 1"
    by (simp add: ssn_send_def async_send_def GenTaskID_applyId_def submit_bind)
  with p show ?thesis by blast
qed

lemma connect_submits:
  assumes "ssn_connect ip port timeout junk g w = Some (r, g', w')"
  shows "g' = g \<and> w' = w \<or> (\<exists>a w1 i. cl_create_async w = Some (a, w1)
    \<and> send_task a (stack_task junk g (CONNECT timeout i port)) w1 = Some (r, w') \<and> g' = g + 1)"
proof (cases "ip = None \<or> ssn_connect_is_exist ip w = Some True \<or> cl_create_async w = None")
  case True
  with assms show ?thesis by (auto simp: ssn_connect_def async_conn_def Option.bind_eq_Some_conv split: option.splits if_splits)
next
  case False
  then obtain i a w1 where p: "ip = Some i" "cl_create_async w = Some (a, w1)" by auto
  with False assms have "ssn_connect_is_exist ip w = Some False" by (auto simp: ssn_connect_def Option.bind_eq_Some_conv)
  with p False assms have "send_task a (stack_task junk g (CONNECT timeout i port)) w1 = Some (r, w') \<and> g' = g + 1"
    by (simp add: ssn_connect_def async_conn_def GenTaskID_applyId_def submit_bind split: if_splits)
  with p show ?thesis by blast
qed

text \<open>A call in terms of the state machine.\<close>

lemma call_step:
  assumes "g' = g \<and> w' = w \<or> (\<exists>a w1 body. cl_create_async w = Some (a, w1) \<and> send_task a (stack_task junk g body) w1 = Some (r, w')
      \<and> g' = g + 1 \<and> client_task (stack_task junk g body))"
    and ids: "ids_ok n g w" "n < 2 ^ 64"
  shows "(w' = w \<or> cl_step w w') \<and> ids_ok (Suc n) g' w'"
  using assms(1)
proof
  assume "g' = g \<and> w' = w"
  with ids(1) ids_ok_mono [of n g w w 1] show ?thesis by simp
next
  assume "\<exists>a w1 body. cl_create_async w = Some (a, w1) \<and> send_task a (stack_task junk g body) w1 = Some (r, w')
      \<and> g' = g + 1 \<and> client_task (stack_task junk g body)"
  with submit_call [OF _ _ ids] show ?thesis by blast
qed

lemma send_call:
  assumes "ssn_send connId indata inlen outs timeout junk g w = Some (r, g', w')" "ids_ok n g w" "n < 2 ^ 64"
  shows "(w' = w \<or> cl_step w w') \<and> ids_ok (Suc n) g' w'"
  by (rule call_step [OF _ assms(2,3)]) (use send_submits [OF assms(1)] in \<open>fastforce simp: client_task_def stack_task_def\<close>)

lemma connect_call:
  assumes "ssn_connect ip port timeout junk g w = Some (r, g', w')" "ids_ok n g w" "n < 2 ^ 64"
  shows "(w' = w \<or> cl_step w w') \<and> ids_ok (Suc n) g' w'"
  by (rule call_step [OF _ assms(2,3)]) (use connect_submits [OF assms(1)] in \<open>fastforce simp: client_task_def stack_task_def\<close>)

lemma shutdown_call:
  assumes "ssn_shutdown_client junk w = Some (r, w')" "ids_ok n g w"
  shows "(w' = w \<or> cl_step w w') \<and> ids_ok (Suc n) g w'"
proof (cases "w' = w")
  case True
  with assms(2) ids_ok_mono [of n g w w 1] show ?thesis by simp
next
  case False
  with assms(1) obtain a w1 where a: "cl_create_async w = Some (a, w1)" "send_task a (stack_task junk 0 CLOSE) w1 = Some (r, w')"
    by (auto simp: ssn_shutdown_client_def async_close_client_def split: option.splits)
  from send_task_step [OF this] obtain t w2 where s: "new_task (stack_task junk 0 CLOSE) w1 = (t, w2)" "async_submit a t w2 = Some w'"
    "w_tasks w' = (w_tasks w)(t \<mapsto> stack_task junk 0 CLOSE)" by blast
  have "no_new w w'" unfolding no_new_def s(3) by (auto simp: client_task_def stack_task_def)
  with ids_ok_mono [OF assms(2), of w' 1] ev_submit [OF a(1) s(1,2)] show ?thesis by (simp add: stack_task_def)
qed

lemma api_run_inv:
  assumes "api_run pb cb n g w" "n \<le> 2 ^ 64"
  shows "cl_reach (started pb cb) w \<and> ids_ok n g w"
  using assms
proof (induction rule: api_run.induct)
  case run_start
  then show ?case using reach_start [of cl_step "started pb cb"]
    by (simp add: ssn_startup_client_def started_def [symmetric] ids_ok_def started_simps)
next
  case (run_loop n g w w')
  then have w: "cl_reach (started pb cb) w" "ids_ok n g w" by simp_all
  have "no_new w w'" by (rule no_new_event [OF run_loop.hyps(2) cl_reach_inv [OF w(1) boot_inv]])
  with w ids_ok_mono [of n g w w' 0] reach_step ev_loop run_loop.hyps(2) show ?case by fastforce
next
  case (run_send n g w connId indata inlen outs timeout junk r g' w')
  then show ?case using send_call [OF run_send.hyps(2)] reach_step by fastforce
next
  case (run_connect n g w ip port timeout junk r g' w')
  then show ?case using connect_call [OF run_connect.hyps(2)] reach_step by fastforce
next
  case (run_shutdown n g w junk r w')
  then show ?case using shutdown_call [OF run_shutdown.hyps(2)] reach_step by fastforce
qed

end
