(* ===== verification/Comm_Rpc.thy ===== *)
theory Comm_Rpc
  imports Comm_Api
begin

text \<open>
  What a caller of the client library gets: a request and its answer through the whole client, calls
  that are never lost whatever the interleaving, and where the calls go wrong.
\<close>

section \<open>A request and its answer\<close>

text \<open>The state between a request and its answer: task \<open>t\<close> waits under id \<open>g\<close> for the answer on \<open>conn\<close>; a timer,
  if there is one, is a handle of its own.\<close>

definition rpc_waiting :: "u64 \<Rightarrow> addr \<Rightarrow> addr \<Rightarrow> tcp_conn \<Rightarrow> world \<Rightarrow> bool" where
  "rpc_waiting g t conn c w \<longleftrightarrow> base_ok w \<and> cl_task_find g w = Some t
     \<and> (\<exists>task. w_tasks w t = Some task \<and> t_taskId task = g \<and> (\<exists>tmo cid dat. t_body task = RW tmo cid dat))
     \<and> (\<exists>h. w_handles w conn = Some h \<and> h_loop h = CLIENT_LOOP \<and> h_kind h = UV_TCP (Some c))
     \<and> (\<forall>a. cl_timer_find g w = Some a \<longrightarrow> w_handles w a \<noteq> None)"

lemma finish_out:
  assumes "w_tasks w t = Some task" "cl_timer_find (t_taskId task) w = None"
  shows "\<exists>w'. cl_finish_task t w = Some w' \<and> w_out w' = w_out w @ [E_Notify t (t_err task) (t_outdata task)]"
proof -
  obtain msg em where e: "task_errmsg (t_err task) (w_errmap w) = (msg, em)" by fastforce
  let ?w1 = "set_task t (task\<lparr>t_errmsg := msg\<rparr>) (w\<lparr>w_errmap := em\<rparr>)"
  have "cl_timer_find (t_taskId task) (snd (cl_task_del (t_taskId task) ?w1)) = None"
    using assms(2) by (simp add: task_del_erase cl_timer_find_def put_cl_tasks_def set_task_def)
  then show ?thesis
    using assms(1) e by (simp add: cl_finish_task_def write_errmsg_def notify_task_def task_del_erase put_cl_tasks_def set_task_def emit_def)
qed

lemma answer_pkg:
  assumes w: "rpc_waiting g t conn c w" and p: "pkg_type p = PKG_TYPE_COMMON" "pkg_taskId p = g"
  shows "\<exists>w'. client_pkg i p w = Some w' \<and> w_out w' = w_out w @ [E_Notify t 0 (pkg_data p)]"
proof -
  from w have ok: "smap_ok (cl_taskTable (w_cl w))" "smap_ok (cl_timerTable (w_cl w))"
    by (simp_all add: rpc_waiting_def base_ok_def refs_ok_def maps_ok_def)
  from w obtain task tmo cid dat where k: "w_tasks w t = Some task" "t_taskId task = g" "t_body task = RW tmo cid dat"
    and f: "cl_task_find g w = Some t" by (auto simp: rpc_waiting_def)
  define w1 where "w1 = snd (cl_task_del g w)"
  define w2 where "w2 = snd (cl_timer_del g w1)"
  have t1: "cl_timer_find g w1 = cl_timer_find g w"
    by (simp add: w1_def task_del_erase cl_timer_find_def put_cl_tasks_def)
  have d: "cl_task_del g w = (Some t, w1)" "cl_timer_del g w1 = (cl_timer_find g w, w2)"
    using task.del_pair [of g w] timer.del_pair [of g w1] f t1 by (simp_all add: w1_def w2_def)
  have ok1: "smap_ok (cl_timerTable (w_cl w1))" using ok(2) by (simp add: w1_def task_del_erase put_cl_tasks_def)
  have h2: "w_handles w2 = w_handles w" "w_out w2 = w_out w" "w_tasks w2 = w_tasks w"
    by (simp_all add: w1_def w2_def task_del_erase put_cl_tasks_def cl_timer_del_def put_cl_timers_def split: option.split)
  have "\<exists>w3. drop_timer (cl_timer_find g w) w2 = Some w3 \<and> w_tasks w3 = w_tasks w \<and> w_cl w3 = w_cl w2 \<and> w_out w3 = w_out w"
    using w h2 by (auto simp: rpc_waiting_def drop_timer_def deactivate_def safe_uv_close_def set_handle_def split: option.split)
  then obtain w3 where w3: "drop_timer (cl_timer_find g w) w2 = Some w3" "w_tasks w3 = w_tasks w" "w_cl w3 = w_cl w2" "w_out w3 = w_out w"
    by blast
  let ?w4 = "set_task t (task\<lparr>t_err := 0, t_outdata := pkg_data p\<rparr>) w3"
  have "cl_timer_find g ?w4 = None"
    using timer.find_del [OF ok1, of g g] w3(3) by (simp add: w2_def cl_timer_find_def set_task_def)
  then obtain w' where "cl_finish_task t ?w4 = Some w'" "w_out w' = w_out w @ [E_Notify t 0 (pkg_data p)]"
    using finish_out [of ?w4 t "task\<lparr>t_err := 0, t_outdata := pkg_data p\<rparr>"] k(2) w3(4) by (auto simp: set_task_def)
  then show ?thesis using p d w3(1,2) k by (simp add: client_pkg_def)
qed

lemma one_pkg_parse:
  assumes "tcp_ok tcp" "pending tcp = []" "int (length d) + 18 \<le> INT_MAX"
  shows "\<exists>tcp'. read_content_parse tcp (int (18 + length d)) (pkg_bytes (proto_build_package d (int (length d)) ty tid))
    = Some (tcp', [proto_build_package d (int (length d)) ty tid]) \<and> tcp_ok tcp' \<and> pending tcp' = []"
proof -
  let ?p = "proto_build_package d (int (length d)) ty tid"
  have wf: "list_all pkg_wf [?p]" using assms(3) by (auto simp: pkg_wf_def intro!: proto_build_package_wf)
  have l: "length (pkg_bytes ?p) = 18 + length d" by (simp add: proto_build_package_def)
  have F: "frames (pkg_bytes ?p) = ([pkg_bytes ?p], [])" using frames_pkgs [OF wf, of "[]"] by simp
  have S: "sane (pkg_bytes ?p)" using sane_pkgs [OF wf, of "[]"] assms(3) by (simp add: proto_build_package_def)
  have "accepted [pkg_bytes ?p] = [?p]"
    using pk.dec_enc [of ?p] wf by (simp add: accepted_def proto_check_pkg_def) (simp add: proto_build_package_def)
  with read_content_parse_ok [OF assms(1), of "pkg_bytes ?p"] assms(2,3) F S l show ?thesis by auto
qed

lemma answer_read:
  assumes w: "rpc_waiting g t conn c w" and c: "tcp_ok (tc_tcp c)" "pending (tc_tcp c) = []"
    and l: "int (length rep) + 18 \<le> INT_MAX"
  shows "\<exists>w'. read_cb conn (int (18 + length rep)) (pkg_bytes (proto_build_package rep (int (length rep)) PKG_TYPE_COMMON g)) w = Some w'
    \<and> w_out w' = w_out w @ [E_Notify t 0 rep]"
proof -
  let ?p = "proto_build_package rep (int (length rep)) PKG_TYPE_COMMON g"
  obtain tcp' where tcp': "read_content_parse (tc_tcp c) (int (18 + length rep)) (pkg_bytes ?p) = Some (tcp', [?p])"
    using one_pkg_parse [OF c l] by blast
  from w obtain h where h: "w_handles w conn = Some h" "h_loop h = CLIENT_LOOP" "h_kind h = UV_TCP (Some c)"
    by (auto simp: rpc_waiting_def)
  let ?w1 = "set_handle conn (Some (h\<lparr>h_kind := UV_TCP (Some (c\<lparr>tc_tcp := tcp'\<rparr>))\<rparr>)) w"
  have s: "set_conn conn (c\<lparr>tc_tcp := tcp'\<rparr>) w = Some ?w1" by (simp add: set_conn_def h)
  have "base_ok ?w1"
    by (rule keepsD(1) [OF keeps_set_conn [OF s]]) (use w h in \<open>auto simp: rpc_waiting_def get_conn_def\<close>)
  then have "rpc_waiting g t conn (c\<lparr>tc_tcp := tcp'\<rparr>) ?w1"
    using w h by (auto simp: rpc_waiting_def set_handle_def cl_task_find_def cl_timer_find_def)
  from answer_pkg [OF this, of ?p "tc_connId c"] obtain w' where
    w': "client_pkg (tc_connId c) ?p ?w1 = Some w'" "w_out w' = w_out w @ [E_Notify t 0 rep]"
    by (auto simp: proto_build_package_def set_handle_def)
  have "read_cb conn (int (18 + length rep)) (pkg_bytes ?p) w = Some w'"
    using h s tcp' w'(1) by (simp add: read_cb_def read_content_process_def get_conn_def)
  with w'(2) show ?thesis by blast
qed

text \<open>The state after a task has been handed to the loop.\<close>

definition submitted :: "abs_task \<Rightarrow> world \<Rightarrow> world" where
  "submitted task w = w\<lparr>w_handles := (w_handles w)(w_brk w \<mapsto>
      \<lparr>h_loop = CLIENT_LOOP, h_kind = UV_ASYNC (Suc (w_brk w)), h_closing = False, h_active = True\<rparr>),
    w_tasks := (w_tasks w)(Suc (w_brk w) \<mapsto> task), w_brk := Suc (Suc (w_brk w))\<rparr>"

lemma submitted_simps [simp]:
  "w_cl (submitted task w) = w_cl w" "w_out (submitted task w) = w_out w" "w_writes (submitted task w) = w_writes w"
  "w_tasks (submitted task w) (Suc (w_brk w)) = Some task" "pend (submitted task w) (w_brk w) (Suc (w_brk w))"
  by (simp_all add: submitted_def pend_def)

lemma submit_eq:
  assumes "cl_inv None w" "cl_running (w_cl w)"
  obtains wa where "cl_create_async w = Some (w_brk w, wa)" "send_task (w_brk w) task wa = Some (Wait (Suc (w_brk w)), submitted task w)"
proof
  show "cl_create_async w = Some (w_brk w, snd (new_async CLIENT_LOOP w))"
    using assms by (simp add: cl_create_async_def new_async_def new_handle_def cl_inv_def refs_ok_def maps_ok_def)
  show "send_task (w_brk w) task (snd (new_async CLIENT_LOOP w)) = Some (Wait (Suc (w_brk w)), submitted task w)"
    by (simp add: send_task_def new_task_def new_async_def new_handle_def async_submit_def set_handle_def set_task_def submitted_def)
qed

lemma submit_is_step:
  assumes "cl_create_async w = Some (a, wa)" "send_task a task wa = Some (r, w')"
    "t_body task = CLOSE \<or> client_task task \<and> fresh_id (t_taskId task) w"
  shows "cl_step w w'"
proof -
  from send_task_step [OF assms(1,2)] obtain t w0 where s: "new_task task wa = (t, w0)" "async_submit a t w0 = Some w'" by blast
  show ?thesis by (rule ev_submit [OF assms(1) s assms(3)])
qed

lemma rpc_request:
  assumes inv: "cl_inv None w" and fr: "fresh_id g w" and run: "cl_running (w_cl w)"
    and cn: "cl_conn_find connId w = Some conn" "w_handles w conn = Some h" "h_loop h = CLIENT_LOOP" "h_kind h = UV_TCP (Some c)"
    and io: "io_write i conn = W_Sent" and d: "d \<noteq> []"
  shows "\<exists>a t w1 w2. ssn_send connId (Some d) (int (length d)) True timeout junk g w = Some (Wait t, g + 1, w1) \<and> cl_step w w1
    \<and> pend w1 a t \<and> async_cb a i w1 = Some w2 \<and> cl_inv None w2 \<and> w_writes w2 = w_writes w @ [(conn, t)]
    \<and> w_out w2 = w_out w @ [E_Send conn (pkg_bytes (proto_build_package d (int (length d)) PKG_TYPE_COMMON g))]
    \<and> w_handles w2 conn = Some h \<and> w_tasks w2 t = Some (stack_task junk g (RW timeout connId d))
    \<and> cl_task_find g w2 = Some t \<and> cl_timerTable (w_cl w2) = cl_timerTable (w_cl w)"
proof -
  define a t where "a = w_brk w" and "t = Suc (w_brk w)"
  let ?k = "stack_task junk g (RW timeout connId d)"
  define w1 where "w1 = submitted ?k w"
  from inv have ini: "cl_inited (w_cl w)" and hp: "heap_ok w" and sm: "smap_ok (cl_taskTable (w_cl w))"
    by (simp_all add: cl_inv_def refs_ok_def maps_ok_def)
  have ca: "conn \<noteq> a" using hp cn(2) by (auto simp: heap_ok_def a_def)
  obtain wa where cr: "cl_create_async w = Some (a, wa)" and st: "send_task a ?k wa = Some (Wait t, w1)"
    using submit_eq [OF inv run] unfolding a_def t_def w1_def by blast
  have as: "assign d (int (length d)) = Some d" by (simp add: assign_def)
  have v: "cl_conn_valid connId w" using cn(1) by (simp add: cl_conn_valid_def cl_conn_find_def)
  have call: "ssn_send connId (Some d) (int (length d)) True timeout junk g w = Some (Wait t, g + 1, w1)"
    using d v cr as st by (simp add: ssn_send_def async_send_def GenTaskID_applyId_def)
  have step: "cl_step w w1" by (rule submit_is_step [OF cr st]) (use fr in \<open>simp add: stack_task_def client_task_def\<close>)
  have p: "pend w1 a t" by (simp add: w1_def a_def t_def)
  define w2 where "w2 = w1\<lparr>w_cl := w_cl w\<lparr>cl_taskTable := smap_put g t (cl_taskTable (w_cl w))\<rparr>, w_writes := w_writes w @ [(conn, t)],
    w_out := w_out w @ [E_Send conn (pkg_bytes (proto_build_package d (int (length d)) PKG_TYPE_COMMON g))],
    w_handles := (w_handles w1)(a \<mapsto> \<lparr>h_loop = CLIENT_LOOP, h_kind = UV_ASYNC t, h_closing = True, h_active = False\<rparr>)\<rparr>"
  have "run_task CLIENT_LOOP t i w1 = Some (w2\<lparr>w_handles := w_handles w1\<rparr>)"
    using cn io ca unfolding w2_def
    by (simp add: run_task_def do_write_def w1_def a_def t_def submitted_def stack_task_def cl_task_add_def put_cl_tasks_def cl_conn_find_def pkg_type_of_def emit_def)
  then have cb: "async_cb a i w1 = Some w2"
    using ini run unfolding w2_def
    by (simp add: async_cb_def running_of_def inited_of_def safe_uv_close_def set_handle_def w1_def a_def t_def submitted_def)
  have "cl_inv None w2" using async_cb_inv [OF cl_step_inv [OF step inv] p cb] .
  moreover have "cl_task_find g w2 = Some t" using sm by (simp add: cl_task_find_def w2_def smap_find_put)
  ultimately show ?thesis using call step p cb cn(2) ca
    by (intro exI [of _ a] exI [of _ t] exI [of _ w1] exI [of _ w2]) (simp add: w2_def w1_def a_def t_def submitted_def)
qed

lemma rpc_written:
  assumes inv: "cl_inv None w" and wr: "(conn, t) \<in> set (w_writes w)"
    and h: "w_handles w conn = Some h" "h_loop h = CLIENT_LOOP" "h_kind h = UV_TCP (Some c)"
    and k: "w_tasks w t = Some task" "t_taskId task = g" "t_body task = RW timeout connId d"
    and f: "cl_task_find g w = Some t" "cl_timer_find g w = None"
  shows "\<exists>w'. write_cb conn t 0 (w\<lparr>w_writes := remove1 (conn, t) (w_writes w)\<rparr>) = Some w' \<and> cl_event w w'
    \<and> rpc_waiting g t conn c w' \<and> w_out w' = w_out w"
proof -
  let ?w = "w\<lparr>w_writes := remove1 (conn, t) (w_writes w)\<rparr>"
  define w' where "w' = (if timeout > 0 then start_timer (h_loop h) g None ?w else ?w)"
  have cb: "write_cb conn t 0 ?w = Some w'" using k h(1) by (simp add: write_cb_def w'_def)
  have ev: "cl_event w w'" by (rule ev_write [OF wr k(1) _ cb]) (simp add: client_task_def k(3))
  then have b: "base_ok w'" using cl_event_inv inv inv_base by blast
  have lt: "conn < w_brk w" using inv h(1) by (force simp: cl_inv_def heap_ok_def not_le)
  have sm: "smap_ok (cl_timerTable (w_cl w))" using inv by (simp add: cl_inv_def refs_ok_def maps_ok_def)
  have "rpc_waiting g t conn c w'"
    using b h k f lt sm
    by (cases "timeout > 0") (auto simp: rpc_waiting_def w'_def start_timer_def new_handle_def set_handle_def cl_timer_add_def put_cl_timers_def
      cl_task_find_def cl_timer_find_def smap_find_put)
  moreover have "w_out w' = w_out w"
    by (simp add: w'_def start_timer_def new_handle_def set_handle_def cl_timer_add_def put_cl_timers_def)
  ultimately show ?thesis using cb ev by blast
qed

lemma send_end_ok: "int (length rep) \<le> INT_MAX \<Longrightarrow> async_send_end 0 rep = Some (0, Some (rep, int (length rep)))"
proof -
  assume l: "int (length rep) \<le> INT_MAX"
  have "signed_take_bit 31 (int (length rep)) = int (length rep)"
    by (rule signed_take_bit_int_eq_self) (use l in auto)
  then have "sint (of_nat (length rep) :: u32) = int (length rep)" by (simp add: signed_of_nat)
  then show ?thesis by (simp add: async_send_end_def)
qed

text \<open>C4. A request and its answer, through the whole client. On an open connection of a client that has made
  fewer than \<open>2 ^ 64\<close> calls, \<^verbatim>\<open>ssn_send\<close> submits a task; when the loop runs it, the bytes written to the
  connection are one packet that a peer parses as exactly the data under the task's id; and when
  the write has completed and a packet with that id comes back, the call returns 0 and exactly the
  data of that packet, whether a timeout was set or not.\<close>

theorem ssn_send_rpc:
  assumes "api_run pb cb n g w" "n < 2 ^ 64" "cl_running (w_cl w)" "cl_conn_find connId w = Some conn"
    "w_handles w conn = Some h" "h_loop h = CLIENT_LOOP" "h_kind h = UV_TCP (Some c)" "tcp_ok (tc_tcp c)" "pending (tc_tcp c) = []"
    "cl_timer_find g w = None" "io_write i conn = W_Sent" "d \<noteq> []"
    "int (length d) + 18 \<le> INT_MAX" "int (length rep) + 18 \<le> INT_MAX"
  shows "\<exists>a t req w1 w2 w3 w4. ssn_send connId (Some d) (int (length d)) True timeout junk g w = Some (Wait t, g + 1, w1)
    \<and> pend w1 a t \<and> async_cb a i w1 = Some w2 \<and> w_out w2 = w_out w @ [E_Send conn req]
    \<and> (\<exists>tcp. read_content_parse fresh_tcp (int (length req)) req = Some (tcp, [proto_build_package d (int (length d)) PKG_TYPE_COMMON g]))
    \<and> write_cb conn t 0 (w2\<lparr>w_writes := remove1 (conn, t) (w_writes w2)\<rparr>) = Some w3
    \<and> read_cb conn (int (18 + length rep)) (pkg_bytes (proto_build_package rep (int (length rep)) PKG_TYPE_COMMON g)) w3 = Some w4
    \<and> w_out w4 = w_out w2 @ [E_Notify t 0 rep] \<and> async_send_end 0 rep = Some (0, Some (rep, int (length rep)))"
proof -
  let ?req = "pkg_bytes (proto_build_package d (int (length d)) PKG_TYPE_COMMON g)"
  have R: "cl_reach (started pb cb) w" "ids_ok n g w" using api_run_inv [OF assms(1)] assms(2) by simp_all
  obtain a t w1 w2 where s: "ssn_send connId (Some d) (int (length d)) True timeout junk g w = Some (Wait t, g + 1, w1)"
    "pend w1 a t" "async_cb a i w1 = Some w2" "cl_inv None w2" "w_writes w2 = w_writes w @ [(conn, t)]"
    "w_out w2 = w_out w @ [E_Send conn ?req]" "w_handles w2 conn = Some h"
    "w_tasks w2 t = Some (stack_task junk g (RW timeout connId d))" "cl_task_find g w2 = Some t"
    "cl_timerTable (w_cl w2) = cl_timerTable (w_cl w)"
    using rpc_request [OF cl_reach_inv [OF R(1) boot_inv] ids_fresh [OF R(2) assms(2)] assms(3-7,11,12), of timeout junk] by blast
  have tf: "cl_timer_find g w2 = None" using assms(10) s(10) by (simp add: cl_timer_find_def)
  have wr: "(conn, t) \<in> set (w_writes w2)" by (simp add: s(5))
  obtain w3 where w3: "write_cb conn t 0 (w2\<lparr>w_writes := remove1 (conn, t) (w_writes w2)\<rparr>) = Some w3"
    "rpc_waiting g t conn c w3" "w_out w3 = w_out w2"
    using rpc_written [OF s(4) wr s(7) assms(6,7) s(8) _ _ s(9) tf] by (auto simp: stack_task_def)
  obtain w4 where "read_cb conn (int (18 + length rep)) (pkg_bytes (proto_build_package rep (int (length rep)) PKG_TYPE_COMMON g)) w3 = Some w4"
    "w_out w4 = w_out w3 @ [E_Notify t 0 rep]" using answer_read [OF w3(2) assms(8,9,14)] by blast
  moreover have "\<exists>tcp. read_content_parse fresh_tcp (int (length ?req)) ?req = Some (tcp, [proto_build_package d (int (length d)) PKG_TYPE_COMMON g])"
    using one_pkg_parse [of fresh_tcp d PKG_TYPE_COMMON g] assms(13) by (auto simp: proto_build_package_def)
  moreover have "async_send_end 0 rep = Some (0, Some (rep, int (length rep)))" using send_end_ok [of rep] assms(14) by simp
  ultimately show ?thesis using s(1-3,6) w3(1,3) by metis
qed

text \<open>Example: a client connects, and the connection is made.\<close>

lemma api_exec:
  "api_run pb cb n g w \<Longrightarrow> cl_exec mvs w = Some w' \<Longrightarrow> list_all loop_move mvs \<Longrightarrow> api_run pb cb n g w'"
proof (induction mvs arbitrary: w)
  case (Cons mv mvs)
  then obtain w1 where "cl_exec1 mv w = Some w1" "cl_exec mvs w1 = Some w'" by (auto simp: Option.bind_eq_Some_conv)
  with Cons cl_exec1_event run_loop show ?case by fastforce
qed simp

definition sample_session :: "(u64 \<times> world) option" where
  "sample_session = do {
     (_, g, w) \<leftarrow> ssn_connect (Some ''10.0.0.2'') 10038 1000 77 0 (ssn_startup_client True True boot);
     w' \<leftarrow> cl_exec [Do_Async 2 sample_io, Do_Connect 0 4 0] w;
     Some (g, w') }"

lemma sample_session_run: "sample_session = Some (g, w) \<Longrightarrow> api_run True True 1 g w"
proof -
  assume "sample_session = Some (g, w)"
  then obtain r w1 where c: "ssn_connect (Some ''10.0.0.2'') 10038 1000 77 0 (ssn_startup_client True True boot) = Some (r, g, w1)"
    and e: "cl_exec [Do_Async 2 sample_io, Do_Connect 0 4 0] w1 = Some w"
    by (auto simp: sample_session_def Option.bind_eq_Some_conv)
  have "api_run True True 1 g w1" using run_connect [OF run_start c] by simp
  from api_exec [OF this e] show ?thesis by (simp add: loop_move_def)
qed

lemma sample_session_eval:
  "map_option (\<lambda>(g, w). (g, cl_running (w_cl w), cl_conn_find 1 w, cl_timer_find 1 w,
      map_option (\<lambda>h. (h_loop h, h_kind h)) (w_handles w 4))) sample_session
   = Some (1, True, Some 4, None, Some (CLIENT_LOOP, UV_TCP (Some \<lparr>tc_connId = 1, tc_tcp = fresh_tcp, tc_ip = ''10.0.0.2'', tc_port = 10038\<rparr>)))"
  by code_simp

theorem ssn_send_rpc_witness:
  "\<exists>w a t req w1 w2 w3 w4. api_run True True 1 1 w
    \<and> ssn_send 1 (Some [7, 8]) 2 True 500 77 1 w = Some (Wait t, 2, w1)
    \<and> async_cb a sample_io w1 = Some w2 \<and> w_out w2 = w_out w @ [E_Send 4 req]
    \<and> write_cb 4 t 0 (w2\<lparr>w_writes := remove1 (4, t) (w_writes w2)\<rparr>) = Some w3
    \<and> read_cb 4 19 (pkg_bytes (proto_build_package [9] 1 1 1)) w3 = Some w4 \<and> w_out w4 = w_out w2 @ [E_Notify t 0 [9]]"
proof -
  from sample_session_eval obtain w h c where s: "sample_session = Some (1, w)" "cl_running (w_cl w)" "cl_conn_find 1 w = Some 4"
    "cl_timer_find 1 w = None" "w_handles w 4 = Some h" "h_loop h = CLIENT_LOOP" "h_kind h = UV_TCP (Some c)" "tc_tcp c = fresh_tcp"
    by auto
  note r = sample_session_run [OF s(1)]
  have "tcp_ok (tc_tcp c)" "pending (tc_tcp c) = []" "io_write sample_io 4 = W_Sent" by (simp_all add: s(8) sample_io_def)
  from ssn_send_rpc [OF r _ s(2,3,5,6,7) this(1,2) s(4) this(3), of "[7, 8]" "[9]" 500 77] obtain a t req w1 w2 w3 w4 where
    "ssn_send 1 (Some [7, 8]) 2 True 500 77 1 w = Some (Wait t, 2, w1)" "async_cb a sample_io w1 = Some w2"
    "w_out w2 = w_out w @ [E_Send 4 req]" "write_cb 4 t 0 (w2\<lparr>w_writes := remove1 (4, t) (w_writes w2)\<rparr>) = Some w3"
    "read_cb 4 19 (pkg_bytes (proto_build_package [9] 1 1 1)) w3 = Some w4" "w_out w4 = w_out w2 @ [E_Notify t 0 [9]]"
    by (auto simp: PKG_TYPE_COMMON_def)
  with r show ?thesis by blast
qed



section \<open>Shutting down\<close>

lemma finish_other: "cl_finish_task x w = Some w' \<Longrightarrow> t \<noteq> x \<Longrightarrow> w_tasks w' t = w_tasks w t"
  by (auto simp: cl_finish_task_def write_errmsg_def notify_task_def set_task_def Let_def case_prod_unfold Option.bind_eq_Some_conv
      dest!: tasks_kept(4) split: option.splits)

lemma finish_all_other:
  "each_addr finish_shutdown as w = Some w' \<Longrightarrow> t \<notin> set as \<Longrightarrow> w_tasks w' t = w_tasks w t"
proof (induction as arbitrary: w)
  case (Cons a as)
  then obtain w1 w2 where w1: "set_err a ERR_SHUTDOWN w = Some w1" "cl_finish_task a w1 = Some w2" "each_addr finish_shutdown as w2 = Some w'"
    by (auto simp: finish_shutdown_def [of a w] Option.bind_eq_Some_conv)
  moreover have "w_tasks w1 t = w_tasks w t" using w1(1) Cons.prems(2) by (auto simp: set_err_def set_task_def Option.bind_eq_Some_conv)
  ultimately show ?case using Cons finish_other [OF w1(2), of t] by simp
qed simp

lemma each_tasks: "each_addr f as w = Some w' \<Longrightarrow> (\<And>a v v'. f a v = Some v' \<Longrightarrow> w_tasks v' = w_tasks v) \<Longrightarrow> w_tasks w' = w_tasks w"
  by (induction as arbitrary: w) (auto simp: Option.bind_eq_Some_conv)

lemma each_cl: "each_addr f as w = Some w' \<Longrightarrow> (\<And>a v v'. f a v = Some v' \<Longrightarrow> w_cl v' = w_cl v) \<Longrightarrow> w_cl w' = w_cl w"
  by (induction as arbitrary: w) (auto simp: Option.bind_eq_Some_conv)

lemma stop_cl: "stop_and_close a w = Some w' \<Longrightarrow> w_cl w' = w_cl w" "close_timer_and_data a w = Some w' \<Longrightarrow> w_cl w' = w_cl w"
  by (auto simp: stop_and_close_def close_timer_and_data_def deactivate_def safe_uv_close_def set_handle_def Option.bind_eq_Some_conv
      split: if_splits option.splits)

lemma shutdown_other:
  assumes "client_shutdown w = Some w'" "t \<notin> snd ` set (taskTable w)"
  shows "w_tasks w' t = w_tasks w t"
proof -
  let ?w1 = "w\<lparr>w_cl := w_cl w\<lparr>cl_running := False\<rparr>\<rparr>"
  from assms(1) obtain w2 w3 w5 where
    s: "each_addr stop_and_close (map snd (cl_conn_list ?w1)) ?w1 = Some w2"
      "each_addr close_timer_and_data (map snd (cl_list_timer w2)) w2 = Some w3"
      "each_addr finish_shutdown (map snd (cl_list_task (cl_conn_clr (cl_timer_clr w3)))) (cl_conn_clr (cl_timer_clr w3)) = Some w5"
      "stop_and_close (cl_no_exit (w_cl w5)) (cl_task_clr w5) = Some w'"
    unfolding client_shutdown_def Option.bind_eq_Some_conv Let_def by blast
  have "w_tasks w3 = w_tasks w" using each_tasks [OF s(1) tasks_kept(8)] each_tasks [OF s(2) tasks_kept(9)] by simp
  moreover have "w_cl w3 = w_cl ?w1" using each_cl [OF s(1) stop_cl(1)] each_cl [OF s(2) stop_cl(2)] by simp
  then have "t \<notin> set (map snd (cl_list_task (cl_conn_clr (cl_timer_clr w3))))"
    using assms(2) by (simp add: cl_list_task_def cl_conn_clr_def cl_timer_clr_def put_cl_conns_def put_cl_timers_def)
  ultimately show ?thesis using finish_all_other [OF s(3)] tasks_kept(8) [OF s(4)]
    by (simp add: cl_conn_clr_def cl_timer_clr_def cl_task_clr_def)
qed

lemma close_notifies:
  assumes inv: "cl_inv None w" and p: "pend w a t" and k: "w_tasks w t = Some task" "t_body task = CLOSE"
    and r: "cl_running (w_cl w)" "async_cb a i w = Some w'"
  shows "last (w_out w') = E_Notify t (t_err task) (t_outdata task)"
proof -
  have c: "\<not> client_task task" using k(2) by (simp add: client_task_def)
  from p obtain h where h: "w_handles w a = Some h" "h_loop h = CLIENT_LOOP" "h_kind h = UV_ASYNC t" by (auto simp: pend_def)
  have ini: "cl_inited (w_cl w)" using inv by (simp add: cl_inv_def refs_ok_def maps_ok_def)
  from r h ini k obtain w1 w3 where w1: "client_shutdown w = Some w1" "cl_finish_task t (w1\<lparr>w_cl := w_cl w1\<lparr>cl_running := False\<rparr>\<rparr>) = Some w3"
    "safe_uv_close (Some a) w3 = Some w'"
    by (auto simp: async_cb_def running_of_def inited_of_def run_task_def do_shutdown_def finish_on_def Option.bind_eq_Some_conv)
  have "t \<notin> snd ` set (taskTable w)"
  proof
    assume "t \<in> snd ` set (taskTable w)"
    then obtain tid where "cl_task_find tid w = Some t"
      using inv by (auto simp: cl_task_find_def smap_find_in_iff cl_inv_def refs_ok_def maps_ok_def)
    with inv k(1) c show False unfolding cl_inv_def tasks_ok_def by (metis option.inject)
  qed
  then have t1: "w_tasks w1 t = Some task" using shutdown_other [OF w1(1)] k(1) by simp
  let ?w2 = "w1\<lparr>w_cl := w_cl w1\<lparr>cl_running := False\<rparr>\<rparr>"
  have e: "cl_timerTable (w_cl ?w2) = []"
    using client_shutdown_inv [OF inv_weaken [OF inv] k(1) c w1(1)] by simp
  then have "cl_timer_find (t_taskId task) ?w2 = None" by (simp add: cl_timer_find_def)
  with finish_out [of ?w2 t task] t1 w1(2) have "w_out w3 = w_out ?w2 @ [E_Notify t (t_err task) (t_outdata task)]" by auto
  moreover have "w_out w' = w_out w3"
    using w1(3) by (auto simp: safe_uv_close_def set_handle_def Option.bind_eq_Some_conv split: if_splits)
  ultimately show ?thesis by simp
qed

text \<open>C39. \<^verbatim>\<open>ssn_shutdown_client\<close> returns what its stack happens to hold: \<^verbatim>\<open>async_close_client\<close> does not initialise
  \<^verbatim>\<open>task.common.err\<close> and the loop never sets it for a close task, so the task is notified with the value
  left there. Whenever that is not 0, a shutdown that has closed everything is reported as failed with
  that number, and the loop's thread is not joined nor its state reset.\<close>

theorem shutdown_returns_garbage:
  assumes "api_run pb cb n g w" "n \<le> 2 ^ 64" "cl_running (w_cl w)" "handles_live w"
  shows "\<exists>a t w1 w2. ssn_shutdown_client junk w = Some (Wait t, w1) \<and> pend w1 a t \<and> async_cb a i w1 = Some w2
    \<and> last (w_out w2) = E_Notify t junk [] \<and> cl_connTable (w_cl w2) = [] \<and> \<not> cl_running (w_cl w2)
    \<and> ssn_shutdown_client_end junk w2 = (if junk \<noteq> 0 then Some (sint junk, w2) else uninit_client_loop w2)"
proof -
  have R: "cl_reach (started pb cb) w" using api_run_inv [OF assms(1,2)] by blast
  note inv = cl_reach_inv [OF R boot_inv]
  define a t where "a = w_brk w" and "t = Suc (w_brk w)"
  let ?k = "stack_task junk 0 CLOSE"
  define w1 where "w1 = submitted ?k w"
  obtain wa where cr: "cl_create_async w = Some (a, wa)" and st: "send_task a ?k wa = Some (Wait t, w1)"
    using submit_eq [OF inv assms(3)] unfolding a_def t_def w1_def by blast
  have call: "ssn_shutdown_client junk w = Some (Wait t, w1)" by (simp add: ssn_shutdown_client_def async_close_client_def cr st)
  have "cl_step w w1" by (rule submit_is_step [OF cr st]) (simp add: stack_task_def)
  then have R1: "cl_reach (started pb cb) w1" by (rule reach_step [OF R])
  have p: "pend w1 a t" and k: "w_tasks w1 t = Some ?k" by (simp_all add: w1_def a_def t_def)
  have b: "live w1 x" if "live w x" for x using that by (simp add: live_def w1_def submitted_def)
  have fr: "w_handles w a = None" using inv by (simp add: cl_inv_def heap_ok_def a_def)
  have tm: "get_timer x w1 = Some td" if "get_timer x w = Some td" for x td
    using that fr by (auto simp: get_timer_def w1_def submitted_def a_def)
  have c1: "w_cl w1 = w_cl w" by (simp add: w1_def)
  have hl: "handles_live w1" using assms(4) unfolding handles_live_def list_all_iff c1 using b tm by blast
  have r: "cl_running (w_cl w1)" using assms(3) by (simp add: w1_def)
  obtain w2 where w2: "async_cb a i w1 = Some w2" "cl_connTable (w_cl w2) = []" "\<not> cl_running (w_cl w2)"
    using close_run [OF R1 p k _ r hl, of i] by (auto simp: stack_task_def)
  have "last (w_out w2) = E_Notify t junk []"
    using close_notifies [OF cl_reach_inv [OF R1 boot_inv] p k _ r w2(1)] by (simp add: stack_task_def)
  moreover have "sint junk = 0 \<longleftrightarrow> junk = 0" using signed_word_eqI [of junk 0] by auto
  ultimately show ?thesis using call p w2
    by (intro exI [of _ a] exI [of _ t] exI [of _ w1] exI [of _ w2]) (simp add: ssn_shutdown_client_end_def async_close_end_def)
qed

theorem shutdown_returns_garbage_witness:
  "\<exists>w a t w1 w2. api_run True True 1 1 w \<and> ssn_shutdown_client 77 w = Some (Wait t, w1) \<and> async_cb a sample_io w1 = Some w2
    \<and> last (w_out w2) = E_Notify t 77 [] \<and> ssn_shutdown_client_end 77 w2 = Some (77, w2)"
proof -
  have "map_option (\<lambda>(g, w). (g, cl_running (w_cl w), list_all (live w) (map snd (cl_connTable (w_cl w))), live w (cl_no_exit (w_cl w)),
      cl_timerTable (w_cl w))) sample_session = Some (1, True, True, True, [])" by code_simp
  then obtain w where s: "sample_session = Some (1, w)" "cl_running (w_cl w)" "handles_live w"
    by (auto simp: handles_live_def)
  note r = sample_session_run [OF s(1)]
  have "(1 :: nat) \<le> 2 ^ 64" "(77 :: u32) \<noteq> 0" "sint (77 :: u32) = 77" by simp_all
  with shutdown_returns_garbage [OF r _ s(2,3), of 77 sample_io] obtain a t w1 w2 where
    "ssn_shutdown_client 77 w = Some (Wait t, w1)" "async_cb a sample_io w1 = Some w2"
    "last (w_out w2) = E_Notify t 77 []" "ssn_shutdown_client_end 77 w2 = Some (77, w2)" by auto
  with r show ?thesis by blast
qed

section \<open>Arguments\<close>

text \<open>\<^verbatim>\<open>ssn_connect\<close> does not check the length of the address: on a running client that has no connection to
  it, an address of up to 63 characters is submitted to the loop and the call waits, and any longer
  text is copied past the end of \<^verbatim>\<open>char ip[64]\<close> on the stack.\<close>

theorem ssn_connect_ip_overflow:
  assumes "api_run pb cb n g w" "n \<le> 2 ^ 64" "cl_running (w_cl w)" "cl_conn_find2 ip w = Some None"
  shows "ssn_connect (Some ip) port timeout junk g w =
    (if length ip < 64 then Some (Wait (Suc (w_brk w)), g + 1, submitted (stack_task junk g (CONNECT timeout ip port)) w) else None)"
proof -
  have R: "cl_reach (started pb cb) w" using api_run_inv [OF assms(1,2)] by blast
  obtain wa where "cl_create_async w = Some (w_brk w, wa)"
    "send_task (w_brk w) (stack_task junk g (CONNECT timeout ip port)) wa
      = Some (Wait (Suc (w_brk w)), submitted (stack_task junk g (CONNECT timeout ip port)) w)"
    by (rule submit_eq [OF cl_reach_inv [OF R boot_inv] assms(3)])
  with assms(4) show ?thesis
    by (simp add: ssn_connect_def ssn_connect_is_exist_def async_conn_def GenTaskID_applyId_def)
qed

theorem ssn_connect_ip_overflow_witness:
  "\<exists>w. api_run True True 1 1 w \<and> ssn_connect (Some (replicate 64 CHR ''1'')) 10038 0 0 1 w = None
    \<and> (\<exists>w'. ssn_connect (Some (replicate 63 CHR ''1'')) 10038 0 0 1 w = Some (Wait (Suc (w_brk w)), 2, w'))"
proof -
  have "map_option (\<lambda>(g, w). (g, cl_running (w_cl w), cl_conn_find2 (replicate 64 CHR ''1'') w, cl_conn_find2 (replicate 63 CHR ''1'') w))
      sample_session = Some (1, True, Some None, Some None)" by code_simp
  then obtain w where s: "sample_session = Some (1, w)" "cl_running (w_cl w)" "cl_conn_find2 (replicate 64 CHR ''1'') w = Some None"
    "cl_conn_find2 (replicate 63 CHR ''1'') w = Some None" by auto
  note r = sample_session_run [OF s(1)]
  have "ssn_connect (Some (replicate 64 CHR ''1'')) 10038 0 0 1 w = None"
    "\<exists>w'. ssn_connect (Some (replicate 63 CHR ''1'')) 10038 0 0 1 w = Some (Wait (Suc (w_brk w)), 2, w')"
    using ssn_connect_ip_overflow [OF r _ s(2,3)] ssn_connect_ip_overflow [OF r _ s(2,4)] by simp_all
  with r show ?thesis by blast
qed

end
