(* ===== verification/Server_Loop.thy ===== *)
theory Server_Loop
  imports Comm_Rpc "HOL-Library.Multiset"
begin

text \<open>
  The server loop as a state machine: libuv calls the callbacks of \<open>Comm_Core\<close> on the loop thread,
  the workers of the thread pool run \<^verbatim>\<open>svr_work_cb\<close>, user threads push data and close the server, in
  any interleaving. The invariant is a conservation law: every task that is alive is in exactly one
  place, the queue of the pool, the hand of a worker, an async handle or a write request.
\<close>

section \<open>Steps\<close>

abbreviation pool_of :: "world \<Rightarrow> pool" where
  "pool_of w \<equiv> sl_pool (w_sl w)"

definition set_pool :: "pool \<Rightarrow> world \<Rightarrow> world" where
  "set_pool p w = w\<lparr>w_sl := w_sl w\<lparr>sl_pool := p\<rparr>\<rparr>"

text \<open>The task of a job of the pool: its pointer is passed as \<^verbatim>\<open>void*\<close>.\<close>

definition job_task :: "thread_param \<Rightarrow> addr" where
  "job_task p = unat (tp_data p)"

text \<open>An async handle of the server loop that carries \<open>t\<close> and has not been run.\<close>

definition spend :: "world \<Rightarrow> addr \<Rightarrow> addr \<Rightarrow> bool" where
  "spend w a t \<longleftrightarrow> (\<exists>h. w_handles w a = Some h \<and> h_loop h = SERVER_LOOP \<and> h_kind h = UV_ASYNC t \<and> \<not> h_closing h)"

text \<open>The error codes of libuv are not 0.\<close>

definition io_ok :: "io \<Rightarrow> bool" where
  "io_ok i \<longleftrightarrow> (\<forall>a. io_write i a \<noteq> W_Err 0)"

text \<open>A state of the server: the world, and the workers that are inside \<^verbatim>\<open>svr_work_cb\<close> and wait for their
  task to be notified. The pool exists until the shutdown has joined it; pointers have 64 bits;
  libuv calls the writes of a handle back before the handle itself is closed.\<close>

type_synonym server = "world \<times> nat list"

inductive sv_step :: "server \<Rightarrow> server \<Rightarrow> bool" where
  sv_accept: "w_handles w (sl_listen (w_sl w)) = Some h \<Longrightarrow> h_active h \<Longrightarrow> listen_cb status i w = Some w' \<Longrightarrow>
    sv_step (w, b) (w', b)"
| sv_read: "w_handles w a = Some h \<Longrightarrow> h_loop h = SERVER_LOOP \<Longrightarrow> h_kind h = UV_TCP (Some c) \<Longrightarrow> h_active h \<Longrightarrow>
    read_cb a nread buf w = Some w' \<Longrightarrow> w_brk w' \<le> 2 ^ 64 \<Longrightarrow> sv_step (w, b) (w', b)"
| sv_write: "(conn, t) \<in> set (w_writes w) \<Longrightarrow>
    write_cb conn t status (w\<lparr>w_writes := remove1 (conn, t) (w_writes w)\<rparr>) = Some w' \<Longrightarrow> sv_step (w, b) (w', b)"
| sv_close: "w_handles w a = Some h \<Longrightarrow> h_loop h = SERVER_LOOP \<Longrightarrow> h_closing h \<Longrightarrow> a \<notin> fst ` set (w_writes w) \<Longrightarrow>
    close_cb a w = Some w' \<Longrightarrow> sv_step (w, b) (w', b)"
| sv_async: "spend w a t \<Longrightarrow> io_ok i \<Longrightarrow> async_cb a i w = Some w' \<Longrightarrow> sv_step (w, b) (w', b)"
| sv_push: "ssn_push indata inlen junk w = Some (r, w') \<Longrightarrow> sv_step (w, b) (w', b)"
| sv_shutdown: "ssn_shutdown_server junk w = Some (r, w') \<Longrightarrow> sv_step (w, b) (w', b)"
| sv_worker: "sl_running (w_sl w) \<Longrightarrow> i < thread_num (pool_of w) \<Longrightarrow> \<forall>p. pcs (pool_of w) i \<noteq> W_Run p \<Longrightarrow>
    thread_func i (pool_of w) = Step p' \<Longrightarrow> sv_step (w, b) (set_pool p' w, b)"
| sv_spurious: "sl_running (w_sl w) \<Longrightarrow> i < thread_num (pool_of w) \<Longrightarrow> pcs (pool_of w) i = W_Wait \<Longrightarrow>
    sv_step (w, b) (set_pool ((pool_of w)\<lparr>pcs := (pcs (pool_of w))(i := W_Relock)\<rparr>) w, b)"
| sv_begin: "sl_running (w_sl w) \<Longrightarrow> i < thread_num (pool_of w) \<Longrightarrow> pcs (pool_of w) i = W_Run p \<Longrightarrow> tp_proc p = SVR_WORK_CB \<Longrightarrow>
    i \<notin> set b \<Longrightarrow> svr_work_cb (job_task p) w = Some w' \<Longrightarrow> sv_step (w, b) (w', i # b)"
| sv_end: "sl_running (w_sl w) \<Longrightarrow> i < thread_num (pool_of w) \<Longrightarrow> pcs (pool_of w) i = W_Run p \<Longrightarrow>
    i \<in> set b \<Longrightarrow> w_tasks w (job_task p) = None \<Longrightarrow> thread_func i (pool_of w) = Step p' \<Longrightarrow>
    sv_step (w, b) (set_pool p' w, removeAll i b)"

abbreviation sv_reach :: "server \<Rightarrow> server \<Rightarrow> bool" where
  "sv_reach \<equiv> reach sv_step"

section \<open>Where the tasks are\<close>

definition handle_task :: "handle option \<Rightarrow> addr multiset" where
  "handle_task h = (case h of
     None \<Rightarrow> {#}
   | Some h \<Rightarrow> if h_loop h = SERVER_LOOP \<and> \<not> h_closing h then (case h_kind h of UV_ASYNC t \<Rightarrow> {#t#} | _ \<Rightarrow> {#}) else {#})"

definition in_async :: "world \<Rightarrow> addr multiset" where
  "in_async w = (\<Sum>a < w_brk w. handle_task (w_handles w a))"

fun worker_task :: "worker_pc \<Rightarrow> addr multiset" where
  "worker_task (W_Run p) = {#job_task p#}"
| "worker_task _ = {#}"

definition in_hands :: "pool \<Rightarrow> nat list \<Rightarrow> addr multiset" where
  "in_hands s b = (\<Sum>i < thread_num s. if i \<in> set b then {#} else worker_task (pcs s i))"

definition in_jobs :: "pool \<Rightarrow> addr multiset" where
  "in_jobs s = mset (map job_task (jobs s))"

definition in_writes :: "world \<Rightarrow> addr multiset" where
  "in_writes w = mset (map snd (w_writes w))"

definition places :: "server \<Rightarrow> addr multiset" where
  "places s = (case s of (w, b) \<Rightarrow> in_jobs (pool_of w) + in_hands (pool_of w) b + in_async w + in_writes w)"

section \<open>The invariant\<close>

definition resp_task :: "world \<Rightarrow> addr \<Rightarrow> bool" where
  "resp_task w t \<longleftrightarrow> (\<exists>task c d. w_tasks w t = Some task \<and> t_body task = RESP c d)"

definition bodies :: "world \<Rightarrow> addr \<Rightarrow> task_body option" where
  "bodies w t = map_option t_body (w_tasks w t)"

definition server_body :: "task_body \<Rightarrow> bool" where
  "server_body k = (case k of RESP _ _ \<Rightarrow> True | PUSH _ \<Rightarrow> True | CLOSE \<Rightarrow> True | _ \<Rightarrow> False)"

text \<open>The table of the connections points to live connections.\<close>

definition conns_ok :: "world \<Rightarrow> bool" where
  "conns_ok w \<longleftrightarrow> smap_ok (sl_connTable (w_sl w)) \<and> (\<forall>(k, a) \<in> set (sl_connTable (w_sl w)).
     \<exists>h c. w_handles w a = Some h \<and> h_loop h = SERVER_LOOP \<and> h_kind h = UV_TCP (Some c) \<and> tc_connId c = k \<and> tcp_kind (tc_tcp c) = TCP_CLIENT)"

definition sv_pool_ok :: "pool \<Rightarrow> bool" where
  "sv_pool_ok s \<longleftrightarrow> pool_ok (thread_num s) s \<and> closer s = C_Idle \<and> (\<forall>p \<in> set (jobs s). tp_proc p = SVR_WORK_CB)
     \<and> (\<forall>i p. pcs s i = W_Run p \<longrightarrow> tp_proc p = SVR_WORK_CB)"

definition not_async :: "handle option \<Rightarrow> bool" where
  "not_async h \<longleftrightarrow> (\<forall>h' t. h = Some h' \<longrightarrow> h_kind h' \<noteq> UV_ASYNC t)"

definition listen_ok :: "world \<Rightarrow> bool" where
  "listen_ok w \<longleftrightarrow> sl_listen (w_sl w) < w_brk w \<and> not_async (w_handles w (sl_listen (w_sl w)))"

text \<open>Everything but the conservation law.\<close>

definition sv_base :: "world \<Rightarrow> bool" where
  "sv_base w \<longleftrightarrow> heap_ok w \<and> sl_inited (w_sl w) \<and> conns_ok w \<and> listen_ok w \<and> sv_pool_ok (pool_of w)
     \<and> (\<forall>t k. bodies w t = Some k \<longrightarrow> server_body k) \<and> (\<forall>t \<in> snd ` set (w_writes w). bodies w t \<noteq> Some CLOSE)"

text \<open>The law, with the tasks \<open>Y\<close> that a callback has counted twice for the moment.\<close>

definition conserved :: "addr multiset \<Rightarrow> server \<Rightarrow> bool" where
  "conserved Y s \<longleftrightarrow> places s = mset_set (dom (w_tasks (fst s))) + Y
     \<and> (\<forall>t \<in># in_jobs (pool_of (fst s)) + in_hands (pool_of (fst s)) (snd s). resp_task (fst s) t)"

text \<open>A worker waiting in \<^verbatim>\<open>svr_work_cb\<close> has its job in hand.\<close>

definition busy_ok :: "server \<Rightarrow> bool" where
  "busy_ok s \<longleftrightarrow> (\<forall>i \<in> set (snd s). \<exists>p. pcs (pool_of (fst s)) i = W_Run p)"

definition sv_inv :: "server \<Rightarrow> bool" where
  "sv_inv s \<longleftrightarrow> sv_base (fst s) \<and> conserved {#} s \<and> busy_ok s"

section \<open>The law depends on a view of the state\<close>

lemma dom_bodies: "dom (bodies w) = dom (w_tasks w)"
  by (auto simp: bodies_def)

lemma resp_bodies: "resp_task w t \<longleftrightarrow> (\<exists>c d. bodies w t = Some (RESP c d))"
  by (auto simp: resp_task_def bodies_def)

lemma handle_task_spend:
  assumes "\<And>t. spend w' a t \<longleftrightarrow> spend w a t"
  shows "handle_task (w_handles w' a) = handle_task (w_handles w a)"
proof -
  have "handle_task (w_handles w a) = (if \<exists>t. spend w a t then {#THE t. spend w a t#} else {#})" for w
    by (auto simp: handle_task_def spend_def split: option.splits handle_kind.splits)
  with assms show ?thesis by presburger
qed

lemma spend_live: "spend w a t \<Longrightarrow> heap_ok w \<Longrightarrow> a < w_brk w"
  by (auto simp: spend_def heap_ok_def not_less intro: leI ccontr)

lemma in_async_upto:
  assumes "heap_ok w" "w_brk w \<le> n"
  shows "in_async w = (\<Sum>a < n. handle_task (w_handles w a))"
  unfolding in_async_def
  by (rule sum.mono_neutral_left) (use assms in \<open>auto simp: heap_ok_def handle_task_def not_less\<close>)

lemma in_async_eq:
  assumes "heap_ok w" "heap_ok w'" "spend w' = spend w"
  shows "in_async w' = in_async w"
  using assms in_async_upto [of w "max (w_brk w) (w_brk w')"] in_async_upto [of w' "max (w_brk w) (w_brk w')"]
    handle_task_spend [of w' _ w] by simp

lemma in_async_less:
  assumes "heap_ok w" "heap_ok w'" "spend w a t" "\<And>x s. spend w' x s \<longleftrightarrow> spend w x s \<and> x \<noteq> a"
  shows "in_async w = in_async w' + {#t#}"
proof -
  let ?n = "max (w_brk w) (w_brk w')"
  have "a < ?n" using spend_live [OF assms(3,1)] by simp
  moreover have "handle_task (w_handles w' j) = handle_task (w_handles w j)" if "j \<noteq> a" for j
    by (rule handle_task_spend) (simp add: assms(4) that)
  ultimately have "(\<Sum>j < ?n. handle_task (w_handles w' j)) + handle_task (w_handles w a)
      = (\<Sum>j < ?n. handle_task (w_handles w j)) + handle_task (w_handles w' a)" by (rule sum_change)
  moreover have "handle_task (w_handles w' a) = {#}"
    using assms(4) [of a] by (auto simp: handle_task_def spend_def split: option.splits handle_kind.splits)
  moreover have "handle_task (w_handles w a) = {#t#}" using assms(3) by (auto simp: handle_task_def spend_def)
  ultimately show ?thesis using in_async_upto [OF assms(1), of ?n] in_async_upto [OF assms(2), of ?n] by simp
qed

lemma dom_fin: "heap_ok w \<Longrightarrow> finite (dom (w_tasks w))"
  by (rule finite_subset [of _ "{..<w_brk w}"]) (auto simp: heap_ok_def not_less intro: leI ccontr)

text \<open>The law in terms of the view.\<close>

lemma conserved_iff:
  "conserved Y (w, b) \<longleftrightarrow>
     in_jobs (pool_of w) + in_hands (pool_of w) b + in_async w + in_writes w = mset_set (dom (bodies w)) + Y
   \<and> (\<forall>t \<in># in_jobs (pool_of w) + in_hands (pool_of w) b. \<exists>c d. bodies w t = Some (RESP c d))"
  by (simp add: conserved_def places_def dom_bodies resp_bodies)

lemma dom_new: "heap_ok w \<Longrightarrow> bodies w t = None \<Longrightarrow> mset_set (dom ((bodies w)(t \<mapsto> k))) = mset_set (dom (bodies w)) + {#t#}"
  using dom_fin [of w] by (simp add: dom_bodies [symmetric] domIff)

lemma dom_del: "heap_ok w \<Longrightarrow> bodies w t \<noteq> None \<Longrightarrow> mset_set (dom (bodies w)) = mset_set (dom ((bodies w)(t := None))) + {#t#}"
  using dom_fin [of w] by (simp add: dom_bodies [symmetric] domIff mset_set.remove)

text \<open>A task in an async handle or a write request is not a job.\<close>

lemma elsewhere:
  assumes "conserved {#} (w, b)" "heap_ok w" "t \<in># in_async w + in_writes w"
  shows "t \<notin># in_jobs (pool_of w) + in_hands (pool_of w) b" "t \<in> dom (w_tasks w)"
proof -
  let ?j = "in_jobs (pool_of w) + in_hands (pool_of w) b" and ?r = "in_async w + in_writes w"
  have e: "?j + ?r = mset_set (dom (bodies w))" using assms(1) by (simp add: conserved_iff ac_simps)
  have f: "finite (dom (bodies w))" using dom_fin [OF assms(2)] by (simp add: dom_bodies)
  have "count ?j t + count ?r t \<le> 1" by (simp flip: count_union add: e count_mset_set' del: count_union)
  moreover have "count ?r t > 0" using assms(3) by (simp only: count_greater_zero_iff)
  ultimately have "count ?j t = 0" by linarith
  then show "t \<notin># ?j" by (simp only: not_in_iff)
  have "t \<in># mset_set (dom (bodies w))" using assms(3) by (simp flip: e)
  then show "t \<in> dom (w_tasks w)" using f by (simp add: dom_bodies)
qed

text \<open>How the law follows the moves of a task.\<close>

lemma conserved_view:
  assumes "conserved Y (w, b)" "heap_ok w" "heap_ok w'"
    and "bodies w' = bodies w" "pool_of w' = pool_of w" "spend w' = spend w" "w_writes w' = w_writes w"
  shows "conserved Y (w', b)"
  using assms in_async_eq [OF assms(2,3,6)] by (simp add: conserved_iff in_writes_def)

lemma conserved_drop:
  assumes c: "conserved Y (w, b)" and h: "heap_ok w" "heap_ok w'" and t: "bodies w t \<noteq> None"
    and j: "t \<notin># in_jobs (pool_of w) + in_hands (pool_of w) b"
    and v: "bodies w' = (bodies w)(t := None)" "pool_of w' = pool_of w" "spend w' = spend w" "w_writes w' = w_writes w"
  shows "conserved (Y + {#t#}) (w', b)"
proof -
  have "mset_set (dom (bodies w)) = mset_set (dom (bodies w')) + {#t#}" using dom_del [OF h(1) t] by (simp add: v(1))
  with c j v in_async_eq [OF h v(3)] show ?thesis by (auto simp: conserved_iff in_writes_def)
qed

lemma conserved_write:
  assumes "conserved Y (w, b)" "heap_ok w" "heap_ok w'"
    and "bodies w' = bodies w" "pool_of w' = pool_of w" "spend w' = spend w" "w_writes w' = w_writes w @ [(conn, t)]"
  shows "conserved (Y + {#t#}) (w', b)"
  using assms in_async_eq [OF assms(2,3,6)] by (simp add: conserved_iff in_writes_def)

lemma conserved_written:
  assumes c: "conserved {#} (w, b)" and h: "heap_ok w" "heap_ok w'" and t: "(conn, t) \<in> set (w_writes w)"
    and v: "bodies w' = (bodies w)(t := None)" "pool_of w' = pool_of w" "spend w' = spend w" "w_writes w' = remove1 (conn, t) (w_writes w)"
  shows "conserved {#} (w', b)"
proof -
  have "mset (w_writes w) = add_mset (conn, t) (mset (w_writes w'))" using t by (simp add: v(4))
  then have m: "in_writes w = in_writes w' + {#t#}" by (simp add: in_writes_def)
  then have e: "t \<in># in_async w + in_writes w" by simp
  note el = elsewhere [OF c h(1) e]
  have "bodies w t \<noteq> None" using el(2) by (simp add: dom_bodies [symmetric] domIff)
  from dom_del [OF h(1) this] have "mset_set (dom (bodies w)) = mset_set (dom (bodies w')) + {#t#}" by (simp add: v(1))
  with c el(1) v m in_async_eq [OF h v(3)] show ?thesis by (auto simp: conserved_iff)
qed

lemma conserved_ran:
  assumes "conserved (Y + {#t#}) (w, b)" "heap_ok w" "heap_ok w'" "spend w a t"
    and "bodies w' = bodies w" "pool_of w' = pool_of w" "\<And>x s. spend w' x s \<longleftrightarrow> spend w x s \<and> x \<noteq> a" "w_writes w' = w_writes w"
  shows "conserved Y (w', b)"
  using assms in_async_less [OF assms(2-4,7)] by (simp add: conserved_iff in_writes_def)

lemma not_job: "conserved Y (w, b) \<Longrightarrow> bodies w t = None \<Longrightarrow> t \<notin># in_jobs (pool_of w) + in_hands (pool_of w) b"
  unfolding conserved_iff by (metis option.distinct(1))

lemma conserved_submit:
  assumes c: "conserved Y (w, b)" and h: "heap_ok w" "heap_ok w'" and t: "bodies w t = None" "\<not> (\<exists>s. spend w a s)"
    and v: "bodies w' = (bodies w)(t \<mapsto> k)" "pool_of w' = pool_of w" "\<And>x s. spend w' x s \<longleftrightarrow> spend w x s \<or> x = a \<and> s = t" "w_writes w' = w_writes w"
  shows "conserved Y (w', b)"
proof -
  have "in_async w' = in_async w + {#t#}" by (rule in_async_less [OF h(2,1)]) (use t(2) v(3) in auto)
  moreover have "mset_set (dom (bodies w')) = mset_set (dom (bodies w)) + {#t#}" using dom_new [OF h(1) t(1)] by (simp add: v(1))
  ultimately show ?thesis using c v not_job [OF c t(1)] by (auto simp: conserved_iff in_writes_def)
qed

lemma conserved_new_write:
  assumes c: "conserved Y (w, b)" and h: "heap_ok w" "heap_ok w'" and t: "bodies w t = None"
    and v: "bodies w' = (bodies w)(t \<mapsto> k)" "pool_of w' = pool_of w" "spend w' = spend w" "w_writes w' = w_writes w @ [(conn, t)]"
  shows "conserved Y (w', b)"
proof -
  have "mset_set (dom (bodies w')) = mset_set (dom (bodies w)) + {#t#}" using dom_new [OF h(1) t(1)] by (simp add: v(1))
  with c v not_job [OF c t(1)] in_async_eq [OF h v(3)] show ?thesis by (auto simp: conserved_iff in_writes_def)
qed

lemma in_hands_pcs:
  "(\<And>i. i \<notin> set b \<Longrightarrow> worker_task (ps i) = worker_task (pcs s i)) \<Longrightarrow> in_hands (s\<lparr>queue := q, store := m, pcs := ps\<rparr>) b = in_hands s b"
  by (auto simp: in_hands_def intro: sum.cong)

lemma worker_task_broadcast [simp]: "worker_task (broadcast ps i) = worker_task (ps i)"
  by (simp add: broadcast_def)

lemma conserved_job:
  assumes c: "conserved Y (w, b)" and h: "heap_ok w" "heap_ok w'" and t: "bodies w t = None"
    and v: "bodies w' = (bodies w)(t \<mapsto> RESP k d)" "in_jobs (pool_of w') = in_jobs (pool_of w) + {#t#}"
      "in_hands (pool_of w') b = in_hands (pool_of w) b" "spend w' = spend w" "w_writes w' = w_writes w"
  shows "conserved Y (w', b)"
proof -
  have "mset_set (dom (bodies w')) = mset_set (dom (bodies w)) + {#t#}" using dom_new [OF h(1) t(1)] by (simp add: v(1))
  with c v t(1) in_async_eq [OF h v(4)] show ?thesis by (auto simp: conserved_iff in_writes_def)
qed

section \<open>Operations that move no task\<close>

definition skeeps :: "world \<Rightarrow> world \<Rightarrow> bool" where
  "skeeps w w' \<longleftrightarrow> (sv_base w \<longrightarrow> sv_base w' \<and> bodies w' = bodies w \<and> pool_of w' = pool_of w \<and> spend w' = spend w
     \<and> w_writes w' = w_writes w \<and> w_brk w \<le> w_brk w')"

lemma skeeps_refl [simp, intro]: "skeeps w w"
  by (simp add: skeeps_def)

lemma skeeps_trans [trans]: "skeeps w w' \<Longrightarrow> skeeps w' w'' \<Longrightarrow> skeeps w w''"
  by (auto simp: skeeps_def)

lemma skeepsD:
  "skeeps w w' \<Longrightarrow> sv_base w \<Longrightarrow> sv_base w'"
  "skeeps w w' \<Longrightarrow> sv_base w \<Longrightarrow> bodies w' = bodies w"
  "skeeps w w' \<Longrightarrow> sv_base w \<Longrightarrow> pool_of w' = pool_of w"
  "skeeps w w' \<Longrightarrow> sv_base w \<Longrightarrow> spend w' = spend w"
  "skeeps w w' \<Longrightarrow> sv_base w \<Longrightarrow> w_writes w' = w_writes w"
  by (simp_all add: skeeps_def)

lemma base_heap: "sv_base w \<Longrightarrow> heap_ok w"
  by (simp add: sv_base_def)

lemma skeeps_conserved: "skeeps w w' \<Longrightarrow> sv_base w \<Longrightarrow> conserved Y (w, b) \<Longrightarrow> conserved Y (w', b)"
  by (rule conserved_view) (simp_all add: skeepsD base_heap)

lemma skeepsI:
  assumes "sv_base w \<Longrightarrow> heap_ok w' \<and> conns_ok w' \<and> listen_ok w' \<and> bodies w' = bodies w \<and> spend w' = spend w \<and> w_brk w \<le> w_brk w'"
    and "pool_of w' = pool_of w" "sl_inited (w_sl w') = sl_inited (w_sl w)" "w_writes w' = w_writes w"
  shows "skeeps w w'"
  using assms by (auto simp: skeeps_def sv_base_def)

text \<open>A handle that is not async changes; if it is in the table it stays the connection it was.\<close>

definition conn_of :: "u16 \<Rightarrow> handle option \<Rightarrow> bool" where
  "conn_of k h \<longleftrightarrow> (\<exists>h' c. h = Some h' \<and> h_loop h' = SERVER_LOOP \<and> h_kind h' = UV_TCP (Some c) \<and> tc_connId c = k
     \<and> tcp_kind (tc_tcp c) = TCP_CLIENT)"

lemma conns_iff: "conns_ok w \<longleftrightarrow> smap_ok (sl_connTable (w_sl w)) \<and> (\<forall>(k, a) \<in> set (sl_connTable (w_sl w)). conn_of k (w_handles w a))"
  by (simp add: conns_ok_def conn_of_def)

lemma conn_not_async: "conn_of k h \<Longrightarrow> not_async h"
  by (auto simp: conn_of_def not_async_def)

lemma skeeps_set_handle:
  assumes "a < w_brk w" "not_async (w_handles w a)" "not_async h" "\<And>k. (k, a) \<in> set (sl_connTable (w_sl w)) \<Longrightarrow> conn_of k h"
  shows "skeeps w (set_handle a h w)"
proof (rule skeepsI)
  assume b: "sv_base w"
  have "heap_ok (set_handle a h w)" using assms(1) base_heap [OF b] by (auto simp: heap_ok_def set_handle_def notified_def)
  moreover have "conns_ok (set_handle a h w)" using b assms(4) by (fastforce simp: sv_base_def conns_iff set_handle_def)
  moreover have "spend (set_handle a h w) = spend w"
    using assms(2,3) by (intro ext) (auto simp: spend_def set_handle_def not_async_def)
  moreover have "listen_ok (set_handle a h w)" using b assms(3) by (simp add: sv_base_def listen_ok_def set_handle_def)
  ultimately show "heap_ok (set_handle a h w) \<and> conns_ok (set_handle a h w) \<and> listen_ok (set_handle a h w) \<and> bodies (set_handle a h w) = bodies w
    \<and> spend (set_handle a h w) = spend w \<and> w_brk w \<le> w_brk (set_handle a h w)"
    by (auto simp: set_handle_def bodies_def)
qed (simp_all add: set_handle_def)

lemma skeeps_new_handle:
  assumes "not_async (Some h)" "new_handle h w = (a, w')"
  shows "skeeps w w'"
proof (rule skeepsI)
  assume b: "sv_base w"
  have w': "w' = set_handle (w_brk w) (Some h) (w\<lparr>w_brk := Suc (w_brk w)\<rparr>)" using assms(2) by (auto simp: new_handle_def)
  have "w_handles w (w_brk w) = None" using base_heap [OF b] by (simp add: heap_ok_def)
  then have "spend w' = spend w" using assms(1) by (intro ext) (auto simp: w' spend_def set_handle_def not_async_def)
  moreover have "(k, a) \<in> set (sl_connTable (w_sl w)) \<Longrightarrow> a \<noteq> w_brk w" for k a
    using b \<open>w_handles w (w_brk w) = None\<close> by (auto simp: sv_base_def conns_ok_def)
  ultimately show "heap_ok w' \<and> conns_ok w' \<and> listen_ok w' \<and> bodies w' = bodies w \<and> spend w' = spend w \<and> w_brk w \<le> w_brk w'"
    using b by (auto simp: w' sv_base_def heap_ok_def set_handle_def notified_def conns_ok_def listen_ok_def bodies_def)
qed (use assms(2) in \<open>auto simp: new_handle_def set_handle_def\<close>)

lemma skeeps_set_err: "set_err t e w = Some w' \<Longrightarrow> skeeps w w'"
  by (rule skeepsI) (auto simp: set_err_def set_task_def sv_base_def heap_ok_def notified_def conns_ok_def listen_ok_def bodies_def spend_def
      Option.bind_eq_Some_conv fun_eq_iff)

lemma skeeps_conn_del: "skeeps w (snd (sl_conn_del k w))"
  by (rule skeepsI) (auto simp: sl_conn_del_def put_sl_conns_def sv_base_def heap_ok_def notified_def conns_ok_def listen_ok_def bodies_def spend_def
      smap_erase_def fun_eq_iff split: option.splits)

text \<open>The operations on connections.\<close>

lemma live_lt: "heap_ok w \<Longrightarrow> w_handles w a \<noteq> None \<Longrightarrow> a < w_brk w"
  by (meson heap_ok_def linorder_not_less)

lemma skeeps_same_conn:
  assumes b: "sv_base w" and a: "w_handles w a = Some h" "h_kind h = UV_TCP c"
    and h': "h_loop h' = h_loop h" "h_kind h' = UV_TCP c'" "map_option (\<lambda>c. (tc_connId c, tcp_kind (tc_tcp c))) c' = map_option (\<lambda>c. (tc_connId c, tcp_kind (tc_tcp c))) c"
  shows "skeeps w (set_handle a (Some h') w)"
proof (rule skeeps_set_handle)
  show "a < w_brk w" using live_lt [OF base_heap [OF b]] a by simp
  show "not_async (w_handles w a)" "not_async (Some h')" using a h' by (auto simp: not_async_def)
  fix k assume "(k, a) \<in> set (sl_connTable (w_sl w))"
  then have "conn_of k (w_handles w a)" using b by (auto simp: sv_base_def conns_iff)
  then show "conn_of k (Some h')" using a h' by (auto simp: conn_of_def)
qed

lemma skeeps_same_kind:
  assumes b: "sv_base w" and a: "w_handles w a = Some h" "not_async (Some h)" and h': "h_loop h' = h_loop h" "h_kind h' = h_kind h"
  shows "skeeps w (set_handle a (Some h') w)"
proof (rule skeeps_set_handle)
  show "a < w_brk w" using live_lt [OF base_heap [OF b]] a by simp
  show "not_async (w_handles w a)" "not_async (Some h')" using a h' by (auto simp: not_async_def)
  fix k assume "(k, a) \<in> set (sl_connTable (w_sl w))"
  then have "conn_of k (w_handles w a)" using b by (auto simp: sv_base_def conns_iff)
  then show "conn_of k (Some h')" using a h' by (auto simp: conn_of_def)
qed

definition tcp_at :: "world \<Rightarrow> addr \<Rightarrow> bool" where
  "tcp_at w a \<longleftrightarrow> (\<exists>h. w_handles w a = Some h \<and> not_async (Some h))"

lemma conn_tcp_at: "get_conn a w = Some c \<Longrightarrow> tcp_at w a"
  by (auto simp: get_conn_iff tcp_at_def not_async_def)

lemma table_tcp_at: "sv_base w \<Longrightarrow> a \<in> snd ` set (sl_connTable (w_sl w)) \<Longrightarrow> tcp_at w a"
  by (force simp: sv_base_def conns_ok_def tcp_at_def not_async_def)

lemma skeeps_deactivate: "sv_base w \<Longrightarrow> tcp_at w a \<Longrightarrow> deactivate a w = Some w' \<Longrightarrow> skeeps w w'"
  by (auto simp: deactivate_def tcp_at_def intro!: skeeps_same_kind)

lemma skeeps_activate: "sv_base w \<Longrightarrow> tcp_at w a \<Longrightarrow> activate a w = Some w' \<Longrightarrow> skeeps w w'"
  by (auto simp: activate_def tcp_at_def intro!: skeeps_same_kind)

lemma skeeps_uv_close: "sv_base w \<Longrightarrow> tcp_at w a \<Longrightarrow> safe_uv_close (Some a) w = Some w' \<Longrightarrow> skeeps w w'"
  by (auto simp: safe_uv_close_def tcp_at_def split: if_splits intro!: skeeps_same_kind)

lemma skeeps_set_conn:
  "sv_base w \<Longrightarrow> get_conn a w = Some c \<Longrightarrow> tc_connId c' = tc_connId c \<Longrightarrow> tcp_kind (tc_tcp c') = tcp_kind (tc_tcp c)
   \<Longrightarrow> set_conn a c' w = Some w' \<Longrightarrow> skeeps w w'"
  by (auto simp: set_conn_def get_conn_iff intro!: skeeps_same_conn)

lemma tcp_at_kept:
  "deactivate a w = Some w' \<Longrightarrow> tcp_at w' x \<longleftrightarrow> tcp_at w x"
  "activate a w = Some w' \<Longrightarrow> tcp_at w' x \<longleftrightarrow> tcp_at w x"
  "safe_uv_close (Some a) w = Some w' \<Longrightarrow> tcp_at w' x \<longleftrightarrow> tcp_at w x"
  by (auto simp: deactivate_def activate_def safe_uv_close_def tcp_at_def not_async_def set_handle_def Option.bind_eq_Some_conv split: if_splits)

lemma get_conn_kept:
  "deactivate a w = Some w' \<Longrightarrow> get_conn x w' = get_conn x w"
  "safe_uv_close (Some a) w = Some w' \<Longrightarrow> get_conn x w' = get_conn x w"
  by (auto simp: deactivate_def safe_uv_close_def get_conn_def set_handle_def Option.bind_eq_Some_conv split: if_splits)

lemma skeeps_each:
  assumes f: "\<And>a v v'. f a v = Some v' \<Longrightarrow> sv_base v \<Longrightarrow> tcp_at v a \<Longrightarrow> skeeps v v' \<and> (\<forall>x. tcp_at v' x \<longleftrightarrow> tcp_at v x)"
  shows "each_addr f as w = Some w' \<Longrightarrow> sv_base w \<Longrightarrow> \<forall>a \<in> set as. tcp_at w a \<Longrightarrow> skeeps w w' \<and> (\<forall>x. tcp_at w' x \<longleftrightarrow> tcp_at w x)"
proof (induction as arbitrary: w)
  case (Cons a as)
  then obtain w1 where w1: "f a w = Some w1" "each_addr f as w1 = Some w'" by (auto simp: Option.bind_eq_Some_conv)
  have k: "skeeps w w1" "\<forall>x. tcp_at w1 x \<longleftrightarrow> tcp_at w x" using f [OF w1(1)] Cons.prems by auto
  with Cons.IH [OF w1(2)] Cons.prems show ?case by (metis list.set_intros(2) skeepsD(1) skeeps_trans)
qed simp

lemma close_cb_server:
  assumes b: "sv_base w" and h: "w_handles w a = Some h" "h_loop h = SERVER_LOOP" "h_closing h"
    and c: "close_cb a w = Some w'"
  shows "skeeps w w'"
proof -
  define w1 where "w1 = (case h_kind h of UV_TCP (Some c) \<Rightarrow> if tcp_kind (tc_tcp c) = TCP_CLIENT then snd (sl_conn_del (tc_connId c) w) else w | _ \<Rightarrow> w)"
  have w': "w' = set_handle a None w1"
    using c h by (auto simp: close_cb_def w1_def split: handle_kind.splits option.splits)
  have k: "skeeps w w1" by (auto simp: w1_def skeeps_conn_del split: handle_kind.splits option.splits)
  note b1 = skeepsD(1) [OF k b]
  have f: "w_handles w1 = w_handles w" "w_brk w1 = w_brk w"
    by (auto simp: w1_def sl_conn_del_def put_sl_conns_def split: handle_kind.splits option.splits)
  have "heap_ok w'" using base_heap [OF b1] by (auto simp: w' heap_ok_def set_handle_def notified_def)
  moreover have "(k, a) \<notin> set (sl_connTable (w_sl w1))" for k
  proof
    assume k: "(k, a) \<in> set (sl_connTable (w_sl w1))"
    with b1 obtain c where c: "h_kind h = UV_TCP (Some c)" "tc_connId c = k" "tcp_kind (tc_tcp c) = TCP_CLIENT"
      using h f by (force simp: sv_base_def conns_ok_def)
    then have "sl_connTable (w_sl w1) = smap_erase k (sl_connTable (w_sl w))"
      by (auto simp: w1_def sl_conn_del_def put_sl_conns_def smap_erase_absent split: option.splits)
    with k show False by (simp add: smap_erase_def)
  qed
  then have "conns_ok w'" using b1 by (fastforce simp: w' sv_base_def conns_iff set_handle_def)
  moreover have "listen_ok w'" using b1 by (auto simp: w' sv_base_def listen_ok_def set_handle_def not_async_def)
  moreover have "spend w' = spend w1" using h f by (intro ext) (auto simp: w' spend_def set_handle_def)
  ultimately have "skeeps w1 w'" by (intro skeepsI) (auto simp: w' set_handle_def bodies_def fun_eq_iff)
  with k show ?thesis by (rule skeeps_trans)
qed

lemma in_smap_put: "smap_ok m \<Longrightarrow> (k', v') \<in> set (smap_put k v m) \<Longrightarrow> k' = k \<and> v' = v \<or> (k', v') \<in> set m"
  by (auto simp flip: smap_find_in_iff simp: smap_find_put split: if_splits)

lemma skeeps_conn_add:
  assumes b: "sv_base w" and a: "w_handles w a = Some h" "h_loop h = SERVER_LOOP" "h_kind h = UV_TCP (Some c)" "tcp_kind (tc_tcp c) = TCP_CLIENT"
    and t: "a \<notin> snd ` set (sl_connTable (w_sl w))" and r: "sl_conn_add k a w = Some (r, w')"
  shows "skeeps w w'"
proof (cases "smap_find (sl_connTable (w_sl w)) k")
  case None
  define w1 where "w1 = set_handle a (Some (h\<lparr>h_kind := UV_TCP (Some (c\<lparr>tc_connId := k\<rparr>))\<rparr>)) w"
  have w': "w' = put_sl_conns (smap_put k a (sl_connTable (w_sl w))) w1"
    using r None a by (auto simp: sl_conn_add_def get_conn_def set_conn_def w1_def)
  have k: "skeeps w w1" unfolding w1_def
    by (rule skeeps_set_handle) (use a t live_lt [OF base_heap [OF b]] in \<open>auto simp: not_async_def image_def\<close>)
  note b1 = skeepsD(1) [OF k b]
  have "conn_of k (w_handles w1 a)" using a by (simp add: w1_def set_handle_def conn_of_def)
  moreover have "sl_connTable (w_sl w1) = sl_connTable (w_sl w)" by (simp add: w1_def set_handle_def)
  ultimately have "conns_ok w'" using b1 unfolding w' sv_base_def conns_iff put_sl_conns_def by (auto dest: in_smap_put)
  then have "skeeps w1 w'" using b1
    by (intro skeepsI) (auto simp: w' put_sl_conns_def bodies_def spend_def sv_base_def heap_ok_def listen_ok_def notified_def fun_eq_iff)
  with k show ?thesis by (rule skeeps_trans)
next
  case (Some x)
  then show ?thesis using r by (simp add: sl_conn_add_def)
qed

lemma skeeps_gen: "skeeps w (w\<lparr>w_svr_gen := g\<rparr>)"
  by (rule skeepsI) (auto simp: sv_base_def heap_ok_def notified_def conns_ok_def listen_ok_def bodies_def spend_def fun_eq_iff)

lemma listen_cb_server:
  assumes b: "sv_base w" and l: "listen_cb status i w = Some w'"
  shows "skeeps w w'"
proof (cases "status = 0")
  case True
  let ?c = "\<lparr>tc_connId = 0, tc_tcp = fresh_tcp, tc_ip = '''', tc_port = 0\<rparr>"
  let ?h = "\<lparr>h_loop = SERVER_LOOP, h_kind = UV_TCP (Some ?c), h_closing = False, h_active = False\<rparr>"
  define a where "a = w_brk w"
  define w1 where "w1 = set_handle a (Some ?h) (w\<lparr>w_brk := Suc a\<rparr>)"
  have n: "new_handle ?h w = (a, w1)" by (simp add: new_handle_def w1_def a_def)
  have i: "init_tcp_conn SERVER_LOOP r a w1 = Some (r, w1)" for r
    by (simp add: init_tcp_conn_def w1_def get_conn_def set_handle_def)
  have k1: "skeeps w w1" by (rule skeeps_new_handle [OF _ n]) (simp add: not_async_def)
  note b1 = skeepsD(1) [OF k1 b]
  have f: "a \<notin> snd ` set (sl_connTable (w_sl w))"
    using b base_heap [OF b] by (force simp: sv_base_def conns_ok_def heap_ok_def a_def)
  show ?thesis
  proof (cases "io_init i = 0")
    case True
    let ?c' = "?c\<lparr>tc_ip := io_ip i, tc_port := -1\<rparr>"
    define w3 where "w3 = set_handle a (Some (?h\<lparr>h_kind := UV_TCP (Some ?c')\<rparr>)) w1"
    define k g where "k = fst (GenConnID_applyId (w_svr_gen w3))" and "g = snd (GenConnID_applyId (w_svr_gen w3))"
    have gen: "GenConnID_applyId (w_svr_gen w3) = (k, g)" by (simp add: k_def g_def)
    have s: "set_conn a ?c' w1 = Some w3" by (simp add: set_conn_def w1_def w3_def set_handle_def)
    have c: "get_conn a w1 = Some ?c" by (simp add: get_conn_def w1_def set_handle_def)
    from l \<open>status = 0\<close> True obtain r w4 where w4: "sl_conn_add k a (w3\<lparr>w_svr_gen := g\<rparr>) = Some (r, w4)" "activate a w4 = Some w'"
      using n i s c gen by (auto simp: listen_cb_def Option.bind_eq_Some_conv split: if_splits)
    have k3: "skeeps w1 w3" unfolding w3_def
      by (rule skeeps_same_conn [OF b1, of _ ?h "Some ?c" _ "Some ?c'"]) (simp_all add: w1_def set_handle_def)
    have k3: "skeeps w1 (w3\<lparr>w_svr_gen := g\<rparr>)" using k3 skeeps_gen by (rule skeeps_trans)
    note b3 = skeepsD(1) [OF k3 b1]
    have k4: "skeeps (w3\<lparr>w_svr_gen := g\<rparr>) w4"
      by (rule skeeps_conn_add [OF b3 _ _ _ _ _ w4(1), of "?h\<lparr>h_kind := UV_TCP (Some ?c')\<rparr>" ?c']) (use f in \<open>simp_all add: w3_def w1_def set_handle_def fresh_tcp_def\<close>)
    have "tcp_at w4 a"
      using w4(1) by (auto simp: sl_conn_add_def set_conn_def put_sl_conns_def tcp_at_def not_async_def w3_def set_handle_def get_conn_iff
          Option.bind_eq_Some_conv split: option.splits)
    from skeeps_activate [OF skeepsD(1) [OF k4 b3] this w4(2)] show ?thesis using k1 k3 k4 skeeps_trans by blast
  next
    case False
    then have w': "w' = set_handle a None w1" using l \<open>status = 0\<close> n i by (simp add: listen_cb_def)
    have "skeeps w1 w'" unfolding w'
      by (rule skeeps_set_handle) (use f in \<open>auto simp: w1_def set_handle_def not_async_def image_def\<close>)
    with k1 show ?thesis by (rule skeeps_trans)
  qed
qed (use l in \<open>simp add: listen_cb_def\<close>)

section \<open>Reading\<close>

text \<open>The retry loop of \<^verbatim>\<open>_server_handler_req\<close> tests an \<^verbatim>\<open>err\<close> it never assigns: once entered it does not end.\<close>

lemma retry_push_ends: "retry_push err task p = Some p' \<Longrightarrow> err \<noteq> -1 \<and> p' = p"
  by (rule retry_push.raw_induct [where P = "\<lambda>err task p p'. err \<noteq> -1 \<and> p' = p"])
    (auto simp: Option.bind_eq_Some_conv split: if_splits)

lemma retry_push_stuck: "retry_push (-1) task p = None"
  using retry_push_ends [of "-1"] by (cases "retry_push (-1) task p") auto

lemma retry_push_pass: "err \<noteq> -1 \<Longrightarrow> retry_push err task p = Some p"
  by (simp add: retry_push.simps)

definition resp_of :: "u16 \<Rightarrow> u64 \<Rightarrow> byte list \<Rightarrow> abs_task" where
  "resp_of connId taskId dat = \<lparr>t_err = 0, t_errmsg = [], t_taskId = taskId, t_body = RESP connId dat, t_outdata = []\<rparr>"

text \<open>A request that is accepted becomes a task and a job.\<close>

definition queued :: "u16 \<Rightarrow> u64 \<Rightarrow> byte list \<Rightarrow> pool \<Rightarrow> world \<Rightarrow> world" where
  "queued connId taskId dat p w = w\<lparr>w_tasks := (w_tasks w)(w_brk w \<mapsto> resp_of connId taskId dat), w_brk := Suc (w_brk w),
     w_sl := w_sl w\<lparr>sl_pool := p\<rparr>\<rparr>"

lemma handler_req:
  assumes "sv_pool_ok (pool_of w)"
  shows "server_handler_req connId taskId dat w =
    (if length (jobs (pool_of w)) \<le> 64
     then map_option (\<lambda>(r, p). queued connId taskId dat p w) (threadpool_push_work (of_nat (w_brk w)) SVR_WORK_CB 0 (pool_of w))
     else None)"
proof -
  from assms have ok: "jobs_ok (queue (pool_of w), store (pool_of w))" by (simp add: sv_pool_ok_def pool_ok_def)
  show ?thesis
  proof (cases "length (jobs (pool_of w)) \<le> 64")
    case True
    then obtain p where "threadpool_push_work (of_nat (w_brk w)) SVR_WORK_CB 0 (pool_of w) = Some (0, p)"
      using push_room [OF ok True] by blast
    then show ?thesis using True
      by (simp add: server_handler_req_def new_task_def set_task_def queued_def resp_of_def retry_push_pass)
  next
    case False
    then show ?thesis using push_full [OF ok, of "of_nat (w_brk w)" SVR_WORK_CB 0]
      by (simp add: server_handler_req_def new_task_def set_task_def retry_push_stuck)
  qed
qed

text \<open>The pool after a push: the job is last in the queue, the hands of the workers are as before.\<close>

lemma push_sv_pool:
  assumes ok: "sv_pool_ok s" and l: "length (jobs s) \<le> 64"
  obtains s' where "threadpool_push_work d SVR_WORK_CB 0 s = Some (0, s')" "sv_pool_ok s'"
    "jobs s' = jobs s @ [\<lparr>tp_data = d, tp_proc = SVR_WORK_CB, tp_after = 0\<rparr>]" "pcs s' = broadcast (pcs s)" "thread_num s' = thread_num s"
    "exit_sem s' = exit_sem s"
proof -
  from ok have j: "jobs_ok (queue s, store s)" by (simp add: sv_pool_ok_def pool_ok_def)
  obtain q m where q: "threadpool_push_work d SVR_WORK_CB 0 s = Some (0, s\<lparr>queue := q, store := m, pcs := broadcast (pcs s)\<rparr>)"
    "jobs_ok (q, m)" "map dec_param (contents (q, m)) = jobs s @ [\<lparr>tp_data = d, tp_proc = SVR_WORK_CB, tp_after = 0\<rparr>]"
    using push_room [OF j l] by blast
  let ?s = "s\<lparr>queue := q, store := m, pcs := broadcast (pcs s)\<rparr>"
  have "jobs ?s = jobs s @ [\<lparr>tp_data = d, tp_proc = SVR_WORK_CB, tp_after = 0\<rparr>]" by (simp add: q(3))
  moreover from this have "sv_pool_ok ?s" using ok q(2) l
    by (auto simp: sv_pool_ok_def pool_ok_def broadcast_def split: if_splits simp del: jobs_upd)
  ultimately show ?thesis using that [OF q(1)] by simp
qed

lemma queued_view:
  assumes b: "sv_base w" and c: "conserved Y (w, b)" and lim: "w_brk w < 2 ^ 64"
    and r: "server_handler_req connId taskId dat w = Some w'"
  shows "sv_base w'" "conserved Y (w', b)" "pcs (pool_of w') = broadcast (pcs (pool_of w))" "w_brk w' = Suc (w_brk w)"
    "sl_connTable (w_sl w') = sl_connTable (w_sl w)"
proof -
  let ?t = "w_brk w"
  from b have ok: "sv_pool_ok (pool_of w)" by (simp add: sv_base_def)
  with r have l: "length (jobs (pool_of w)) \<le> 64" by (simp add: handler_req split: if_splits)
  obtain p where p: "threadpool_push_work (of_nat ?t) SVR_WORK_CB 0 (pool_of w) = Some (0, p)" "sv_pool_ok p"
    "jobs p = jobs (pool_of w) @ [\<lparr>tp_data = of_nat ?t, tp_proc = SVR_WORK_CB, tp_after = 0\<rparr>]"
    "pcs p = broadcast (pcs (pool_of w))" "thread_num p = thread_num (pool_of w)"
    using push_sv_pool [OF ok l] by blast
  have w': "w' = queued connId taskId dat p w" using r l p(1) by (simp add: handler_req [OF ok])
  have h: "heap_ok w" "bodies w ?t = None" "?t \<notin> snd ` set (w_writes w) \<or> bodies w ?t = None"
    using base_heap [OF b] by (simp_all add: heap_ok_def bodies_def)
  have h': "heap_ok w'" using h(1) by (auto simp: w' queued_def heap_ok_def notified_def)
  have v: "bodies w' = (bodies w)(?t \<mapsto> RESP connId dat)" "spend w' = spend w" "w_writes w' = w_writes w" "pool_of w' = p"
    by (auto simp: w' queued_def bodies_def resp_of_def spend_def fun_eq_iff)
  have "conns_ok w'" "listen_ok w'" using b by (simp_all add: sv_base_def conns_ok_def listen_ok_def w' queued_def)
  then show "sv_base w'" using b h' p(2) v by (auto simp: sv_base_def server_body_def w' queued_def)
  have "unat (of_nat ?t :: u64) = ?t" using lim by (simp add: unsigned_of_nat take_bit_nat_eq_self)
  then have j: "in_jobs (pool_of w') = in_jobs (pool_of w) + {#?t#}" by (simp add: in_jobs_def v(4) p(3) job_task_def)
  have "in_hands (pool_of w') b = in_hands (pool_of w) b" by (simp add: in_hands_def v(4) p(4,5) cong: if_cong)
  from conserved_job [OF c h(1) h' h(2) v(1) j this v(2,3)] show "conserved Y (w', b)" .
  show "pcs (pool_of w') = broadcast (pcs (pool_of w))" "w_brk w' = Suc (w_brk w)" "sl_connTable (w_sl w') = sl_connTable (w_sl w)"
    using p(4) by (simp_all add: w' queued_def)
qed

lemma busy_broadcast: "(\<exists>p. broadcast ps i = W_Run p) \<longleftrightarrow> (\<exists>p. ps i = W_Run p)"
  by (auto simp: broadcast_def)

lemma pkgs_inv:
  assumes "each_pkg (server_pkg k) ps w = Some w'" "sv_inv (w, b)" "w_brk w' \<le> 2 ^ 64"
  shows "sv_inv (w', b) \<and> w_brk w \<le> w_brk w'"
  using assms
proof (induction ps arbitrary: w)
  case (Cons p ps)
  then obtain w1 where w1: "server_pkg k p w = Some w1" "each_pkg (server_pkg k) ps w1 = Some w'" by (auto simp: Option.bind_eq_Some_conv)
  have mono: "w_brk v \<le> w_brk v'" if "each_pkg (server_pkg k) qs v = Some v'" for qs v v'
    using that
    by (induction qs arbitrary: v)
      (fastforce simp: Option.bind_eq_Some_conv server_pkg_def server_handler_req_def new_task_def set_task_def split: if_splits)+
  show ?case
  proof (cases "pkg_type p = PKG_TYPE_COMMON")
    case True
    then have r: "server_handler_req k (pkg_taskId p) (pkg_data p) w = Some w1" using w1(1) by (simp add: server_pkg_def)
    have b1: "w_brk w1 = Suc (w_brk w)"
      using r by (auto simp: server_handler_req_def new_task_def set_task_def Option.bind_eq_Some_conv)
    then have lim: "w_brk w < 2 ^ 64" using mono [OF w1(2)] Cons.prems(3) by simp
    from Cons.prems(2) have "sv_base w" "conserved {#} (w, b)" "busy_ok (w, b)" by (simp_all add: sv_inv_def)
    with queued_view [OF this(1,2) lim r] have "sv_inv (w1, b)" by (simp add: sv_inv_def busy_ok_def busy_broadcast)
    from Cons.IH [OF w1(2) this Cons.prems(3)] b1 show ?thesis by simp
  next
    case False
    then have "w1 = w" using w1(1) by (simp add: server_pkg_def split: if_splits)
    with Cons.IH [OF w1(2)] Cons.prems show ?thesis by simp
  qed
qed simp

lemma skeeps_inv:
  assumes "skeeps w w'" "sv_inv (w, b)"
  shows "sv_inv (w', b)"
proof -
  have b: "sv_base w" and c: "conserved {#} (w, b)" and o: "busy_ok (w, b)" using assms(2) by (simp_all add: sv_inv_def)
  show ?thesis
    using skeepsD(1,3) [OF assms(1) b] skeeps_conserved [OF assms(1) b c] o by (simp add: sv_inv_def busy_ok_def)
qed

lemma store_kind: "store_rest t arr cursor remain = Some t' \<Longrightarrow> tcp_kind t' = tcp_kind t"
  unfolding store_rest_def Let_def by (cases "maxlength t < remain") (auto simp: Option.bind_eq_Some_conv split: if_splits)

lemma parse_kind: "read_content_parse t sz content = Some (t', ps) \<Longrightarrow> tcp_kind t' = tcp_kind t"
  unfolding read_content_parse_def Option.bind_eq_Some_conv by (auto dest!: store_kind simp: Option.bind_eq_Some_conv)

lemma read_cb_server:
  assumes inv: "sv_inv (w, b)" and h: "w_handles w a = Some h" "h_loop h = SERVER_LOOP" "h_kind h = UV_TCP (Some c)"
    and r: "read_cb a nread buf w = Some w'" and lim: "w_brk w' \<le> 2 ^ 64"
  shows "sv_inv (w', b)"
proof -
  have b: "sv_base w" using inv by (simp add: sv_inv_def)
  have g: "get_conn a w = Some c" using h by (simp add: get_conn_def)
  consider "nread = 0" | "nread < 0" | "nread > 0" by linarith
  then show ?thesis
  proof cases
    case 2
    with r obtain w1 w2 where w1: "deactivate a w = Some w1" "safe_uv_close (Some a) w1 = Some w2"
      and w': "w' = snd (sl_conn_del (tc_connId c) w2)"
      using g h get_conn_kept [of a]
      by (auto simp: read_cb_def Option.bind_eq_Some_conv deactivate_def safe_uv_close_def set_handle_def get_conn_def split: if_splits loop_type.splits)
    have t: "tcp_at w a" by (rule conn_tcp_at [OF g])
    have k1: "skeeps w w1" by (rule skeeps_deactivate [OF b t w1(1)])
    have k2: "skeeps w1 w2"
      by (rule skeeps_uv_close [OF skeepsD(1) [OF k1 b] _ w1(2)]) (simp add: tcp_at_kept(1) [OF w1(1)] t)
    from k1 k2 skeeps_conn_del have "skeeps w w'" unfolding w' by (meson skeeps_trans)
    from skeeps_inv [OF this inv] show ?thesis .
  next
    case 3
    with r g h obtain tcp ps w1 where p: "read_content_parse (tc_tcp c) nread buf = Some (tcp, ps)" "set_conn a (c\<lparr>tc_tcp := tcp\<rparr>) w = Some w1"
      "w' = w1 \<or> each_pkg (server_pkg (tc_connId c)) ps w1 = Some w'"
      by (auto simp: read_cb_def read_content_process_def Option.bind_eq_Some_conv split: if_splits)
    have "skeeps w w1" by (rule skeeps_set_conn [OF b g _ _ p(2)]) (simp_all add: parse_kind [OF p(1)])
    note i1 = skeeps_inv [OF this inv]
    from p(3) pkgs_inv [OF _ i1 lim] i1 show ?thesis by blast
  qed (use inv r in \<open>simp add: read_cb_def\<close>)
qed

section \<open>Ending tasks\<close>

text \<open>A task goes: it is notified, or freed by the loop itself.\<close>

definition gone :: "addr \<Rightarrow> world \<Rightarrow> world \<Rightarrow> bool" where
  "gone t w w' \<longleftrightarrow> (sv_base w \<longrightarrow> sv_base w') \<and> bodies w t \<noteq> None \<and> bodies w' = (bodies w)(t := None) \<and> pool_of w' = pool_of w
     \<and> spend w' = spend w \<and> w_writes w' = w_writes w"

lemma gone_free: "bodies w t \<noteq> None \<Longrightarrow> gone t w (w\<lparr>w_tasks := (w_tasks w)(t := None)\<rparr>)"
  by (auto simp: gone_def bodies_def spend_def sv_base_def heap_ok_def notified_def conns_ok_def listen_ok_def fun_eq_iff)

lemma finish_gone:
  assumes "sl_finish_task t w = Some w'"
  shows "gone t w w'"
proof -
  from assms obtain task where t: "w_tasks w t = Some task"
    by (auto simp: sl_finish_task_def write_errmsg_def Option.bind_eq_Some_conv)
  obtain msg em where e: "task_errmsg (t_err task) (w_errmap w) = (msg, em)" by fastforce
  have w': "w' = w\<lparr>w_errmap := em, w_out := w_out w @ [E_Notify t (t_err task) (t_outdata task)], w_tasks := (w_tasks w)(t := None)\<rparr>"
    using assms t e by (auto simp: sl_finish_task_def write_errmsg_def notify_task_def set_task_def emit_def)
  have n: "notified w' = notified w @ [t]" by (simp add: w' notified_def)
  have "heap_ok w'" if h: "heap_ok w"
  proof -
    have "t < w_brk w" "t \<notin> set (notified w)" using h t by (auto simp: heap_ok_def not_less intro: leI ccontr)
    with h n show ?thesis by (auto simp: heap_ok_def w')
  qed
  then show ?thesis
    using t by (auto simp: w' gone_def bodies_def spend_def sv_base_def conns_ok_def listen_ok_def fun_eq_iff)
qed

lemma gone_keep: "skeeps w w1 \<Longrightarrow> gone t w1 w2 \<Longrightarrow> sv_base w \<Longrightarrow> gone t w w2"
  by (simp add: gone_def skeepsD)

lemma write_cb_server:
  assumes inv: "sv_inv (w, b)" and t: "(conn, t) \<in> set (w_writes w)"
    and r: "write_cb conn t status (w\<lparr>w_writes := remove1 (conn, t) (w_writes w)\<rparr>) = Some w'"
  shows "sv_inv (w', b)"
proof -
  let ?w = "w\<lparr>w_writes := remove1 (conn, t) (w_writes w)\<rparr>"
  have b: "sv_base w" and c: "conserved {#} (w, b)" and o: "busy_ok (w, b)" using inv by (simp_all add: sv_inv_def)
  have v: "bodies ?w = bodies w" "spend ?w = spend w" by (simp_all add: bodies_def spend_def fun_eq_iff)
  have "snd ` set (w_writes ?w) \<subseteq> snd ` set (w_writes w)" using set_remove1_subset [of "(conn, t)" "w_writes w"] by auto
  then have b0: "sv_base ?w" using b unfolding sv_base_def v by (auto simp: heap_ok_def notified_def conns_ok_def listen_ok_def)
  from t obtain task where task: "w_tasks w t = Some task"
    using elsewhere(2) [OF c base_heap [OF b], of t] by (force simp: in_writes_def)
  have sb: "server_body (t_body task)" using b task by (auto simp: sv_base_def bodies_def)
  have "gone t ?w w'"
  proof (cases "t_body task")
    case (RESP k d)
    with r task obtain w1 where "set_err t status ?w = Some w1" "sl_finish_task t w1 = Some w'"
      by (auto simp: write_cb_def Option.bind_eq_Some_conv)
    then show ?thesis using gone_keep [OF skeeps_set_err finish_gone b0] by blast
  next
    case (PUSH d)
    then show ?thesis using r task gone_free [of ?w t] by (simp add: write_cb_def bodies_def)
  qed (use sb r task in \<open>simp_all add: write_cb_def server_body_def\<close>)
  then have g: "sv_base w'" "bodies w' = (bodies w)(t := None)" "pool_of w' = pool_of w" "spend w' = spend w"
    "w_writes w' = remove1 (conn, t) (w_writes w)"
    using b0 v by (simp_all add: gone_def)
  have "conserved {#} (w', b)" by (rule conserved_written [OF c base_heap [OF b] base_heap [OF g(1)] t g(2-5)])
  with g(1,3) o show ?thesis by (simp add: sv_inv_def busy_ok_def)
qed

section \<open>Running tasks\<close>

definition wrote :: "addr \<Rightarrow> addr \<Rightarrow> world \<Rightarrow> world \<Rightarrow> bool" where
  "wrote conn t w w' \<longleftrightarrow> (sv_base w \<longrightarrow> sv_base w') \<and> bodies w' = bodies w \<and> pool_of w' = pool_of w
     \<and> spend w' = spend w \<and> w_writes w' = w_writes w @ [(conn, t)] \<and> w_brk w' = w_brk w"

lemma do_write_cases:
  assumes "do_write conn indata t i w = Some (r, w')" "io_ok i"
  shows "r = 0 \<and> wrote conn t w w' \<or> r \<noteq> 0 \<and> set_err t r w = Some w'"
proof (cases "io_write i conn")
  case (W_Err e)
  then have "e \<noteq> 0" using assms(2) by (auto simp: io_ok_def)
  with W_Err show ?thesis using assms(1) by (auto simp: do_write_def Option.bind_eq_Some_conv)
next
  case W_Sent
  with assms(1) obtain task ty where t: "w_tasks w t = Some task" "pkg_type_of (t_body task) = Some ty" and
    w': "r = 0" "w' = emit (E_Send conn (pkg_bytes (proto_build_package indata (int (length indata)) ty (t_taskId task)))) (w\<lparr>w_writes := w_writes w @ [(conn, t)]\<rparr>)"
    by (auto simp: do_write_def Option.bind_eq_Some_conv)
  have "bodies w t \<noteq> Some CLOSE" using t by (auto simp: bodies_def pkg_type_of_def)
  then have "wrote conn t w w'"
    by (auto simp: wrote_def w'(2) emit_def bodies_def spend_def sv_base_def heap_ok_def notified_def conns_ok_def listen_ok_def fun_eq_iff)
  with w'(1) show ?thesis by simp
qed (use assms(1) in \<open>simp add: do_write_def Option.bind_eq_Some_conv\<close>)

lemma resp_run:
  assumes b: "sv_base w" and t: "w_tasks w t = Some task" "t_body task = RESP k d" and i: "io_ok i"
    and r: "run_task lt t i w = Some w'"
  shows "gone t w w' \<or> (\<exists>conn. wrote conn t w w')"
proof (cases "sl_conn_find k w")
  case None
  with r t obtain w1 where "set_err t ERR_CONN_NOT_EXIST w = Some w1" "sl_finish_task t w1 = Some w'"
    by (auto simp: run_task_def Option.bind_eq_Some_conv)
  then show ?thesis using gone_keep [OF skeeps_set_err finish_gone b] by blast
next
  case (Some conn)
  with r t obtain e w1 where w1: "do_write conn d t i w = Some (e, w1)" "(if e \<noteq> 0 then sl_finish_task t w1 else Some w1) = Some w'"
    by (auto simp: run_task_def Option.bind_eq_Some_conv)
  from do_write_cases [OF w1(1) i] show ?thesis
    using w1(2) gone_keep [OF skeeps_set_err finish_gone b] by (cases "e = 0") auto
qed

text \<open>A push makes a task for every connection, which the write callback frees.\<close>

lemma push_each_inv:
  assumes "push_each indata i cs w = Some w'" "sv_base w" "conserved Y (w, b)" "io_ok i"
  shows "sv_base w' \<and> conserved Y (w', b) \<and> pool_of w' = pool_of w \<and> spend w' = spend w
    \<and> (\<forall>x < w_brk w. bodies w' x = bodies w x) \<and> w_brk w \<le> w_brk w'"
  using assms
proof (induction cs arbitrary: w)
  case (Cons kc cs)
  obtain k conn where kc: "kc = (k, conn)" by fastforce
  define t where "t = w_brk w"
  let ?k = "\<lparr>t_err = 0, t_errmsg = [], t_taskId = io_junk i, t_body = PUSH [], t_outdata = []\<rparr>"
  define w1 where "w1 = set_task t ?k (w\<lparr>w_brk := Suc t\<rparr>)"
  have n: "new_task ?k w = (t, w1)" by (simp add: new_task_def t_def w1_def)
  from Cons.prems(1) obtain e w2 where w2: "do_write conn indata t i w1 = Some (e, w2)"
    "push_each indata i cs (if e \<noteq> 0 then w2\<lparr>w_tasks := (w_tasks w2)(t := None)\<rparr> else w2) = Some w'"
    by (auto simp: kc n Option.bind_eq_Some_conv)
  note h = base_heap [OF Cons.prems(2)]
  have f: "w_tasks w t = None" "bodies w t = None" using h by (simp_all add: heap_ok_def t_def bodies_def)
  have v1: "bodies w1 = (bodies w)(t \<mapsto> PUSH [])" "pool_of w1 = pool_of w" "spend w1 = spend w" "w_writes w1 = w_writes w"
    by (auto simp: w1_def set_task_def bodies_def spend_def fun_eq_iff)
  have "heap_ok w1" using h by (auto simp: w1_def set_task_def heap_ok_def notified_def t_def)
  moreover have "conns_ok w1" "listen_ok w1" using Cons.prems(2) by (simp_all add: sv_base_def conns_ok_def listen_ok_def w1_def set_task_def t_def)
  ultimately have b1: "sv_base w1" using Cons.prems(2) v1 by (auto simp: sv_base_def server_body_def w1_def set_task_def)
  define w3 where "w3 = (if e \<noteq> 0 then w2\<lparr>w_tasks := (w_tasks w2)(t := None)\<rparr> else w2)"
  have "sv_base w3 \<and> conserved Y (w3, b) \<and> pool_of w3 = pool_of w \<and> spend w3 = spend w \<and> (\<forall>x < w_brk w. bodies w3 x = bodies w x)
      \<and> w_brk w3 = Suc t"
  proof (cases "e = 0")
    case True
    then have w: "w3 = w2" "wrote conn t w1 w2" using do_write_cases [OF w2(1) Cons.prems(4)] by (simp_all add: w3_def)
    have b3: "sv_base w3" using w b1 by (simp add: wrote_def)
    have v3: "bodies w3 = (bodies w)(t \<mapsto> PUSH [])" "pool_of w3 = pool_of w" "spend w3 = spend w" "w_writes w3 = w_writes w @ [(conn, t)]"
      using w v1 by (simp_all add: wrote_def)
    have "w_brk w3 = Suc t" using w by (simp add: wrote_def w1_def set_task_def)
    with b3 v3 conserved_new_write [OF Cons.prems(3) h base_heap [OF b3] f(2) v3] show ?thesis by (simp add: t_def)
  next
    case False
    then have w: "w3 = w2\<lparr>w_tasks := (w_tasks w2)(t := None)\<rparr>" "set_err t e w1 = Some w2"
      using do_write_cases [OF w2(1) Cons.prems(4)] by (simp_all add: w3_def)
    have k: "skeeps w1 w2" by (rule skeeps_set_err [OF w(2)])
    have "bodies w2 t \<noteq> None" using skeepsD(2) [OF k b1] v1(1) by simp
    from gone_free [OF this] skeepsD [OF k b1] have b3: "sv_base w3" and v3: "bodies w3 = (bodies w2)(t := None)" "pool_of w3 = pool_of w2"
      "spend w3 = spend w2" "w_writes w3 = w_writes w2" by (simp_all add: w(1) gone_def)
    have v: "bodies w3 = bodies w" "pool_of w3 = pool_of w" "spend w3 = spend w" "w_writes w3 = w_writes w"
      using v3 v1 skeepsD [OF k b1] f(2) by (simp_all add: fun_upd_idem)
    have "w_brk w3 = Suc t" using w by (auto simp: set_err_def set_task_def w1_def)
    with b3 v conserved_view [OF Cons.prems(3) h base_heap [OF b3] v] show ?thesis by simp
  qed
  with Cons.IH [of w3] w2(2) Cons.prems(4) show ?case by (simp add: w3_def [symmetric] t_def)
qed simp

text \<open>The shutdown returns only when no job is queued and no request is unanswered; it closes the
  connections and forgets them.\<close>

lemma skeeps_run: "skeeps w (w\<lparr>w_sl := w_sl w\<lparr>sl_running := r\<rparr>\<rparr>)"
  by (rule skeepsI) (auto simp: sv_base_def heap_ok_def notified_def conns_ok_def listen_ok_def bodies_def spend_def fun_eq_iff)

lemma skeeps_conn_clr: "skeeps w (sl_conn_clr w)"
  by (rule skeepsI) (auto simp: sl_conn_clr_def put_sl_conns_def sv_base_def heap_ok_def notified_def conns_ok_def listen_ok_def bodies_def spend_def fun_eq_iff)

lemma server_shutdown_server:
  assumes b: "sv_base w" and r: "server_shutdown w = Some w'"
  shows "skeeps w w'"
proof -
  define w1 where "w1 = w\<lparr>w_sl := w_sl w\<lparr>sl_running := False\<rparr>\<rparr>"
  from r obtain w2 w3 w5 where
    s: "safe_uv_close (Some (sl_listen (w_sl w1))) w1 = Some w2"
      "each_addr deactivate (map snd (sl_conn_list w2)) w2 = Some w3" "join_pool w3 = Some w3"
      "each_addr (\<lambda>a. safe_uv_close (Some a)) (map snd (sl_conn_list w2)) w3 = Some w5" "w' = sl_conn_clr w5"
    by (auto simp: server_shutdown_def w1_def join_pool_def Let_def Option.bind_eq_Some_conv split: if_splits)
  have k1: "skeeps w w1" by (simp add: w1_def skeeps_run)
  note b1 = skeepsD(1) [OF k1 b]
  have "tcp_at w1 (sl_listen (w_sl w1))"
    using s(1) b by (auto simp: safe_uv_close_def sv_base_def listen_ok_def tcp_at_def w1_def Option.bind_eq_Some_conv)
  from skeeps_uv_close [OF b1 this s(1)] have k2: "skeeps w1 w2" .
  note b2 = skeepsD(1) [OF k2 b1]
  have t2: "\<forall>a \<in> set (map snd (sl_conn_list w2)). tcp_at w2 a" using table_tcp_at [OF b2] by (simp add: sl_conn_list_def)
  have k3: "skeeps w2 w3" "\<forall>x. tcp_at w3 x \<longleftrightarrow> tcp_at w2 x"
    using skeeps_each [OF _ s(2) b2 t2] skeeps_deactivate tcp_at_kept(1) by blast+
  note b3 = skeepsD(1) [OF k3(1) b2]
  have "skeeps w3 w5" using skeeps_each [OF _ s(4) b3] skeeps_uv_close tcp_at_kept(3) t2 k3(2) by blast
  with k1 k2 k3(1) skeeps_conn_clr show ?thesis unfolding s(5) by (meson skeeps_trans)
qed

lemma gone_conserved:
  assumes "gone t w w'" "sv_base w" "conserved {#} (w, b)" "spend w a t"
  shows "sv_base w'" "conserved {#t#} (w', b)" "pool_of w' = pool_of w" "spend w' = spend w"
proof -
  have h: "heap_ok w" by (rule base_heap [OF assms(2)])
  have "handle_task (w_handles w a) = {#t#}" using assms(4) by (auto simp: spend_def handle_task_def)
  then have "t \<in># in_async w" using spend_live [OF assms(4) h]
    by (auto simp: in_async_def sum.remove [of _ a])
  then have j: "t \<notin># in_jobs (pool_of w) + in_hands (pool_of w) b" using elsewhere(1) [OF assms(3) h] by auto
  have g: "bodies w t \<noteq> None" "bodies w' = (bodies w)(t := None)" "w_writes w' = w_writes w" using assms(1) by (simp_all add: gone_def)
  show b': "sv_base w'" "pool_of w' = pool_of w" "spend w' = spend w" using assms(1,2) by (simp_all add: gone_def)
  show "conserved {#t#} (w', b)"
    using conserved_drop [OF assms(3) h base_heap [OF b'(1)] g(1) j g(2) b'(2,3) g(3)] by simp
qed

lemma wrote_conserved:
  assumes "wrote conn t w w'" "sv_base w" "conserved {#} (w, b)"
  shows "sv_base w'" "conserved {#t#} (w', b)" "pool_of w' = pool_of w" "spend w' = spend w"
proof -
  show b': "sv_base w'" "pool_of w' = pool_of w" "spend w' = spend w" using assms(1,2) by (simp_all add: wrote_def)
  show "conserved {#t#} (w', b)"
    using conserved_write [OF assms(3) base_heap [OF assms(2)] base_heap [OF b'(1)] _ b'(2,3)] assms(1) by (simp add: wrote_def)
qed

text \<open>The callback of an async handle up to the close of the handle: its task is now in two places, or notified.\<close>

definition ran :: "addr \<Rightarrow> server \<Rightarrow> world \<Rightarrow> bool" where
  "ran t s w' \<longleftrightarrow> sv_base w' \<and> conserved {#t#} (w', snd s) \<and> pool_of w' = pool_of (fst s) \<and> spend w' = spend (fst s)"

lemma gone_ran: "gone t w w' \<Longrightarrow> sv_base w \<Longrightarrow> conserved {#} (w, b) \<Longrightarrow> spend w a t \<Longrightarrow> ran t (w, b) w'"
  using gone_conserved [of t w w' b a] by (simp add: ran_def)

lemma run_server:
  assumes inv: "sv_inv (w, b)" and p: "spend w a t" and i: "io_ok i" and r: "run_task SERVER_LOOP t i w = Some w'"
  shows "ran t (w, b) w'"
proof -
  have b: "sv_base w" and c: "conserved {#} (w, b)" using inv by (simp_all add: sv_inv_def)
  from r obtain task where t: "w_tasks w t = Some task" by (auto simp: run_task_def Option.bind_eq_Some_conv)
  then have sb: "server_body (t_body task)" using b by (auto simp: sv_base_def bodies_def)
  note fin = gone_ran [OF _ b c p]
  show ?thesis
  proof (cases "t_body task")
    case (RESP k d)
    from resp_run [OF b t RESP i r] show ?thesis using fin wrote_conserved [OF _ b c] by (auto simp: ran_def)
  next
    case (PUSH d)
    with r t obtain w1 w2 where w1: "push_each d i (sl_conn_list w) w = Some w1" "set_err t 0 w1 = Some w2" "sl_finish_task t w2 = Some w'"
      by (auto simp: run_task_def do_push_def Option.bind_eq_Some_conv)
    from push_each_inv [OF w1(1) b c i] have p1: "sv_base w1" "conserved {#} (w1, b)" "pool_of w1 = pool_of w" "spend w1 = spend w" by simp_all
    have "gone t w1 w'" by (rule gone_keep [OF skeeps_set_err [OF w1(2)] finish_gone [OF w1(3)] p1(1)])
    from gone_ran [OF this p1(1,2)] p p1(3,4) show ?thesis by (simp add: ran_def)
  next
    case CLOSE
    with r t obtain w1 where w1: "server_shutdown w = Some w1" "sl_finish_task t (w1\<lparr>w_sl := w_sl w1\<lparr>sl_running := False\<rparr>\<rparr>) = Some w'"
      by (auto simp: run_task_def do_shutdown_def finish_on_def Option.bind_eq_Some_conv)
    have "skeeps w (w1\<lparr>w_sl := w_sl w1\<lparr>sl_running := False\<rparr>\<rparr>)"
      using server_shutdown_server [OF b w1(1)] skeeps_run by (rule skeeps_trans)
    from fin [OF gone_keep [OF this finish_gone [OF w1(2)] b]] show ?thesis .
  qed (use sb in \<open>simp_all add: server_body_def\<close>)
qed

lemma async_close:
  assumes "sv_base w" "spend w a t" "safe_uv_close (Some a) w = Some w'"
  shows "sv_base w'" "bodies w' = bodies w" "pool_of w' = pool_of w" "w_writes w' = w_writes w" "\<And>x s. spend w' x s \<longleftrightarrow> spend w x s \<and> x \<noteq> a"
proof -
  from assms(2) obtain h where h: "w_handles w a = Some h" "h_loop h = SERVER_LOOP" "h_kind h = UV_ASYNC t" "\<not> h_closing h"
    by (auto simp: spend_def)
  then have w': "w' = set_handle a (Some (h\<lparr>h_closing := True, h_active := False\<rparr>)) w" using assms(3) by (simp add: safe_uv_close_def)
  show v: "bodies w' = bodies w" "pool_of w' = pool_of w" "w_writes w' = w_writes w"
    by (simp_all add: w' set_handle_def bodies_def fun_eq_iff)
  show "spend w' x s \<longleftrightarrow> spend w x s \<and> x \<noteq> a" for x s by (auto simp: w' spend_def set_handle_def)
  have "heap_ok w'" using base_heap [OF assms(1)] live_lt [of w a] h(1) by (auto simp: w' heap_ok_def set_handle_def notified_def)
  moreover have "conns_ok w'" using assms(1) h by (fastforce simp: w' sv_base_def conns_ok_def set_handle_def)
  moreover have "listen_ok w'" using assms(1) h by (auto simp: w' sv_base_def listen_ok_def set_handle_def not_async_def)
  ultimately show "sv_base w'" using assms(1) v by (auto simp: sv_base_def w' set_handle_def)
qed

lemma async_cb_server:
  assumes inv: "sv_inv (w, b)" and p: "spend w a t" and i: "io_ok i" and r: "async_cb a i w = Some w'"
  shows "sv_inv (w', b)"
proof -
  have b: "sv_base w" and c: "conserved {#} (w, b)" and o: "busy_ok (w, b)" using inv by (simp_all add: sv_inv_def)
  from p obtain h where h: "w_handles w a = Some h" "h_loop h = SERVER_LOOP" "h_kind h = UV_ASYNC t" by (auto simp: spend_def)
  have "\<exists>w1. ran t (w, b) w1 \<and> safe_uv_close (Some a) w1 = Some w'"
  proof (cases "running_of SERVER_LOOP w \<and> inited_of SERVER_LOOP w")
    case True
    with r h obtain w1 where "run_task SERVER_LOOP t i w = Some w1" "safe_uv_close (Some a) w1 = Some w'"
      by (auto simp: async_cb_def Option.bind_eq_Some_conv)
    with run_server [OF inv p i] show ?thesis by blast
  next
    case False
    with r h obtain w0 w1 where "set_err t ERR_NOT_READY w = Some w0" "sl_finish_task t w0 = Some w1" "safe_uv_close (Some a) w1 = Some w'"
      by (auto simp: async_cb_def finish_on_def Option.bind_eq_Some_conv)
    with gone_ran [OF gone_keep [OF skeeps_set_err finish_gone b] b c p] show ?thesis by blast
  qed
  then obtain w1 where w1: "sv_base w1" "conserved {#t#} (w1, b)" "pool_of w1 = pool_of w" "spend w1 = spend w" "safe_uv_close (Some a) w1 = Some w'"
    by (auto simp: ran_def)
  have p1: "spend w1 a t" using p w1(4) by simp
  note v = async_close [OF w1(1) p1 w1(5)]
  have "conserved {#} (w', b)"
    using conserved_ran [of "{#}" t w1 b w' a] w1(2) base_heap [OF w1(1)] base_heap [OF v(1)] p1 v(2-5) by simp
  with v(1,3) w1(3) o show ?thesis by (simp add: sv_inv_def busy_ok_def)
qed

section \<open>Submitting\<close>

lemma writes_live:
  assumes "sv_base w" "conserved {#} (w, b)" "t \<in> snd ` set (w_writes w)"
  shows "t < w_brk w"
proof -
  have "t \<in> dom (w_tasks w)" using elsewhere(2) [OF assms(2) base_heap [OF assms(1)], of t] assms(3) by (auto simp: in_writes_def)
  then show ?thesis using base_heap [OF assms(1)] by (auto simp: heap_ok_def not_less intro: leI ccontr)
qed

lemma submit_server:
  assumes inv: "sv_inv (w, b)" and c: "sl_create_async w = Some (a, w1)" and s: "send_task a task w1 = Some (r, w')"
    and k: "server_body (t_body task)"
  shows "sv_inv (w', b)"
proof -
  have b: "sv_base w" and cs: "conserved {#} (w, b)" and o: "busy_ok (w, b)" using inv by (simp_all add: sv_inv_def)
  note h = base_heap [OF b]
  let ?h = "\<lparr>h_loop = SERVER_LOOP, h_kind = UV_ASYNC (Suc (w_brk w)), h_closing = False, h_active = True\<rparr>"
  have w': "w' = w\<lparr>w_handles := (w_handles w)(w_brk w \<mapsto> ?h), w_tasks := (w_tasks w)(Suc (w_brk w) \<mapsto> task), w_brk := Suc (Suc (w_brk w))\<rparr>"
    using c s by (auto simp: sl_create_async_def new_async_def new_handle_def send_task_def new_task_def async_submit_def set_handle_def set_task_def
        split: if_splits)
  have f: "w_handles w (w_brk w) = None" "w_tasks w (Suc (w_brk w)) = None" using h by (simp_all add: heap_ok_def)
  have h': "heap_ok w'" using h by (auto simp: w' heap_ok_def notified_def)
  have v: "bodies w' = (bodies w)(Suc (w_brk w) \<mapsto> t_body task)" "pool_of w' = pool_of w" "w_writes w' = w_writes w"
    "spend w' x s \<longleftrightarrow> spend w x s \<or> x = w_brk w \<and> s = Suc (w_brk w)" for x s
    using f by (auto simp: w' bodies_def spend_def fun_eq_iff)
  have n: "bodies w (Suc (w_brk w)) = None" "\<not> (\<exists>s. spend w (w_brk w) s)" using f by (simp_all add: bodies_def spend_def)
  have "conns_ok w'" using b f by (fastforce simp: w' sv_base_def conns_ok_def)
  moreover have "listen_ok w'" using b by (auto simp: w' sv_base_def listen_ok_def)
  moreover have "Suc (w_brk w) \<notin> snd ` set (w_writes w)" using writes_live [OF b cs] by fastforce
  moreover have "sl_inited (w_sl w') = sl_inited (w_sl w)" by (simp add: w')
  ultimately have "sv_base w'" using b h' k unfolding sv_base_def v(1-3) by (metis fun_upd_apply option.inject)
  moreover have "conserved {#} (w', b)" by (rule conserved_submit [OF cs h h' n v(1,2,4,3)])
  ultimately show ?thesis using o v(2) by (simp add: sv_inv_def busy_ok_def)
qed

lemma push_server:
  assumes "sv_inv (w, b)" "ssn_push indata inlen junk w = Some (r, w')"
  shows "sv_inv (w', b)"
  using assms submit_server [OF assms(1)]
  by (fastforce simp: ssn_push_def async_push_def stack_task_def server_body_def Option.bind_eq_Some_conv split: option.splits if_splits)

lemma shutdown_server:
  assumes "sv_inv (w, b)" "ssn_shutdown_server junk w = Some (r, w')"
  shows "sv_inv (w', b)"
  using assms submit_server [OF assms(1)]
  by (fastforce simp: ssn_shutdown_server_def async_close_server_def stack_task_def server_body_def split: option.splits)

section \<open>Workers\<close>

lemma hands_change:
  assumes "i < thread_num s" "thread_num s' = thread_num s" "\<And>j. j \<noteq> i \<Longrightarrow> pcs s' j = pcs s j" "\<And>j. j \<noteq> i \<Longrightarrow> j \<in> set b' \<longleftrightarrow> j \<in> set b"
  shows "in_hands s' b' + (if i \<in> set b then {#} else worker_task (pcs s i))
    = in_hands s b + (if i \<in> set b' then {#} else worker_task (pcs s' i))"
  unfolding in_hands_def assms(2)
  by (rule sum_change [OF assms(1), of "\<lambda>j. if j \<in> set b' then {#} else worker_task (pcs s' j)" "\<lambda>j. if j \<in> set b then {#} else worker_task (pcs s j)"])
    (simp add: assms(3,4) cong: if_cong)

lemma hand_leaves:
  assumes "i < thread_num s" "pcs s i = W_Run p" "i \<notin> set b"
  shows "in_hands s b = in_hands s (i # b) + {#job_task p#}"
  using hands_change [OF assms(1), of s "i # b" b] assms(2,3) by simp

text \<open>Replacing the pool.\<close>

lemma set_pool_inv:
  assumes inv: "sv_inv (w, b)" and ok: "sv_pool_ok p" and e: "in_jobs p + in_hands p b' = in_jobs (pool_of w) + in_hands (pool_of w) b"
    and o: "\<And>i. i \<in> set b' \<Longrightarrow> \<exists>q. pcs p i = W_Run q"
  shows "sv_inv (set_pool p w, b')"
proof -
  have b: "sv_base w" and c: "conserved {#} (w, b)" using inv by (simp_all add: sv_inv_def)
  have v: "bodies (set_pool p w) = bodies w" "spend (set_pool p w) = spend w" "w_writes (set_pool p w) = w_writes w" "pool_of (set_pool p w) = p"
    by (simp_all add: set_pool_def bodies_def spend_def fun_eq_iff)
  have b': "sv_base (set_pool p w)"
    using b ok v by (auto simp: sv_base_def heap_ok_def notified_def conns_ok_def listen_ok_def set_pool_def)
  have "in_async (set_pool p w) = in_async w" by (rule in_async_eq [OF base_heap [OF b] base_heap [OF b'] v(2)])
  then have "conserved {#} (set_pool p w, b')" using c e unfolding conserved_iff v in_writes_def by simp
  with b' o show ?thesis by (simp add: sv_inv_def busy_ok_def v(4))
qed

lemma lock_job_ok:
  assumes ok: "sv_pool_ok s" and i: "i < thread_num s" "pcs s i = W_Lock" and f: "thread_func i s = Step s'"
  shows "sv_pool_ok s' \<and> thread_num s' = thread_num s \<and> (\<forall>j. j \<noteq> i \<longrightarrow> pcs s' j = pcs s j) \<and> in_jobs s = in_jobs s' + worker_task (pcs s' i)"
proof -
  have j: "jobs_ok (queue s, store s)" and po: "pool_ok (thread_num s) s" using ok by (simp_all add: sv_pool_ok_def pool_ok_def)
  show ?thesis
  proof (cases "jobs s")
    case Nil
    have s': "s' = s\<lparr>pcs := (pcs s)(i := W_Wait)\<rparr>" using lock_step_empty [OF j Nil i(2)] f by simp
    have "pool_ok (thread_num s) s'" using tp_step_ok [OF take_none [OF i f] po] by (simp add: s')
    then show ?thesis using ok by (auto simp: sv_pool_ok_def s' in_jobs_def jobs_def)
  next
    case (Cons p ps)
    from lock_step_job [OF j Cons i(2)] obtain q m where s': "s' = s\<lparr>queue := q, store := m, pcs := (pcs s)(i := W_Run p)\<rparr>"
      and ps: "map dec_param (contents (q, m)) = ps" using f by auto
    have "pcs s' i = W_Run p" by (simp add: s')
    from tp_step_ok [OF take_job [OF i f this] po] have "pool_ok (thread_num s) s'" by simp
    moreover have js: "jobs s' = ps" using ps by (simp add: s')
    ultimately show ?thesis using ok Cons js by (auto simp: sv_pool_ok_def in_jobs_def s' simp del: jobs_upd)
  qed
qed

lemma other_ok:
  assumes ok: "sv_pool_ok s" and i: "i < thread_num s" "pcs s i \<noteq> W_Lock" and f: "thread_func i s = Step s'"
  shows "sv_pool_ok s' \<and> thread_num s' = thread_num s \<and> (\<forall>j. j \<noteq> i \<longrightarrow> pcs s' j = pcs s j) \<and> jobs s' = jobs s
    \<and> (\<forall>p. pcs s' i \<noteq> W_Run p)"
proof -
  note fr = work_frame [OF f i(2)]
  have po: "pool_ok (thread_num s) s" using ok by (simp add: sv_pool_ok_def)
  have n: "pcs s' i \<noteq> W_Run p" for p using f i by (auto simp: thread_func_def split: worker_pc.splits if_splits)
  have js: "jobs s' = jobs s" using fr by (simp add: jobs_def)
  have "pool_ok (thread_num s') s'" using tp_step_ok [OF work [OF i f] po] fr by simp
  then have "sv_pool_ok s'" using ok fr n js unfolding sv_pool_ok_def by (metis fun_upd_apply)
  then show ?thesis using fr n js by (metis fun_upd_apply)
qed

lemma worker_server:
  assumes inv: "sv_inv (w, b)" and i: "i < thread_num (pool_of w)" "\<forall>p. pcs (pool_of w) i \<noteq> W_Run p"
    and f: "thread_func i (pool_of w) = Step p'"
  shows "sv_inv (set_pool p' w, b)"
proof -
  let ?s = "pool_of w"
  have ok: "sv_pool_ok ?s" and o: "\<And>j. j \<in> set b \<Longrightarrow> \<exists>q. pcs ?s j = W_Run q" using inv by (simp_all add: sv_inv_def sv_base_def busy_ok_def)
  have ib: "i \<notin> set b" using o i(2) by blast
  have z: "worker_task (pcs ?s i) = {#}" using i(2) by (cases "pcs ?s i") auto
  have e: "sv_pool_ok p' \<and> thread_num p' = thread_num ?s \<and> (\<forall>j. j \<noteq> i \<longrightarrow> pcs p' j = pcs ?s j) \<and> in_jobs ?s = in_jobs p' + worker_task (pcs p' i)"
  proof (cases "pcs ?s i = W_Lock")
    case True
    show ?thesis by (rule lock_job_ok [OF ok i(1) True f])
  next
    case False
    from other_ok [OF ok i(1) False f] show ?thesis by (cases "pcs p' i") (auto simp: in_jobs_def)
  qed
  then have "in_hands p' b = in_hands ?s b + worker_task (pcs p' i)" using hands_change [OF i(1), of p' b b] ib z by simp
  with e have e': "in_jobs p' + in_hands p' b = in_jobs ?s + in_hands ?s b" by simp
  show ?thesis
    by (rule set_pool_inv [OF inv _ e']) (use e o ib in metis)+
qed

lemma spurious_server:
  assumes inv: "sv_inv (w, b)" and i: "i < thread_num (pool_of w)" "pcs (pool_of w) i = W_Wait"
  shows "sv_inv (set_pool ((pool_of w)\<lparr>pcs := (pcs (pool_of w))(i := W_Relock)\<rparr>) w, b)"
proof (rule set_pool_inv [OF inv])
  let ?s = "pool_of w" and ?p = "(pool_of w)\<lparr>pcs := (pcs (pool_of w))(i := W_Relock)\<rparr>"
  have ok: "sv_pool_ok ?s" using inv by (simp add: sv_inv_def sv_base_def)
  have "pool_ok (thread_num ?s) ?p" using tp_step_ok [OF spurious [OF i]] ok by (simp add: sv_pool_ok_def)
  then show "sv_pool_ok ?p" using ok by (auto simp: sv_pool_ok_def jobs_def)
  have "i \<notin> set b" using inv i(2) by (auto simp: sv_inv_def busy_ok_def)
  then show "in_jobs ?p + in_hands ?p b = in_jobs ?s + in_hands ?s b"
    using hands_change [OF i(1), of ?p b b] i(2) by (simp add: in_jobs_def jobs_def)
  show "\<exists>q. pcs ?p j = W_Run q" if "j \<in> set b" for j
    using that inv i(2) by (auto simp: sv_inv_def busy_ok_def)
qed

lemma end_server:
  assumes inv: "sv_inv (w, b)" and i: "i < thread_num (pool_of w)" "pcs (pool_of w) i = W_Run p" "i \<in> set b"
    and f: "thread_func i (pool_of w) = Step p'"
  shows "sv_inv (set_pool p' w, removeAll i b)"
proof (rule set_pool_inv [OF inv])
  let ?s = "pool_of w"
  have ok: "sv_pool_ok ?s" using inv by (simp add: sv_inv_def sv_base_def)
  have "pcs ?s i \<noteq> W_Lock" using i(2) by simp
  from other_ok [OF ok i(1) this f] have e: "sv_pool_ok p'" "thread_num p' = thread_num ?s" "\<And>j. j \<noteq> i \<Longrightarrow> pcs p' j = pcs ?s j"
    "jobs p' = jobs ?s" "\<And>p. pcs p' i \<noteq> W_Run p" by simp_all
  show "sv_pool_ok p'" by (rule e)
  have "worker_task (pcs p' i) = {#}" using e(5) by (cases "pcs p' i") auto
  then show "in_jobs p' + in_hands p' (removeAll i b) = in_jobs ?s + in_hands ?s b"
    using hands_change [OF i(1), of p' "removeAll i b" b] e i(3) by (simp add: in_jobs_def)
  show "\<exists>q. pcs p' j = W_Run q" if "j \<in> set (removeAll i b)" for j
    using that inv e(3) by (auto simp: sv_inv_def busy_ok_def)
qed

text \<open>\<^verbatim>\<open>svr_work_cb\<close>: the task leaves the hand of the worker for an async handle.\<close>

lemma begin_server:
  assumes inv: "sv_inv (w, b)" and i: "i < thread_num (pool_of w)" "pcs (pool_of w) i = W_Run p" "i \<notin> set b"
    and f: "svr_work_cb (job_task p) w = Some w'"
  shows "sv_inv (w', i # b)"
proof -
  let ?t = "job_task p" and ?a = "w_brk w"
  have b: "sv_base w" and c: "conserved {#} (w, b)" and o: "busy_ok (w, b)" using inv by (simp_all add: sv_inv_def)
  note h = base_heap [OF b]
  note hc = hand_leaves [OF i]
  then have "?t \<in># in_hands (pool_of w) b" by simp
  then obtain task cid d where t: "w_tasks w ?t = Some task" "t_body task = RESP cid d"
    using c by (fastforce simp: conserved_iff bodies_def)
  define d' where "d' = (case sl_work_cb (w_sl w) of Some cb \<Rightarrow> cb d | None \<Rightarrow> d)"
  let ?h = "\<lparr>h_loop = SERVER_LOOP, h_kind = UV_ASYNC ?t, h_closing = False, h_active = True\<rparr>"
  have tk: "task\<lparr>t_body := RESP cid d\<rparr> = task" using t(2) by simp
  have w': "w' = w\<lparr>w_handles := (w_handles w)(?a \<mapsto> ?h), w_tasks := (w_tasks w)(?t \<mapsto> task\<lparr>t_body := RESP cid d'\<rparr>), w_brk := Suc ?a\<rparr>"
    using f t tk
    by (auto simp: svr_work_cb_def sl_create_async_def new_async_def new_handle_def async_submit_def set_handle_def set_task_def d'_def
        Option.bind_eq_Some_conv fun_upd_idem split: if_splits option.splits)
  have n: "w_handles w ?a = None" "?t \<noteq> ?a" "?t < ?a" using h t(1) by (auto simp: heap_ok_def not_less intro: leI ccontr)
  have nn: "notified w' = notified w" by (simp add: w' notified_def)
  have "?t \<notin> set (notified w)" using h t(1) by (auto simp: heap_ok_def)
  then have h': "heap_ok w'" using h n unfolding heap_ok_def nn by (auto simp: w')
  have v: "bodies w' = (bodies w)(?t \<mapsto> RESP cid d')" "pool_of w' = pool_of w" "w_writes w' = w_writes w"
    "\<And>x s. spend w' x s \<longleftrightarrow> spend w x s \<or> x = ?a \<and> s = ?t"
    using n by (auto simp: w' bodies_def spend_def fun_eq_iff)
  have "conns_ok w'" using b n by (fastforce simp: w' sv_base_def conns_ok_def)
  moreover have "listen_ok w'" using b by (auto simp: w' sv_base_def listen_ok_def)
  ultimately have b': "sv_base w'"
    using b h' unfolding sv_base_def v(1-3) by (auto simp: server_body_def w')
  have a: "in_async w' = in_async w + {#?t#}" by (rule in_async_less [OF h' h]) (use n v(4) in \<open>auto simp: spend_def\<close>)
  have "dom (bodies w') = dom (bodies w)" using t by (auto simp: v(1) bodies_def)
  then have "conserved {#} (w', i # b)" using c hc a unfolding conserved_iff v(1-3) in_writes_def
    by (auto simp: hc)
  moreover have "busy_ok (w', i # b)" using o i(2) by (simp add: busy_ok_def v(2))
  ultimately show ?thesis using b' by (simp add: sv_inv_def)
qed

lemma sv_step_inv: "sv_step s s' \<Longrightarrow> sv_inv s \<Longrightarrow> sv_inv s'"
proof (induction rule: sv_step.induct)
  case (sv_accept w h status i w' b)
  then have "sv_base w" by (simp add: sv_inv_def)
  from skeeps_inv [OF listen_cb_server [OF this sv_accept(3)] sv_accept(4)] show ?case .
next
  case (sv_close w a h w' b)
  then have "sv_base w" by (simp add: sv_inv_def)
  from skeeps_inv [OF close_cb_server [OF this sv_close(1-3,5)] sv_close(6)] show ?case .
qed (blast intro: read_cb_server write_cb_server async_cb_server push_server shutdown_server worker_server spurious_server begin_server end_server)+

interpretation sv: machine sv_step sv_inv
  by unfold_locales (rule sv_step_inv)

end
