(* ===== verification/Server_Props.thy ===== *)
theory Server_Props
  imports Server_Loop
begin

text \<open>
  What the invariant of the server loop gives: no request is lost on its way through the pool and
  the loop, a request through client and server returns what the server's function computes, and
  the state in which the server stops answering.
\<close>

section \<open>The start\<close>

lemma startup_inv:
  assumes "ssn_startup_server cb n r1 r2 r3 boot = Some (0, w)"
  shows "sv_inv (w, [])"
proof -
  obtain p where p: "threadpool_init n empty_mem = Some p" "pool_ok n p" "jobs p = []" "closer p = C_Idle"
    "pcs p = (\<lambda>i. if i < n then W_Check else W_Done)"
    using threadpool_init_ok [OF mem_ok_empty, of n] by blast
  have n: "thread_num p = n" using p(2) by (simp add: pool_ok_def)
  let ?l = "\<lparr>h_loop = SERVER_LOOP, h_kind = UV_TCP None, h_closing = False, h_active = True\<rparr>"
  have "r1 = 0 \<and> r2 = 0 \<and> r3 = 0"
    using assms p(1) by (auto simp: ssn_startup_server_def init_server_loop_def start_server_loop_def init_svr_tcp_def new_handle_def ERR_UV_LIBRARY_def
        Let_def split: if_splits)
  then have w: "w_handles w = (\<lambda>_. None)(1 \<mapsto> ?l)" "w_tasks w = (\<lambda>_. None)" "w_brk w = 2" "w_writes w = []" "w_out w = []"
    "sl_connTable (w_sl w) = []" "sl_listen (w_sl w) = 1" "pool_of w = p" "sl_inited (w_sl w)"
    using assms p(1) by (auto simp: ssn_startup_server_def init_server_loop_def start_server_loop_def init_svr_tcp_def new_handle_def set_handle_def boot_def)
  have "heap_ok w" by (simp add: heap_ok_def w notified_def)
  moreover have "conns_ok w" "listen_ok w" by (simp_all add: conns_ok_def listen_ok_def w not_async_def)
  moreover have "sv_pool_ok p" using p n by (auto simp: sv_pool_ok_def)
  ultimately have "sv_base w" by (simp add: sv_base_def w bodies_def)
  moreover have "in_async w = {#}" by (simp add: in_async_def w handle_task_def numeral_2_eq_2)
  moreover have "worker_task (pcs p i) = {#}" for i by (simp add: p(5))
  then have "in_hands p [] = {#}" by (simp add: in_hands_def)
  ultimately show ?thesis
    by (simp add: sv_inv_def conserved_def places_def in_jobs_def in_writes_def w p(3) busy_ok_def)
qed

section \<open>Progress\<close>

lemma finish_ok: "w_tasks w t \<noteq> None \<Longrightarrow> \<exists>w'. sl_finish_task t w = Some w' \<and> w_handles w' = w_handles w"
  by (auto simp: sl_finish_task_def write_errmsg_def notify_task_def set_task_def emit_def split: prod.split)

lemma begin_ok:
  assumes "resp_task w t" "sl_inited (w_sl w)" "sl_running (w_sl w)"
  shows "svr_work_cb t w \<noteq> None"
  using assms by (auto simp: resp_task_def svr_work_cb_def sl_create_async_def new_async_def new_handle_def async_submit_def set_handle_def set_task_def
      split: option.split)

lemma resp_run_ok:
  assumes b: "sv_base w" and t: "resp_task w t" and i: "\<forall>c. io_write i c \<noteq> W_Partial"
  shows "\<exists>w'. run_task SERVER_LOOP t i w = Some w' \<and> w_handles w' = w_handles w"
proof -
  from t obtain task k d where t: "w_tasks w t = Some task" "t_body task = RESP k d" by (auto simp: resp_task_def)
  have e: "\<exists>w1. set_err t r w = Some w1 \<and> w_tasks w1 t \<noteq> None \<and> w_handles w1 = w_handles w" for r
    using t by (simp add: set_err_def set_task_def)
  show ?thesis
  proof (cases "sl_conn_find k w")
    case None
    obtain w1 where w1: "set_err t ERR_CONN_NOT_EXIST w = Some w1" "w_tasks w1 t \<noteq> None" "w_handles w1 = w_handles w" using e by blast
    with finish_ok [OF w1(2)] t None show ?thesis by (auto simp: run_task_def)
  next
    case (Some conn)
    then have "w_handles w conn \<noteq> None"
      using b by (force simp: sl_conn_find_def smap_find_in_iff sv_base_def conns_ok_def)
    then obtain hc where hc: "w_handles w conn = Some hc" by blast
    show ?thesis
    proof (cases "io_write i conn")
      case (W_Err r)
      obtain w1 where w1: "set_err t r w = Some w1" "w_tasks w1 t \<noteq> None" "w_handles w1 = w_handles w" using e by blast
      with finish_ok [OF w1(2)] t Some W_Err hc show ?thesis by (auto simp: run_task_def do_write_def pkg_type_of_def)
    next
      case W_Sent
      then show ?thesis using t Some hc by (simp add: run_task_def do_write_def pkg_type_of_def emit_def)
    qed (use i in blast)
  qed
qed

lemma resp_async_ok:
  assumes b: "sv_base w" and r: "sl_running (w_sl w)" and p: "spend w a t" and t: "resp_task w t" and i: "\<forall>c. io_write i c \<noteq> W_Partial"
  shows "async_cb a i w \<noteq> None"
proof -
  from p obtain h where h: "w_handles w a = Some h" "h_loop h = SERVER_LOOP" "h_kind h = UV_ASYNC t" by (auto simp: spend_def)
  from resp_run_ok [OF b t i] obtain w' where w': "run_task SERVER_LOOP t i w = Some w'" "w_handles w' = w_handles w" by blast
  have "inited_of SERVER_LOOP w" using b by (simp add: sv_base_def inited_of_def)
  with r h w' show ?thesis by (simp add: async_cb_def running_of_def safe_uv_close_def)
qed

section \<open>Requests are not lost\<close>

section \<open>A request through the server\<close>

text \<open>A connection of the server that is open and waits for a new packet.\<close>

definition open_conn :: "world \<Rightarrow> addr \<Rightarrow> tcp_conn \<Rightarrow> bool" where
  "open_conn w a c \<longleftrightarrow> (\<exists>h. w_handles w a = Some h \<and> h_loop h = SERVER_LOOP \<and> h_active h \<and> h_kind h = UV_TCP (Some c))
     \<and> sl_conn_find (tc_connId c) w = Some a \<and> tcp_ok (tc_tcp c) \<and> pending (tc_tcp c) = []"

lemma request_read:
  assumes o: "open_conn w a c" and l: "int (length d) + 18 \<le> INT_MAX" and b: "sv_base w"
  shows "\<exists>w1 c1. read_cb a (int (18 + length d)) (pkg_bytes (proto_build_package d (int (length d)) PKG_TYPE_COMMON tid)) w
      = server_handler_req (tc_connId c) tid d w1
    \<and> skeeps w w1 \<and> open_conn w1 a c1 \<and> tc_connId c1 = tc_connId c \<and> w_tasks w1 = w_tasks w \<and> w_brk w1 = w_brk w \<and> w_sl w1 = w_sl w \<and> w_out w1 = w_out w"
proof -
  let ?p = "proto_build_package d (int (length d)) PKG_TYPE_COMMON tid"
  from o obtain h where h: "w_handles w a = Some h" "h_loop h = SERVER_LOOP" "h_active h" "h_kind h = UV_TCP (Some c)"
    and f: "sl_conn_find (tc_connId c) w = Some a" "tcp_ok (tc_tcp c)" "pending (tc_tcp c) = []" by (auto simp: open_conn_def)
  obtain tcp where tcp: "read_content_parse (tc_tcp c) (int (18 + length d)) (pkg_bytes ?p) = Some (tcp, [?p])" "tcp_ok tcp" "pending tcp = []"
    using one_pkg_parse [OF f(2,3) l] by blast
  define w1 where "w1 = set_handle a (Some (h\<lparr>h_kind := UV_TCP (Some (c\<lparr>tc_tcp := tcp\<rparr>))\<rparr>)) w"
  have s: "set_conn a (c\<lparr>tc_tcp := tcp\<rparr>) w = Some w1" by (simp add: set_conn_def h w1_def)
  have g: "get_conn a w = Some c" by (simp add: get_conn_def h)
  have k: "skeeps w w1" by (rule skeeps_set_conn [OF b g _ _ s]) (simp_all add: parse_kind [OF tcp(1)])
  have e: "w_tasks w1 = w_tasks w" "w_brk w1 = w_brk w" "w_sl w1 = w_sl w" "w_out w1 = w_out w" by (simp_all add: w1_def set_handle_def)
  have f1: "sl_conn_find (tc_connId c) w1 = Some a" using f(1) by (simp add: sl_conn_find_def e)
  have "open_conn w1 a (c\<lparr>tc_tcp := tcp\<rparr>)" using h f1 tcp(2,3) by (simp add: open_conn_def w1_def set_handle_def)
  moreover have "pkg_type ?p = PKG_TYPE_COMMON" "pkg_taskId ?p = tid" "pkg_data ?p = d" by (simp_all add: proto_build_package_def)
  then have "read_cb a (int (18 + length d)) (pkg_bytes ?p) w = server_handler_req (tc_connId c) tid d w1"
    using h g s tcp(1) f1
    by (cases "server_handler_req (tc_connId c) tid d w1") (simp_all add: read_cb_def read_content_process_def server_pkg_def)
  ultimately show ?thesis using k e by (intro exI [of _ w1] exI [of _ "c\<lparr>tc_tcp := tcp\<rparr>"]) simp
qed

lemma request_queued:
  assumes o: "open_conn w a c" and l: "int (length d) + 18 \<le> INT_MAX" and b: "sv_base w" and j: "length (jobs (pool_of w)) \<le> 64"
  shows "\<exists>w' c' p. read_cb a (int (18 + length d)) (pkg_bytes (proto_build_package d (int (length d)) PKG_TYPE_COMMON tid)) w = Some w'
    \<and> jobs p = jobs (pool_of w) @ [\<lparr>tp_data = of_nat (w_brk w), tp_proc = SVR_WORK_CB, tp_after = 0\<rparr>] \<and> pcs p = broadcast (pcs (pool_of w))
    \<and> thread_num p = thread_num (pool_of w) \<and> exit_sem p = exit_sem (pool_of w) \<and> sv_pool_ok p \<and> w_sl w' = w_sl w\<lparr>sl_pool := p\<rparr>
    \<and> w_tasks w' = (w_tasks w)(w_brk w \<mapsto> resp_of (tc_connId c) tid d) \<and> w_brk w' = Suc (w_brk w) \<and> w_out w' = w_out w
    \<and> open_conn w' a c' \<and> tc_connId c' = tc_connId c"
proof -
  from request_read [OF o l b, of tid] obtain w1 c1 where
    r: "read_cb a (int (18 + length d)) (pkg_bytes (proto_build_package d (int (length d)) PKG_TYPE_COMMON tid)) w = server_handler_req (tc_connId c) tid d w1"
    and w1: "open_conn w1 a c1" "tc_connId c1 = tc_connId c" "w_tasks w1 = w_tasks w" "w_brk w1 = w_brk w" "w_sl w1 = w_sl w" "w_out w1 = w_out w"
    by blast
  have ok: "sv_pool_ok (pool_of w1)" using b w1(5) by (simp add: sv_base_def)
  obtain p where p: "threadpool_push_work (of_nat (w_brk w1)) SVR_WORK_CB 0 (pool_of w1) = Some (0, p)" "sv_pool_ok p"
    "jobs p = jobs (pool_of w1) @ [\<lparr>tp_data = of_nat (w_brk w1), tp_proc = SVR_WORK_CB, tp_after = 0\<rparr>]"
    "pcs p = broadcast (pcs (pool_of w1))" "thread_num p = thread_num (pool_of w1)" "exit_sem p = exit_sem (pool_of w1)"
    using push_sv_pool [OF ok] j w1(5) by metis
  have "server_handler_req (tc_connId c) tid d w1 = Some (queued (tc_connId c) tid d p w1)" using j w1(5) p(1) by (simp add: handler_req [OF ok])
  moreover have "open_conn (queued (tc_connId c) tid d p w1) a c1" using w1(1) by (simp add: open_conn_def queued_def sl_conn_find_def)
  ultimately show ?thesis using r p w1
    by (intro exI [of _ "queued (tc_connId c) tid d p w1"] exI [of _ c1] exI [of _ p]) (simp add: queued_def)
qed

text \<open>A worker that waits for work takes the only job of the queue in three turns of its loop.\<close>

lemma set_pool_simps [simp]:
  "pool_of (set_pool p w) = p" "set_pool p (set_pool q w) = set_pool p w" "w_tasks (set_pool p w) = w_tasks w" "w_handles (set_pool p w) = w_handles w"
  "w_brk (set_pool p w) = w_brk w" "w_out (set_pool p w) = w_out w" "sl_running (w_sl (set_pool p w)) = sl_running (w_sl w)"
  "sl_inited (w_sl (set_pool p w)) = sl_inited (w_sl w)" "sl_work_cb (w_sl (set_pool p w)) = sl_work_cb (w_sl w)"
  "sl_conn_find k (set_pool p w) = sl_conn_find k w"
  by (simp_all add: set_pool_def sl_conn_find_def)

lemma worker_takes:
  assumes r: "sl_running (w_sl w)" and ok: "sv_pool_ok (pool_of w)" and i: "i < thread_num (pool_of w)"
    and pc: "pcs (pool_of w) i = W_Relock" and e: "exit_sem (pool_of w) = 0" and j: "jobs (pool_of w) = [p]"
  shows "\<exists>s. sv_reach (w, b) (set_pool s w, b) \<and> pcs s i = W_Run p \<and> thread_num s = thread_num (pool_of w)"
proof -
  let ?s = "pool_of w"
  define s1 where "s1 = ?s\<lparr>pcs := (pcs ?s)(i := W_Check)\<rparr>"
  define s2 where "s2 = ?s\<lparr>pcs := (pcs ?s)(i := W_Lock)\<rparr>"
  have t1: "thread_func i ?s = Step s1" by (simp add: thread_func_def pc s1_def)
  have t2: "thread_func i s1 = Step s2" by (simp add: thread_func_def s1_def s2_def e)
  have "jobs_ok (queue s2, store s2)" "jobs s2 = p # []" "pcs s2 i = W_Lock"
    using ok j by (simp_all add: s2_def sv_pool_ok_def pool_ok_def jobs_def)
  from lock_step_job [OF this] obtain q m where t3: "thread_func i s2 = Step (s2\<lparr>queue := q, store := m, pcs := (pcs s2)(i := W_Run p)\<rparr>)"
    by blast
  define s3 where "s3 = s2\<lparr>queue := q, store := m, pcs := (pcs s2)(i := W_Run p)\<rparr>"
  have u1: "sv_step (w, b) (set_pool s1 w, b)" by (rule sv_worker [OF r i _ t1]) (simp add: pc)
  have u2: "sv_step (set_pool s1 w, b) (set_pool s2 (set_pool s1 w), b)"
    by (rule sv_worker [of _ i]) (use r i t2 in \<open>simp_all add: s1_def\<close>)
  have u3: "sv_step (set_pool s2 w, b) (set_pool s3 (set_pool s2 w), b)"
    by (rule sv_worker [of _ i]) (use r i t3 in \<open>simp_all add: s2_def s3_def\<close>)
  have "sv_reach (w, b) (set_pool s3 w, b)"
    using reach_step [OF reach_step [OF reach_step [OF reach_start [of sv_step "(w, b)"] u1] u2 [simplified]] u3 [simplified]] .
  moreover have "pcs s3 i = W_Run p" "thread_num s3 = thread_num ?s" by (simp_all add: s3_def s2_def)
  ultimately show ?thesis by blast
qed

lemma answered:
  assumes t: "w_tasks w t = Some (resp_of k tid d)" and r: "sl_running (w_sl w)" "sl_inited (w_sl w)" and f: "sl_work_cb (w_sl w) = Some f"
    and o: "sl_conn_find k w = Some conn" "w_handles w conn \<noteq> None" "conn \<noteq> w_brk w" and i: "io_write i conn = W_Sent"
  shows "\<exists>w1 w2. svr_work_cb t w = Some w1 \<and> spend w1 (w_brk w) t \<and> async_cb (w_brk w) i w1 = Some w2
    \<and> w_out w2 = w_out w @ [E_Send conn (pkg_bytes (proto_build_package (f d) (int (length (f d))) PKG_TYPE_COMMON tid))]"
proof -
  let ?a = "w_brk w"
  let ?h = "\<lparr>h_loop = SERVER_LOOP, h_kind = UV_ASYNC t, h_closing = False, h_active = True\<rparr>"
  define w1 where "w1 = w\<lparr>w_handles := (w_handles w)(?a \<mapsto> ?h), w_tasks := (w_tasks w)(t \<mapsto> resp_of k tid (f d)), w_brk := Suc ?a\<rparr>"
  have s: "svr_work_cb t w = Some w1"
    using t r f by (simp add: svr_work_cb_def resp_of_def sl_create_async_def new_async_def new_handle_def async_submit_def set_handle_def set_task_def w1_def)
  obtain hc where hc: "w_handles w1 conn = Some hc" using o(2,3) by (auto simp: w1_def)
  define w2 where "w2 = emit (E_Send conn (pkg_bytes (proto_build_package (f d) (int (length (f d))) PKG_TYPE_COMMON tid))) (w1\<lparr>w_writes := w_writes w1 @ [(conn, t)]\<rparr>)"
  have wt: "w_tasks w1 t = Some (resp_of k tid (f d))" and cf: "sl_conn_find k w1 = Some conn" using o(1) by (simp_all add: w1_def sl_conn_find_def)
  have "run_task SERVER_LOOP t i w1 = Some w2"
    using wt cf hc i by (simp add: run_task_def do_write_def resp_of_def pkg_type_of_def w2_def)
  moreover have "w_handles w1 ?a = Some ?h" "w_handles w2 ?a = Some ?h" by (simp_all add: w1_def w2_def emit_def)
  ultimately have "async_cb ?a i w1 = Some (set_handle ?a (Some (?h\<lparr>h_closing := True, h_active := False\<rparr>)) w2)"
    using r by (simp add: async_cb_def running_of_def inited_of_def safe_uv_close_def w1_def)
  moreover have "spend w1 ?a t" by (simp add: spend_def w1_def)
  ultimately show ?thesis using s by (auto simp: set_handle_def w2_def emit_def w1_def)
qed

lemma serve:
  assumes inv: "sv_inv (w, b)" and r: "sl_running (w_sl w)" and f: "sl_work_cb (w_sl w) = Some f" and o: "open_conn w conn c"
    and i: "i < thread_num (pool_of w)" "pcs (pool_of w) i = W_Wait" "exit_sem (pool_of w) = 0" "jobs (pool_of w) = []"
    and l: "int (length d) + 18 \<le> INT_MAX" and m: "w_brk w < 2 ^ 64" and io: "io_write j conn = W_Sent"
  shows "\<exists>w1 w2 p w3 a w4. read_cb conn (int (18 + length d)) (pkg_bytes (proto_build_package d (int (length d)) PKG_TYPE_COMMON tid)) w = Some w1
    \<and> sv_reach (w1, b) (w2, b) \<and> pcs (pool_of w2) i = W_Run p \<and> svr_work_cb (job_task p) w2 = Some w3 \<and> spend w3 a (job_task p)
    \<and> async_cb a j w3 = Some w4
    \<and> w_out w4 = w_out w @ [E_Send conn (pkg_bytes (proto_build_package (f d) (int (length (f d))) PKG_TYPE_COMMON tid))]"
proof -
  have b: "sv_base w" using inv by (simp add: sv_inv_def)
  let ?t = "w_brk w"
  let ?p = "\<lparr>tp_data = of_nat ?t, tp_proc = SVR_WORK_CB, tp_after = 0\<rparr>"
  have jt: "job_task ?p = ?t" using m by (simp add: job_task_def unsigned_of_nat take_bit_nat_eq_self)
  from request_queued [OF o l b, of tid] i(4) obtain w1 c' s where
    r1: "read_cb conn (int (18 + length d)) (pkg_bytes (proto_build_package d (int (length d)) PKG_TYPE_COMMON tid)) w = Some w1"
    and s: "jobs s = [?p]" "pcs s = broadcast (pcs (pool_of w))" "thread_num s = thread_num (pool_of w)" "exit_sem s = exit_sem (pool_of w)"
      "sv_pool_ok s" "w_sl w1 = w_sl w\<lparr>sl_pool := s\<rparr>"
    and t: "w_tasks w1 = (w_tasks w)(?t \<mapsto> resp_of (tc_connId c) tid d)" "w_brk w1 = Suc ?t" "w_out w1 = w_out w"
    and c': "open_conn w1 conn c'" "tc_connId c' = tc_connId c" by auto
  from worker_takes [of w1 i ?p b] s r i obtain s2 where s2: "sv_reach (w1, b) (set_pool s2 w1, b)" "pcs s2 i = W_Run ?p"
    by (auto simp: broadcast_def)
  let ?w2 = "set_pool s2 w1"
  have cf: "sl_conn_find (tc_connId c) ?w2 = Some conn" "w_handles ?w2 conn \<noteq> None" using c' by (auto simp: open_conn_def)
  have "conn < ?t" using live_lt [OF base_heap [OF b], of conn] o by (auto simp: open_conn_def)
  then have ne: "conn \<noteq> w_brk ?w2" by (simp add: t)
  have "sl_running (w_sl ?w2)" "sl_inited (w_sl ?w2)" "sl_work_cb (w_sl ?w2) = Some f" "w_tasks ?w2 ?t = Some (resp_of (tc_connId c) tid d)"
    using r b f by (simp_all add: s(6) t sv_base_def)
  from answered [OF this(4,1,2,3) cf ne io] r1 s2 t(3) jt show ?thesis by (metis set_pool_simps(1,6))
qed

section \<open>A remote call\<close>

text \<open>C3. A remote call, through both programs. A client of the library and a server whose function is \<open>f\<close> have
  a connection to each other on which nothing is pending, and a worker of the server waits for work.
  Then \<^verbatim>\<open>ssn_send\<close> writes bytes that make the server queue a request, a worker of the server runs \<open>f\<close> on
  exactly the data sent, the server's loop writes bytes back, and with these the call of the client
  returns 0 and exactly what \<open>f\<close> computed.\<close>

theorem rpc_end_to_end:
  assumes "api_run pb cb n g w" "n < 2 ^ 64" "cl_running (w_cl w)" "cl_conn_find connId w = Some conn"
    "w_handles w conn = Some h" "h_loop h = CLIENT_LOOP" "h_kind h = UV_TCP (Some c)" "tcp_ok (tc_tcp c)" "pending (tc_tcp c) = []"
    "cl_timer_find g w = None" "io_write i conn = W_Sent" "d \<noteq> []"
    and "ssn_startup_server fs k r1 r2 r3 boot = Some (0, s0)" "sv_reach (s0, []) (s, b)" "sl_running (w_sl s)"
    "sl_work_cb (w_sl s) = Some f" "open_conn s sconn sc" "j < thread_num (pool_of s)" "pcs (pool_of s) j = W_Wait"
    "exit_sem (pool_of s) = 0" "jobs (pool_of s) = []" "w_brk s < 2 ^ 64" "io_write i' sconn = W_Sent"
    and "int (length d) + 18 \<le> INT_MAX" "int (length (f d)) + 18 \<le> INT_MAX"
  shows "\<exists>a t req w1 w2 w3 w4 s1 s2 p s3 a' s4 ans.
      ssn_send connId (Some d) (int (length d)) True timeout junk g w = Some (Wait t, g + 1, w1)
    \<and> pend w1 a t \<and> async_cb a i w1 = Some w2 \<and> w_out w2 = w_out w @ [E_Send conn req]
    \<and> write_cb conn t 0 (w2\<lparr>w_writes := remove1 (conn, t) (w_writes w2)\<rparr>) = Some w3
    \<and> read_cb sconn (int (length req)) req s = Some s1 \<and> sv_reach (s1, b) (s2, b) \<and> pcs (pool_of s2) j = W_Run p
    \<and> svr_work_cb (job_task p) s2 = Some s3 \<and> spend s3 a' (job_task p) \<and> async_cb a' i' s3 = Some s4 \<and> w_out s4 = w_out s @ [E_Send sconn ans]
    \<and> read_cb conn (int (length ans)) ans w3 = Some w4 \<and> w_out w4 = w_out w2 @ [E_Notify t 0 (f d)]
    \<and> async_send_end 0 (f d) = Some (0, Some (f d, int (length (f d))))"
proof -
  let ?req = "pkg_bytes (proto_build_package d (int (length d)) PKG_TYPE_COMMON g)"
  let ?ans = "pkg_bytes (proto_build_package (f d) (int (length (f d))) PKG_TYPE_COMMON g)"
  have R: "cl_reach (started pb cb) w" "ids_ok n g w" using api_run_inv [OF assms(1)] assms(2) by simp_all
  obtain a t w1 w2 where q: "ssn_send connId (Some d) (int (length d)) True timeout junk g w = Some (Wait t, g + 1, w1)"
    "pend w1 a t" "async_cb a i w1 = Some w2" "cl_inv None w2" "w_writes w2 = w_writes w @ [(conn, t)]"
    "w_out w2 = w_out w @ [E_Send conn ?req]" "w_handles w2 conn = Some h"
    "w_tasks w2 t = Some (stack_task junk g (RW timeout connId d))" "cl_task_find g w2 = Some t"
    "cl_timerTable (w_cl w2) = cl_timerTable (w_cl w)"
    using rpc_request [OF cl_reach_inv [OF R(1) boot_inv] ids_fresh [OF R(2) assms(2)] assms(3-7,11,12), of timeout junk] by blast
  have tf: "cl_timer_find g w2 = None" using assms(10) q(10) by (simp add: cl_timer_find_def)
  have wr: "(conn, t) \<in> set (w_writes w2)" by (simp add: q(5))
  obtain w3 where w3: "write_cb conn t 0 (w2\<lparr>w_writes := remove1 (conn, t) (w_writes w2)\<rparr>) = Some w3"
    "rpc_waiting g t conn c w3" "w_out w3 = w_out w2"
    using rpc_written [OF q(4) wr q(7) assms(6,7) q(8) _ _ q(9) tf] by (auto simp: stack_task_def)
  obtain w4 where w4: "read_cb conn (int (18 + length (f d))) ?ans w3 = Some w4" "w_out w4 = w_out w3 @ [E_Notify t 0 (f d)]"
    using answer_read [OF w3(2) assms(8,9,25)] by blast
  have sinv: "sv_inv (s, b)" using sv.reach_inv [OF assms(14) startup_inv [OF assms(13)]] .
  obtain s1 s2 p s3 a' s4 where s: "read_cb sconn (int (18 + length d)) ?req s = Some s1" "sv_reach (s1, b) (s2, b)"
    "pcs (pool_of s2) j = W_Run p" "svr_work_cb (job_task p) s2 = Some s3" "spend s3 a' (job_task p)" "async_cb a' i' s3 = Some s4"
    "w_out s4 = w_out s @ [E_Send sconn ?ans]"
    using serve [OF sinv assms(15-21,24,22,23), of g] by blast
  have le: "length ?req = 18 + length d" "length ?ans = 18 + length (f d)" by (simp_all add: proto_build_package_def)
  have e: "async_send_end 0 (f d) = Some (0, Some (f d, int (length (f d))))" using send_end_ok [of "f d"] assms(25) by simp
  show ?thesis
    apply (rule exI [of _ a], rule exI [of _ t], rule exI [of _ ?req], rule exI [of _ w1], rule exI [of _ w2], rule exI [of _ w3], rule exI [of _ w4])
    apply (rule exI [of _ s1], rule exI [of _ s2], rule exI [of _ p], rule exI [of _ s3], rule exI [of _ a'], rule exI [of _ s4], rule exI [of _ ?ans])
    using q(1-3,6) w3(1,3) w4 s e unfolding le by simp
qed

section \<open>A server that is full\<close>

text \<open>C40. A server with a full queue stops for good. With more than 64 jobs queued the push is refused, and
  the loop that should retry tests the result of the first push only: \<^verbatim>\<open>read_cb\<close> does not return for any
  request on any open connection, whatever the pool looks like in the turns of that loop, and each turn
  that finds room queues the same request once more.\<close>

theorem server_full_pool_hang:
  assumes "ssn_startup_server cb n r1 r2 r3 boot = Some (0, w0)" "sv_reach (w0, []) (w, b)" "open_conn w conn c"
    "64 < length (jobs (pool_of w))" "int (length d) + 18 \<le> INT_MAX"
  shows "read_cb conn (int (18 + length d)) (pkg_bytes (proto_build_package d (int (length d)) PKG_TYPE_COMMON tid)) w = None
    \<and> (\<forall>p. retry_push (-1) (of_nat (w_brk w)) p = None)
    \<and> (\<forall>p. sv_pool_ok p \<longrightarrow> length (jobs p) \<le> 64 \<longrightarrow> (\<exists>p'. threadpool_push_work (of_nat (w_brk w)) SVR_WORK_CB 0 p = Some (0, p')
         \<and> jobs p' = jobs p @ [\<lparr>tp_data = of_nat (w_brk w), tp_proc = SVR_WORK_CB, tp_after = 0\<rparr>]))"
proof -
  have b: "sv_base w" using sv.reach_inv [OF assms(2) startup_inv [OF assms(1)]] by (simp add: sv_inv_def)
  from request_read [OF assms(3,5) b, of tid] obtain w1 where
    r: "read_cb conn (int (18 + length d)) (pkg_bytes (proto_build_package d (int (length d)) PKG_TYPE_COMMON tid)) w = server_handler_req (tc_connId c) tid d w1"
    and w1: "w_sl w1 = w_sl w" by blast
  have "server_handler_req (tc_connId c) tid d w1 = None"
    using b assms(4) by (simp add: handler_req sv_base_def w1)
  with r retry_push_stuck push_sv_pool show ?thesis by metis
qed

section \<open>Examples\<close>

text \<open>A server with one worker and one connection; the worker has found the queue empty and waits.\<close>

definition sample_start :: "world option" where
  "sample_start = do { (r, w) \<leftarrow> ssn_startup_server (Some rev) 1 0 0 0 boot; if r = 0 then Some w else None }"

definition turn :: "world \<Rightarrow> world option" where
  "turn w = (case thread_func 0 (pool_of w) of Step p \<Rightarrow> Some (set_pool p w) | _ \<Rightarrow> None)"

definition sample_server :: "world option" where
  "sample_server = do { w \<leftarrow> sample_start; w1 \<leftarrow> listen_cb 0 sample_io w; w2 \<leftarrow> turn w1; turn w2 }"

lemma sample_eval:
  "map_option (\<lambda>w. (map_option h_active (w_handles w (sl_listen (w_sl w))))) sample_start = Some (Some True)"
  "map_option (\<lambda>w. (sl_running (w_sl w), thread_num (pool_of w), pcs (pool_of w) 0)) (Option.bind sample_start (listen_cb 0 sample_io)) = Some (True, 1, W_Check)"
  "map_option (\<lambda>w. (sl_running (w_sl w), thread_num (pool_of w), pcs (pool_of w) 0)) (Option.bind (Option.bind sample_start (listen_cb 0 sample_io)) turn) = Some (True, 1, W_Lock)"
  "map_option (\<lambda>w. (sl_running (w_sl w), thread_num (pool_of w), pcs (pool_of w) 0, exit_sem (pool_of w), jobs (pool_of w), w_brk w,
     map_option (\<lambda>h. (h_loop h, h_active h, h_kind h)) (w_handles w 2), sl_conn_find 1 w)) sample_server
   = Some (True, 1, W_Wait, 0, [], 3, Some (SERVER_LOOP, True, UV_TCP (Some \<lparr>tc_connId = 1, tc_tcp = fresh_tcp, tc_ip = ''10.0.0.2'', tc_port = -1\<rparr>)), Some 2)"
  by code_simp+

lemma turn_step:
  "turn w = Some w' \<Longrightarrow> sl_running (w_sl w) \<Longrightarrow> thread_num (pool_of w) = 1 \<Longrightarrow> \<forall>p. pcs (pool_of w) 0 \<noteq> W_Run p \<Longrightarrow> sv_step (w, b) (w', b)"
  using sv_worker [of w 0] by (auto simp: turn_def split: outcome.splits)

lemma sample_reach:
  obtains w0 w f c where "ssn_startup_server (Some rev) 1 0 0 0 boot = Some (0, w0)" "sv_reach (w0, []) (w, [])" "sl_running (w_sl w)"
    "sl_work_cb (w_sl w) = Some f" "f [7, 8] = [8, 7]" "open_conn w 2 c" "thread_num (pool_of w) = 1" "pcs (pool_of w) 0 = W_Wait"
    "exit_sem (pool_of w) = 0" "jobs (pool_of w) = []" "w_brk w = 3"
proof -
  have cb: "map_option (\<lambda>w. map_option (\<lambda>f. f [7, 8]) (sl_work_cb (w_sl w))) sample_server = Some (Some [8, 7])" by code_simp
  from sample_eval(1) obtain w0 where w0: "sample_start = Some w0" by auto
  then have st: "ssn_startup_server (Some rev) 1 0 0 0 boot = Some (0, w0)"
    by (auto simp: sample_start_def Option.bind_eq_Some_conv split: if_splits)
  from sample_eval(2) obtain w1 where w1: "listen_cb 0 sample_io w0 = Some w1" "sl_running (w_sl w1)" "thread_num (pool_of w1) = 1"
    "pcs (pool_of w1) 0 = W_Check" by (auto simp: w0)
  from sample_eval(3) obtain w2 where w2: "turn w1 = Some w2" "sl_running (w_sl w2)" "thread_num (pool_of w2) = 1"
    "pcs (pool_of w2) 0 = W_Lock" by (auto simp: w0 w1(1))
  from sample_eval(4) obtain w h where w: "turn w2 = Some w" "sl_running (w_sl w)" "thread_num (pool_of w) = 1" "pcs (pool_of w) 0 = W_Wait"
    "exit_sem (pool_of w) = 0" "jobs (pool_of w) = []" "w_brk w = 3" "sl_conn_find 1 w = Some 2" "w_handles w 2 = Some h" "h_loop h = SERVER_LOOP" "h_active h"
    "h_kind h = UV_TCP (Some \<lparr>tc_connId = 1, tc_tcp = fresh_tcp, tc_ip = ''10.0.0.2'', tc_port = -1\<rparr>)"
    by (auto simp: sample_server_def w0 w1(1) w2(1))
  from cb obtain f where f: "sl_work_cb (w_sl w) = Some f" "f [7, 8] = [8, 7]" by (auto simp: sample_server_def w0 w1(1) w2(1) w(1))
  have a: "sv_step (w0, []) (w1, [])" using sv_accept [OF _ _ w1(1)] sample_eval(1) by (auto simp: w0)
  have "sv_step (w1, []) (w2, [])" "sv_step (w2, []) (w, [])" using turn_step w1 w2 w(1) by simp_all
  then have "sv_reach (w0, []) (w, [])" using reach_step [OF reach_step [OF reach_step [OF reach_start [of sv_step "(w0, [])"] a]]] by blast
  moreover have "open_conn w 2 \<lparr>tc_connId = 1, tc_tcp = fresh_tcp, tc_ip = ''10.0.0.2'', tc_port = -1\<rparr>" using w by (simp add: open_conn_def)
  ultimately show ?thesis using that [OF st] w f by blast
qed

text \<open>Requests that nobody works on fill the queue.\<close>

lemma request_step:
  assumes "sv_inv (w, b)" "open_conn w a c" "length (jobs (pool_of w)) \<le> 64" "w_brk w < 2 ^ 64"
  shows "\<exists>w' c'. sv_step (w, b) (w', b) \<and> open_conn w' a c' \<and> length (jobs (pool_of w')) = Suc (length (jobs (pool_of w))) \<and> w_brk w' = Suc (w_brk w)"
proof -
  have b: "sv_base w" and l: "int (length ([] :: byte list)) + 18 \<le> INT_MAX" using assms(1) by (simp_all add: sv_inv_def)
  from request_queued [OF assms(2) l b assms(3), of 0] obtain w' c' p where
    r: "read_cb a (int (18 + length ([] :: byte list))) (pkg_bytes (proto_build_package [] (int (length ([] :: byte list))) PKG_TYPE_COMMON 0)) w = Some w'"
    and p: "jobs p = jobs (pool_of w) @ [\<lparr>tp_data = of_nat (w_brk w), tp_proc = SVR_WORK_CB, tp_after = 0\<rparr>]" "w_sl w' = w_sl w\<lparr>sl_pool := p\<rparr>"
      "w_brk w' = Suc (w_brk w)" "open_conn w' a c'" by blast
  from assms(2) obtain h where h: "w_handles w a = Some h" "h_loop h = SERVER_LOOP" "h_kind h = UV_TCP (Some c)" "h_active h"
    by (auto simp: open_conn_def)
  have "sv_step (w, b) (w', b)" by (rule sv_read [OF h r]) (use p(3) assms(4) in simp)
  with p show ?thesis by (intro exI [of _ w'] exI [of _ c']) simp
qed

lemma fill_queue:
  assumes "ssn_startup_server cb n r1 r2 r3 boot = Some (0, w0)" "sv_reach (w0, []) (w, b)" "open_conn w a c" "jobs (pool_of w) = []"
  shows "k \<le> 65 \<Longrightarrow> w_brk w + k \<le> 2 ^ 64 \<Longrightarrow>
    \<exists>w' c'. sv_reach (w0, []) (w', b) \<and> open_conn w' a c' \<and> length (jobs (pool_of w')) = k \<and> w_brk w' = w_brk w + k"
proof (induction k)
  case 0
  then show ?case using assms by force
next
  case (Suc k)
  then obtain w1 c1 where w1: "sv_reach (w0, []) (w1, b)" "open_conn w1 a c1" "length (jobs (pool_of w1)) = k" "w_brk w1 = w_brk w + k" by auto
  have inv: "sv_inv (w1, b)" using sv.reach_inv [OF w1(1) startup_inv [OF assms(1)]] .
  from request_step [OF inv w1(2)] w1(3,4) Suc.prems obtain w2 c2 where
    "sv_step (w1, b) (w2, b)" "open_conn w2 a c2" "length (jobs (pool_of w2)) = Suc k" "w_brk w2 = w_brk w + Suc k" by auto
  with reach_step [OF w1(1)] show ?case by blast
qed


theorem rpc_end_to_end_witness:
  "\<exists>w s a t req w1 w2 w3 w4 s1 ans. api_run True True 1 1 w
    \<and> ssn_send 1 (Some [7, 8]) 2 True 500 77 1 w = Some (Wait t, 2, w1) \<and> async_cb a sample_io w1 = Some w2 \<and> w_out w2 = w_out w @ [E_Send 4 req]
    \<and> write_cb 4 t 0 (w2\<lparr>w_writes := remove1 (4, t) (w_writes w2)\<rparr>) = Some w3
    \<and> read_cb 2 (int (length req)) req s = Some s1
    \<and> read_cb 4 (int (length ans)) ans w3 = Some w4 \<and> w_out w4 = w_out w2 @ [E_Notify t 0 [8, 7]]"
proof -
  from sample_session_eval obtain w h c where q: "sample_session = Some (1, w)" "cl_running (w_cl w)" "cl_conn_find 1 w = Some 4"
    "cl_timer_find 1 w = None" "w_handles w 4 = Some h" "h_loop h = CLIENT_LOOP" "h_kind h = UV_TCP (Some c)" "tc_tcp c = fresh_tcp"
    by auto
  note r = sample_session_run [OF q(1)]
  obtain w0 s f c' where s: "ssn_startup_server (Some rev) 1 0 0 0 boot = Some (0, w0)" "sv_reach (w0, []) (s, [])" "sl_running (w_sl s)"
    "sl_work_cb (w_sl s) = Some f" "f [7, 8] = [8, 7]" "open_conn s 2 c'" "thread_num (pool_of s) = 1" "pcs (pool_of s) 0 = W_Wait"
    "exit_sem (pool_of s) = 0" "jobs (pool_of s) = []" "w_brk s = 3" by (rule sample_reach)
  have "tcp_ok (tc_tcp c)" "pending (tc_tcp c) = []" "io_write sample_io x = W_Sent" "0 < thread_num (pool_of s)" "w_brk s < 2 ^ 64" for x
    using s(7,11) by (simp_all add: q(8) sample_io_def)
  note m = this
  obtain a t req w1 w2 w3 w4 s1 ans where
    "ssn_send 1 (Some [7, 8]) 2 True 500 77 1 w = Some (Wait t, 2, w1)" "async_cb a sample_io w1 = Some w2" "w_out w2 = w_out w @ [E_Send 4 req]"
    "write_cb 4 t 0 (w2\<lparr>w_writes := remove1 (4, t) (w_writes w2)\<rparr>) = Some w3" "read_cb 2 (int (length req)) req s = Some s1"
    "read_cb 4 (int (length ans)) ans w3 = Some w4" "w_out w4 = w_out w2 @ [E_Notify t 0 [8, 7]]"
    using rpc_end_to_end [OF r _ q(2,3,5,6,7) m(1,2) q(4) m(3) _ s(1-4,6) m(4) s(8-10) m(5,3), of "[7, 8]" 500 77] s(5) by auto
  with r show ?thesis by blast
qed

theorem server_full_pool_hang_witness:
  "\<exists>w0 w c. ssn_startup_server (Some rev) 1 0 0 0 boot = Some (0, w0) \<and> sv_reach (w0, []) (w, []) \<and> open_conn w 2 c
    \<and> length (jobs (pool_of w)) = 65 \<and> read_cb 2 19 (pkg_bytes (proto_build_package [5] 1 PKG_TYPE_COMMON 9)) w = None"
proof -
  obtain w0 w f c where s: "ssn_startup_server (Some rev) 1 0 0 0 boot = Some (0, w0)" "sv_reach (w0, []) (w, [])" "sl_running (w_sl w)"
    "sl_work_cb (w_sl w) = Some f" "f [7, 8] = [8, 7]" "open_conn w 2 c" "thread_num (pool_of w) = 1" "pcs (pool_of w) 0 = W_Wait"
    "exit_sem (pool_of w) = 0" "jobs (pool_of w) = []" "w_brk w = 3" by (rule sample_reach)
  from fill_queue [OF s(1,2,6,10), of 65] s(11) obtain w' c' where
    w': "sv_reach (w0, []) (w', [])" "open_conn w' 2 c'" "length (jobs (pool_of w')) = 65" by auto
  from server_full_pool_hang [OF s(1) w'(1,2), of "[5]" 9] w' s(1) show ?thesis by auto
qed

end
