(* ===== verification/Inet.thy ===== *)
theory Inet
  imports Ssn_Prelude
begin

text \<open>
  Internet addresses as text (\<^verbatim>\<open>third/libuv/src/inet.c\<close> and the address functions of
  \<^verbatim>\<open>uv-common.c\<close>), which the discovery code uses for every address it takes from a datagram. A C string
  is the list of its characters before the terminator. An access outside a buffer has no result
  (\<open>None\<close>); \<open>Inl\<close> is an error code, \<open>Inr\<close> what the function wrote to its output.
\<close>

section \<open>Codes and buffers\<close>

definition UV_EINVAL :: int where "UV_EINVAL = -22"
definition UV_ENOSPC :: int where "UV_ENOSPC = -28"
definition UV_EAFNOSUPPORT :: int where "UV_EAFNOSUPPORT = -97"
definition AF_INET :: int where "AF_INET = 2"
definition AF_INET6 :: int where "AF_INET6 = 10"

lemmas inet_codes = UV_EINVAL_def UV_ENOSPC_def UV_EAFNOSUPPORT_def AF_INET_def AF_INET6_def

definition UV__INET_ADDRSTRLEN :: nat where "UV__INET_ADDRSTRLEN = 16"
definition UV__INET6_ADDRSTRLEN :: nat where "UV__INET6_ADDRSTRLEN = 46"

text \<open>\<^verbatim>\<open>strchr(s, ch) - s\<close> for a character other than the terminator.\<close>

fun str_index :: "string \<Rightarrow> char \<Rightarrow> nat option" where
  "str_index [] ch = None"
| "str_index (c # s) ch = (if c = ch then Some 0 else map_option Suc (str_index s ch))"

text \<open>\<^verbatim>\<open>%x\<close>.\<close>

definition hex_char :: "nat \<Rightarrow> char" where
  "hex_char d = (if d < 10 then char_of (48 + d) else char_of (87 + d))"

fun show_hex :: "nat \<Rightarrow> string" where
  "show_hex n = (if n < 16 then [hex_char n] else show_hex (n div 16) @ [hex_char (n mod 16)])"

declare show_hex.simps [simp del]

section \<open>IPv4\<close>

definition inet_ntop4 :: "byte list \<Rightarrow> nat \<Rightarrow> int + string" where
  "inet_ntop4 src sz =
     (let text = show_nat (unat (src ! 0)) @ ''.'' @ show_nat (unat (src ! 1)) @ ''.''
                 @ show_nat (unat (src ! 2)) @ ''.'' @ show_nat (unat (src ! 3));
          tmp = take (UV__INET_ADDRSTRLEN - 1) text;
          l = length text in
      if l \<le> 0 \<or> l \<ge> sz then Inl UV_ENOSPC
      else Inr (take (sz - 1) tmp))"

text \<open>The loop of \<^verbatim>\<open>inet_pton4\<close>. The bytes of \<open>tmp\<close> after \<open>tp\<close> are zeroed before they are read.\<close>

fun pton4_loop :: "string \<Rightarrow> bool \<Rightarrow> nat \<Rightarrow> nat \<Rightarrow> byte list \<Rightarrow> (int + byte list) option" where
  "pton4_loop [] saw_digit octets tp tmp =
     Some (if octets < 4 then Inl UV_EINVAL else Inr tmp)"
| "pton4_loop (ch # src) saw_digit octets tp tmp =
     (case str_index ''0123456789'' ch of
        Some d \<Rightarrow>
          if tp \<ge> length tmp then None
          else let nw = unat (tmp ! tp) * 10 + d in
            if saw_digit \<and> tmp ! tp = 0 then Some (Inl UV_EINVAL)
            else if nw > 255 then Some (Inl UV_EINVAL)
            else let tmp1 = tmp[tp := of_nat nw] in
              if \<not> saw_digit then
                if octets + 1 > 4 then Some (Inl UV_EINVAL) else pton4_loop src True (octets + 1) tp tmp1
              else pton4_loop src saw_digit octets tp tmp1
      | None \<Rightarrow>
          if ch = CHR ''.'' \<and> saw_digit then
            if octets = 4 then Some (Inl UV_EINVAL)
            else if tp + 1 \<ge> length tmp then None
            else pton4_loop src False octets (tp + 1) (tmp[tp + 1 := 0])
          else Some (Inl UV_EINVAL))"

definition inet_pton4 :: "string \<Rightarrow> (int + byte list) option" where
  "inet_pton4 src = pton4_loop src False 0 0 [0, 0, 0, 0]"

section \<open>IPv6\<close>

definition words_of :: "byte list \<Rightarrow> u32 list" where
  "words_of src = fold (\<lambda>i words. words[i div 2 := or (words ! (i div 2))
      (push_bit ((1 - i mod 2) * 8) (ucast (src ! i)))]) [0..<16] (replicate 8 0)"

text \<open>The longest run of zero words, as (base, length); base \<open>-1\<close> is none.\<close>

type_synonym run = "int \<times> int"

definition better :: "run \<Rightarrow> run \<Rightarrow> run" where
  "better best cur = (if fst best = -1 \<or> snd cur > snd best then cur else best)"

fun find_run :: "int \<Rightarrow> u32 list \<Rightarrow> run \<Rightarrow> run \<Rightarrow> run" where
  "find_run i [] best cur = (if fst cur \<noteq> -1 then better best cur else best)"
| "find_run i (w # ws) best cur =
     (if w = 0 then
        find_run (i + 1) ws best (if fst cur = -1 then (i, 1) else (fst cur, snd cur + 1))
      else if fst cur \<noteq> -1 then find_run (i + 1) ws (better best cur) (-1, snd cur)
      else find_run (i + 1) ws best cur)"

definition best_run :: "u32 list \<Rightarrow> run" where
  "best_run words = (let best = find_run 0 words (-1, 0) (-1, 0) in
     if fst best \<noteq> -1 \<and> snd best < 2 then (-1, snd best) else best)"

fun fmt6 :: "nat \<Rightarrow> int \<Rightarrow> run \<Rightarrow> u32 list \<Rightarrow> byte list \<Rightarrow> string \<Rightarrow> (int + string) option" where
  "fmt6 0 i best words src tmp = Some (Inr tmp)"
| "fmt6 (Suc k) i best words src tmp =
     (if fst best \<noteq> -1 \<and> i \<ge> fst best \<and> i < fst best + snd best then do {
        tmp1 \<leftarrow> (if i = fst best then put_text UV__INET6_ADDRSTRLEN 0 tmp '':'' else Some tmp);
        fmt6 k (i + 1) best words src tmp1 }
      else do {
        tmp1 \<leftarrow> (if i \<noteq> 0 then put_text UV__INET6_ADDRSTRLEN 0 tmp '':'' else Some tmp);
        if i = 6 \<and> fst best = 0 \<and> (snd best = 6 \<or> (snd best = 7 \<and> words ! 7 \<noteq> 1)
             \<or> (snd best = 5 \<and> words ! 5 = 0xffff)) then
          (case inet_ntop4 (drop 12 src) (UV__INET6_ADDRSTRLEN - length tmp1) of
             Inl err \<Rightarrow> Some (Inl err)
           | Inr s \<Rightarrow> Some (Inr (tmp1 @ s)))
        else do {
          tmp2 \<leftarrow> put_text UV__INET6_ADDRSTRLEN 1 tmp1 (show_hex (unat (words ! nat i)));
          fmt6 k (i + 1) best words src tmp2 } })"

definition inet_ntop6 :: "byte list \<Rightarrow> nat \<Rightarrow> (int + string) option" where
  "inet_ntop6 src sz =
     (let words = words_of src; best = best_run words in do {
        r \<leftarrow> fmt6 8 0 best words src [];
        case r of
          Inl err \<Rightarrow> Some (Inl err)
        | Inr tmp \<Rightarrow> do {
            tmp1 \<leftarrow> (if fst best \<noteq> -1 \<and> fst best + snd best = 8
                     then put_text UV__INET6_ADDRSTRLEN 0 tmp '':'' else Some tmp);
            tmp2 \<leftarrow> put_text UV__INET6_ADDRSTRLEN 1 tmp1 '''';
            if length tmp2 + 1 > sz then Some (Inl UV_ENOSPC) else Some (Inr tmp2) } })"

definition uv_inet_ntop :: "int \<Rightarrow> byte list \<Rightarrow> nat \<Rightarrow> (int + string) option" where
  "uv_inet_ntop af src sz =
     (if af = AF_INET then Some (inet_ntop4 src sz)
      else if af = AF_INET6 then inet_ntop6 src sz
      else Some (Inl UV_EAFNOSUPPORT))"

definition xdigit :: "char \<Rightarrow> nat option" where
  "xdigit ch = (case str_index ''0123456789abcdef'' ch of
     Some d \<Rightarrow> Some d | None \<Rightarrow> str_index ''0123456789ABCDEF'' ch)"

definition put_word :: "nat \<Rightarrow> u32 \<Rightarrow> byte list \<Rightarrow> byte list option" where
  "put_word tp val tmp = do {
     tmp1 \<leftarrow> poke tp (and (ucast (drop_bit 8 val)) 0xff) tmp;
     poke (tp + 1) (and (ucast val) 0xff) tmp1 }"

text \<open>The loop of \<^verbatim>\<open>inet_pton6\<close>; its result is \<open>seen_xdigits\<close>, \<open>val\<close>, \<open>tp\<close>, \<open>colonp\<close>, \<open>tmp\<close> after it.\<close>

fun pton6_loop :: "string \<Rightarrow> string \<Rightarrow> nat \<Rightarrow> u32 \<Rightarrow> nat \<Rightarrow> nat option \<Rightarrow> byte list
    \<Rightarrow> (int + (nat \<times> u32 \<times> nat \<times> nat option \<times> byte list)) option" where
  "pton6_loop [] curtok seen val tp colonp tmp = Some (Inr (seen, val, tp, colonp, tmp))"
| "pton6_loop (ch # src) curtok seen val tp colonp tmp =
     (case xdigit ch of
        Some d \<Rightarrow>
          let val1 = or (push_bit 4 val) (of_nat d) in
          if seen + 1 > 4 then Some (Inl UV_EINVAL)
          else pton6_loop src curtok (seen + 1) val1 tp colonp tmp
      | None \<Rightarrow>
          if ch = CHR '':'' then
            if seen = 0 then
              (if colonp \<noteq> None then Some (Inl UV_EINVAL)
               else pton6_loop src src seen val tp (Some tp) tmp)
            else if src = [] then Some (Inl UV_EINVAL)
            else if tp + 2 > 16 then Some (Inl UV_EINVAL)
            else do { tmp1 \<leftarrow> put_word tp val tmp; pton6_loop src src 0 0 (tp + 2) colonp tmp1 }
          else if ch = CHR ''.'' \<and> tp + 4 \<le> 16 then do {
            r \<leftarrow> inet_pton4 curtok;
            case r of
              Inl _ \<Rightarrow> Some (Inl UV_EINVAL)
            | Inr bs \<Rightarrow> do {
                t1 \<leftarrow> poke tp (bs ! 0) tmp;
                t2 \<leftarrow> poke (tp + 1) (bs ! 1) t1;
                t3 \<leftarrow> poke (tp + 2) (bs ! 2) t2;
                t4 \<leftarrow> poke (tp + 3) (bs ! 3) t3;
                Some (Inr (0, val, tp + 4, colonp, t4)) } }
          else Some (Inl UV_EINVAL))"

text \<open>The shift by hand: \<^verbatim>\<open>endp[-i] = colonp[n - i]; colonp[n - i] = 0\<close> for \<open>i = 1..n\<close>.\<close>

fun shift_loop :: "nat list \<Rightarrow> nat \<Rightarrow> nat \<Rightarrow> byte list \<Rightarrow> byte list option" where
  "shift_loop [] n colonp tmp = Some tmp"
| "shift_loop (i # is) n colonp tmp = do {
     t1 \<leftarrow> poke (16 - i) (tmp ! (colonp + (n - i))) tmp;
     t2 \<leftarrow> poke (colonp + (n - i)) 0 t1;
     shift_loop is n colonp t2 }"

definition pton6_end :: "nat \<times> u32 \<times> nat \<times> nat option \<times> byte list \<Rightarrow> (int + byte list) option" where
  "pton6_end st = (case st of (seen, val, tp, colonp, tmp) \<Rightarrow>
     if seen \<noteq> 0 \<and> tp + 2 > 16 then Some (Inl UV_EINVAL)
     else do {
       (tp1, tmp1) \<leftarrow> (if seen \<noteq> 0 then do { t \<leftarrow> put_word tp val tmp; Some (tp + 2, t) } else Some (tp, tmp));
       case colonp of
         None \<Rightarrow> Some (if tp1 \<noteq> 16 then Inl UV_EINVAL else Inr tmp1)
       | Some c \<Rightarrow>
           if tp1 = 16 then Some (Inl UV_EINVAL)
           else do {
             t \<leftarrow> shift_loop [1..<Suc (tp1 - c)] (tp1 - c) c tmp1;
             Some (Inr t) } })"

definition pton6_run :: "string \<Rightarrow> (int + byte list) option" where
  "pton6_run src = do {
     r \<leftarrow> pton6_loop src src 0 0 0 None (replicate 16 0);
     case r of Inl e \<Rightarrow> Some (Inl e) | Inr st \<Rightarrow> pton6_end st }"

definition inet_pton6 :: "string \<Rightarrow> (int + byte list) option" where
  "inet_pton6 src = (case src of
     ch # rest \<Rightarrow>
       if ch = CHR '':'' then
         (case rest of
            c # _ \<Rightarrow> if c \<noteq> CHR '':'' then Some (Inl UV_EINVAL) else pton6_run rest
          | [] \<Rightarrow> Some (Inl UV_EINVAL))
       else pton6_run src
   | [] \<Rightarrow> pton6_run src)"

definition uv_inet_pton :: "int \<Rightarrow> string option \<Rightarrow> (int + byte list) option" where
  "uv_inet_pton af src = (case src of
     None \<Rightarrow> Some (Inl UV_EINVAL)
   | Some s \<Rightarrow>
       if af = AF_INET then inet_pton4 s
       else if af = AF_INET6 then
         (if CHR ''%'' \<in> set s then
            let p = takeWhile (\<lambda>c. c \<noteq> CHR ''%'') s in
            if length p > UV__INET6_ADDRSTRLEN - 1 then Some (Inl UV_EINVAL) else inet_pton6 p
          else inet_pton6 s)
       else Some (Inl UV_EAFNOSUPPORT))"

section \<open>Socket addresses\<close>

text \<open>\<^verbatim>\<open>struct sockaddr_in\<close> as the code fills it; the port is in network order, which is what \<^verbatim>\<open>htons\<close>
  gives, and the address is the bytes of \<^verbatim>\<open>s_addr\<close> in memory.\<close>

record sockaddr_in =
  sin_family :: int
  sin_port :: u16
  sin_addr :: "byte list"

definition htons :: "u16 \<Rightarrow> u16" where
  "htons w = or (push_bit 8 w) (drop_bit 8 w)"

definition uv_ip4_addr :: "string \<Rightarrow> int \<Rightarrow> (int \<times> sockaddr_in) option" where
  "uv_ip4_addr ip port =
     (let addr = \<lparr>sin_family = AF_INET, sin_port = htons (of_int port), sin_addr = [0, 0, 0, 0]\<rparr> in do {
        r \<leftarrow> uv_inet_pton AF_INET (Some ip);
        Some (case r of Inl e \<Rightarrow> (e, addr) | Inr bs \<Rightarrow> (0, addr\<lparr>sin_addr := bs\<rparr>)) })"

definition uv_ip4_name :: "sockaddr_in \<Rightarrow> nat \<Rightarrow> (int + string) option" where
  "uv_ip4_name src sz = uv_inet_ntop AF_INET (sin_addr src) sz"

text \<open>\<^verbatim>\<open>uv_ip6_addr\<close> copies the part before the zone into \<^verbatim>\<open>char address_part[40]\<close>, cutting what does not
  fit; \<open>if_nametoindex\<close> is the system's numbering of the interfaces.\<close>

record sockaddr_in6 =
  sin6_family :: int
  sin6_port :: u16
  sin6_addr :: "byte list"
  sin6_scope_id :: u32

definition uv_ip6_addr :: "(string \<Rightarrow> u32) \<Rightarrow> string \<Rightarrow> int \<Rightarrow> (int \<times> sockaddr_in6) option" where
  "uv_ip6_addr if_nametoindex ip port =
     (let addr = \<lparr>sin6_family = AF_INET6, sin6_port = htons (of_int port), sin6_addr = replicate 16 0, sin6_scope_id = 0\<rparr>;
          zone = dropWhile (\<lambda>c. c \<noteq> CHR ''%'') ip;
          part = takeWhile (\<lambda>c. c \<noteq> CHR ''%'') ip;
          (ip1, addr1) = (if zone \<noteq> [] then
             (if length part \<ge> 40 then take 39 part else part, addr\<lparr>sin6_scope_id := if_nametoindex (tl zone)\<rparr>)
           else (ip, addr)) in do {
        r \<leftarrow> uv_inet_pton AF_INET6 (Some ip1);
        Some (case r of Inl e \<Rightarrow> (e, addr1) | Inr bs \<Rightarrow> (0, addr1\<lparr>sin6_addr := bs\<rparr>)) })"

definition uv_ip6_name :: "sockaddr_in6 \<Rightarrow> nat \<Rightarrow> (int + string) option" where
  "uv_ip6_name src sz = uv_inet_ntop AF_INET6 (sin6_addr src) sz"

section \<open>Dotted decimal\<close>

definition ip4_text :: "byte list \<Rightarrow> string" where
  "ip4_text bs = show_nat (unat (bs ! 0)) @ ''.'' @ show_nat (unat (bs ! 1)) @ ''.''
     @ show_nat (unat (bs ! 2)) @ ''.'' @ show_nat (unat (bs ! 3))"

lemma str_index_Some: "distinct s \<Longrightarrow> str_index s ch = Some d \<longleftrightarrow> d < length s \<and> s ! d = ch"
proof (induction s arbitrary: d)
  case (Cons c s)
  have m: "map_option Suc x = Some d \<longleftrightarrow> (\<exists>e. d = Suc e \<and> x = Some e)" for x by auto
  show ?case
  proof (cases "c = ch")
    case True
    with Cons.prems show ?thesis by (cases d) (simp_all, metis nth_mem)
  next
    case False
    with Cons show ?thesis by (cases d) (simp_all add: m)
  qed
qed simp

lemma str_index_None: "str_index s ch = None \<longleftrightarrow> ch \<notin> set s"
  by (induction s) auto

declare str_index.simps [simp del]

lemma digits_eq: "''0123456789'' = map digit_char [0..<10]"
  by code_simp

lemma digit_index: "str_index ''0123456789'' ch = Some d \<longleftrightarrow> d < 10 \<and> ch = digit_char d"
proof -
  have "str_index ''0123456789'' ch = Some d \<longleftrightarrow> d < length ''0123456789'' \<and> ''0123456789'' ! d = ch"
    by (rule str_index_Some) simp
  also have "\<dots> \<longleftrightarrow> d < 10 \<and> map digit_char [0..<10] ! d = ch"
    unfolding digits_eq by simp
  finally show ?thesis by auto
qed

lemma digit_index_char [simp]: "d < 10 \<Longrightarrow> str_index ''0123456789'' (digit_char d) = Some d"
  by (simp add: digit_index)

lemma digit_index_dot [simp]: "str_index ''0123456789'' CHR ''.'' = None"
  by (simp add: str_index_None)

lemma show_nat_append: "0 < v \<Longrightarrow> d < 10 \<Longrightarrow> show_nat v @ [digit_char d] = show_nat (v * 10 + d)"
  by (subst (2) show_nat.simps) simp

lemma show_nat_digit: "d < 10 \<Longrightarrow> show_nat d = [digit_char d]"
  by (simp add: show_nat.simps)

text \<open>What the loop has consumed when it is in a given state.\<close>

fun dotted :: "byte list \<Rightarrow> nat \<Rightarrow> string" where
  "dotted bs 0 = []"
| "dotted bs (Suc k) = dotted bs k @ show_nat (unat (bs ! k)) @ ''.''"

lemma dotted_upd: "k \<le> i \<Longrightarrow> dotted (bs[i := b]) k = dotted bs k"
  by (induction k) auto

definition pton4_at :: "string \<Rightarrow> bool \<Rightarrow> nat \<Rightarrow> nat \<Rightarrow> byte list \<Rightarrow> bool" where
  "pton4_at p saw octets tp tmp \<longleftrightarrow> length tmp = 4 \<and> octets \<le> 4
     \<and> (if saw then octets = Suc tp \<and> p = dotted tmp tp @ show_nat (unat (tmp ! tp))
        else octets = tp \<and> tp < 4 \<and> tmp ! tp = 0 \<and> p = dotted tmp tp)"

lemma pton4_at_digit:
  assumes "pton4_at p saw octets tp tmp" "d < 10" "\<not> (saw \<and> tmp ! tp = 0)" "unat (tmp ! tp) * 10 + d \<le> 255"
  shows "pton4_at (p @ [digit_char d]) True (if saw then octets else Suc octets) tp
    (tmp[tp := of_nat (unat (tmp ! tp) * 10 + d)])"
proof -
  have u: "unat (of_nat (unat (tmp ! tp) * 10 + d) :: byte) = unat (tmp ! tp) * 10 + d"
    using assms(4) by (subst unat_of_nat) simp
  have "0 < unat (tmp ! tp)" if saw using assms(3) that by (simp add: unat_gt_0)
  with assms u show ?thesis
    by (auto simp: pton4_at_def dotted_upd show_nat_append show_nat_digit)
qed

lemma pton4_at_dot:
  assumes "pton4_at p True octets tp tmp" "octets \<noteq> 4"
  shows "Suc tp < length tmp" "pton4_at (p @ ''.'') False octets (Suc tp) (tmp[Suc tp := 0])"
  using assms by (auto simp: pton4_at_def dotted_upd)

lemma pton4_at_end:
  assumes "pton4_at p saw octets tp tmp" "\<not> octets < 4"
  shows "length tmp = 4" "p = ip4_text tmp"
proof -
  from assms show "length tmp = 4" by (simp add: pton4_at_def)
  from assms have "saw" "tp = 3" by (auto simp: pton4_at_def split: if_splits)
  with assms show "p = ip4_text tmp" by (simp add: pton4_at_def ip4_text_def numeral_3_eq_3 numeral_2_eq_2)
qed

lemma pton4_loop_spec:
  assumes "pton4_at p saw octets tp tmp"
  shows "\<exists>r. pton4_loop src saw octets tp tmp = Some r \<and>
     (case r of Inl e \<Rightarrow> e = UV_EINVAL | Inr bs \<Rightarrow> length bs = 4 \<and> p @ src = ip4_text bs)"
  using assms
proof (induction src saw octets tp tmp arbitrary: p rule: pton4_loop.induct)
  case (1 saw octets tp tmp)
  then show ?case using pton4_at_end [OF 1] by simp
next
  case (2 ch src saw octets tp tmp)
  have bound: "tp < length tmp" using "2.prems" by (auto simp: pton4_at_def split: if_splits)
  show ?case
  proof (cases "str_index ''0123456789'' ch")
    case None
    show ?thesis
    proof (cases "ch = CHR ''.'' \<and> saw \<and> octets \<noteq> 4")
      case True
      note d = pton4_at_dot [of p octets tp tmp]
      from True "2.prems" None d "2.IH"(1) [OF None, of "p @ ''.''"] show ?thesis
        by (auto split: sum.splits)
    next
      case False
      with None show ?thesis by auto
    qed
  next
    case (Some d)
    then have d: "d < 10" "ch = digit_char d" by (simp_all add: digit_index)
    show ?thesis
    proof (cases "(saw \<and> tmp ! tp = 0) \<or> unat (tmp ! tp) * 10 + d > 255")
      case True
      with Some bound show ?thesis by (auto simp: Let_def)
    next
      case False
      note n = pton4_at_digit [OF "2.prems" d(1)]
      from "2.prems" have oc: "\<not> saw \<Longrightarrow> \<not> 4 < octets + 1" by (auto simp: pton4_at_def)
      from False bound Some n oc d(2)
        "2.IH"(2) [OF Some _ refl _ _ refl, of "p @ [ch]"] "2.IH"(3) [OF Some _ refl _ _ refl, of "p @ [ch]"]
      show ?thesis by (cases saw) (auto split: sum.splits)
    qed
  qed
qed

lemma pton4_octet:
  assumes "tp < length tmp" "tmp ! tp = 0" "octets < 4"
  shows "pton4_loop (show_nat (unat b) @ rest) False octets tp tmp = pton4_loop rest True (Suc octets) tp (tmp[tp := b])"
proof -
  define n where "n = unat b"
  have n: "n < 256" "b = of_nat n" using unat_lt [of b] by (simp_all add: n_def)
  have small: "unat (of_nat m :: byte) = m" if "m < 256" for m
    using that by (simp add: unat_of_nat)
  have nz: "(of_nat m :: byte) \<noteq> 0" if "0 < m" "m < 256" for m
    using small [OF that(2)] that by (metis unat_0 less_irrefl)
  consider "n < 10" | "10 \<le> n" "n < 100" | "100 \<le> n" by linarith
  then show ?thesis
  proof cases
    case 1
    with assms show ?thesis unfolding n_def [symmetric] by (simp add: show_nat.simps n)
  next
    case 2
    then have "n div 10 < 10" "0 < n div 10" by (simp_all add: div_greater_zero_iff)
    with assms 2 n(1) small [of "n div 10"] nz [of "n div 10"] show ?thesis
      unfolding n_def [symmetric] by (simp add: show_nat.simps [of n] show_nat.simps [of "n div 10"] n(2) div_mult_mod_eq)
  next
    case 3
    define x y z where "x = n div 100" and "y = n div 10 mod 10" and "z = n mod 10"
    have "n div 10 div 10 = n div 100" by (simp add: div_mult2_eq [symmetric])
    then have x: "x < 10" "0 < x" "y < 10" "z < 10" and q: "n div 10 = x * 10 + y" and nq: "n = (x * 10 + y) * 10 + z"
      using 3 n(1) div_mult_mod_eq [of "n div 10" 10] div_mult_mod_eq [of n 10]
      by (simp_all add: x_def y_def z_def)
    have s: "show_nat n = [digit_char x, digit_char y, digit_char z]"
      unfolding nq using x show_nat_append [of "x * 10 + y" z] show_nat_append [of x y] show_nat_digit [of x]
      by (metis add_pos_nonneg append_Cons append_Nil mult_pos_pos zero_le zero_less_numeral)
    have b: "(x * 10 + y) * 10 + z < 256" "x * 10 + y < 256" "x < 256" using nq n(1) by simp_all
    have "pton4_loop ([digit_char x, digit_char y, digit_char z] @ rest) False octets tp tmp
      = pton4_loop rest True (Suc octets) tp (tmp[tp := of_nat ((x * 10 + y) * 10 + z)])"
      using assms x b small [of x] nz [of x] small [of "x * 10 + y"] nz [of "x * 10 + y"]
      by (simp del: of_nat_add of_nat_mult)
    then show ?thesis unfolding n_def [symmetric] s nq [symmetric] n(2) [symmetric] .
  qed
qed

lemma pton4_text: "inet_pton4 (ip4_text [a, b, c, d]) = Some (Inr [a, b, c, d])"
proof -
  have "pton4_loop (show_nat (unat d) @ []) False 3 3 [a, b, c, 0] = Some (Inr [a, b, c, d])"
    by (subst pton4_octet) (simp_all add: numeral_3_eq_3)
  then show ?thesis by (simp add: inet_pton4_def ip4_text_def pton4_octet numeral_3_eq_3 numeral_2_eq_2)
qed

lemma pton4_total: "\<exists>r. inet_pton4 src = Some r \<and>
    (case r of Inl e \<Rightarrow> e = UV_EINVAL | Inr bs \<Rightarrow> length bs = 4 \<and> src = ip4_text bs)"
proof -
  have "pton4_at [] False 0 0 [0, 0, 0, 0]" by (simp add: pton4_at_def)
  from pton4_loop_spec [OF this, of src] show ?thesis unfolding inet_pton4_def append_Nil .
qed

lemma length4: "length bs = 4 \<Longrightarrow> \<exists>a b c d. bs = [a, b, c, d]"
  by (auto simp: numeral_eq_Suc length_Suc_conv)

lemma show_byte: "length (show_nat (unat (b :: byte))) \<le> 3"
  using length_show_nat [of "unat b" 2] unat_lt [of b] by (simp add: numeral_3_eq_3 numeral_2_eq_2)

lemma length_ip4_text: "length (ip4_text bs) \<le> 15" "0 < length (ip4_text bs)"
  using show_byte [of "bs ! 0"] show_byte [of "bs ! 1"] show_byte [of "bs ! 2"] show_byte [of "bs ! 3"]
  by (simp_all add: ip4_text_def)

lemma ntop4_text: "inet_ntop4 src sz =
    (if length (ip4_text src) < sz then Inr (ip4_text src) else Inl UV_ENOSPC)"
  using length_ip4_text [of src]
  by (auto simp: inet_ntop4_def ip4_text_def UV__INET_ADDRSTRLEN_def Let_def)

text \<open>C26. \<^verbatim>\<open>inet_pton4\<close> never leaves its buffers, and accepts exactly the texts \<^verbatim>\<open>inet_ntop4\<close> prints: four
  decimal numbers up to 255 without leading zeros, separated by dots. On everything else it returns
  \<^verbatim>\<open>UV_EINVAL\<close>. So it equals the inverse of the printer, on all strings.\<close>

theorem inet_pton4_equiv:
  "(\<forall>bs. inet_pton4 src = Some (Inr bs) \<longleftrightarrow> length bs = 4 \<and> inet_ntop4 bs UV__INET_ADDRSTRLEN = Inr src)
   \<and> ((\<exists>bs. inet_pton4 src = Some (Inr bs)) \<or> inet_pton4 src = Some (Inl UV_EINVAL))"
proof -
  have nt: "inet_ntop4 bs UV__INET_ADDRSTRLEN = Inr src \<longleftrightarrow> src = ip4_text bs" for bs
    using length_ip4_text(1) [of bs] by (auto simp: ntop4_text UV__INET_ADDRSTRLEN_def)
  have parse: "inet_pton4 src = Some (Inr bs)" if "length bs = 4" "src = ip4_text bs" for bs
    using that pton4_text length4 by metis
  obtain r where "inet_pton4 src = Some r"
    "case r of Inl e \<Rightarrow> e = UV_EINVAL | Inr bs \<Rightarrow> length bs = 4 \<and> src = ip4_text bs"
    using pton4_total by blast
  moreover have "r = Inr bs" if "length bs = 4" "src = ip4_text bs" for bs
    using parse [OF that] calculation(1) by simp
  ultimately show ?thesis unfolding nt by (cases r) auto
qed

section \<open>IPv6 text\<close>

lemma put_word_some: "tp + 2 \<le> length tmp \<Longrightarrow> \<exists>t. put_word tp v tmp = Some t \<and> length t = length tmp"
  by (simp add: put_word_def poke_def)

lemma pton6_loop_total:
  assumes "length tmp = 16" "tp \<le> 16" "case colonp of Some c \<Rightarrow> c \<le> tp | None \<Rightarrow> True"
  shows "\<exists>r. pton6_loop src curtok seen val tp colonp tmp = Some r \<and>
    (case r of Inl e \<Rightarrow> e = UV_EINVAL
     | Inr (seen', val', tp', colonp', tmp') \<Rightarrow> length tmp' = 16 \<and> tp' \<le> 16
         \<and> (case colonp' of Some c \<Rightarrow> c \<le> tp' | None \<Rightarrow> True))"
  using assms
proof (induction src curtok seen val tp colonp tmp rule: pton6_loop.induct)
  case (2 ch src curtok seen val tp colonp tmp)
  show ?case
  proof (cases "xdigit ch")
    case (Some d)
    then show ?thesis using "2.IH"(3) [OF Some refl] "2.prems" by (auto simp: Let_def)
  next
    case None
    consider (colon) "ch = CHR '':''" | (dot) "ch = CHR ''.''" "tp + 4 \<le> 16" "ch \<noteq> CHR '':''"
      | (bad) "ch \<noteq> CHR '':''" "\<not> (ch = CHR ''.'' \<and> tp + 4 \<le> 16)" by blast
    then show ?thesis
    proof cases
      case colon
      have c: "case Some tp of Some c \<Rightarrow> c \<le> tp | None \<Rightarrow> True" by simp
      have c2: "case colonp of Some c \<Rightarrow> c \<le> tp + 2 | None \<Rightarrow> True" using "2.prems" by (auto split: option.splits)
      show ?thesis
        using None colon "2.prems" "2.IH"(1) [OF None colon _ _ "2.prems"(1,2) c] "2.IH"(2) [OF None colon, of "the (put_word tp val tmp)"] c2
          put_word_some [of tp tmp val]
        by (cases "seen = 0"; cases "tp + 2 > 16") (auto split: option.splits)
    next
      case dot
      obtain r where r: "inet_pton4 curtok = Some r" using pton4_total by blast
      with None dot "2.prems" show ?thesis
        by (cases r) (auto simp: poke_def split: option.splits)
    next
      case bad
      with None show ?thesis by auto
    qed
  qed
qed auto

lemma shift_loop_total:
  assumes "length tmp = 16" "\<forall>i \<in> set is. 0 < i \<and> i \<le> 16" "\<forall>i \<in> set is. c + (n - i) < 16"
  shows "\<exists>t. shift_loop is n c tmp = Some t \<and> length t = 16"
  using assms by (induction "is" n c tmp rule: shift_loop.induct) (auto simp: poke_def)

lemma pton6_end_total:
  assumes "length tmp = 16" "tp \<le> 16" "case colonp of Some c \<Rightarrow> c \<le> tp | None \<Rightarrow> True"
  shows "\<exists>r. pton6_end (seen, val, tp, colonp, tmp) = Some r
    \<and> (case r of Inl e \<Rightarrow> e = UV_EINVAL | Inr bs \<Rightarrow> length bs = 16)"
proof -
  have sh: "\<exists>t. shift_loop [1..<Suc (tp1 - c)] (tp1 - c) c t0 = Some t \<and> length t = 16"
    if "length t0 = 16" "c \<le> tp1" "tp1 \<le> 16" for t0 tp1 c
    by (rule shift_loop_total) (use that in auto)
  obtain t where "tp + 2 \<le> 16 \<longrightarrow> put_word tp val tmp = Some t \<and> length t = 16"
    using put_word_some [of tp tmp val] assms(1) by auto
  with assms show ?thesis
    using sh [of tmp "the colonp" tp] sh [of t "the colonp" "tp + 2"]
    by (auto simp: pton6_end_def simp del: upt_Suc shift_loop.simps split: option.splits)
qed

lemma inet_pton6_total:
  "\<exists>r. inet_pton6 src = Some r \<and> (case r of Inl e \<Rightarrow> e = UV_EINVAL | Inr bs \<Rightarrow> length bs = 16)"
proof -
  have run: "\<exists>r. pton6_run s = Some r \<and> (case r of Inl e \<Rightarrow> e = UV_EINVAL | Inr bs \<Rightarrow> length bs = 16)" for s
  proof -
    obtain q where q: "pton6_loop s s 0 0 0 None (replicate 16 0) = Some q"
      "case q of Inl e \<Rightarrow> e = UV_EINVAL
       | Inr (seen', val', tp', colonp', tmp') \<Rightarrow> length tmp' = 16 \<and> tp' \<le> 16
           \<and> (case colonp' of Some c \<Rightarrow> c \<le> tp' | None \<Rightarrow> True)"
      using pton6_loop_total [of "replicate 16 0" 0 None s s 0 0] by auto
    then show ?thesis by (cases q) (auto simp: pton6_run_def intro: pton6_end_total)
  qed
  show ?thesis using run by (auto simp: inet_pton6_def split: list.splits)
qed

subsection \<open>The parser on printed groups\<close>

lemma xdigit_hex: "d < 16 \<Longrightarrow> xdigit (hex_char d) = Some d"
proof -
  assume d: "d < 16"
  have eq: "''0123456789abcdef'' = map hex_char [0..<16]" by code_simp
  have "str_index ''0123456789abcdef'' (hex_char d) = Some d \<longleftrightarrow>
      d < length ''0123456789abcdef'' \<and> ''0123456789abcdef'' ! d = hex_char d"
    by (rule str_index_Some) simp
  also have "\<dots> \<longleftrightarrow> d < 16 \<and> map hex_char [0..<16] ! d = hex_char d" unfolding eq by simp
  finally show ?thesis using d by (simp add: xdigit_def)
qed

lemma xdigit_other [simp]: "xdigit CHR '':'' = None" "xdigit CHR ''.'' = None"
proof -
  have "str_index ''0123456789abcdef'' c = None" "str_index ''0123456789ABCDEF'' c = None"
    if "c = CHR '':'' \<or> c = CHR ''.''" for c using that by (auto simp: str_index_None)
  then show "xdigit CHR '':'' = None" "xdigit CHR ''.'' = None" by (simp_all add: xdigit_def)
qed

lemma hex_step: "d < 16 \<Longrightarrow> or (push_bit 4 (of_nat v :: u32)) (of_nat d) = of_nat (v * 16 + d)"
proof -
  assume d: "d < 16"
  then have t: "(of_nat d :: u32) = take_bit 4 (of_nat d)" by (simp add: take_bit_of_nat take_bit_nat_eq_self)
  have "or (push_bit 4 (of_nat v :: u32)) (of_nat d) = push_bit 4 (of_nat v) + of_nat d"
    by (subst (1 2) t, rule disjunctive_add_eq_or [symmetric], rule bit_eqI) (auto simp: bit_simps)
  then show ?thesis by (simp add: push_bit_eq_mult)
qed

lemma length_show_hex: "n < 16 ^ Suc k \<Longrightarrow> length (show_hex n) \<le> Suc k"
proof (induction k arbitrary: n)
  case 0
  then show ?case by (simp add: show_hex.simps)
next
  case (Suc k)
  from Suc.prems have "n div 16 < 16 ^ Suc k" by (simp add: less_mult_imp_div_less mult.commute)
  with Suc.IH [of "n div 16"] show ?case by (subst show_hex.simps) simp
qed

lemma show_hex_nonempty [simp]: "show_hex n \<noteq> []"
  by (subst show_hex.simps) simp

lemma pton6_hex:
  "length (show_hex n) \<le> 4 \<Longrightarrow>
   pton6_loop (show_hex n @ rest) cur 0 0 tp col tmp = pton6_loop rest cur (length (show_hex n)) (of_nat n) tp col tmp"
proof (induction n arbitrary: rest rule: show_hex.induct)
  case (1 n)
  show ?case
  proof (cases "n < 16")
    case True
    then show ?thesis by (simp add: show_hex.simps xdigit_hex)
  next
    case False
    then have sh: "show_hex n = show_hex (n div 16) @ [hex_char (n mod 16)]" by (simp add: show_hex.simps [of n])
    with 1(2) have "length (show_hex (n div 16)) \<le> 4" "length (show_hex (n div 16)) \<le> 3" by simp_all
    with 1(1) [OF False, of "hex_char (n mod 16) # rest"] show ?thesis
      by (simp add: sh xdigit_hex Let_def hex_step div_mult_mod_eq del: of_nat_add of_nat_mult)
  qed
qed

abbreviation w16 :: "byte \<Rightarrow> byte \<Rightarrow> nat" where
  "w16 hi lo \<equiv> unat hi * 256 + unat lo"

lemma w16_bound: "w16 hi lo < 65536"
  using unat_lt [of hi] unat_lt [of lo] by simp

lemma length_show_w16: "length (show_hex (w16 hi lo)) \<le> 4"
  using length_show_hex [of "w16 hi lo" 3] w16_bound [of hi lo] by simp

lemma ucast_w16: "(ucast (drop_bit 8 (of_nat (w16 hi lo) :: u32)) :: byte) = hi" "(ucast (of_nat (w16 hi lo) :: u32) :: byte) = lo"
proof -
  have n: "unat (of_nat (w16 hi lo) :: u32) = w16 hi lo"
    using w16_bound [of hi lo] by (subst unat_of_nat) simp
  have h: "unat hi < 256" "unat lo < 256" using unat_lt [of hi] unat_lt [of lo] by simp_all
  then have "(unat hi * 256 + unat lo) div 256 = unat hi" "(unat hi * 256 + unat lo) mod 256 = unat lo" by simp_all
  with n h show "(ucast (drop_bit 8 (of_nat (w16 hi lo) :: u32)) :: byte) = hi" "(ucast (of_nat (w16 hi lo) :: u32) :: byte) = lo"
    by (simp_all add: word_unat_eq_iff unsigned_ucast_eq unat_div take_bit_eq_mod drop_bit_eq_div del: of_nat_add of_nat_mult)
qed

lemma and_byte [simp]: "and (b :: byte) 255 = b"
proof -
  have "(255 :: byte) = - 1" by simp
  then show ?thesis by (simp only: and.right_neutral)
qed

abbreviation pad16 :: "byte list \<Rightarrow> byte list" where
  "pad16 out \<equiv> out @ replicate (16 - length out) 0"

lemma put_word_pad:
  assumes "length out + 2 \<le> 16"
  shows "put_word (length out) (of_nat (w16 hi lo)) (pad16 out) = Some (pad16 (out @ [hi, lo]))"
proof -
  define k where "k = 14 - length out"
  have k: "16 - length out = Suc (Suc k)" using assms by (simp add: k_def)
  then have "16 - length (out @ [hi, lo]) = k" by simp
  with k ucast_w16 [of hi lo] show ?thesis
    by (simp add: put_word_def poke_def list_update_append del: of_nat_add of_nat_mult)
qed

text \<open>The rest of a parse, from a group boundary: \<open>out\<close> is what has been written.\<close>

definition run6 :: "string \<Rightarrow> string \<Rightarrow> nat option \<Rightarrow> byte list \<Rightarrow> (int + byte list) option" where
  "run6 s cur col out = do {
     r \<leftarrow> pton6_loop s cur 0 0 (length out) col (pad16 out);
     case r of Inl e \<Rightarrow> Some (Inl e) | Inr st \<Rightarrow> pton6_end st }"

definition finish6 :: "nat option \<Rightarrow> byte list \<Rightarrow> (int + byte list) option" where
  "finish6 col out = pton6_end (0, 0, length out, col, pad16 out)"

lemma end_val: "pton6_end (0, v, tp, col, tmp) = pton6_end (0, 0, tp, col, tmp)"
  by (simp add: pton6_end_def)

lemma run6_nil: "run6 [] cur col out = finish6 col out"
  by (simp add: run6_def finish6_def)

lemma run6_colon: "run6 (CHR '':'' # rest) cur None out = run6 rest rest (Some (length out)) out"
  by (simp add: run6_def)

lemma run6_group:
  assumes "length out + 2 \<le> 16" "rest \<noteq> []"
  shows "run6 (show_hex (w16 hi lo) @ CHR '':'' # rest) cur col out = run6 rest rest col (out @ [hi, lo])"
  using assms put_word_pad [OF assms(1)]
  by (simp add: run6_def pton6_hex [OF length_show_w16] del: of_nat_add of_nat_mult)

lemma run6_last:
  assumes "length out + 2 \<le> 16"
  shows "run6 (show_hex (w16 hi lo)) cur col out = finish6 col (out @ [hi, lo])"
  using assms put_word_pad [OF assms(1)] pton6_hex [OF length_show_w16, of hi lo "[]"]
  by (simp add: run6_def finish6_def pton6_end_def del: of_nat_add of_nat_mult)

lemma digit_hex: "d < 10 \<Longrightarrow> xdigit (digit_char d) = Some d"
  using xdigit_hex [of d] by (simp add: digit_char_def hex_char_def)

lemma show_nat_digits: "\<forall>c \<in> set (show_nat n). \<exists>d < 10. c = digit_char d"
proof (induction n rule: show_nat.induct)
  case (1 n)
  have "\<exists>d < 10. digit_char (n mod 10) = digit_char d" by (rule exI [of _ "n mod 10"]) simp
  with 1 show ?case by (subst show_nat.simps) auto
qed

lemma pton6_decimal:
  "\<forall>c \<in> set ds. \<exists>d < 10. c = digit_char d \<Longrightarrow> seen + length ds \<le> 4 \<Longrightarrow>
   \<exists>v. pton6_loop (ds @ rest) cur seen val tp col tmp = pton6_loop rest cur (seen + length ds) v tp col tmp"
proof (induction ds arbitrary: seen val)
  case (Cons c ds)
  then obtain d where d: "d < 10" "c = digit_char d" by auto
  with Cons.prems Cons.IH [of "Suc seen" "or (push_bit 4 val) (of_nat d)"] show ?case
    by (simp add: digit_hex)
qed auto

lemma pad16_append4:
  assumes "length out + 4 \<le> 16"
  shows "((((pad16 out)[length out := a])[Suc (length out) := b])[Suc (Suc (length out)) := c])
    [Suc (Suc (Suc (length out))) := d] = pad16 (out @ [a, b, c, d])"
proof -
  define k where "k = 12 - length out"
  have "16 - length out = Suc (Suc (Suc (Suc k)))" "16 - length (out @ [a, b, c, d]) = k"
    using assms by (simp_all add: k_def)
  then show ?thesis by (simp add: list_update_append)
qed

lemma run6_ip4:
  assumes "length bs = 4" "length out + 4 \<le> 16"
  shows "run6 (ip4_text bs) (ip4_text bs) col out = finish6 col (out @ bs)"
proof -
  obtain a b c d where bs: "bs = [a, b, c, d]" using length4 [OF assms(1)] by blast
  obtain rest where t: "ip4_text bs = show_nat (unat a) @ CHR ''.'' # rest" by (simp add: ip4_text_def bs)
  have "length (show_nat (unat a)) \<le> 4" using show_byte [of a] by simp
  then obtain v where "pton6_loop (ip4_text bs) (ip4_text bs) 0 0 (length out) col (pad16 out)
      = pton6_loop (CHR ''.'' # rest) (ip4_text bs) (length (show_nat (unat a))) v (length out) col (pad16 out)"
    using pton6_decimal [OF show_nat_digits, of 0 "unat a" "CHR ''.'' # rest" "ip4_text bs" 0 "length out" col "pad16 out"]
    unfolding t by auto
  moreover have "pton6_loop (CHR ''.'' # rest) (ip4_text bs) q v (length out) col (pad16 out)
      = Some (Inr (0, v, length out + 4, col, pad16 (out @ bs)))" for q
    using assms(2) pton4_text [of a b c d] pad16_append4 [OF assms(2), of a b c d]
    by (simp add: bs poke_def numeral_2_eq_2 numeral_3_eq_3)
  ultimately show ?thesis using assms by (simp add: run6_def finish6_def end_val [of v])
qed

text \<open>The shift moves what follows the double colon to the end of the buffer.\<close>

lemma shift_loop_step:
  assumes "length X = c + (n - i)" "16 - i = length X + Suc k"
  shows "shift_loop (i # is) n c (X @ b # replicate (Suc k) 0 @ Y) = shift_loop is n c (X @ replicate (Suc k) 0 @ b # Y)"
proof -
  define L where "L = X @ b # replicate k (0 :: byte)"
  have L: "X @ b # replicate (Suc k) 0 @ Y = L @ 0 # Y" "length L = length X + Suc k"
    by (simp_all add: L_def replicate_app_Cons_same)
  have "(L @ 0 # Y) ! length X = b" by (simp add: L_def)
  moreover have "(L @ 0 # Y)[length L := b] = X @ b # replicate k 0 @ b # Y"
    by (subst list_update_length) (simp add: L_def)
  ultimately show ?thesis unfolding shift_loop.simps assms(2) assms(1) [symmetric] L
    by (simp add: poke_def L(2))
qed

lemma shift_loop_all:
  assumes "length B = n - j" "j \<le> n" "length A + n + Suc k = 16"
  shows "shift_loop [Suc j..<Suc n] n (length A) (A @ B @ replicate (Suc k) 0 @ Y) = Some (A @ replicate (Suc k) 0 @ B @ Y)"
  using assms
proof (induction B arbitrary: j Y rule: rev_induct)
  case Nil
  then show ?case by simp
next
  case (snoc b B)
  then have j: "Suc j \<le> n" "length B = n - Suc j" by auto
  have u: "[Suc j..<Suc n] = Suc j # [Suc (Suc j)..<Suc n]" using j(1) by (simp add: upt_conv_Cons)
  have "shift_loop (Suc j # [Suc (Suc j)..<Suc n]) n (length A) ((A @ B) @ b # replicate (Suc k) 0 @ Y)
    = shift_loop [Suc (Suc j)..<Suc n] n (length A) ((A @ B) @ replicate (Suc k) 0 @ b # Y)"
    by (rule shift_loop_step) (use j snoc.prems in auto)
  with snoc.IH [OF j(2,1) snoc.prems(3), of "b # Y"] show ?case unfolding u by simp
qed

lemma finish6_none: "length out = 16 \<Longrightarrow> finish6 None out = Some (Inr out)"
  by (simp add: finish6_def pton6_end_def)

lemma finish6_colon:
  assumes "length A + length B < 16"
  shows "finish6 (Some (length A)) (A @ B) = Some (Inr (A @ replicate (16 - length A - length B) 0 @ B))"
proof -
  define k where "k = 15 - length A - length B"
  have k: "16 - length A - length B = Suc k" "16 - (length A + length B) = Suc k" "length A + length B + Suc k = 16"
    using assms by (simp_all add: k_def)
  from shift_loop_all [of B "length B" 0 A k "[]"] k assms show ?thesis
    by (simp add: finish6_def pton6_end_def del: upt_Suc shift_loop.simps replicate_Suc)
qed

lemma finish6_take:
  assumes "c \<le> length out" "length out < 16"
  shows "finish6 (Some c) out = Some (Inr (take c out @ replicate (16 - length out) 0 @ drop c out))"
  using finish6_colon [of "take c out" "drop c out"] assms by (cases "length out = c") (simp_all add: min_def)

subsection \<open>The printer\<close>

definition run_ok :: "u32 list \<Rightarrow> run \<Rightarrow> bool" where
  "run_ok ws r \<longleftrightarrow> fst r = -1 \<or> (0 \<le> fst r \<and> 0 \<le> snd r \<and> fst r + snd r \<le> int (length ws)
     \<and> (\<forall>i. fst r \<le> int i \<and> int i < fst r + snd r \<longrightarrow> ws ! i = 0))"

lemma better_ok: "run_ok ws a \<Longrightarrow> run_ok ws b \<Longrightarrow> run_ok ws (better a b)"
  by (simp add: better_def)

lemma find_run_ok:
  assumes "run_ok (pre @ rest) best" "run_ok (pre @ rest) cur" "fst cur \<noteq> -1 \<longrightarrow> fst cur + snd cur = int (length pre)"
  shows "run_ok (pre @ rest) (find_run (int (length pre)) rest best cur)"
  using assms
proof (induction rest arbitrary: pre best cur)
  case Nil
  then show ?case by (simp add: better_ok)
next
  case (Cons w rest)
  have ext: "run_ok (pre @ 0 # rest) (if fst cur = -1 then (int (length pre), 1) else (fst cur, snd cur + 1))"
    if "w = 0" using Cons.prems that by (auto simp: run_ok_def nth_append not_less le_Suc_eq)
  show ?case
    using Cons.IH [of "pre @ [w]" best "if fst cur = -1 then (int (length pre), 1) else (fst cur, snd cur + 1)"]
      Cons.IH [of "pre @ [w]" "better best cur" "(-1, snd cur)"] Cons.IH [of "pre @ [w]" best cur] ext
      better_ok [OF Cons.prems(1,2)] Cons.prems
    by (auto simp: add.commute run_ok_def [of _ "(-1, snd cur)"])
qed

lemma best_run_ok:
  obtains "fst (best_run ws) = -1"
  | "run_ok ws (best_run ws)" "0 \<le> fst (best_run ws)" "2 \<le> snd (best_run ws)"
    "fst (best_run ws) + snd (best_run ws) \<le> int (length ws)"
proof -
  have "run_ok ws (find_run 0 ws (-1, 0) (-1, 0))"
    using find_run_ok [of "[]" ws "(-1, 0)" "(-1, 0)"] by (simp add: run_ok_def)
  then have "fst (best_run ws) = -1 \<or> (run_ok ws (best_run ws) \<and> 0 \<le> fst (best_run ws) \<and> 2 \<le> snd (best_run ws)
      \<and> fst (best_run ws) + snd (best_run ws) \<le> int (length ws))"
    by (auto simp: best_run_def Let_def run_ok_def)
  then show ?thesis using that by blast
qed

lemma words_of_bytes:
  "words_of [a0, b0, a1, b1, a2, b2, a3, b3, a4, b4, a5, b5, a6, b6, a7, b7] =
     map of_nat [w16 a0 b0, w16 a1 b1, w16 a2 b2, w16 a3 b3, w16 a4 b4, w16 a5 b5, w16 a6 b6, w16 a7 b7]"
proof -
  have "or (push_bit 8 (ucast hi :: u32)) (ucast lo) = of_nat (w16 hi lo)" for hi lo :: byte
  proof -
    have "or (push_bit 8 (ucast hi :: u32)) (ucast lo) = push_bit 8 (ucast hi) + ucast lo"
      by (rule disjunctive_add_eq_or [symmetric], rule bit_eqI) (auto simp: bit_simps dest: bit_imp_le_length)
    then show ?thesis by (simp add: push_bit_eq_mult unsigned_of_nat)
  qed
  moreover have "[0..<16] = [0, 1, 2, 3, 4, 5, 6, 7, 8, 9, 10, 11, 12, 13, 14, 15]" by code_simp
  moreover have "replicate 8 (0 :: u32) = [0, 0, 0, 0, 0, 0, 0, 0]" by code_simp
  ultimately show ?thesis by (simp add: words_of_def del: of_nat_add of_nat_mult)
qed

lemma unat_w16 [simp]: "unat (of_nat (w16 hi lo) :: u32) = w16 hi lo"
  using w16_bound [of hi lo] by (subst unat_of_nat) simp

lemma w16_zero: "(of_nat (w16 hi lo) :: u32) = 0 \<longleftrightarrow> hi = 0 \<and> lo = 0"
proof -
  have "(of_nat (w16 hi lo) :: u32) = 0 \<longleftrightarrow> unat (of_nat (w16 hi lo) :: u32) = 0"
    by (simp only: unat_eq_zero)
  then show ?thesis unfolding unat_w16 by (simp add: unat_eq_zero)
qed

text \<open>What the step for word \<open>i\<close> appends, and that the buffer is large enough for it.\<close>

definition piece :: "run \<Rightarrow> u32 list \<Rightarrow> int \<Rightarrow> string" where
  "piece best words i =
     (if fst best \<noteq> -1 \<and> i \<ge> fst best \<and> i < fst best + snd best then (if i = fst best then '':'' else '''')
      else (if i \<noteq> 0 then '':'' else '''') @ show_hex (unat (words ! nat i)))"

definition as_ip4 :: "run \<Rightarrow> u32 list \<Rightarrow> bool" where
  "as_ip4 best words \<longleftrightarrow> fst best = 0 \<and> (snd best = 6 \<or> (snd best = 5 \<and> words ! 5 = 0xffff))"

lemma put_text_ok: "length t + length s + z \<le> 46 \<Longrightarrow> put_text UV__INET6_ADDRSTRLEN z t s = Some (t @ s)"
  by (simp add: put_text_def UV__INET6_ADDRSTRLEN_def)

lemma fmt6_step:
  assumes "length (show_hex (unat (words ! nat i))) \<le> 4" "length tmp \<le> 40" "\<not> (i = 6 \<and> as_ip4 best words)"
  shows "fmt6 (Suc k) i best words src tmp = fmt6 k (i + 1) best words src (tmp @ piece best words i)"
  using assms by (auto simp: piece_def put_text_ok as_ip4_def)

lemma length_piece: "length (show_hex (unat (words ! nat i))) \<le> 4 \<Longrightarrow> length (piece best words i) \<le> 5"
  by (auto simp: piece_def)

lemma fmt6_pieces:
  assumes "\<forall>i < 8. length (show_hex (unat (words ! i))) \<le> 4"
    "length tmp \<le> 5 * nat i" "0 \<le> i" "i + int k \<le> 8" "as_ip4 best words \<longrightarrow> i + int k \<le> 6"
  shows "fmt6 (k + m) i best words src tmp = fmt6 m (i + int k) best words src (tmp @ concat (map (piece best words) [i..i + int k - 1]))"
  using assms(2-)
proof (induction k arbitrary: i tmp)
  case (Suc k)
  have u: "[i..i + int (Suc k) - 1] = i # [i + 1..(i + 1) + int k - 1]"
    by (subst upto.simps) auto
  have "fmt6 (Suc (k + m)) i best words src tmp = fmt6 (k + m) (i + 1) best words src (tmp @ piece best words i)"
    by (rule fmt6_step) (use Suc.prems assms(1) in auto)
  also have "\<dots> = fmt6 m ((i + 1) + int k) best words src
      ((tmp @ piece best words i) @ concat (map (piece best words) [i + 1..(i + 1) + int k - 1]))"
    by (rule Suc.IH) (use Suc.prems assms(1) length_piece [of words i best] in auto)
  finally show ?case unfolding u by (simp add: algebra_simps)
qed simp

definition text6_of :: "run \<Rightarrow> u32 list \<Rightarrow> byte list \<Rightarrow> string" where
  "text6_of best words src =
     (if as_ip4 best words then concat (map (piece best words) [0..5]) @ '':'' @ ip4_text (drop 12 src)
      else concat (map (piece best words) [0..7]) @ (if fst best \<noteq> -1 \<and> fst best + snd best = 8 then '':'' else ''''))"

definition text6 :: "byte list \<Rightarrow> string" where
  "text6 src = text6_of (best_run (words_of src)) (words_of src) src"

lemma length_concat_le: "\<forall>x \<in> set xs. length x \<le> k \<Longrightarrow> length (concat xs) \<le> k * length xs"
  by (induction xs) auto

lemma ntop6_text:
  assumes hex: "\<forall>i < 8. length (show_hex (unat (words_of src ! i))) \<le> 4"
  shows "inet_ntop6 src sz = Some (if length (text6 src) < sz then Inr (text6 src) else Inl UV_ENOSPC)"
    "length (text6 src) < UV__INET6_ADDRSTRLEN"
proof -
  define words where "words = words_of src"
  define best where "best = best_run words"
  note d = words_def [symmetric] best_def [symmetric]
  have "length (piece best words i) \<le> 5" if "i \<in> {0..7}" for i
    using hex [folded words_def, rule_format, of "nat i"] that by (intro length_piece) auto
  then have len: "length (concat (map (piece best words) [0..n])) \<le> 5 * nat (n + 1)" if "n \<le> 7" for n
    using length_concat_le [of "map (piece best words) [0..n]" 5] that by auto
  have pre: "length (concat (map (piece best words) [0..5])) \<le> 6" if "as_ip4 best words"
  proof -
    have "[0..5] = [0, 1, 2, 3, 4, 5 :: int]" by code_simp
    then show ?thesis using that hex [folded words_def, rule_format, of 5] by (auto simp: piece_def as_ip4_def)
  qed
  have u: "[0..5] = [0..0 + int 6 - 1]" "[0..7] = [0..0 + int 8 - 1]" by simp_all
  show "inet_ntop6 src sz = Some (if length (text6 src) < sz then Inr (text6 src) else Inl UV_ENOSPC)"
  proof (cases "as_ip4 best words")
    case True
    define t where "t = concat (map (piece best words) [0..5])"
    have t: "length t \<le> 6" using pre [OF True] by (simp add: t_def)
    have "fmt6 (6 + 2) 0 best words src [] = fmt6 2 6 best words src t"
      using fmt6_pieces [of words "[]" 0 6 best 2 src] hex unfolding words_def [symmetric] t_def u by simp
    also have "\<dots> = Some (Inr (t @ '':'' @ ip4_text (drop 12 src)))"
      using True t length_ip4_text(1) [of "drop 12 src"]
      by (auto simp: numeral_2_eq_2 as_ip4_def put_text_ok ntop4_text) (simp_all add: UV__INET6_ADDRSTRLEN_def)
    finally have "fmt6 8 0 best words src [] = Some (Inr (t @ '':'' @ ip4_text (drop 12 src)))" by simp
    with True t length_ip4_text(1) [of "drop 12 src"] show ?thesis
      by (auto simp: inet_ntop6_def text6_def text6_of_def Let_def d put_text_ok as_ip4_def t_def [symmetric])
  next
    case False
    have t: "length (concat (map (piece best words) [0..7])) \<le> 40" using len [of 7] by simp
    have "fmt6 (8 + 0) 0 best words src [] = Some (Inr (concat (map (piece best words) [0..7])))"
      using fmt6_pieces [of words "[]" 0 8 best 0 src] hex False unfolding words_def [symmetric] u by simp
    with False t show ?thesis
      by (auto simp: inet_ntop6_def text6_def text6_of_def Let_def d put_text_ok)
  qed
  show "length (text6 src) < UV__INET6_ADDRSTRLEN"
    using pre len [of 7] length_ip4_text(1) [of "drop 12 src"]
    by (auto simp: text6_def text6_of_def Let_def d UV__INET6_ADDRSTRLEN_def)
qed

subsection \<open>Round trip\<close>

lemma show_hex_chars: "c \<in> set (show_hex n) \<Longrightarrow> xdigit c \<noteq> None"
proof (induction n rule: show_hex.induct)
  case (1 n)
  then show ?case using xdigit_hex [of n] xdigit_hex [of "n mod 16"]
    by (subst (asm) (2) show_hex.simps) (auto split: if_splits)
qed

lemma pton6_start:
  "inet_pton6 (show_hex n @ s) = run6 (show_hex n @ s) (show_hex n @ s) None []"
  "inet_pton6 (CHR '':'' # CHR '':'' # s) = run6 (CHR '':'' # s) (CHR '':'' # s) None []"
proof -
  obtain c t where c: "show_hex n = c # t" by (cases "show_hex n") auto
  then have "c \<noteq> CHR '':''" using show_hex_chars [of c n] by auto
  with c show "inet_pton6 (show_hex n @ s) = run6 (show_hex n @ s) (show_hex n @ s) None []"
    by (simp add: inet_pton6_def pton6_run_def run6_def)
  show "inet_pton6 (CHR '':'' # CHR '':'' # s) = run6 (CHR '':'' # s) (CHR '':'' # s) None []"
    by (simp add: inet_pton6_def pton6_run_def run6_def)
qed

lemma upto7: "[0..7] = [0, 1, 2, 3, 4, 5, 6, 7 :: int]" "[0..5] = [0, 1, 2, 3, 4, 5 :: int]"
  by code_simp+

lemmas parse6 = pton6_start run6_group run6_last run6_colon run6_nil run6_ip4 finish6_none finish6_take

abbreviation words8 :: "byte list \<Rightarrow> u32 list" where
  "words8 src \<equiv> map (\<lambda>i. of_nat (w16 (src ! (2 * i)) (src ! (2 * i + 1)))) [0..<8]"

lemma nths8:
  "words8 src ! 0 = of_nat (w16 (src ! 0) (src ! 1))" "words8 src ! Suc 0 = of_nat (w16 (src ! 2) (src ! 3))"
  "words8 src ! 2 = of_nat (w16 (src ! 4) (src ! 5))" "words8 src ! 3 = of_nat (w16 (src ! 6) (src ! 7))"
  "words8 src ! 4 = of_nat (w16 (src ! 8) (src ! 9))" "words8 src ! 5 = of_nat (w16 (src ! 10) (src ! 11))"
  "words8 src ! 6 = of_nat (w16 (src ! 12) (src ! 13))" "words8 src ! 7 = of_nat (w16 (src ! 14) (src ! 15))"
  by (simp_all del: of_nat_add of_nat_mult)

lemma parse_no_run:
  "inet_pton6 (text6_of (-1, l) (words8 [a0, b0, a1, b1, a2, b2, a3, b3, a4, b4, a5, b5, a6, b6, a7, b7])
      [a0, b0, a1, b1, a2, b2, a3, b3, a4, b4, a5, b5, a6, b6, a7, b7])
   = Some (Inr [a0, b0, a1, b1, a2, b2, a3, b3, a4, b4, a5, b5, a6, b6, a7, b7])"
  unfolding text6_of_def
  by (simp add: as_ip4_def upto7 piece_def nths8 parse6 del: of_nat_add of_nat_mult)

lemma replicate_num: "replicate (numeral k) x = x # replicate (pred_numeral k) x"
  by (simp add: numeral_eq_Suc)

lemma run_cases:
  assumes "0 \<le> b" "2 \<le> l" "b + l \<le> (8 :: int)"
  shows "(b = 0 \<and> l \<in> {2, 3, 4, 5, 6, 7, 8}) \<or> (b = 1 \<and> l \<in> {2, 3, 4, 5, 6, 7}) \<or> (b = 2 \<and> l \<in> {2, 3, 4, 5, 6})
    \<or> (b = 3 \<and> l \<in> {2, 3, 4, 5}) \<or> (b = 4 \<and> l \<in> {2, 3, 4}) \<or> (b = 5 \<and> l \<in> {2, 3}) \<or> (b = 6 \<and> l = 2)"
proof -
  have "l \<in> {2..8}" "b \<in> {0..6}" using assms by auto
  moreover have "{2..8} = {2, 3, 4, 5, 6, 7, 8 :: int}" "{0..6} = {0, 1, 2, 3, 4, 5, 6 :: int}" by code_simp+
  ultimately show ?thesis using assms(3) by auto
qed

lemma w16_ffff: "(of_nat (w16 hi lo) :: u32) = 65535 \<longleftrightarrow> hi = 255 \<and> lo = 255"
proof -
  have "(of_nat (w16 hi lo) :: u32) = 65535 \<longleftrightarrow> unat (of_nat (w16 hi lo) :: u32) = unat (65535 :: u32)"
    by (simp only: word_unat_eq_iff)
  also have "\<dots> \<longleftrightarrow> w16 hi lo = 65535" unfolding unat_w16 by simp
  also have "\<dots> \<longleftrightarrow> unat hi = 255 \<and> unat lo = 255"
    using unat_lt [of hi] unat_lt [of lo] by simp presburger
  finally show ?thesis by (simp add: word_unat_eq_iff)
qed

lemma run6_ffff:
  "length out + 2 \<le> 16 \<Longrightarrow> rest \<noteq> [] \<Longrightarrow>
   run6 (show_hex 65535 @ CHR '':'' # rest) cur col out = run6 rest rest col (out @ [255, 255])"
  using run6_group [of out rest 255 255] by simp

lemma ip4_text_nonempty [simp]: "ip4_text bs \<noteq> []"
  using length_ip4_text(2) [of bs] by auto

lemma parse_run:
  assumes "0 \<le> b" "2 \<le> l" "b + l \<le> (8 :: int)"
    "\<And>i. b \<le> int i \<Longrightarrow> int i < b + l \<Longrightarrow> src ! (2 * i) = 0 \<and> src ! (2 * i + 1) = 0"
    "src = [a0, b0, a1, b1, a2, b2, a3, b3, a4, b4, a5, b5, a6, b6, a7, b7]"
  shows "inet_pton6 (text6_of (b, l) (words8 src) src) = Some (Inr src)"
  using run_cases [OF assms(1-3)] assms(4) [of 0] assms(4) [of 1] assms(4) [of 2] assms(4) [of 3] assms(4) [of 4] assms(4) [of 5] assms(4) [of 6] assms(4) [of 7]
  unfolding text6_of_def insert_iff empty_iff simp_thms
  by (elim disjE conjE)
    (simp_all add: assms(5) as_ip4_def upto7 piece_def nths8 parse6 replicate_num w16_ffff run6_ffff del: of_nat_add of_nat_mult)

lemma text6_parse:
  assumes "length src = 16"
  shows "inet_pton6 (text6 src) = Some (Inr src)" "\<forall>i < 8. length (show_hex (unat (words_of src ! i))) \<le> 4"
proof -
  obtain a0 b0 a1 b1 a2 b2 a3 b3 a4 b4 a5 b5 a6 b6 a7 b7
    where src: "src = [a0, b0, a1, b1, a2, b2, a3, b3, a4, b4, a5, b5, a6, b6, a7, b7]"
    using assms by (auto simp: numeral_eq_Suc length_Suc_conv)
  have "[0..<8] = [0, 1, 2, 3, 4, 5, 6, 7]" by code_simp
  then have w: "words_of src = words8 src" unfolding src words_of_bytes by (simp del: of_nat_add of_nat_mult)
  obtain b l where bl: "best_run (words8 src) = (b, l)" by (cases "best_run (words8 src)")
  show "inet_pton6 (text6 src) = Some (Inr src)"
  proof (cases rule: best_run_ok [of "words8 src"])
    case 1
    then have "b = -1" unfolding bl by simp
    then show ?thesis using parse_no_run [of l a0 b0 a1 b1 a2 b2 a3 b3 a4 b4 a5 b5 a6 b6 a7 b7, folded src]
      unfolding text6_def w bl by simp
  next
    case 2
    have "src ! (2 * i) = 0 \<and> src ! (2 * i + 1) = 0" if "b \<le> int i" "int i < b + l" for i
    proof -
      have "words8 src ! i = 0" "i < 8" using 2 that unfolding bl by (auto simp: run_ok_def)
      then show ?thesis by (simp add: w16_zero del: of_nat_add of_nat_mult)
    qed
    moreover have "0 \<le> b" "2 \<le> l" "b + l \<le> 8" using 2 unfolding bl by simp_all
    ultimately show ?thesis unfolding text6_def w bl by (intro parse_run [OF _ _ _ _ src]) auto
  qed
  show "\<forall>i < 8. length (show_hex (unat (words_of src ! i))) \<le> 4"
    unfolding w by (simp add: length_show_w16 del: of_nat_add of_nat_mult)
qed

lemma text6_no_zone:
  assumes "length src = 16"
  shows "CHR ''%'' \<notin> set (text6 src)"
proof -
  have dig: "xdigit c = None \<Longrightarrow> c \<notin> set (show_hex n)" for c n using show_hex_chars by blast
  have pct: "xdigit CHR ''%'' = None"
  proof -
    have "str_index ''0123456789abcdef'' CHR ''%'' = None" "str_index ''0123456789ABCDEF'' CHR ''%'' = None"
      by (auto simp: str_index_None)
    then show ?thesis by (simp add: xdigit_def)
  qed
  have pc: "CHR ''%'' \<notin> set (piece best words i)" for best words i using dig [OF pct] by (auto simp: piece_def)
  have "CHR ''%'' \<noteq> digit_char d" if "d < 10" for d using digit_hex [OF that] pct by auto
  then have "CHR ''%'' \<notin> set (show_nat n)" for n using show_nat_digits [of n] by blast
  then have "CHR ''%'' \<notin> set (ip4_text bs)" for bs by (simp add: ip4_text_def)
  then show ?thesis using pc by (auto simp: text6_def text6_of_def)
qed

text \<open>C25. \<^verbatim>\<open>uv_inet_ntop\<close> turns every IPv4 and every IPv6 address into text without leaving its 46 byte
  buffer, and \<^verbatim>\<open>uv_inet_pton\<close> reads that text back as the same address; a caller's buffer that is too
  short gives \<^verbatim>\<open>UV_ENOSPC\<close>.\<close>

theorem inet_text_roundtrip:
  "length a4 = 4 \<and> length a6 = 16 \<Longrightarrow>
   \<exists>t4 t6. (\<forall>sz. uv_inet_ntop AF_INET a4 sz = Some (if length t4 < sz then Inr t4 else Inl UV_ENOSPC))
     \<and> length t4 < UV__INET_ADDRSTRLEN \<and> uv_inet_pton AF_INET (Some t4) = Some (Inr a4)
     \<and> (\<forall>sz. uv_inet_ntop AF_INET6 a6 sz = Some (if length t6 < sz then Inr t6 else Inl UV_ENOSPC))
     \<and> length t6 < UV__INET6_ADDRSTRLEN \<and> uv_inet_pton AF_INET6 (Some t6) = Some (Inr a6)"
proof -
  assume "length a4 = 4 \<and> length a6 = 16"
  then have l: "length a4 = 4" "length a6 = 16" by simp_all
  note t6 = text6_parse [OF l(2)]
  have v4: "inet_pton4 (ip4_text a4) = Some (Inr a4)" using length4 [OF l(1)] pton4_text by auto
  have af: "AF_INET6 \<noteq> AF_INET" by (simp add: AF_INET_def AF_INET6_def)
  show ?thesis
    by (rule exI [of _ "ip4_text a4"], rule exI [of _ "text6 a6"])
      (use v4 af length_ip4_text(1) [of a4] ntop6_text [OF t6(2)] t6(1) text6_no_zone [OF l(2)] in
        \<open>auto simp: uv_inet_ntop_def uv_inet_pton_def ntop4_text UV__INET_ADDRSTRLEN_def\<close>)
qed

theorem inet_text_roundtrip_witness:
  "\<exists>t4 t6. uv_inet_pton AF_INET (Some t4) = Some (Inr [192, 168, 0, 1])
     \<and> uv_inet_pton AF_INET6 (Some t6) = Some (Inr [32, 1, 13, 184, 0, 0, 0, 0, 0, 0, 0, 0, 0, 0, 0, 1])"
  using inet_text_roundtrip [of "[192, 168, 0, 1]" "[32, 1, 13, 184, 0, 0, 0, 0, 0, 0, 0, 0, 0, 0, 0, 1]"]
  by auto


text \<open>With a zone, \<^verbatim>\<open>uv_ip6_addr\<close> cuts the address at 39 characters before it parses it, although an
  address may have 45: the text of \<^verbatim>\<open>::ffff:1.22.33.44\<close> written in full, 40 characters, is accepted as
  the different address \<^verbatim>\<open>::ffff:1.22.33.4\<close>, while the same text without a zone gives the right one.\<close>

theorem uv_ip6_addr_truncates:
  "map_option (\<lambda>(r, a). (r, drop 12 (sin6_addr a))) (uv_ip6_addr nm ''0000:0000:0000:0000:0000:ffff:1.22.33.44%eth0'' 0)
     = Some (0, [1, 22, 33, 4])
   \<and> map_option (\<lambda>(r, a). (r, drop 12 (sin6_addr a))) (uv_ip6_addr nm ''0000:0000:0000:0000:0000:ffff:1.22.33.44'' 0)
     = Some (0, [1, 22, 33, 44])"
  by code_simp

end
