(* ===== verification/Sysinfo.thy ===== *)
theory Sysinfo
  imports Ssn_Prelude
begin

text \<open>
  What a host says about itself (\<^verbatim>\<open>third/cb_sysinfo\<close>): system version, computer name, word size and
  memory, on Linux, macOS, Android, iOS and Windows. The answers of the system calls are inputs. An out parameter
  is an \<open>option\<close>: \<open>None\<close> is what the function leaves unwritten. A text that does not fit its buffer
  has no result (\<open>None\<close> of the outer option).
\<close>

section \<open>Codes\<close>

definition CB_SYSINFO_SV_LEN :: nat where "CB_SYSINFO_SV_LEN = 256"
definition CB_SYSINFO_KV_LEN :: nat where "CB_SYSINFO_KV_LEN = 256"
definition CB_SYSINFO_X86 :: int where "CB_SYSINFO_X86 = 0"
definition CB_SYSINFO_X64 :: int where "CB_SYSINFO_X64 = 1"
definition CB_SYSINFO_SUCCESS :: int where "CB_SYSINFO_SUCCESS = 0"
definition CB_SYSINFO_ERROR_INVALID_PARAM :: int where "CB_SYSINFO_ERROR_INVALID_PARAM = to_int 0xCB040001"
definition CB_SYSINFO_ERROR_BUFFER_NOT_ENOUGH :: int where "CB_SYSINFO_ERROR_BUFFER_NOT_ENOUGH = to_int 0xCB040002"
definition CB_SYSINFO_ERROR_SYSAPI_FAILED :: int where "CB_SYSINFO_ERROR_SYSAPI_FAILED = to_int 0xCB040003"
definition CB_SYSINFO_ERROR_NOT_SUPPORT_SYSTEM :: int where "CB_SYSINFO_ERROR_NOT_SUPPORT_SYSTEM = to_int 0xCB040004"
definition CB_SYSINFO_ERROR_UNKNOWN_INFORMATION :: int where "CB_SYSINFO_ERROR_UNKNOWN_INFORMATION = to_int 0xCB040005"

lemmas sysinfo_codes = CB_SYSINFO_SUCCESS_def CB_SYSINFO_ERROR_INVALID_PARAM_def CB_SYSINFO_ERROR_BUFFER_NOT_ENOUGH_def
  CB_SYSINFO_ERROR_SYSAPI_FAILED_def CB_SYSINFO_ERROR_NOT_SUPPORT_SYSTEM_def CB_SYSINFO_ERROR_UNKNOWN_INFORMATION_def

record cb_sysinfo_mem =
  total_phys_mem :: u64
  avail_phys_mem :: u64
  total_vir_mem :: u64
  avail_vir_mem :: u64

section \<open>Linux\<close>

text \<open>\<^verbatim>\<open>struct utsname\<close>; \<open>un\<close> is \<open>None\<close> when \<^verbatim>\<open>uname\<close> fails.\<close>

record utsname =
  un_nodename :: string
  un_release :: string
  un_version :: string
  un_machine :: string

definition g_x64_name :: "string list" where "g_x64_name = [''x86_64'', ''aarch64'', ''mips64el'']"
definition g_x86_name :: "string list" where "g_x86_name = [''x86'', ''arm'', ''mipsel'']"

definition get_kernel_version :: "utsname option \<Rightarrow> nat \<Rightarrow> (int \<times> string option) option" where
  "get_kernel_version un sz = (case un of
     None \<Rightarrow> Some (CB_SYSINFO_ERROR_SYSAPI_FAILED, None)
   | Some u \<Rightarrow> do { s \<leftarrow> put_text sz 1 '''' (un_release u @ '' '' @ un_version u); Some (CB_SYSINFO_SUCCESS, Some s) })"

text \<open>\<open>sys_ver\<close>, \<open>kern_ver\<close>: the size of the caller's buffer, \<open>None\<close> for a null pointer.\<close>

definition linux_version ::
  "utsname option \<Rightarrow> nat option \<Rightarrow> nat option \<Rightarrow> (int \<times> string option \<times> string option) option" where
  "linux_version un sys_ver kern_ver =
     (if sys_ver = None \<and> kern_ver = None then Some (CB_SYSINFO_ERROR_INVALID_PARAM, None, None)
      else do {
        sv \<leftarrow> (case sys_ver of Some n \<Rightarrow> map_option Some (put_text n 1 '''' '''') | None \<Rightarrow> Some None);
        case kern_ver of
          None \<Rightarrow> Some (CB_SYSINFO_SUCCESS, sv, None)
        | Some n \<Rightarrow> do { (ret, kv) \<leftarrow> get_kernel_version un n; Some (ret, sv, kv) } })"

definition linux_bits :: "utsname option \<Rightarrow> bool \<Rightarrow> int \<times> int option" where
  "linux_bits un bits =
     (if \<not> bits then (CB_SYSINFO_ERROR_INVALID_PARAM, None)
      else case un of
        None \<Rightarrow> (CB_SYSINFO_ERROR_SYSAPI_FAILED, None)
      | Some u \<Rightarrow>
          if un_machine u \<in> set g_x64_name then (CB_SYSINFO_SUCCESS, Some CB_SYSINFO_X64)
          else if un_machine u \<in> set g_x86_name then (CB_SYSINFO_SUCCESS, Some CB_SYSINFO_X86)
          else (CB_SYSINFO_ERROR_UNKNOWN_INFORMATION, None))"

text \<open>\<open>name\<close> is the size of the buffer; \<open>*len\<close> is compared as an unsigned number. The result is the
  code, the name written, and \<open>*len\<close> afterwards.\<close>

definition linux_computer_name ::
  "utsname option \<Rightarrow> nat option \<Rightarrow> int option \<Rightarrow> (int \<times> string option \<times> int option) option" where
  "linux_computer_name un name len = (case (name, len) of
     (Some sz, Some l) \<Rightarrow> (case un of
         None \<Rightarrow> Some (CB_SYSINFO_ERROR_SYSAPI_FAILED, None, len)
       | Some u \<Rightarrow>
           if (of_int l :: u64) \<le> of_nat (length (un_nodename u))
           then Some (CB_SYSINFO_ERROR_BUFFER_NOT_ENOUGH, None, Some (to_int (int (length (un_nodename u)) + 1)))
           else do {
             s \<leftarrow> put_text sz 1 '''' (un_nodename u);
             Some (CB_SYSINFO_SUCCESS, Some s, Some (to_int (int (length (un_nodename u))))) })
   | _ \<Rightarrow> Some (CB_SYSINFO_ERROR_INVALID_PARAM, None, len))"

record sysinfo_struct =
  totalram :: u64
  freeram :: u64
  totalswap :: u64
  freeswap :: u64

definition linux_meminfo :: "sysinfo_struct option \<Rightarrow> bool \<Rightarrow> int \<times> cb_sysinfo_mem option" where
  "linux_meminfo si meminfo =
     (if \<not> meminfo then (CB_SYSINFO_ERROR_INVALID_PARAM, None)
      else case si of
        None \<Rightarrow> (CB_SYSINFO_ERROR_SYSAPI_FAILED, None)
      | Some s \<Rightarrow> (CB_SYSINFO_SUCCESS, Some \<lparr>total_phys_mem = totalram s, avail_phys_mem = freeram s,
          total_vir_mem = totalswap s, avail_vir_mem = freeswap s\<rparr>))"

definition linux_time :: "int \<Rightarrow> int \<Rightarrow> u64" where
  "linux_time tv_sec tv_usec = of_int (tv_sec * 1000 + tv_usec div 1000)"

section \<open>macOS\<close>

definition g_macos_ver :: "(int \<times> int \<times> string) list" where
  "g_macos_ver = [
     (10, 13, ''macOS High Sierra''),
     (10, 12, ''macOS Sierra''),
     (10, 11, ''OS X EI Captian''),
     (10, 10, ''OS X Yosemite''),
     (10, 9, ''OS X Mavericks''),
     (10, 8, ''OS X Mountain Lion''),
     (10, 7, ''OS X Lion''),
     (10, 6, ''MAC OS X Snow Leopard''),
     (10, 5, ''MAC OS X Leopard''),
     (0, 0, ''Unknown OS'')]"

fun macos_name_loop :: "(int \<times> int \<times> string) list \<Rightarrow> int \<Rightarrow> int \<Rightarrow> string option" where
  "macos_name_loop [] major minor = None"
| "macos_name_loop ((ma, mi, nm) # t) major minor =
     (if major = ma \<and> minor = mi then Some nm else macos_name_loop t major minor)"

definition get_macos_name :: "int \<Rightarrow> int \<Rightarrow> string" where
  "get_macos_name major minor = (case macos_name_loop g_macos_ver major minor of
     Some nm \<Rightarrow> nm
   | None \<Rightarrow> snd (snd (g_macos_ver ! (length g_macos_ver - 1))))"

text \<open>The three numbers are what \<^verbatim>\<open>Gestalt\<close> stores.\<close>

definition get_macos_version :: "int \<Rightarrow> int \<Rightarrow> int \<Rightarrow> nat \<Rightarrow> (int \<times> string option) option" where
  "get_macos_version major minor bugfix sz = do {
     s \<leftarrow> put_text sz 1 '''' (get_macos_name major minor @ ''('' @ show_int major @ ''.'' @ show_int minor @ ''.'' @ show_int bugfix @ '')'');
     Some (CB_SYSINFO_SUCCESS, Some s) }"

definition mac_version ::
  "int \<times> int \<times> int \<Rightarrow> utsname option \<Rightarrow> nat option \<Rightarrow> nat option \<Rightarrow> (int \<times> string option \<times> string option) option" where
  "mac_version gestalt un sys_ver kern_ver =
     (if sys_ver = None \<and> kern_ver = None then Some (CB_SYSINFO_ERROR_INVALID_PARAM, None, None)
      else do {
        (ret, sv) \<leftarrow> (case sys_ver of
           Some n \<Rightarrow> (case gestalt of (major, minor, bugfix) \<Rightarrow> get_macos_version major minor bugfix n)
         | None \<Rightarrow> Some (CB_SYSINFO_SUCCESS, None));
        case kern_ver of
          None \<Rightarrow> Some (ret, sv, None)
        | Some n \<Rightarrow> do { (ret2, kv) \<leftarrow> get_kernel_version un n; Some (ret2, sv, kv) } })"

record vm_stat64 =
  active_count :: u32
  inactive_count :: u32
  wire_count :: u32
  free_count :: u32
  compressor_page_count :: u32
  purgeable_count :: u32
  external_page_count :: u32

definition get_physical_meminfo64 :: "vm_stat64 \<Rightarrow> u64 \<Rightarrow> cb_sysinfo_mem \<Rightarrow> int \<times> cb_sysinfo_mem" where
  "get_physical_meminfo64 vm page_sz m =
     (CB_SYSINFO_SUCCESS,
      m\<lparr>total_phys_mem := ucast (active_count vm + inactive_count vm + wire_count vm + free_count vm + compressor_page_count vm) * page_sz,
        avail_phys_mem := ucast (purgeable_count vm + external_page_count vm) * page_sz\<rparr>)"

text \<open>\<open>xu\<close> is what \<^verbatim>\<open>sysctl\<close> stores for the swap usage, \<open>m\<close> the struct before the call.\<close>

definition mac_meminfo :: "vm_stat64 \<Rightarrow> u64 \<Rightarrow> (u64 \<times> u64) option \<Rightarrow> cb_sysinfo_mem option \<Rightarrow> int \<times> cb_sysinfo_mem option" where
  "mac_meminfo vm page_sz xu meminfo = (case meminfo of
     None \<Rightarrow> (CB_SYSINFO_ERROR_INVALID_PARAM, None)
   | Some m \<Rightarrow>
       let m1 = snd (get_physical_meminfo64 vm page_sz m) in
       (case xu of
          None \<Rightarrow> (CB_SYSINFO_ERROR_SYSAPI_FAILED, Some m1)
        | Some (xsu_total, xsu_avail) \<Rightarrow> (CB_SYSINFO_SUCCESS, Some (m1\<lparr>total_vir_mem := xsu_total, avail_vir_mem := xsu_avail\<rparr>))))"

text \<open>The rest of the macOS file is the text of the Linux one.\<close>

definition mac_kernel_version :: "utsname option \<Rightarrow> nat \<Rightarrow> (int \<times> string option) option" where
  "mac_kernel_version = get_kernel_version"

definition mac_bits :: "utsname option \<Rightarrow> bool \<Rightarrow> int \<times> int option" where
  "mac_bits = linux_bits"

definition mac_computer_name :: "utsname option \<Rightarrow> nat option \<Rightarrow> int option \<Rightarrow> (int \<times> string option \<times> int option) option" where
  "mac_computer_name = linux_computer_name"

definition mac_time :: "int \<Rightarrow> int \<Rightarrow> u64" where
  "mac_time = linux_time"

section \<open>Android and iOS\<close>

text \<open>Both files are the text of the Linux one without \<^verbatim>\<open>cb_sysinfo_meminfo\<close>.\<close>

definition android_kernel_version :: "utsname option \<Rightarrow> nat \<Rightarrow> (int \<times> string option) option" where
  "android_kernel_version = get_kernel_version"

definition android_version :: "utsname option \<Rightarrow> nat option \<Rightarrow> nat option \<Rightarrow> (int \<times> string option \<times> string option) option" where
  "android_version = linux_version"

definition android_bits :: "utsname option \<Rightarrow> bool \<Rightarrow> int \<times> int option" where
  "android_bits = linux_bits"

definition android_computer_name :: "utsname option \<Rightarrow> nat option \<Rightarrow> int option \<Rightarrow> (int \<times> string option \<times> int option) option" where
  "android_computer_name = linux_computer_name"

definition android_time :: "int \<Rightarrow> int \<Rightarrow> u64" where
  "android_time = linux_time"

definition ios_kernel_version :: "utsname option \<Rightarrow> nat \<Rightarrow> (int \<times> string option) option" where
  "ios_kernel_version = get_kernel_version"

definition ios_version :: "utsname option \<Rightarrow> nat option \<Rightarrow> nat option \<Rightarrow> (int \<times> string option \<times> string option) option" where
  "ios_version = linux_version"

definition ios_bits :: "utsname option \<Rightarrow> bool \<Rightarrow> int \<times> int option" where
  "ios_bits = linux_bits"

definition ios_computer_name :: "utsname option \<Rightarrow> nat option \<Rightarrow> int option \<Rightarrow> (int \<times> string option \<times> int option) option" where
  "ios_computer_name = linux_computer_name"

definition ios_time :: "int \<Rightarrow> int \<Rightarrow> u64" where
  "ios_time = linux_time"

section \<open>Windows\<close>

text \<open>The values of the Windows headers the code tests.\<close>

definition VER_NT_WORKSTATION :: int where "VER_NT_WORKSTATION = 1"
definition VER_PLATFORM_WIN32_NT :: int where "VER_PLATFORM_WIN32_NT = 2"
definition VER_SUITE_ENTERPRISE :: int where "VER_SUITE_ENTERPRISE = 0x2"
definition VER_SUITE_DATACENTER :: int where "VER_SUITE_DATACENTER = 0x80"
definition VER_SUITE_PERSONAL :: int where "VER_SUITE_PERSONAL = 0x200"
definition VER_SUITE_BLADE :: int where "VER_SUITE_BLADE = 0x400"
definition VER_SUITE_STORAGE_SERVER :: int where "VER_SUITE_STORAGE_SERVER = 0x2000"
definition VER_SUITE_COMPUTE_SERVER :: int where "VER_SUITE_COMPUTE_SERVER = 0x4000"
definition VER_SUITE_WH_SERVER :: int where "VER_SUITE_WH_SERVER = 0x8000"
definition PROCESSOR_ARCHITECTURE_INTEL :: int where "PROCESSOR_ARCHITECTURE_INTEL = 0"
definition PROCESSOR_ARCHITECTURE_IA64 :: int where "PROCESSOR_ARCHITECTURE_IA64 = 6"
definition PROCESSOR_ARCHITECTURE_AMD64 :: int where "PROCESSOR_ARCHITECTURE_AMD64 = 9"

definition g_win8_ver_map :: "(int \<times> string) list" where
  "g_win8_ver_map = [
     (0x01, '' Ultimate Edition''),
     (0x30, '' Professional''),
     (0x03, '' Home Premium Edition''),
     (0x02, '' Home Basic Edition''),
     (0x04, '' Enterprise Edition''),
     (0x06, '' Business Edition''),
     (0x0B, '' Starter Edition''),
     (0x12, '' Cluster Server Edition''),
     (0x08, '' Datacenter Edition''),
     (0x0C, '' Datacenter Edition (core installation)''),
     (0x0A, '' Enterprise Edition''),
     (0x0E, '' Enterprise Edition (core installation)''),
     (0x0F, '' Enterprise Edition for Itanium-based Systems''),
     (0x09, '' Small Business Server''),
     (0x19, '' Small Business Server Premium Edition''),
     (0x07, '' Standard Edition''),
     (0x0D, '' Standard Edition (core installation)''),
     (0x11, '' Web Server Edition'')]"

record osversion =
  dwMajorVersion :: u32
  dwMinorVersion :: u32
  dwBuildNumber :: u32
  dwPlatformId :: int
  szCSDVersion :: string
  wSuiteMask :: int
  wProductType :: int

text \<open>What Windows answers: \<^verbatim>\<open>GetVersionExA\<close>, the processor architecture of \<^verbatim>\<open>GetNativeSystemInfo\<close> or
  \<^verbatim>\<open>GetSystemInfo\<close>, the version helpers, \<^verbatim>\<open>GetSystemMetrics(SM_SERVERR2)\<close>, and \<^verbatim>\<open>GetProductInfo\<close> (\<open>None\<close> when
  kernel32 lacks it or it fails).\<close>

record winapi =
  wa_version :: "osversion option"
  wa_arch :: int
  wa_win10 :: bool
  wa_win81 :: bool
  wa_server_r2 :: bool
  wa_product :: "int option"
  wa_filever :: "(nat \<times> (u32 \<times> u32) option) option"

definition suite :: "osversion \<Rightarrow> int \<Rightarrow> bool" where
  "suite os m = (and (wSuiteMask os) m \<noteq> 0)"

text \<open>\<^verbatim>\<open>strcat(version, s)\<close> into \<^verbatim>\<open>char version[CB_SYSINFO_SV_LEN]\<close>.\<close>

definition strcat :: "string \<Rightarrow> string \<Rightarrow> string option" where
  "strcat version s = put_text CB_SYSINFO_SV_LEN 1 version s"

fun product_loop :: "(int \<times> string) list \<Rightarrow> int \<Rightarrow> string \<Rightarrow> string option" where
  "product_loop [] dwType version = Some version"
| "product_loop ((i, nm) # t) dwType version = do {
     v \<leftarrow> (if i = dwType then strcat version nm else Some version);
     product_loop t dwType v }"

definition win6_name :: "osversion \<Rightarrow> string \<Rightarrow> string option" where
  "win6_name os v0 = (let ws = (wProductType os = VER_NT_WORKSTATION) in do {
     v1 \<leftarrow> (if dwMinorVersion os = 0 then strcat v0 (if ws then '' Windows Vista'' else '' Windows Server 2008'') else Some v0);
     v2 \<leftarrow> (if dwMinorVersion os = 1 then strcat v1 (if ws then '' Windows 7'' else '' Windows Server 2008 R2'') else Some v1);
     v3 \<leftarrow> (if dwMinorVersion os = 2 then strcat v2 (if ws then '' Windows 8'' else '' Windows Server2012 R2'') else Some v2);
     if dwMinorVersion os = 3 then strcat v3 (if ws then '' Windows 8.1'' else '' Windows Server2012 R2'') else Some v3 })"

definition win2003_edition :: "winapi \<Rightarrow> osversion \<Rightarrow> string \<Rightarrow> string option" where
  "win2003_edition wa os v =
     (if wa_arch wa = PROCESSOR_ARCHITECTURE_IA64 then
        (if suite os VER_SUITE_DATACENTER then strcat v '' Datacenter Edition for Itanium-based Systems''
         else if suite os VER_SUITE_ENTERPRISE then strcat v '' Enterprise Edition for Itanium-based Systems''
         else Some v)
      else if wa_arch wa = PROCESSOR_ARCHITECTURE_AMD64 then
        (if suite os VER_SUITE_DATACENTER then strcat v '' Datacenter x64 Edition''
         else if suite os VER_SUITE_ENTERPRISE then strcat v '' Enterprise x64 Edition''
         else strcat v '' Standard x64 Edition'')
      else
        (if suite os VER_SUITE_COMPUTE_SERVER then strcat v '' Compute Cluster Edition''
         else if suite os VER_SUITE_DATACENTER then strcat v '' Datacenter Edition''
         else if suite os VER_SUITE_ENTERPRISE then strcat v '' Enterprise Edition''
         else if suite os VER_SUITE_BLADE then strcat v '' Web Edition''
         else strcat v '' Standard Edition''))"

definition win2003_name :: "winapi \<Rightarrow> osversion \<Rightarrow> string \<Rightarrow> string option" where
  "win2003_name wa os v = do {
     v1 \<leftarrow> (if wa_server_r2 wa then strcat v '' Windows Server 2003 R2''
            else if suite os VER_SUITE_STORAGE_SERVER then strcat v '' Windows Storage Server 2003''
            else if suite os VER_SUITE_WH_SERVER then strcat v '' Windows Home Server''
            else if wProductType os = VER_NT_WORKSTATION \<and> wa_arch wa = PROCESSOR_ARCHITECTURE_AMD64
              then strcat v '' Windows XP Professional x64 Edition''
            else strcat v '' Windows Server 2003'');
     if wProductType os \<noteq> VER_NT_WORKSTATION then win2003_edition wa os v1 else Some v1 }"

definition winxp_name :: "osversion \<Rightarrow> string \<Rightarrow> string option" where
  "winxp_name os v = do {
     v1 \<leftarrow> strcat v ''Windows XP'';
     strcat v1 (if suite os VER_SUITE_PERSONAL then '' Home Edition'' else '' Professional'') }"

definition win2000_name :: "osversion \<Rightarrow> string \<Rightarrow> string option" where
  "win2000_name os v = do {
     v1 \<leftarrow> strcat v ''Windows 2000'';
     if wProductType os = VER_NT_WORKSTATION then strcat v1 '' Professional''
     else if suite os VER_SUITE_DATACENTER then strcat v1 '' Datacenter Server''
     else if suite os VER_SUITE_ENTERPRISE then strcat v1 '' Advanced Server''
     else strcat v1 '' Server'' }"

text \<open>The product name: \<open>Inl\<close> is an early return.\<close>

definition win_name :: "winapi \<Rightarrow> osversion \<Rightarrow> (int + string) option" where
  "win_name wa os =
     (if wa_win10 wa then
        map_option Inr (strcat ''Microsoft'' (if wProductType os = VER_NT_WORKSTATION then '' Windows 10''
          else '' Windows Server 2016 Technical Preview''))
      else if dwPlatformId os = VER_PLATFORM_WIN32_NT \<and> dwMajorVersion os > 4 then
        (if dwMajorVersion os = 6 then do {
           v \<leftarrow> win6_name os ''Microsoft'';
           case wa_product wa of
             None \<Rightarrow> Some (Inl CB_SYSINFO_ERROR_SYSAPI_FAILED)
           | Some dwType \<Rightarrow> map_option Inr (product_loop g_win8_ver_map dwType v) }
         else do {
           v1 \<leftarrow> (if dwMajorVersion os = 5 \<and> dwMinorVersion os = 2 then win2003_name wa os ''Microsoft'' else Some ''Microsoft'');
           v2 \<leftarrow> (if dwMajorVersion os = 5 \<and> dwMinorVersion os = 1 then winxp_name os v1 else Some v1);
           v3 \<leftarrow> (if dwMajorVersion os = 5 \<and> dwMinorVersion os = 0 then win2000_name os v2 else Some v2);
           Some (Inr v3) })
      else Some (Inl CB_SYSINFO_ERROR_NOT_SUPPORT_SYSTEM))"

definition win_suffix :: "winapi \<Rightarrow> osversion \<Rightarrow> string \<Rightarrow> string option" where
  "win_suffix wa os v = do {
     v1 \<leftarrow> (if length (szCSDVersion os) > 0 then do { a \<leftarrow> strcat v '' ''; strcat a (szCSDVersion os) } else Some v);
     buf \<leftarrow> put_text 128 1 '''' (''(build '' @ show_int (sint (dwBuildNumber os)) @ '')'');
     v2 \<leftarrow> strcat v1 buf;
     if dwMajorVersion os \<ge> 6 then
       (if wa_arch wa = PROCESSOR_ARCHITECTURE_AMD64 then strcat v2 '' x64''
        else if wa_arch wa = PROCESSOR_ARCHITECTURE_INTEL then strcat v2 '' x86''
        else Some v2)
     else Some v2 }"

definition inner_get_sys_version :: "winapi \<Rightarrow> nat \<Rightarrow> (int \<times> string option) option" where
  "inner_get_sys_version wa sz = (case wa_version wa of
     None \<Rightarrow> Some (CB_SYSINFO_ERROR_SYSAPI_FAILED, None)
   | Some os \<Rightarrow> do {
       r \<leftarrow> win_name wa os;
       case r of
         Inl e \<Rightarrow> Some (e, None)
       | Inr v \<Rightarrow> do {
           v1 \<leftarrow> win_suffix wa os v;
           s \<leftarrow> put_text sz 1 '''' v1;
           Some (CB_SYSINFO_SUCCESS, Some s) } })"

text \<open>\<^verbatim>\<open>get_file_verison\<close>: \<open>wa_filever\<close> is \<open>None\<close> when the size of the version resource is 0, else the size and
  the version words, \<open>None\<close> when reading them fails. The buffer has that size, but \<^verbatim>\<open>CB_SYSINFO_KV_LEN\<close>
  bytes of it are cleared; and the error code of a failed read is dropped.\<close>

definition get_file_verison :: "winapi \<Rightarrow> (int \<times> (u32 \<times> u32 \<times> u32) option) option" where
  "get_file_verison wa = (case wa_filever wa of
     None \<Rightarrow> Some (CB_SYSINFO_ERROR_SYSAPI_FAILED, None)
   | Some (ver_size, info) \<Rightarrow>
       if ver_size < CB_SYSINFO_KV_LEN then None
       else (case info of
          None \<Rightarrow> Some (CB_SYSINFO_SUCCESS, None)
        | Some (ms, ls) \<Rightarrow> Some (CB_SYSINFO_SUCCESS, Some (drop_bit 16 ms, take_bit 16 ms, drop_bit 16 ls))))"

definition inner_get_kern_version :: "winapi \<Rightarrow> nat \<Rightarrow> (int \<times> string option) option" where
  "inner_get_kern_version wa sz = do {
     (ret, (major, minor, build)) \<leftarrow>
       (if wa_win81 wa then do {
          (r, w) \<leftarrow> get_file_verison wa;
          Some (r, case w of Some v \<Rightarrow> v | None \<Rightarrow> (0, 0, 0)) }
        else Some (case wa_version wa of
            Some os \<Rightarrow> (0, (dwMajorVersion os, dwMinorVersion os, dwBuildNumber os))
          | None \<Rightarrow> (-1, (0, 0, 0))));
     if ret \<noteq> 0 then Some (CB_SYSINFO_ERROR_SYSAPI_FAILED, None)
     else do {
       s \<leftarrow> put_text sz 1 '''' (show_int (sint major) @ ''.'' @ show_int (sint minor) @ ''.'' @ show_int (sint build));
       Some (CB_SYSINFO_SUCCESS, Some s) } }"

definition win_version ::
  "winapi \<Rightarrow> nat option \<Rightarrow> nat option \<Rightarrow> (int \<times> string option \<times> string option) option" where
  "win_version wa sys_ver kern_ver =
     (if sys_ver = None \<and> kern_ver = None then Some (CB_SYSINFO_ERROR_INVALID_PARAM, None, None)
      else do {
        (ret, sv) \<leftarrow> (case sys_ver of Some n \<Rightarrow> inner_get_sys_version wa n | None \<Rightarrow> Some (CB_SYSINFO_SUCCESS, None));
        if ret \<noteq> CB_SYSINFO_SUCCESS then Some (ret, sv, None)
        else case kern_ver of
          None \<Rightarrow> Some (ret, sv, None)
        | Some n \<Rightarrow> do { (ret2, kv) \<leftarrow> inner_get_kern_version wa n; Some (ret2, sv, kv) } })"

definition win_bits :: "winapi \<Rightarrow> bool \<Rightarrow> int \<times> int option" where
  "win_bits wa bits =
     (if \<not> bits then (CB_SYSINFO_ERROR_INVALID_PARAM, None)
      else if wa_arch wa = PROCESSOR_ARCHITECTURE_AMD64 \<or> wa_arch wa = PROCESSOR_ARCHITECTURE_IA64
        then (CB_SYSINFO_SUCCESS, Some CB_SYSINFO_X64)
      else (CB_SYSINFO_SUCCESS, Some CB_SYSINFO_X86))"

text \<open>\<^verbatim>\<open>GetComputerName\<close> writes the name and its length, or fails with an error of which only the
  overflow of the buffer (111) is told apart.\<close>

definition win_computer_name :: "(int + string) \<Rightarrow> nat option \<Rightarrow> int option \<Rightarrow> int \<times> string option \<times> int option" where
  "win_computer_name r name len = (case (name, len) of
     (Some _, Some _) \<Rightarrow> (case r of
         Inr s \<Rightarrow> (CB_SYSINFO_SUCCESS, Some s, Some (int (length s)))
       | Inl e \<Rightarrow> (if e = 111 then CB_SYSINFO_ERROR_BUFFER_NOT_ENOUGH else CB_SYSINFO_ERROR_SYSAPI_FAILED, None, len))
   | _ \<Rightarrow> (CB_SYSINFO_ERROR_INVALID_PARAM, None, len))"

definition win_meminfo :: "cb_sysinfo_mem option \<Rightarrow> bool \<Rightarrow> int \<times> cb_sysinfo_mem option" where
  "win_meminfo ms meminfo =
     (if \<not> meminfo then (CB_SYSINFO_ERROR_INVALID_PARAM, None)
      else case ms of
        None \<Rightarrow> (CB_SYSINFO_ERROR_SYSAPI_FAILED, None)
      | Some m \<Rightarrow> (CB_SYSINFO_SUCCESS, Some m))"

text \<open>\<^verbatim>\<open>cb_sysinfo_time\<close>: the fields of \<^verbatim>\<open>SYSTEMTIME\<close> it copies; \<open>mktime\<close> is the C library's, on the fields of
  \<^verbatim>\<open>struct tm\<close> in the order year, month, day, hour, minute, second.\<close>

record systemtime =
  wYear :: u16
  wMonth :: u16
  wDay :: u16
  wHour :: u16
  wMinute :: u16
  wSecond :: u16
  wMilliseconds :: u16

definition win_time :: "(int \<Rightarrow> int \<Rightarrow> int \<Rightarrow> int \<Rightarrow> int \<Rightarrow> int \<Rightarrow> int) \<Rightarrow> systemtime \<Rightarrow> u64" where
  "win_time mktime st = of_int (mktime (uint (wYear st) - 1900) (uint (wMonth st) - 1) (uint (wDay st))
     (uint (wHour st)) (uint (wMinute st)) (uint (wSecond st)) * 1000 + uint (wMilliseconds st))"

section \<open>Texts fit their buffers\<close>

lemma strcat_ok: "length v + length s < 256 \<Longrightarrow> strcat v s = Some (v @ s)"
  by (simp add: strcat_def put_text_def CB_SYSINFO_SV_LEN_def)

lemma length_show_u32: "length (show_int (sint (w :: u32))) \<le> 11"
proof -
  have "- 2147483648 \<le> sint w" "sint w < 2147483648"
    using sint_greater_eq [of w] sint_less [of w] by simp_all
  then have "\<bar>sint w\<bar> < 10 ^ Suc 9" by (simp add: abs_if)
  from length_show_int [OF this] show ?thesis by simp
qed

text \<open>\<open>adds n f v\<close>: the step appends at most \<open>n\<close> characters, whenever they fit.\<close>

definition adds :: "nat \<Rightarrow> string option \<Rightarrow> string \<Rightarrow> bool" where
  "adds n r v \<longleftrightarrow> (\<exists>s. r = Some (v @ s) \<and> length s \<le> n)"

lemma adds_strcat: "length s \<le> n \<Longrightarrow> length v + n < 256 \<Longrightarrow> adds n (strcat v s) v"
  by (simp add: adds_def strcat_ok)

lemma adds_skip: "adds n (Some v) v"
  by (simp add: adds_def)

lemma adds_bind:
  assumes "adds m r v" "\<And>v'. length v' \<le> length v + m \<Longrightarrow> adds n (f v') v'"
  shows "adds (m + n) (r \<bind> f) v"
proof -
  obtain s where s: "r = Some (v @ s)" "length s \<le> m" using assms(1) by (auto simp: adds_def)
  obtain u where "f (v @ s) = Some ((v @ s) @ u)" "length u \<le> n"
    using assms(2) [of "v @ s"] s(2) by (auto simp: adds_def)
  with s show ?thesis by (auto simp: adds_def)
qed

lemma adds_le: "adds m r v \<Longrightarrow> m \<le> n \<Longrightarrow> adds n r v"
  by (auto simp: adds_def)

lemma win6_adds: "length v \<le> 9 \<Longrightarrow> adds 23 (win6_name os v) v"
  by (auto simp: win6_name_def Let_def adds_def strcat_ok)

lemma win2003_adds: "length v \<le> 9 \<Longrightarrow> adds 81 (win2003_name wa os v) v"
proof -
  assume v: "length v \<le> 9"
  have "adds 45 (win2003_edition wa os v') v'" if "length v' \<le> 45" for v'
    using that by (auto simp: win2003_edition_def intro!: adds_strcat adds_skip)
  moreover have "adds 36 (if wa_server_r2 wa then strcat v '' Windows Server 2003 R2''
       else if suite os VER_SUITE_STORAGE_SERVER then strcat v '' Windows Storage Server 2003''
       else if suite os VER_SUITE_WH_SERVER then strcat v '' Windows Home Server''
       else if wProductType os = VER_NT_WORKSTATION \<and> wa_arch wa = PROCESSOR_ARCHITECTURE_AMD64
         then strcat v '' Windows XP Professional x64 Edition''
       else strcat v '' Windows Server 2003'') v"
    using v by (auto intro!: adds_strcat)
  ultimately have "adds (36 + 45) (win2003_name wa os v) v"
    unfolding win2003_name_def using v by (intro adds_bind) (auto intro: adds_skip)
  then show ?thesis by simp
qed

lemma winxp_adds: "length v \<le> 9 \<Longrightarrow> adds 81 (winxp_name os v) v"
  by (auto simp: winxp_name_def adds_def strcat_ok)

lemma win2000_adds: "length v \<le> 9 \<Longrightarrow> adds 81 (win2000_name os v) v"
  by (auto simp: win2000_name_def adds_def strcat_ok)

lemma product_adds:
  "length v \<le> 32 \<Longrightarrow> adds 45 (product_loop g_win8_ver_map dwType v) v"
  by (auto simp: g_win8_ver_map_def adds_def strcat_ok)

lemma win_name_length: "\<exists>r. win_name wa os = Some r \<and> (case r of Inr v \<Rightarrow> length v \<le> 90 | Inl _ \<Rightarrow> True)"
proof -
  have w6: "\<exists>v. win6_name os ''Microsoft'' = Some v \<and> length v \<le> 32"
    using win6_adds [of "''Microsoft''" os] by (auto simp: adds_def)
  have prod: "\<exists>u. product_loop g_win8_ver_map t v = Some u \<and> length u \<le> 77" if "length v \<le> 32" for v t
    using product_adds [OF that, of t] that by (auto simp: adds_def)
  note five = win2003_adds [of "''Microsoft''" wa os] winxp_adds [of "''Microsoft''" os] win2000_adds [of "''Microsoft''" os]
  consider (w10) "wa_win10 wa" | (six) "\<not> wa_win10 wa" "dwMajorVersion os = 6"
    | (other) "\<not> wa_win10 wa" "dwMajorVersion os \<noteq> 6" by blast
  then show ?thesis
  proof cases
    case w10
    then show ?thesis by (simp add: win_name_def strcat_ok)
  next
    case six
    obtain v where v: "win6_name os ''Microsoft'' = Some v" "length v \<le> 32" using w6 by blast
    obtain u where "product_loop g_win8_ver_map (the (wa_product wa)) v = Some u" "length u \<le> 77" using prod [OF v(2)] by blast
    with six v(1) show ?thesis by (cases "wa_product wa") (simp_all add: win_name_def)
  next
    case other
    then show ?thesis using five by (auto simp: win_name_def adds_def)
  qed
qed

lemma win_suffix_length:
  assumes "length v \<le> 90" "length (szCSDVersion os) \<le> 127"
  shows "\<exists>u. win_suffix wa os v = Some u \<and> length u \<le> 244"
proof -
  have b: "length (show_int (sint (dwBuildNumber os))) \<le> 11" by (rule length_show_u32)
  then have buf: "put_text 128 1 '''' (''(build '' @ show_int (sint (dwBuildNumber os)) @ '')'')
      = Some (''(build '' @ show_int (sint (dwBuildNumber os)) @ '')'')" by (simp add: put_text_def)
  have "\<exists>v1. (if length (szCSDVersion os) > 0 then strcat v '' '' \<bind> (\<lambda>a. strcat a (szCSDVersion os)) else Some v) = Some v1
      \<and> length v1 \<le> 218" using assms by (auto simp: strcat_ok)
  then obtain v1 where "(if length (szCSDVersion os) > 0 then strcat v '' '' \<bind> (\<lambda>a. strcat a (szCSDVersion os)) else Some v) = Some v1"
      "length v1 \<le> 218" by blast
  with b buf show ?thesis by (simp add: win_suffix_def strcat_ok)
qed

lemma win_sys_version_fits:
  assumes csd: "\<forall>os. wa_version wa = Some os \<longrightarrow> length (szCSDVersion os) \<le> 127"
  shows "inner_get_sys_version wa CB_SYSINFO_SV_LEN \<noteq> None"
proof (cases "wa_version wa")
  case (Some os)
  obtain r where r: "win_name wa os = Some r" "case r of Inr v \<Rightarrow> length v \<le> 90 | Inl _ \<Rightarrow> True"
    using win_name_length by blast
  show ?thesis
  proof (cases r)
    case (Inr v)
    with r csd Some obtain w where "win_suffix wa os v = Some w" "length w \<le> 244"
      using win_suffix_length [of v os wa] by auto
    with r Inr Some show ?thesis by (simp add: inner_get_sys_version_def put_text_def CB_SYSINFO_SV_LEN_def)
  qed (use r Some in \<open>simp add: inner_get_sys_version_def\<close>)
qed (simp add: inner_get_sys_version_def)


definition sample_un :: utsname where
  "sample_un = \<lparr>un_nodename = ''host'', un_release = ''3.10.0'', un_version = ''#1 SMP'', un_machine = ''i686''\<rparr>"

definition sample_wa :: winapi where
  "sample_wa = \<lparr>wa_version = Some \<lparr>dwMajorVersion = 6, dwMinorVersion = 1, dwBuildNumber = 7601, dwPlatformId = 2,
      szCSDVersion = ''Service Pack 1'', wSuiteMask = 0, wProductType = 1\<rparr>,
     wa_arch = 9, wa_win10 = False, wa_win81 = True, wa_server_r2 = False, wa_product = Some 1, wa_filever = Some (1024, None)\<rparr>"


text \<open>From Windows 8.1 on, when the version resource of kernel32 cannot be read the kernel version is
  reported as \<^verbatim>\<open>0.0.0\<close> with \<^verbatim>\<open>CB_SYSINFO_SUCCESS\<close>: \<^verbatim>\<open>get_file_verison\<close> drops the error. When the
  resource is shorter than 256 bytes it clears memory past its buffer.\<close>

theorem kern_version_swallows_error:
  "wa_win81 wa \<and> wa_filever wa = Some (ver_size, None) \<Longrightarrow>
   inner_get_kern_version wa CB_SYSINFO_KV_LEN =
     (if ver_size < CB_SYSINFO_KV_LEN then None else Some (CB_SYSINFO_SUCCESS, Some ''0.0.0''))"
proof -
  assume a: "wa_win81 wa \<and> wa_filever wa = Some (ver_size, None)"
  have "show_int 0 = ''0''" by code_simp
  with a show ?thesis
    by (simp add: inner_get_kern_version_def get_file_verison_def put_text_def CB_SYSINFO_KV_LEN_def CB_SYSINFO_SUCCESS_def)
qed

theorem kern_version_swallows_error_witness:
  "inner_get_kern_version sample_wa CB_SYSINFO_KV_LEN = Some (CB_SYSINFO_SUCCESS, Some ''0.0.0'')"
  using kern_version_swallows_error [of sample_wa 1024] by (simp add: sample_wa_def CB_SYSINFO_KV_LEN_def)

end
