(* ===== verification/Select_Network.thy ===== *)
theory Select_Network
  imports Ssn_Prelude
begin

text \<open>
  The choice of the network to announce on (\<^verbatim>\<open>common/select_network.cpp\<close>). On Windows the code lists
  the network cards of the registry and the adapters with their addresses, takes the first physical
  card that has an adapter, and computes the broadcast address of that adapter's network; elsewhere
  it uses the limited broadcast address. The registry and \<^verbatim>\<open>GetAdaptersInfo\<close> are inputs. A field the
  code leaves unset is \<open>None\<close>, and reading it has no result.
\<close>

section \<open>Cards and adapters\<close>

definition NCF_VIRTUAL :: u32 where "NCF_VIRTUAL = 0x01"
definition NCF_PHYSICAL :: u32 where "NCF_PHYSICAL = 0x04"

record network =
  nw_ip :: string
  nw_mask :: string
  nw_adpname :: string

record netcard =
  nc_Characteristics :: "u32 option"
  nc_adpname :: "string option"

text \<open>A key below the class key: \<open>None\<close> when it cannot be opened, else its two values where they can
  be read.\<close>

type_synonym regkey = "(string option \<times> u32 option) option"

fun read_reg_loop :: "regkey list \<Rightarrow> netcard list \<Rightarrow> netcard list option" where
  "read_reg_loop [] nwList = Some nwList"
| "read_reg_loop (None # ks) nwList = read_reg_loop ks nwList"
| "read_reg_loop (Some (adpname, ncf_value) # ks) nwList = do {
     nm \<leftarrow> (case adpname of Some s \<Rightarrow> map_option Some (put_text 48 1 '''' s) | None \<Rightarrow> Some None);
     read_reg_loop ks (nwList @ [\<lparr>nc_Characteristics = ncf_value, nc_adpname = nm\<rparr>]) }"

definition readRegInfoForNetCard :: "regkey list option \<Rightarrow> netcard list option" where
  "readRegInfoForNetCard reg = (case reg of None \<Rightarrow> Some [] | Some ks \<Rightarrow> read_reg_loop ks [])"

text \<open>The inner loop: the adapter of the card, and the card, whose characteristics every round masks.\<close>

fun select_inner :: "netcard \<Rightarrow> network list \<Rightarrow> (network option \<times> netcard) option" where
  "select_inner c [] = Some (None, c)"
| "select_inner c (n # ns) = do {
     ch \<leftarrow> nc_Characteristics c;
     let ch1 = and ch (or NCF_VIRTUAL NCF_PHYSICAL);
     let c1 = c\<lparr>nc_Characteristics := Some ch1\<rparr>;
     nm \<leftarrow> nc_adpname c1;
     if nw_adpname n = nm \<and> ch1 = NCF_PHYSICAL then Some (Some n, c1) else select_inner c1 ns }"

text \<open>The outer loop: \<^verbatim>\<open>hit\<close> is never set, so a card without an adapter is erased and the next one is
  looked at.\<close>

fun select_outer :: "netcard list \<Rightarrow> network list \<Rightarrow> network option option" where
  "select_outer [] nwList = Some None"
| "select_outer (c # cs) nwList = do {
     (r, _) \<leftarrow> select_inner c nwList;
     case r of Some n \<Rightarrow> Some (Some n) | None \<Rightarrow> select_outer cs nwList }"

definition select_nw :: "regkey list option \<Rightarrow> network list \<Rightarrow> network option option" where
  "select_nw reg nwList =
     (if nwList = [] then Some None
      else do { ncList \<leftarrow> readRegInfoForNetCard reg; select_outer ncList nwList })"

text \<open>\<^verbatim>\<open>GetAdaptersInfo\<close>: the chain of adapters, \<open>None\<close> when the second call fails.\<close>

fun adapter_loop :: "(string \<times> string \<times> string) list \<Rightarrow> network list \<Rightarrow> network list option" where
  "adapter_loop [] nwList = Some nwList"
| "adapter_loop ((ip, msk, name) # as) nwList = do {
     i \<leftarrow> put_text 64 1 '''' ip;
     m \<leftarrow> put_text 64 1 '''' msk;
     n \<leftarrow> put_text 48 1 '''' name;
     adapter_loop as (nwList @ [\<lparr>nw_ip = i, nw_mask = m, nw_adpname = n\<rparr>]) }"

fun erase_loop :: "network list \<Rightarrow> network list" where
  "erase_loop [] = []"
| "erase_loop (n # ns) = (if nw_ip n = ''0.0.0.0'' then erase_loop ns else n # erase_loop ns)"

definition AdapterList :: "(string \<times> string \<times> string) list option \<Rightarrow> network list option" where
  "AdapterList adapters = do {
     nwList \<leftarrow> (case adapters of Some as \<Rightarrow> adapter_loop as [] | None \<Rightarrow> Some []);
     Some (erase_loop nwList) }"

definition PhyNetConfigInfo ::
  "regkey list option \<Rightarrow> (string \<times> string \<times> string) list option \<Rightarrow> network option option" where
  "PhyNetConfigInfo reg adapters = do { nwlist \<leftarrow> AdapterList adapters; select_nw reg nwlist }"

definition INADDR_BROADCAST :: u32 where "INADDR_BROADCAST = 0xffffffff"
definition INADDR_ANY :: u32 where "INADDR_ANY = 0"

text \<open>\<open>inet_addr\<close> is the system's function from text to an address.\<close>

definition PhyBoardcastAddr_win ::
  "(string \<Rightarrow> u32) \<Rightarrow> regkey list option \<Rightarrow> (string \<times> string \<times> string) list option \<Rightarrow> u32 option" where
  "PhyBoardcastAddr_win inet_addr reg adapters = do {
     nw \<leftarrow> PhyNetConfigInfo reg adapters;
     Some (case nw of
       Some n \<Rightarrow> or (inet_addr (nw_ip n)) (not (inet_addr (nw_mask n)))
     | None \<Rightarrow> INADDR_BROADCAST) }"

definition PhyIpAddress_win ::
  "(string \<Rightarrow> u32) \<Rightarrow> regkey list option \<Rightarrow> (string \<times> string \<times> string) list option \<Rightarrow> u32 option" where
  "PhyIpAddress_win inet_addr reg adapters = do {
     nw \<leftarrow> PhyNetConfigInfo reg adapters;
     Some (case nw of Some n \<Rightarrow> inet_addr (nw_ip n) | None \<Rightarrow> INADDR_ANY) }"

definition PhyBoardcastAddr :: u32 where "PhyBoardcastAddr = INADDR_BROADCAST"
definition PhyIpAddress :: u32 where "PhyIpAddress = INADDR_ANY"

section \<open>The loops against their specification\<close>

definition physical :: "netcard \<Rightarrow> bool" where
  "physical c \<longleftrightarrow> (case nc_Characteristics c of
     Some ch \<Rightarrow> and ch (or NCF_VIRTUAL NCF_PHYSICAL) = NCF_PHYSICAL | None \<Rightarrow> False)"

definition card_set :: "netcard \<Rightarrow> bool" where
  "card_set c \<longleftrightarrow> nc_Characteristics c \<noteq> None \<and> nc_adpname c \<noteq> None"

definition adapter_of :: "network list \<Rightarrow> netcard \<Rightarrow> network option" where
  "adapter_of nws c = (if physical c then find (\<lambda>n. Some (nw_adpname n) = nc_adpname c) nws else None)"

lemma mask_idem: "and (and ch m) m = and ch (m :: u32)"
  by (simp add: and.assoc)

lemma select_inner_spec:
  "card_set c \<Longrightarrow> \<exists>c'. select_inner c nws = Some (adapter_of nws c, c')"
proof (induction nws arbitrary: c)
  case Nil
  then show ?case by (simp add: adapter_of_def)
next
  case (Cons n nws)
  then obtain ch nm where c: "nc_Characteristics c = Some ch" "nc_adpname c = Some nm"
    by (auto simp: card_set_def)
  define c1 where "c1 = c\<lparr>nc_Characteristics := Some (and ch (or NCF_VIRTUAL NCF_PHYSICAL))\<rparr>"
  have "card_set c1" "adapter_of nws c1 = adapter_of nws c"
    using c by (simp_all add: c1_def card_set_def adapter_of_def physical_def mask_idem)
  with Cons.IH [of c1] c show ?case
    by (auto simp: c1_def adapter_of_def physical_def Let_def)
qed

text \<open>C29. The nested loops of \<^verbatim>\<open>_select\<close>, with their erasing iterator, dead flag and repeated masking, compute
  the specification: the adapter of the first card in registry order that is physical, not virtual,
  and has one. With no adapter the answer is \<^verbatim>\<open>false\<close>. This holds when every key had both values.\<close>

theorem select_equiv:
  "list_all card_set cards \<Longrightarrow>
   select_outer cards nws = Some (List.find (\<lambda>_. True) (List.map_filter (adapter_of nws) cards))"
proof (induction cards)
  case Nil
  then show ?case by (simp add: map_filter_simps)
next
  case (Cons c cs)
  then obtain c' where "select_inner c nws = Some (adapter_of nws c, c')"
    using select_inner_spec [of c nws] by auto
  with Cons show ?case by (cases "adapter_of nws c") (simp_all add: map_filter_simps)
qed

definition sample_cards :: "netcard list" where
  "sample_cards = [\<lparr>nc_Characteristics = Some 0x29, nc_adpname = Some ''{vm}''\<rparr>,
     \<lparr>nc_Characteristics = Some 0x84, nc_adpname = Some ''{eth}''\<rparr>]"

definition sample_nws :: "network list" where
  "sample_nws = [\<lparr>nw_ip = ''10.0.0.1'', nw_mask = ''255.0.0.0'', nw_adpname = ''{vm}''\<rparr>,
     \<lparr>nw_ip = ''192.168.1.7'', nw_mask = ''255.255.255.0'', nw_adpname = ''{eth}''\<rparr>]"

theorem select_equiv_witness:
  "list_all card_set sample_cards \<and> map_option (map_option nw_ip) (select_outer sample_cards sample_nws) = Some (Some ''192.168.1.7'')"
proof -
  have c: "list_all card_set sample_cards" by code_simp
  have "map_option nw_ip (List.find (\<lambda>_. True) (List.map_filter (adapter_of sample_nws) sample_cards)) = Some ''192.168.1.7''"
    by code_simp
  with c select_equiv [OF c, of sample_nws] show ?thesis by simp
qed


definition sample_inet_addr :: "string \<Rightarrow> u32" where
  "sample_inet_addr s = (if s = ''192.168.1.7'' then 0x0701a8c0 else 0x00ffffff)"


end
