(* ===== verification/Boardcast_Proto.thy ===== *)
theory Boardcast_Proto
  imports Inet Sysinfo Select_Network
begin

text \<open>
  The datagrams of the discovery protocol (\<^verbatim>\<open>AutoDiscover/boardcast/boardcast_protocol.h\<close>, \<^verbatim>\<open>.cpp\<close>), and
  \<^verbatim>\<open>systemInfo\<close> and the address conversions of \<^verbatim>\<open>boardcast_common.cpp\<close>. The struct is packed and sent
  as it is in memory.
\<close>

section \<open>Constants\<close>

definition BOARDCAST_PROTOCAL_VERSION :: byte where "BOARDCAST_PROTOCAL_VERSION = 1"
definition BOARDCAST_MAGIC_NUM :: u32 where "BOARDCAST_MAGIC_NUM = 0x94623744"
definition BOARDCAST_MSG_STARTUP :: int where "BOARDCAST_MSG_STARTUP = 1"
definition BOARDCAST_MSG_KEEPALIVE :: int where "BOARDCAST_MSG_KEEPALIVE = 2"
definition BOARDCAST_MSG_SHUTDOWN :: int where "BOARDCAST_MSG_SHUTDOWN = 3"
definition SERVER_TCP_PORT :: u16 where "SERVER_TCP_PORT = 10038"
definition SERVER_BOARDCAST_PORT :: int where "SERVER_BOARDCAST_PORT = 10034"
definition CLIENT_BOARDCAST_PORT :: int where "CLIENT_BOARDCAST_PORT = 10035"
definition UDP_PACKAGE_MAX_LEN :: nat where "UDP_PACKAGE_MAX_LEN = 1450"

lemmas bc_consts = BOARDCAST_PROTOCAL_VERSION_def BOARDCAST_MAGIC_NUM_def BOARDCAST_MSG_STARTUP_def
  BOARDCAST_MSG_KEEPALIVE_def BOARDCAST_MSG_SHUTDOWN_def SERVER_TCP_PORT_def SERVER_BOARDCAST_PORT_def CLIENT_BOARDCAST_PORT_def

section \<open>The packet\<close>

record system_info =
  si_cptname :: "byte list"
  si_sysver :: "byte list"
  si_bits :: byte

record boardcast_package =
  bp_version :: byte
  bp_magic :: u32
  bp_port :: u16
  bp_sys_info :: system_info
  bp_msg_type :: byte

definition si_ok :: "system_info \<Rightarrow> bool" where
  "si_ok si \<longleftrightarrow> length (si_cptname si) = 64 \<and> length (si_sysver si) = 128"

definition bp_bytes :: "boardcast_package \<Rightarrow> byte list" where
  "bp_bytes p = bp_version p # enc32 (bp_magic p) @ enc16 (bp_port p) @ si_cptname (bp_sys_info p)
     @ si_sysver (bp_sys_info p) @ [si_bits (bp_sys_info p)] @ [bp_msg_type p]"

definition bp_of :: "byte list \<Rightarrow> boardcast_package" where
  "bp_of bs = \<lparr>bp_version = bs ! 0, bp_magic = dec32 (field_at 1 4 bs), bp_port = dec16 (field_at 5 2 bs),
     bp_sys_info = \<lparr>si_cptname = field_at 7 64 bs, si_sysver = field_at 71 128 bs, si_bits = bs ! 199\<rparr>,
     bp_msg_type = bs ! 200\<rparr>"

definition SIZEOF_BOARDCAST_PACKAGE :: nat where
  "SIZEOF_BOARDCAST_PACKAGE = 201"

lemma length_bp_bytes: "si_ok (bp_sys_info p) \<Longrightarrow> length (bp_bytes p) = SIZEOF_BOARDCAST_PACKAGE"
  by (simp add: bp_bytes_def si_ok_def SIZEOF_BOARDCAST_PACKAGE_def)

lemma bp_of_bytes:
  assumes "si_ok (bp_sys_info p)"
  shows "bp_of (bp_bytes p) = p"
proof -
  have m: "field_at 1 4 (bp_bytes p) = enc32 (bp_magic p)"
    "field_at 5 2 (bp_bytes p) = enc16 (bp_port p)"
    "field_at 7 64 (bp_bytes p) = si_cptname (bp_sys_info p)"
    "field_at 71 128 (bp_bytes p) = si_sysver (bp_sys_info p)"
    using assms by (simp_all add: bp_bytes_def field_at_def si_ok_def)
  have n: "bp_bytes p ! 0 = bp_version p" "bp_bytes p ! 199 = si_bits (bp_sys_info p)" "bp_bytes p ! 200 = bp_msg_type p"
    using assms by (simp_all add: bp_bytes_def si_ok_def nth_append)
  show ?thesis unfolding bp_of_def m n dec_enc32 dec_enc16 by simp
qed

interpretation bp: codec "\<lambda>p. si_ok (bp_sys_info p)" bp_bytes bp_of
  by unfold_locales (rule bp_of_bytes)

section \<open>What the host says about itself\<close>

text \<open>The functions of \<^verbatim>\<open>cb_sysinfo\<close> of the platform the program runs on.\<close>

record platform =
  pf_version :: "nat option \<Rightarrow> nat option \<Rightarrow> (int \<times> string option \<times> string option) option"
  pf_computer_name :: "nat option \<Rightarrow> int option \<Rightarrow> (int \<times> string option \<times> int option) option"
  pf_bits :: "bool \<Rightarrow> int \<times> int option"

definition linux_platform :: "utsname option \<Rightarrow> platform" where
  "linux_platform un = \<lparr>pf_version = linux_version un, pf_computer_name = linux_computer_name un, pf_bits = linux_bits un\<rparr>"

text \<open>\<^verbatim>\<open>strncpy(dst, src, n)\<close> into a zeroed array one byte longer.\<close>

definition strncpy0 :: "string \<Rightarrow> nat \<Rightarrow> byte list" where
  "strncpy0 src n = (let bs = take n (map of_char src) in bs @ replicate (Suc n - length bs) 0)"

text \<open>\<^verbatim>\<open>systemInfo\<close>: \<open>st\<close> is the static struct once it is filled in (\<^verbatim>\<open>binit\<close>). The buffers are zeroed, so a
  text that is not written is empty; \<^verbatim>\<open>bits\<close> starts at -1.\<close>

definition systemInfo :: "platform \<Rightarrow> system_info option \<Rightarrow> (system_info \<times> system_info option) option" where
  "systemInfo pf st = (case st of
     Some si \<Rightarrow> Some (si, st)
   | None \<Rightarrow> do {
       (_, sv, _) \<leftarrow> pf_version pf (Some 512) None;
       (_, nm, _) \<leftarrow> pf_computer_name pf (Some 256) (Some 256);
       let bits = (case pf_bits pf True of (_, Some b) \<Rightarrow> b | (_, None) \<Rightarrow> -1);
       let si = \<lparr>si_cptname = strncpy0 (case nm of Some s \<Rightarrow> s | None \<Rightarrow> '''') 63,
                 si_sysver = strncpy0 (case sv of Some s \<Rightarrow> s | None \<Rightarrow> '''') 127,
                 si_bits = of_int bits\<rparr>;
       Some (si, Some si) })"

definition make_pkg :: "int \<Rightarrow> system_info \<Rightarrow> boardcast_package" where
  "make_pkg msg_type si = \<lparr>bp_version = BOARDCAST_PROTOCAL_VERSION, bp_magic = BOARDCAST_MAGIC_NUM,
     bp_port = SERVER_TCP_PORT, bp_sys_info = si, bp_msg_type = of_int msg_type\<rparr>"

definition make_shutdown_pkg :: "platform \<Rightarrow> system_info option \<Rightarrow> (boardcast_package \<times> system_info option) option" where
  "make_shutdown_pkg pf st = do { (si, st1) \<leftarrow> systemInfo pf st; Some (make_pkg BOARDCAST_MSG_SHUTDOWN si, st1) }"

definition make_startup_pkg :: "platform \<Rightarrow> system_info option \<Rightarrow> (boardcast_package \<times> system_info option) option" where
  "make_startup_pkg pf st = do { (si, st1) \<leftarrow> systemInfo pf st; Some (make_pkg BOARDCAST_MSG_STARTUP si, st1) }"

definition make_keepalive_pkg :: "platform \<Rightarrow> system_info option \<Rightarrow> (boardcast_package \<times> system_info option) option" where
  "make_keepalive_pkg pf st = do { (si, st1) \<leftarrow> systemInfo pf st; Some (make_pkg BOARDCAST_MSG_KEEPALIVE si, st1) }"

section \<open>Addresses\<close>

text \<open>\<^verbatim>\<open>inet_ntoa\<close> prints the four bytes in decimal.\<close>

definition NetIpToString :: "byte list \<Rightarrow> string" where
  "NetIpToString ip = ip4_text ip"

definition StringToNetIp :: "string \<Rightarrow> byte list option" where
  "StringToNetIp ip = do { (_, addr) \<leftarrow> uv_ip4_addr ip 0; Some (sin_addr addr) }"

section \<open>Properties\<close>

lemma length_strncpy0: "length (strncpy0 s n) = Suc n"
  by (simp add: strncpy0_def Let_def)

lemma last_strncpy0: "strncpy0 s n ! n = 0"
  by (simp add: strncpy0_def Let_def nth_append)

lemma systemInfo_ok:
  "systemInfo pf st = Some (si, st1) \<Longrightarrow> (\<forall>x. st = Some x \<longrightarrow> si_ok x) \<Longrightarrow> si_ok si \<and> st1 = Some si"
  by (auto simp: systemInfo_def si_ok_def length_strncpy0 Let_def Option.bind_eq_Some_conv split: option.splits)

text \<open>C37. A discovery packet is 201 bytes, within the 1450 bytes the protocol allows, and the receiver
  reads back from them exactly the fields the sender set: version, magic number, the TCP port of the
  server, the message type, and the system information, whose two texts are always terminated.\<close>

theorem boardcast_packet_roundtrip:
  "make_startup_pkg pf None = Some (pkg, st) \<Longrightarrow>
   length (bp_bytes pkg) = SIZEOF_BOARDCAST_PACKAGE \<and> SIZEOF_BOARDCAST_PACKAGE \<le> UDP_PACKAGE_MAX_LEN
   \<and> bp_of (bp_bytes pkg) = pkg \<and> bp_magic (bp_of (bp_bytes pkg)) = BOARDCAST_MAGIC_NUM
   \<and> bp_port (bp_of (bp_bytes pkg)) = SERVER_TCP_PORT \<and> uint (bp_msg_type (bp_of (bp_bytes pkg))) = BOARDCAST_MSG_STARTUP
   \<and> si_cptname (bp_sys_info pkg) ! 63 = 0 \<and> si_sysver (bp_sys_info pkg) ! 127 = 0"
proof -
  assume "make_startup_pkg pf None = Some (pkg, st)"
  then obtain si where si: "systemInfo pf None = Some (si, st)" "pkg = make_pkg BOARDCAST_MSG_STARTUP si"
    by (auto simp: make_startup_pkg_def Option.bind_eq_Some_conv)
  then have ok: "si_ok si" using systemInfo_ok by blast
  have "si_cptname si ! 63 = 0" "si_sysver si ! 127 = 0"
    using si(1) by (auto simp: systemInfo_def Let_def Option.bind_eq_Some_conv last_strncpy0)
  with ok si(2) show ?thesis
    by (simp add: make_pkg_def length_bp_bytes bp_of_bytes SIZEOF_BOARDCAST_PACKAGE_def UDP_PACKAGE_MAX_LEN_def BOARDCAST_MSG_STARTUP_def)
qed

theorem boardcast_packet_roundtrip_witness:
  "\<exists>pkg st. make_startup_pkg (linux_platform (Some sample_un)) None = Some (pkg, st) \<and> length (bp_bytes pkg) = 201
     \<and> bp_of (bp_bytes pkg) = pkg \<and> take 5 (si_cptname (bp_sys_info pkg)) = [104, 111, 115, 116, 0]"
proof -
  have "map_option (\<lambda>(p, _). take 5 (si_cptname (bp_sys_info p))) (make_startup_pkg (linux_platform (Some sample_un)) None)
      = Some [104, 111, 115, 116, 0]" by code_simp
  then obtain pkg st where p: "make_startup_pkg (linux_platform (Some sample_un)) None = Some (pkg, st)"
    "take 5 (si_cptname (bp_sys_info pkg)) = [104, 111, 115, 116, 0]" by auto
  with boardcast_packet_roundtrip [OF p(1)] show ?thesis by (auto simp: SIZEOF_BOARDCAST_PACKAGE_def)
qed

text \<open>The word size in the announcement is 0 or 1 only on a machine \<^verbatim>\<open>cb_sysinfo_bits\<close> knows. On a Linux
  host whose machine name is in neither list, such as \<^verbatim>\<open>i686\<close>, the -1 the variable starts with is sent
  as 255, which the packet's comment does not have; and the version text of a Linux host is always
  empty.\<close>

theorem linux_announcement:
  assumes "make_startup_pkg (linux_platform (Some u)) None = Some (pkg, st)"
  shows "si_bits (bp_sys_info pkg) = (if un_machine u \<in> set g_x64_name then 1 else if un_machine u \<in> set g_x86_name then 0 else 255)
     \<and> si_sysver (bp_sys_info pkg) = replicate 128 0"
proof -
  obtain si where si: "systemInfo (linux_platform (Some u)) None = Some (si, st)" "bp_sys_info pkg = si"
    using assms by (auto simp: make_startup_pkg_def make_pkg_def Option.bind_eq_Some_conv)
  have z: "strncpy0 '''' 127 = replicate 128 0" by (simp add: strncpy0_def)
  show ?thesis unfolding si(2) using si(1)
    by (auto simp: systemInfo_def linux_platform_def linux_version_def linux_bits_def put_text_def z
        CB_SYSINFO_X64_def CB_SYSINFO_X86_def Let_def Option.bind_eq_Some_conv)
qed

theorem linux_announcement_witness:
  "map_option (\<lambda>(p, _). si_bits (bp_sys_info p)) (make_startup_pkg (linux_platform (Some sample_un)) None) = Some 255"
proof -
  have "map_option (\<lambda>_. ()) (make_startup_pkg (linux_platform (Some sample_un)) None) = Some ()" by code_simp
  then obtain pkg st where p: "make_startup_pkg (linux_platform (Some sample_un)) None = Some (pkg, st)" by auto
  have "un_machine sample_un \<notin> set g_x64_name" "un_machine sample_un \<notin> set g_x86_name" by code_simp+
  with linux_announcement [OF p] p show ?thesis by simp
qed

end
