(* ===== verification/Boardcast.thy ===== *)
theory Boardcast
  imports Boardcast_Proto Connreq_Mgr
begin

text \<open>
  Discovery (\<^verbatim>\<open>AutoDiscover/\<close>): the client and the server side with their sockets, semaphores and
  threads (\<^verbatim>\<open>boardcast_common.cpp\<close>, \<^verbatim>\<open>boardcast_client.cpp\<close>, \<^verbatim>\<open>boardcast_server.cpp\<close>), and the switch
  between them (\<^verbatim>\<open>discover.cpp\<close>), as the code is built on Linux. What the system calls return is an
  input. A thread is one function per turn of its loop. Undefined behaviour (an operation on
  a semaphore that is not initialised, a join of a thread that was not created) and a wait that never
  ends have no result (\<open>None\<close>). Sleeping has no effect on the state.
\<close>

section \<open>State\<close>

record socket_env =
  se_sock :: int
  se_thread :: bool
  se_sem :: "nat option"

record datagram =
  dg_sock :: int
  dg_to :: sockaddr_in
  dg_data :: "byte list"

text \<open>The static variables of the three files; \<open>d_open\<close> are the sockets the process has open, \<open>d_bound\<close>
  the addresses they are bound to, \<open>d_sent\<close> the
  datagrams sent, \<open>d_req\<close> the object of \<^verbatim>\<open>connreq_mgr.cpp\<close>, \<open>d_pf\<close> the host.\<close>

record discovery =
  d_cltbc_listen :: socket_env
  d_clt_startup :: int
  d_svr_bc :: socket_env
  d_svrbc_listen :: socket_env
  d_svr_feedback :: int
  d_svr_shutdown :: int
  d_runType :: int
  d_open :: "int list"
  d_bound :: "(int \<times> sockaddr_in) list"
  d_sent :: "datagram list"
  d_si :: "system_info option"
  d_req :: host_req
  d_pf :: platform

definition zero_env :: socket_env where
  "zero_env = \<lparr>se_sock = 0, se_thread = False, se_sem = None\<rparr>"

definition discovery_boot :: "platform \<Rightarrow> discovery option" where
  "discovery_boot pf = do {
     req \<leftarrow> HostChangeReq;
     Some \<lparr>d_cltbc_listen = zero_env, d_clt_startup = -1, d_svr_bc = zero_env, d_svrbc_listen = zero_env,
       d_svr_feedback = -1, d_svr_shutdown = -1, d_runType = 0, d_open = [], d_bound = [], d_sent = [], d_si = None, d_req = req, d_pf = pf\<rparr> }"

section \<open>Semaphores and threads\<close>

definition sem_wait :: "nat option \<Rightarrow> nat option option" where
  "sem_wait s = (case s of Some (Suc n) \<Rightarrow> Some (Some n) | _ \<Rightarrow> None)"

definition sem_post :: "nat option \<Rightarrow> nat option option" where
  "sem_post s = (case s of Some n \<Rightarrow> Some (Some (Suc n)) | None \<Rightarrow> None)"

definition sem_destroy :: "nat option \<Rightarrow> nat option option" where
  "sem_destroy s = (case s of Some n \<Rightarrow> Some None | None \<Rightarrow> None)"

text \<open>\<^verbatim>\<open>uv_sem_init(&e->sem_exit, 1); uv_sem_wait(&e->sem_exit); uv_thread_create(...)\<close>.\<close>

definition env_start :: "socket_env \<Rightarrow> socket_env option" where
  "env_start e = do { s \<leftarrow> sem_wait (Some 1); Some (e\<lparr>se_sem := s, se_thread := True\<rparr>) }"

text \<open>\<^verbatim>\<open>uv_sem_post(&e->sem_exit); uv_thread_join(&e->thread)\<close>: the thread takes the semaphore at the top of
  its loop and returns.\<close>

definition env_stop :: "socket_env \<Rightarrow> socket_env option" where
  "env_stop e = do {
     s \<leftarrow> sem_post (se_sem e);
     if \<not> se_thread e then None
     else do { s1 \<leftarrow> sem_wait s; Some (e\<lparr>se_sem := s1, se_thread := False\<rparr>) } }"

section \<open>Sockets\<close>

definition checksocket :: "int \<Rightarrow> bool" where
  "checksocket sockfd = (sockfd \<ge> 0)"

definition cleansocket :: "int \<Rightarrow> discovery \<Rightarrow> int \<times> discovery" where
  "cleansocket sock d = (if sock < 0 then (sock, d) else (-1, d\<lparr>d_open := removeAll sock (d_open d), d_bound := filter (\<lambda>b. fst b \<noteq> sock) (d_bound d)\<rparr>))"

text \<open>A new socket, when the call succeeds.\<close>

definition sys_socket :: "int \<Rightarrow> discovery \<Rightarrow> discovery" where
  "sys_socket r d = (if r \<ge> 0 then d\<lparr>d_open := r # d_open d\<rparr> else d)"

text \<open>\<^verbatim>\<open>setnonblock\<close>: the flags are read and written back; \<open>r\<close> is the result of the second call.\<close>

definition setnonblock :: "int \<Rightarrow> int" where
  "setnonblock r = r"

definition create_boardcast_socket :: "int \<times> int \<Rightarrow> discovery \<Rightarrow> int \<times> discovery" where
  "create_boardcast_socket io d = (case io of (skfd, opt) \<Rightarrow>
     let d1 = sys_socket skfd d in
     if \<not> checksocket skfd then (-1, d1)
     else if opt < 0 then (-1, snd (cleansocket skfd d1))
     else (skfd, d1))"

definition listen_addr :: "int \<Rightarrow> sockaddr_in" where
  "listen_addr port = \<lparr>sin_family = AF_INET, sin_port = htons (of_int port), sin_addr = enc32 PhyIpAddress\<rparr>"

definition create_listen_udp_socket :: "int \<Rightarrow> int \<times> int \<times> int \<Rightarrow> discovery \<Rightarrow> int \<times> discovery" where
  "create_listen_udp_socket port io d = (case io of (skfd, nonblock, bound) \<Rightarrow>
     let d1 = sys_socket skfd d in
     if \<not> checksocket skfd then (-1, d1)
     else if setnonblock nonblock < 0 then (-1, snd (cleansocket skfd d1))
     else if bound < 0 then (-1, snd (cleansocket skfd d1))
     else (skfd, d1\<lparr>d_bound := (skfd, listen_addr port) # d_bound d1\<rparr>))"

definition create_udp_socket :: "int \<Rightarrow> discovery \<Rightarrow> int \<times> discovery" where
  "create_udp_socket skfd d =
     (let d1 = sys_socket skfd d in if \<not> checksocket skfd then (-1, d1) else (skfd, d1))"

text \<open>\<^verbatim>\<open>sendto\<close>; \<open>ret\<close> is its result, a datagram goes out when it is the size of the packet.\<close>

definition send_to :: "int \<Rightarrow> int \<Rightarrow> sockaddr_in \<Rightarrow> byte list \<Rightarrow> discovery \<Rightarrow> discovery" where
  "send_to ret sock addr data d =
     (if ret = int SIZEOF_BOARDCAST_PACKAGE then d\<lparr>d_sent := d_sent d @ [\<lparr>dg_sock = sock, dg_to = addr, dg_data = data\<rparr>]\<rparr> else d)"

definition broadcast_addr :: "int \<Rightarrow> sockaddr_in" where
  "broadcast_addr port = \<lparr>sin_family = AF_INET, sin_port = htons (of_int port), sin_addr = enc32 PhyBoardcastAddr\<rparr>"

section \<open>The client\<close>

text \<open>One datagram as \<^verbatim>\<open>recvfrom\<close> returns it: its result, the struct it filled, the sender's address; \<open>rv_new\<close>
  is the address the next \<^verbatim>\<open>new\<close> returns.\<close>

record recv =
  rv_ret :: int
  rv_buf :: "byte list"
  rv_from :: "byte list"
  rv_new :: u64

text \<open>\<^verbatim>\<open>peer.port = pkg.port\<close> stores an unsigned port in a \<^verbatim>\<open>short\<close>.\<close>

definition clt_handle_boardcast_msg :: "u64 \<Rightarrow> int \<Rightarrow> peer_info \<Rightarrow> discovery \<Rightarrow> discovery option" where
  "clt_handle_boardcast_msg a msg_type peer d =
     (if msg_type = BOARDCAST_MSG_STARTUP then do {
        r \<leftarrow> deliver_addsvr_msg a (Some (pi_ip peer)) (pi_port peer) (d_req d);
        Some (d\<lparr>d_req := r\<rparr>) }
      else Some d)"

text \<open>A turn of \<^verbatim>\<open>_cltbc_listen_thread\<close>: whether the loop goes on, and the state.\<close>

definition cltbc_listen_iter :: "recv \<Rightarrow> discovery \<Rightarrow> (bool \<times> discovery) option" where
  "cltbc_listen_iter rv d = (case se_sem (d_cltbc_listen d) of
     None \<Rightarrow> None
   | Some (Suc n) \<Rightarrow> Some (False, d\<lparr>d_cltbc_listen := (d_cltbc_listen d)\<lparr>se_sem := Some n, se_thread := False\<rparr>\<rparr>)
   | Some 0 \<Rightarrow>
       if rv_ret rv \<noteq> int SIZEOF_BOARDCAST_PACKAGE then Some (True, d)
       else let pkg = bp_of (rv_buf rv);
                peer = \<lparr>pi_ip = NetIpToString (rv_from rv), pi_port = sint (bp_port pkg)\<rparr> in
         if bp_magic pkg = BOARDCAST_MAGIC_NUM then
           map_option (Pair True) (clt_handle_boardcast_msg (rv_new rv) (uint (bp_msg_type pkg)) peer d)
         else Some (True, d))"

definition client_startup_boardcast :: "int \<Rightarrow> discovery \<Rightarrow> (int \<times> discovery) option" where
  "client_startup_boardcast ret d = do {
     (pkg, si) \<leftarrow> make_startup_pkg (d_pf d) (d_si d);
     let d1 = send_to ret (d_clt_startup d) (broadcast_addr SERVER_BOARDCAST_PORT) (bp_bytes pkg) (d\<lparr>d_si := si\<rparr>);
     Some (if ret \<noteq> int SIZEOF_BOARDCAST_PACKAGE then -1 else ret, d1) }"

definition oriented_feedback_alive :: "int \<Rightarrow> string \<Rightarrow> discovery \<Rightarrow> discovery option" where
  "oriented_feedback_alive ret ip d = do {
     a \<leftarrow> StringToNetIp ip;
     (pkg, si) \<leftarrow> make_keepalive_pkg (d_pf d) (d_si d);
     Some (send_to ret (se_sock (d_cltbc_listen d))
       \<lparr>sin_family = AF_INET, sin_port = htons (of_int SERVER_BOARDCAST_PORT), sin_addr = a\<rparr> (bp_bytes pkg) (d\<lparr>d_si := si\<rparr>)) }"

text \<open>What the system answers while the client starts.\<close>

record clt_io =
  ci_listen :: "int \<times> int \<times> int"
  ci_bcast :: "int \<times> int"
  ci_sent :: int

definition clt_cleanup :: "discovery \<Rightarrow> discovery" where
  "clt_cleanup d =
     (let (s1, d1) = cleansocket (se_sock (d_cltbc_listen d)) d;
          d2 = d1\<lparr>d_cltbc_listen := (d_cltbc_listen d1)\<lparr>se_sock := s1\<rparr>\<rparr>;
          (s2, d3) = cleansocket (d_clt_startup d2) d2 in
      d3\<lparr>d_clt_startup := s2\<rparr>)"

definition clt_model_start :: "clt_io \<Rightarrow> discovery \<Rightarrow> (int \<times> discovery) option" where
  "clt_model_start i d =
     (let (fd1, d1) = create_listen_udp_socket CLIENT_BOARDCAST_PORT (ci_listen i) d;
          d2 = d1\<lparr>d_cltbc_listen := (d_cltbc_listen d1)\<lparr>se_sock := fd1\<rparr>\<rparr> in
      if fd1 = -1 then Some (-1, clt_cleanup d2)
      else let (fd2, d3) = create_boardcast_socket (ci_bcast i) d2;
               d4 = d3\<lparr>d_clt_startup := fd2\<rparr> in
        if fd2 = -1 then Some (-1, clt_cleanup d4)
        else do {
          e \<leftarrow> env_start (d_cltbc_listen d4);
          (_, d5) \<leftarrow> client_startup_boardcast (ci_sent i) (d4\<lparr>d_cltbc_listen := e\<rparr>);
          Some (0, d5) })"

definition clt_model_stop :: "discovery \<Rightarrow> (int \<times> discovery) option" where
  "clt_model_stop d = do {
     e \<leftarrow> env_stop (d_cltbc_listen d);
     let d1 = clt_cleanup (d\<lparr>d_cltbc_listen := e\<rparr>);
     s \<leftarrow> sem_destroy (se_sem (d_cltbc_listen d1));
     Some (0, d1\<lparr>d_cltbc_listen := (d_cltbc_listen d1)\<lparr>se_sem := s\<rparr>\<rparr>) }"

section \<open>The server\<close>

definition boardcast_shutdown_msg :: "int \<Rightarrow> discovery \<Rightarrow> discovery option" where
  "boardcast_shutdown_msg ret d = do {
     (pkg, si) \<leftarrow> make_shutdown_pkg (d_pf d) (d_si d);
     Some (send_to ret (d_svr_shutdown d) (broadcast_addr CLIENT_BOARDCAST_PORT) (bp_bytes pkg) (d\<lparr>d_si := si\<rparr>)) }"

definition oriented_feedback :: "int \<Rightarrow> string \<Rightarrow> discovery \<Rightarrow> discovery option" where
  "oriented_feedback ret clientip d =
     (if \<not> checksocket (d_svr_feedback d) then Some d
      else do {
        (_, clientAddr) \<leftarrow> uv_ip4_addr clientip CLIENT_BOARDCAST_PORT;
        (pkg, si) \<leftarrow> make_startup_pkg (d_pf d) (d_si d);
        Some (send_to ret (d_svr_feedback d) clientAddr (bp_bytes pkg) (d\<lparr>d_si := si\<rparr>)) })"

definition svr_handle_boardcast_msg :: "int \<Rightarrow> int \<Rightarrow> peer_info \<Rightarrow> discovery \<Rightarrow> discovery option" where
  "svr_handle_boardcast_msg ret msg_type peer d =
     (if msg_type = BOARDCAST_MSG_STARTUP then oriented_feedback ret (pi_ip peer) d
      else if msg_type = BOARDCAST_MSG_SHUTDOWN then Some d
      else if msg_type = BOARDCAST_MSG_KEEPALIVE then Some d
      else Some d)"

definition svrbc_listen_iter :: "int \<Rightarrow> recv \<Rightarrow> discovery \<Rightarrow> (bool \<times> discovery) option" where
  "svrbc_listen_iter ret rv d = (case se_sem (d_svrbc_listen d) of
     None \<Rightarrow> None
   | Some (Suc n) \<Rightarrow> Some (False, d\<lparr>d_svrbc_listen := (d_svrbc_listen d)\<lparr>se_sem := Some n, se_thread := False\<rparr>\<rparr>)
   | Some 0 \<Rightarrow>
       if rv_ret rv \<noteq> int SIZEOF_BOARDCAST_PACKAGE then Some (True, d)
       else let pkg = bp_of (rv_buf rv);
                peer = \<lparr>pi_ip = NetIpToString (rv_from rv), pi_port = sint (bp_port pkg)\<rparr> in
         if bp_magic pkg = BOARDCAST_MAGIC_NUM then
           map_option (Pair True) (svr_handle_boardcast_msg ret (uint (bp_msg_type pkg)) peer d)
         else Some (True, d))"

definition boardcast_svr_iter :: "int \<Rightarrow> discovery \<Rightarrow> (bool \<times> discovery) option" where
  "boardcast_svr_iter ret d = (case se_sem (d_svr_bc d) of
     None \<Rightarrow> None
   | Some (Suc n) \<Rightarrow> Some (False, d\<lparr>d_svr_bc := (d_svr_bc d)\<lparr>se_sem := Some n, se_thread := False\<rparr>\<rparr>)
   | Some 0 \<Rightarrow> do {
       (pkg, si) \<leftarrow> make_startup_pkg (d_pf d) (d_si d);
       Some (True, send_to ret (se_sock (d_svr_bc d)) (broadcast_addr CLIENT_BOARDCAST_PORT) (bp_bytes pkg) (d\<lparr>d_si := si\<rparr>)) })"

text \<open>\<^verbatim>\<open>_svr_boardcast_start\<close> initialises the semaphore before it creates the socket, and destroys it again
  when that fails.\<close>

definition svr_boardcast_start :: "int \<times> int \<Rightarrow> discovery \<Rightarrow> (int \<times> discovery) option" where
  "svr_boardcast_start io d =
     (let d0 = d\<lparr>d_svr_bc := (d_svr_bc d)\<lparr>se_sem := Some 1\<rparr>\<rparr>;
          (fd, d1) = create_boardcast_socket io d0;
          d2 = d1\<lparr>d_svr_bc := (d_svr_bc d1)\<lparr>se_sock := fd\<rparr>\<rparr> in
      if fd = -1 then do {
        s \<leftarrow> sem_destroy (se_sem (d_svr_bc d2));
        Some (-1, d2\<lparr>d_svr_bc := (d_svr_bc d2)\<lparr>se_sem := s\<rparr>\<rparr>) }
      else do {
        s \<leftarrow> sem_wait (se_sem (d_svr_bc d2));
        Some (0, d2\<lparr>d_svr_bc := (d_svr_bc d2)\<lparr>se_sem := s, se_thread := True\<rparr>\<rparr>) })"

definition svr_boardcast_stop :: "discovery \<Rightarrow> (int \<times> discovery) option" where
  "svr_boardcast_stop d = do {
     e \<leftarrow> env_stop (d_svr_bc d);
     s \<leftarrow> sem_destroy (se_sem e);
     let (fd, d1) = cleansocket (se_sock e) d;
     Some (0, d1\<lparr>d_svr_bc := e\<lparr>se_sem := s, se_sock := fd\<rparr>\<rparr>) }"

definition svr_listen_stop :: "discovery \<Rightarrow> (int \<times> discovery) option" where
  "svr_listen_stop d = do {
     e \<leftarrow> env_stop (d_svrbc_listen d);
     let (fd1, d1) = cleansocket (se_sock e) d;
     let (fd2, d2) = cleansocket (d_svr_feedback d1) d1;
     s \<leftarrow> sem_destroy (se_sem e);
     Some (0, d2\<lparr>d_svrbc_listen := e\<lparr>se_sem := s, se_sock := fd1\<rparr>, d_svr_feedback := fd2\<rparr>) }"

definition svr_listen_start :: "int \<times> int \<times> int \<Rightarrow> int \<Rightarrow> discovery \<Rightarrow> (int \<times> discovery) option" where
  "svr_listen_start io1 io2 d =
     (let (fd1, d1) = create_listen_udp_socket SERVER_BOARDCAST_PORT io1 d;
          d2 = d1\<lparr>d_svrbc_listen := (d_svrbc_listen d1)\<lparr>se_sock := fd1\<rparr>\<rparr> in
      if fd1 = -1 then Some (-1, d2)
      else let (fd2, d3) = create_udp_socket io2 d2;
               d4 = d3\<lparr>d_svr_feedback := fd2\<rparr> in
        if fd2 = -1 then
          let (s, d5) = cleansocket (se_sock (d_svrbc_listen d4)) d4 in
          Some (-1, d5\<lparr>d_svrbc_listen := (d_svrbc_listen d5)\<lparr>se_sock := s\<rparr>\<rparr>)
        else do {
          e \<leftarrow> env_start (d_svrbc_listen d4);
          Some (0, d4\<lparr>d_svrbc_listen := e\<rparr>) })"

record svr_io =
  si_listen :: "int \<times> int \<times> int"
  si_feedback :: int
  si_bcast :: "int \<times> int"

definition svr_model_start :: "svr_io \<Rightarrow> discovery \<Rightarrow> (int \<times> discovery) option" where
  "svr_model_start i d = do {
     (lErr, d1) \<leftarrow> svr_listen_start (si_listen i) (si_feedback i) d;
     (bErr, d2) \<leftarrow> svr_boardcast_start (si_bcast i) d1;
     if lErr \<noteq> 0 \<or> bErr \<noteq> 0 then do {
       (_, d3) \<leftarrow> (if lErr = 0 then svr_listen_stop d2 else Some (0, d2));
       (_, d4) \<leftarrow> (if bErr = 0 then svr_boardcast_stop d3 else Some (0, d3));
       Some (-1, d4) }
     else Some (0, d2) }"

definition svr_model_stop :: "discovery \<Rightarrow> (int \<times> discovery) option" where
  "svr_model_stop d = do {
     (_, d1) \<leftarrow> svr_boardcast_stop d;
     (_, d2) \<leftarrow> svr_listen_stop d1;
     Some (0, d2) }"

section \<open>The switch\<close>

definition NONE_RUN_TYPE :: int where "NONE_RUN_TYPE = 0"
definition CLT_RUN_TYPE :: int where "CLT_RUN_TYPE = 1"
definition SVR_RUN_TYPE :: int where "SVR_RUN_TYPE = 2"
definition MIX_RUN_TYPE :: int where "MIX_RUN_TYPE = 3"

text \<open>The results of the four functions are ignored.\<close>

definition switch_clt :: "clt_io \<Rightarrow> int \<Rightarrow> discovery \<Rightarrow> discovery option" where
  "switch_clt ci runType d =
     (if and (d_runType d) CLT_RUN_TYPE \<noteq> and runType CLT_RUN_TYPE then
        (if and runType CLT_RUN_TYPE \<noteq> 0 then map_option snd (clt_model_start ci d)
         else map_option snd (clt_model_stop d))
      else Some d)"

definition switch_svr :: "svr_io \<Rightarrow> int \<Rightarrow> discovery \<Rightarrow> discovery option" where
  "switch_svr si runType d =
     (if and (d_runType d) SVR_RUN_TYPE \<noteq> and runType SVR_RUN_TYPE then
        (if and runType SVR_RUN_TYPE \<noteq> 0 then map_option snd (svr_model_start si d)
         else map_option snd (svr_model_stop d))
      else Some d)"

definition ssn_set_boardcast_model :: "clt_io \<Rightarrow> svr_io \<Rightarrow> int \<Rightarrow> discovery \<Rightarrow> (int \<times> discovery) option" where
  "ssn_set_boardcast_model ci si runType d = do {
     d1 \<leftarrow> switch_clt ci runType d;
     d2 \<leftarrow> switch_svr si runType d1;
     Some (0, d2\<lparr>d_runType := runType\<rparr>) }"

section \<open>The life of the two models\<close>

definition env_up :: "socket_env \<Rightarrow> bool" where
  "env_up e \<longleftrightarrow> se_thread e \<and> se_sem e = Some 0 \<and> se_sock e \<ge> 0"

definition env_down :: "socket_env \<Rightarrow> bool" where
  "env_down e \<longleftrightarrow> \<not> se_thread e \<and> se_sem e = None"

definition clt_ok :: "bool \<Rightarrow> discovery \<Rightarrow> bool" where
  "clt_ok up d \<longleftrightarrow> (if up then env_up (d_cltbc_listen d) \<and> d_clt_startup d \<ge> 0
     else env_down (d_cltbc_listen d) \<and> d_clt_startup d = -1)"

definition svr_ok :: "bool \<Rightarrow> discovery \<Rightarrow> bool" where
  "svr_ok up d \<longleftrightarrow> (if up then env_up (d_svrbc_listen d) \<and> env_up (d_svr_bc d) \<and> d_svr_feedback d \<ge> 0
     else env_down (d_svrbc_listen d) \<and> env_down (d_svr_bc d) \<and> d_svr_feedback d = -1)"

definition clt_socks :: "bool \<Rightarrow> discovery \<Rightarrow> int list" where
  "clt_socks up d = (if up then [se_sock (d_cltbc_listen d), d_clt_startup d] else [])"

definition svr_socks :: "bool \<Rightarrow> discovery \<Rightarrow> int list" where
  "svr_socks up d = (if up then [se_sock (d_svrbc_listen d), d_svr_feedback d, se_sock (d_svr_bc d)] else [])"

definition bounds :: "bool \<Rightarrow> bool \<Rightarrow> discovery \<Rightarrow> (int \<times> sockaddr_in) list" where
  "bounds c v d = (if c then [(se_sock (d_cltbc_listen d), listen_addr CLIENT_BOARDCAST_PORT)] else [])
     @ (if v then [(se_sock (d_svrbc_listen d), listen_addr SERVER_BOARDCAST_PORT)] else [])"

definition info_ok :: "discovery \<Rightarrow> bool" where
  "info_ok d \<longleftrightarrow> systemInfo (d_pf d) (d_si d) \<noteq> None \<and> pred_option si_ok (d_si d)"

text \<open>The state with the client model up or down and the server model up or down: exactly the sockets of
  the models that are up are open, the listening ones are bound to the two discovery ports, their semaphores are initialised and their threads run.\<close>

definition models :: "bool \<Rightarrow> bool \<Rightarrow> discovery \<Rightarrow> bool" where
  "models c v d \<longleftrightarrow> clt_ok c d \<and> svr_ok v d \<and> info_ok d
     \<and> set (d_open d) = set (clt_socks c d @ svr_socks v d) \<and> distinct (clt_socks c d @ svr_socks v d)
     \<and> set (d_bound d) = set (bounds c v d)"

definition mode_ok :: "discovery \<Rightarrow> bool" where
  "mode_ok d \<longleftrightarrow> d_runType d \<in> {0..3} \<and> models (and (d_runType d) CLT_RUN_TYPE \<noteq> 0) (and (d_runType d) SVR_RUN_TYPE \<noteq> 0) d"

lemmas models_defs = models_def clt_ok_def svr_ok_def clt_socks_def svr_socks_def env_up_def env_down_def info_ok_def bounds_def

definition clt_io_good :: "clt_io \<Rightarrow> discovery \<Rightarrow> bool" where
  "clt_io_good i d \<longleftrightarrow> (case (ci_listen i, ci_bcast i) of ((a, nb, bd), (b, opt)) \<Rightarrow>
     0 \<le> a \<and> 0 \<le> b \<and> 0 \<le> nb \<and> 0 \<le> bd \<and> 0 \<le> opt \<and> distinct [a, b] \<and> set [a, b] \<inter> set (d_open d) = {})"

definition svr_io_good :: "svr_io \<Rightarrow> discovery \<Rightarrow> bool" where
  "svr_io_good i d \<longleftrightarrow> (case (si_listen i, si_feedback i, si_bcast i) of ((a, nb, bd), f, (b, opt)) \<Rightarrow>
     0 \<le> a \<and> 0 \<le> f \<and> 0 \<le> b \<and> 0 \<le> nb \<and> 0 \<le> bd \<and> 0 \<le> opt \<and> distinct [a, f, b] \<and> set [a, f, b] \<inter> set (d_open d) = {})"

lemma systemInfo_set [simp]: "systemInfo pf (Some si) = Some (si, Some si)"
  by (simp add: systemInfo_def)

lemma info_ready:
  assumes "info_ok d"
  obtains si where "systemInfo (d_pf d) (d_si d) = Some (si, Some si)" "si_ok si"
proof -
  obtain si st where s: "systemInfo (d_pf d) (d_si d) = Some (si, st)" using assms by (auto simp: info_ok_def)
  then have "si_ok si \<and> st = Some si" using assms by (intro systemInfo_ok) (auto simp: info_ok_def)
  with s that show ?thesis by simp
qed

text \<open>What the announcements of a host do.\<close>

definition with_info :: "system_info \<Rightarrow> datagram list \<Rightarrow> discovery \<Rightarrow> discovery" where
  "with_info si gs d = d\<lparr>d_si := Some si, d_sent := gs\<rparr>"

lemma with_info_sent [simp]: "d_sent (with_info si gs d) = gs"
  by (simp add: with_info_def)

lemma broadcast_to: "broadcast_addr port = (listen_addr port)\<lparr>sin_addr := enc32 PhyBoardcastAddr\<rparr>"
  by (simp add: broadcast_addr_def listen_addr_def)

lemma with_info_models: "models c v d \<Longrightarrow> si_ok si \<Longrightarrow> models c v (with_info si gs d)"
  by (cases c; cases v) (auto simp: models_defs with_info_def)

lemma client_startup_sends:
  assumes "info_ok d"
  shows "\<exists>r d1. client_startup_boardcast ret d = Some (r, d1) \<and> info_ok d1
    \<and> d_cltbc_listen d1 = d_cltbc_listen d \<and> d_clt_startup d1 = d_clt_startup d \<and> d_svr_bc d1 = d_svr_bc d
    \<and> d_svrbc_listen d1 = d_svrbc_listen d \<and> d_svr_feedback d1 = d_svr_feedback d \<and> d_open d1 = d_open d
    \<and> d_bound d1 = d_bound d \<and> d_runType d1 = d_runType d"
  by (rule info_ready [OF assms])
    (simp add: client_startup_boardcast_def make_startup_pkg_def send_to_def info_ok_def)

lemma clt_start_up:
  assumes "models False v d" "clt_io_good i d"
  shows "\<exists>d'. clt_model_start i d = Some (0, d') \<and> models True v d' \<and> d_runType d' = d_runType d"
proof -
  obtain a nb bd b opt where io: "ci_listen i = (a, nb, bd)" "ci_bcast i = (b, opt)" by (metis prod_cases3 surj_pair)
  define d4 where "d4 = d\<lparr>d_bound := (a, listen_addr CLIENT_BOARDCAST_PORT) # d_bound d, d_open := b # a # d_open d, d_clt_startup := b,
    d_cltbc_listen := (d_cltbc_listen d)\<lparr>se_sock := a, se_sem := Some 0, se_thread := True\<rparr>\<rparr>"
  have good: "0 \<le> a" "0 \<le> b" "0 \<le> nb" "0 \<le> bd" "0 \<le> opt" "a \<noteq> b" "a \<notin> set (d_open d)" "b \<notin> set (d_open d)"
    using assms(2) by (auto simp: clt_io_good_def io)
  have "info_ok d4" using assms(1) by (simp add: models_def info_ok_def d4_def)
  then obtain r d5 where c: "client_startup_boardcast (ci_sent i) d4 = Some (r, d5)" "info_ok d5"
    "d_cltbc_listen d5 = d_cltbc_listen d4" "d_clt_startup d5 = d_clt_startup d4" "d_svr_bc d5 = d_svr_bc d4"
    "d_svrbc_listen d5 = d_svrbc_listen d4" "d_svr_feedback d5 = d_svr_feedback d4" "d_open d5 = d_open d4"
    "d_bound d5 = d_bound d4" "d_runType d5 = d_runType d4" using client_startup_sends [of d4 "ci_sent i"] by blast
  have "clt_model_start i d = Some (0, d5)"
    using good c(1) unfolding d4_def
    by (simp add: clt_model_start_def create_listen_udp_socket_def create_boardcast_socket_def sys_socket_def
        checksocket_def setnonblock_def env_start_def sem_wait_def io)
  moreover have "models True v d5"
    using assms(1) good c(2-)
    by (cases v) (auto simp: models_def clt_ok_def svr_ok_def clt_socks_def svr_socks_def env_up_def env_down_def bounds_def d4_def)
  ultimately show ?thesis using c(10) by (simp add: d4_def)
qed

lemma clt_stop_down:
  assumes "models True v d"
  shows "\<exists>d'. clt_model_stop d = Some (0, d') \<and> models False v d' \<and> d_runType d' = d_runType d"
  using assms
  by (auto simp: clt_model_stop_def env_stop_def sem_post_def sem_wait_def sem_destroy_def clt_cleanup_def cleansocket_def
      models_defs Let_def)

lemma svr_start_up:
  assumes "models c False d" "svr_io_good i d"
  shows "\<exists>d'. svr_model_start i d = Some (0, d') \<and> models c True d' \<and> d_runType d' = d_runType d"
proof -
  obtain a nb bd f b opt where io: "si_listen i = (a, nb, bd)" "si_feedback i = f" "si_bcast i = (b, opt)" by (metis prod_cases3 surj_pair)
  define d4 where "d4 = d\<lparr>d_open := b # f # a # d_open d, d_bound := (a, listen_addr SERVER_BOARDCAST_PORT) # d_bound d, d_svrbc_listen := (d_svrbc_listen d)\<lparr>se_sock := a, se_sem := Some 0, se_thread := True\<rparr>,
    d_svr_feedback := f, d_svr_bc := (d_svr_bc d)\<lparr>se_sock := b, se_sem := Some 0, se_thread := True\<rparr>\<rparr>"
  have good: "0 \<le> a" "0 \<le> f" "0 \<le> b" "0 \<le> nb" "0 \<le> bd" "0 \<le> opt" "a \<noteq> f" "a \<noteq> b" "f \<noteq> b"
    "a \<notin> set (d_open d)" "f \<notin> set (d_open d)" "b \<notin> set (d_open d)"
    using assms(2) by (auto simp: svr_io_good_def io)
  have "svr_model_start i d = Some (0, d4)"
    using good unfolding d4_def
    by (simp add: svr_model_start_def svr_listen_start_def svr_boardcast_start_def create_listen_udp_socket_def
        create_boardcast_socket_def create_udp_socket_def sys_socket_def checksocket_def setnonblock_def env_start_def
        sem_wait_def io)
  moreover have "models c True d4"
    using assms(1) good by (cases c) (simp_all add: models_defs d4_def insert_commute, auto)
  ultimately show ?thesis by (simp add: d4_def)
qed

lemma svr_stop_down:
  assumes "models c True d"
  shows "\<exists>d'. svr_model_stop d = Some (0, d') \<and> models c False d' \<and> d_runType d' = d_runType d"
  using assms
  by (auto simp: svr_model_stop_def svr_boardcast_stop_def svr_listen_stop_def env_stop_def sem_post_def sem_wait_def
      sem_destroy_def cleansocket_def models_defs Let_def)

lemma run_bits:
  assumes "t \<in> {0..3 :: int}"
  shows "and t CLT_RUN_TYPE = (if t \<in> {1, 3} then 1 else 0)" "and t SVR_RUN_TYPE = (if t \<in> {2, 3} then 2 else 0)"
proof -
  have "{0..3} = {0, 1, 2, 3 :: int}" by code_simp
  with assms have "t \<in> {0, 1, 2, 3}" by simp
  then show "and t CLT_RUN_TYPE = (if t \<in> {1, 3} then 1 else 0)" "and t SVR_RUN_TYPE = (if t \<in> {2, 3} then 2 else 0)"
    by (auto simp: CLT_RUN_TYPE_def SVR_RUN_TYPE_def)
qed

lemma switch_clt_ok:
  assumes "models (and (d_runType d) CLT_RUN_TYPE \<noteq> 0) v d" "d_runType d \<in> {0..3}" "t \<in> {0..3}" "clt_io_good ci d"
  shows "\<exists>d'. switch_clt ci t d = Some d' \<and> models (and t CLT_RUN_TYPE \<noteq> 0) v d' \<and> d_runType d' = d_runType d"
  using assms(1,4) clt_start_up [of v d ci] clt_stop_down [of v d] unfolding switch_clt_def run_bits(1) [OF assms(2)] run_bits(1) [OF assms(3)]
  by (auto split: if_splits)

lemma switch_svr_ok:
  assumes "models c (and (d_runType d) SVR_RUN_TYPE \<noteq> 0) d" "d_runType d \<in> {0..3}" "t \<in> {0..3}" "svr_io_good si d"
  shows "\<exists>d'. switch_svr si t d = Some d' \<and> models c (and t SVR_RUN_TYPE \<noteq> 0) d' \<and> d_runType d' = d_runType d"
  using assms(1,4) svr_start_up [of c d si] svr_stop_down [of c d] unfolding switch_svr_def run_bits(2) [OF assms(2)] run_bits(2) [OF assms(3)]
  by (auto split: if_splits)

lemma models_runType: "models c v (d\<lparr>d_runType := t\<rparr>) = models c v d"
  by (simp add: models_defs)

text \<open>C35. As long as the system calls succeed, every switch of the discovery mode returns, and the state
  matches the mode: exactly the sockets of the models that are on are open, so no switch leaks or
  closes a foreign descriptor, and exactly their threads run, with initialised semaphores; no join
  or semaphore operation is undefined or blocks.\<close>

theorem discovery_switch:
  "mode_ok d \<and> t \<in> {0..3} \<and> clt_io_good ci d \<and> pred_option (svr_io_good si) (switch_clt ci t d) \<Longrightarrow>
   \<exists>d'. ssn_set_boardcast_model ci si t d = Some (0, d') \<and> mode_ok d' \<and> d_runType d' = t"
proof -
  assume h: "mode_ok d \<and> t \<in> {0..3} \<and> clt_io_good ci d \<and> pred_option (svr_io_good si) (switch_clt ci t d)"
  then have m: "models (and (d_runType d) CLT_RUN_TYPE \<noteq> 0) (and (d_runType d) SVR_RUN_TYPE \<noteq> 0) d" "d_runType d \<in> {0..3}"
    by (simp_all add: mode_ok_def)
  obtain d1 where d1: "switch_clt ci t d = Some d1" "models (and t CLT_RUN_TYPE \<noteq> 0) (and (d_runType d) SVR_RUN_TYPE \<noteq> 0) d1"
    "d_runType d1 = d_runType d" using switch_clt_ok [OF m] h by blast
  have g: "svr_io_good si d1" using h d1(1) by simp
  obtain d2 where "switch_svr si t d1 = Some d2" "models (and t CLT_RUN_TYPE \<noteq> 0) (and t SVR_RUN_TYPE \<noteq> 0) d2"
    using switch_svr_ok [of _ d1 t si] d1(2,3) m(2) g h by metis
  with d1 h show ?thesis by (simp add: ssn_set_boardcast_model_def mode_ok_def models_runType)
qed

lemma discovery_boots: "\<exists>d. discovery_boot pf = Some d"
proof -
  obtain s where s: "HostChangeReq = Some s" using cr_inv_init by blast
  show ?thesis unfolding discovery_boot_def s by simp
qed

lemma discovery_boot_ok:
  assumes "discovery_boot pf = Some d" "systemInfo pf None \<noteq> None"
  shows "mode_ok d" "d_runType d = 0" "d_pf d = pf" "cr_inv (d_req d)"
  using assms cr_start_inv by (auto simp: discovery_boot_def mode_ok_def models_defs zero_env_def Option.bind_eq_Some_conv)

theorem discovery_switch_witness:
  "\<exists>d ci si d'. discovery_boot (linux_platform (Some sample_un)) = Some d
     \<and> ssn_set_boardcast_model ci si MIX_RUN_TYPE d = Some (0, d') \<and> mode_ok d' \<and> set (d_open d') = {3, 4, 5, 6, 7}"
proof -
  let ?pf = "linux_platform (Some sample_un)"
  let ?ci = "\<lparr>ci_listen = (3, 0, 0), ci_bcast = (4, 0), ci_sent = 201\<rparr>"
  let ?si = "\<lparr>si_listen = (5, 0, 0), si_feedback = 6, si_bcast = (7, 0)\<rparr>"
  obtain d where d: "discovery_boot ?pf = Some d" using discovery_boots by blast
  have pf: "systemInfo ?pf None \<noteq> None" by code_simp
  have o0: "d_open d = []" using d by (auto simp: discovery_boot_def Option.bind_eq_Some_conv)
  have m: "models False False d" and rt: "d_runType d = 0" using discovery_boot_ok [OF d pf] by (simp_all add: mode_ok_def)
  have g: "clt_io_good ?ci d" using o0 by (simp add: clt_io_good_def)
  obtain d1 where d1: "clt_model_start ?ci d = Some (0, d1)" "d_open d1 = [4, 3]" "d_runType d1 = 0"
  proof -
    from m have "info_ok (d\<lparr>d_bound := (3, listen_addr CLIENT_BOARDCAST_PORT) # d_bound d, d_open := [4, 3], d_clt_startup := 4,
      d_cltbc_listen := (d_cltbc_listen d)\<lparr>se_sock := 3, se_sem := Some 0, se_thread := True\<rparr>\<rparr>)" (is "info_ok ?d4")
      by (simp add: models_def info_ok_def)
    from client_startup_sends [OF this, of 201] show ?thesis using that o0 rt
      by (auto simp: clt_model_start_def create_listen_udp_socket_def create_boardcast_socket_def sys_socket_def
        checksocket_def setnonblock_def env_start_def sem_wait_def)
  qed
  have "switch_clt ?ci MIX_RUN_TYPE d = Some d1"
    using d1(1) rt by (simp add: switch_clt_def MIX_RUN_TYPE_def CLT_RUN_TYPE_def)
  then have "pred_option (svr_io_good ?si) (switch_clt ?ci MIX_RUN_TYPE d)" using d1(2) by (simp add: svr_io_good_def)
  with discovery_switch [of d MIX_RUN_TYPE ?ci ?si] g discovery_boot_ok(1) [OF d pf]
  obtain d' where d': "ssn_set_boardcast_model ?ci ?si MIX_RUN_TYPE d = Some (0, d')" "mode_ok d'"
    by (auto simp: MIX_RUN_TYPE_def)
  moreover have "set (d_open d') = {3, 4, 5, 6, 7}"
    using d'(1) d1 rt by (auto simp: ssn_set_boardcast_model_def switch_clt_def switch_svr_def MIX_RUN_TYPE_def CLT_RUN_TYPE_def
      SVR_RUN_TYPE_def Option.bind_eq_Some_conv svr_model_start_def svr_listen_start_def svr_boardcast_start_def create_listen_udp_socket_def
        create_boardcast_socket_def create_udp_socket_def sys_socket_def checksocket_def setnonblock_def env_start_def
        sem_wait_def split: if_splits)
  ultimately show ?thesis using d by blast
qed

section \<open>Starts that fail\<close>

definition fresh_fds :: "int list \<Rightarrow> discovery \<Rightarrow> bool" where
  "fresh_fds fds d \<longleftrightarrow> distinct (filter (\<lambda>x. 0 \<le> x) fds) \<and> (\<forall>x \<in> set fds. 0 \<le> x \<longrightarrow> x \<notin> set (d_open d))"

definition clt_io_fails :: "clt_io \<Rightarrow> bool" where
  "clt_io_fails i \<longleftrightarrow> (case (ci_listen i, ci_bcast i) of ((a, nb, bd), (b, opt)) \<Rightarrow> a < 0 \<or> nb < 0 \<or> bd < 0 \<or> b < 0 \<or> opt < 0)"

definition svr_io_fails :: "svr_io \<Rightarrow> bool" where
  "svr_io_fails i \<longleftrightarrow> (case (si_listen i, si_feedback i, si_bcast i) of ((a, nb, bd), f, (b, opt)) \<Rightarrow>
     a < 0 \<or> nb < 0 \<or> bd < 0 \<or> f < 0 \<or> b < 0 \<or> opt < 0)"

lemma bound_open: "models c v d \<Longrightarrow> b \<in> set (d_bound d) \<Longrightarrow> fst b \<in> set (d_open d)"
  by (cases c; cases v) (auto simp: models_defs)

lemma unbound_filter: "models c v d \<Longrightarrow> x \<notin> set (d_open d) \<Longrightarrow> filter (\<lambda>b. fst b \<noteq> x) (d_bound d) = d_bound d"
  using bound_open by (auto simp: filter_id_conv)

definition unused :: "int \<Rightarrow> discovery \<Rightarrow> bool" where
  "unused x d \<longleftrightarrow> (0 \<le> x \<longrightarrow> x \<notin> set (d_open d) \<and> filter (\<lambda>b. fst b \<noteq> x) (d_bound d) = d_bound d)"

lemma fresh_unused: "models c v d \<Longrightarrow> fresh_fds fds d \<Longrightarrow> x \<in> set fds \<Longrightarrow> unused x d"
  using unbound_filter by (auto simp: fresh_fds_def unused_def)

lemma listen_outcome:
  assumes "unused a d"
  shows "create_listen_udp_socket port (a, nb, bd) d =
    (if a < 0 \<or> nb < 0 \<or> bd < 0 then (-1, d)
     else (a, d\<lparr>d_open := a # d_open d, d_bound := (a, listen_addr port) # d_bound d\<rparr>))"
proof (cases "a < 0")
  case True
  then show ?thesis by (simp add: create_listen_udp_socket_def sys_socket_def checksocket_def)
next
  case False
  with assms have "a \<notin> set (d_open d)" "filter (\<lambda>b. fst b \<noteq> a) (d_bound d) = d_bound d" by (simp_all add: unused_def)
  with False show ?thesis
    by (simp add: create_listen_udp_socket_def sys_socket_def checksocket_def setnonblock_def cleansocket_def Let_def)
qed

lemma bcast_outcome:
  assumes "unused b d"
  shows "create_boardcast_socket (b, opt) d =
    (if b < 0 \<or> opt < 0 then (-1, d) else (b, d\<lparr>d_open := b # d_open d\<rparr>))"
proof (cases "b < 0")
  case True
  then show ?thesis by (simp add: create_boardcast_socket_def sys_socket_def checksocket_def)
next
  case False
  with assms have "b \<notin> set (d_open d)" "filter (\<lambda>x. fst x \<noteq> b) (d_bound d) = d_bound d" by (simp_all add: unused_def)
  with False show ?thesis
    by (simp add: create_boardcast_socket_def sys_socket_def checksocket_def cleansocket_def Let_def)
qed

lemma udp_outcome: "create_udp_socket f d = (if f < 0 then (-1, d) else (f, d\<lparr>d_open := f # d_open d\<rparr>))"
  by (simp add: create_udp_socket_def sys_socket_def checksocket_def)

lemma clt_start_fails:
  assumes m: "models False v d" and "clt_io_fails i" "fresh_fds [fst (ci_listen i), fst (ci_bcast i)] d"
  shows "\<exists>d'. clt_model_start i d = Some (-1, d') \<and> models False v d' \<and> d_runType d' = d_runType d"
proof -
  obtain a nb bd b opt where io: "ci_listen i = (a, nb, bd)" "ci_bcast i = (b, opt)" by (metis prod_cases3 surj_pair)
  let ?e = "d\<lparr>d_cltbc_listen := (d_cltbc_listen d)\<lparr>se_sock := -1\<rparr>, d_clt_startup := -1\<rparr>"
  have st: "d_clt_startup d = -1" using m by (simp add: models_def clt_ok_def)
  have un: "unused a d" "unused b d" using fresh_unused [OF m assms(3)] by (simp_all add: io)
  have "clt_model_start i d = Some (-1, ?e)"
  proof (cases "a < 0 \<or> nb < 0 \<or> bd < 0")
    case True
    with st show ?thesis by (simp add: clt_model_start_def io listen_outcome [OF un(1)] clt_cleanup_def cleansocket_def)
  next
    case False
    let ?d2 = "d\<lparr>d_open := a # d_open d, d_bound := (a, listen_addr CLIENT_BOARDCAST_PORT) # d_bound d,
      d_cltbc_listen := (d_cltbc_listen d)\<lparr>se_sock := a\<rparr>\<rparr>"
    have "unused b ?d2" using un(2) assms(3) False by (auto simp: unused_def fresh_fds_def io split: if_splits)
    from bcast_outcome [OF this, of opt] False un(1) assms(2) show ?thesis
      by (simp add: clt_model_start_def io listen_outcome [OF un(1)] clt_cleanup_def cleansocket_def clt_io_fails_def unused_def)
  qed
  moreover have "models False v ?e" using m by (cases v) (simp_all add: models_defs)
  ultimately show ?thesis by simp
qed

definition svr_down :: "socket_env \<Rightarrow> socket_env \<Rightarrow> discovery \<Rightarrow> discovery" where
  "svr_down l b d = d\<lparr>d_svrbc_listen := l, d_svr_feedback := -1, d_svr_bc := b\<rparr>"

lemma svr_down_models: "models c False d \<Longrightarrow> env_down l \<Longrightarrow> env_down b \<Longrightarrow> models c False (svr_down l b d)"
  by (cases c) (simp_all add: svr_down_def models_defs)

lemma svr_listen_fails:
  assumes "unused a d" "a < 0 \<or> nb < 0 \<or> bd < 0 \<or> f < 0" "d_svr_feedback d = -1"
  shows "svr_listen_start (a, nb, bd) f d = Some (-1, d\<lparr>d_svrbc_listen := (d_svrbc_listen d)\<lparr>se_sock := -1\<rparr>, d_svr_feedback := -1\<rparr>)"
proof (cases "a < 0 \<or> nb < 0 \<or> bd < 0")
  case True
  with assms(3) show ?thesis by (simp add: svr_listen_start_def listen_outcome [OF assms(1)])
next
  case False
  with assms show ?thesis
    by (simp add: svr_listen_start_def listen_outcome [OF assms(1)] udp_outcome cleansocket_def unused_def)
qed

lemma svr_bcast_then_stop:
  assumes "unused b d" "0 \<le> b" "0 \<le> opt"
  shows "\<exists>d2. svr_boardcast_start (b, opt) d = Some (0, d2)
    \<and> svr_boardcast_stop d2 = Some (0, d\<lparr>d_svr_bc := \<lparr>se_sock = -1, se_thread = False, se_sem = None\<rparr>\<rparr>)"
proof -
  have "unused b (d\<lparr>d_svr_bc := (d_svr_bc d)\<lparr>se_sem := Some 1\<rparr>\<rparr>)" using assms(1) by (simp add: unused_def)
  from bcast_outcome [OF this, of opt] assms show ?thesis
    by (simp add: svr_boardcast_start_def svr_boardcast_stop_def env_stop_def sem_post_def sem_wait_def sem_destroy_def
        cleansocket_def unused_def)
qed

lemma svr_bcast_fails:
  assumes "unused b d" "b < 0 \<or> opt < 0"
  shows "svr_boardcast_start (b, opt) d = Some (-1, d\<lparr>d_svr_bc := (d_svr_bc d)\<lparr>se_sem := None, se_sock := -1\<rparr>\<rparr>)"
proof -
  have "unused b (d\<lparr>d_svr_bc := (d_svr_bc d)\<lparr>se_sem := Some 1\<rparr>\<rparr>)" using assms(1) by (simp add: unused_def)
  from bcast_outcome [OF this, of opt] assms(2) show ?thesis
    by (simp add: svr_boardcast_start_def sem_destroy_def)
qed

lemma svr_listen_then_stop:
  assumes "unused a d" "unused f d" "unused b d" "a \<noteq> f" "0 \<le> a" "0 \<le> nb" "0 \<le> bd" "0 \<le> f" "b < 0 \<or> opt < 0" "b \<notin> {a, f}"
  shows "\<exists>d1. svr_listen_start (a, nb, bd) f d = Some (0, d1) \<and> (\<exists>d2. svr_boardcast_start (b, opt) d1 = Some (-1, d2)
    \<and> svr_listen_stop d2 = Some (0, svr_down \<lparr>se_sock = -1, se_thread = False, se_sem = None\<rparr> ((d_svr_bc d)\<lparr>se_sem := None, se_sock := -1\<rparr>) d))"
proof -
  let ?d1 = "d\<lparr>d_open := f # a # d_open d, d_bound := (a, listen_addr SERVER_BOARDCAST_PORT) # d_bound d,
    d_svrbc_listen := (d_svrbc_listen d)\<lparr>se_sock := a, se_sem := Some 0, se_thread := True\<rparr>, d_svr_feedback := f\<rparr>"
  have "svr_listen_start (a, nb, bd) f d = Some (0, ?d1)"
    using assms by (simp add: svr_listen_start_def listen_outcome udp_outcome env_start_def sem_wait_def)
  moreover have "unused b ?d1" using assms by (auto simp: unused_def)
  ultimately show ?thesis using assms svr_bcast_fails [of b ?d1 opt]
    by (simp add: svr_listen_stop_def env_stop_def sem_post_def sem_wait_def sem_destroy_def cleansocket_def unused_def svr_down_def)
qed

lemma svr_start_fails:
  assumes m: "models c False d" and "svr_io_fails i" "fresh_fds [fst (si_listen i), si_feedback i, fst (si_bcast i)] d"
  shows "\<exists>d'. svr_model_start i d = Some (-1, d') \<and> models c False d' \<and> d_runType d' = d_runType d"
proof -
  obtain a nb bd f b opt where io: "si_listen i = (a, nb, bd)" "si_feedback i = f" "si_bcast i = (b, opt)" by (metis prod_cases3 surj_pair)
  have un: "unused a d" "unused f d" "unused b d" using fresh_unused [OF m assms(3)] by (simp_all add: io)
  have fb: "d_svr_feedback d = -1" "env_down (d_svrbc_listen d)" "env_down (d_svr_bc d)" using m by (simp_all add: models_def svr_ok_def)
  have "\<exists>l e. env_down l \<and> env_down e \<and> svr_model_start i d = Some (-1, svr_down l e d)"
  proof (cases "a < 0 \<or> nb < 0 \<or> bd < 0 \<or> f < 0")
    case True
    note l = svr_listen_fails [OF un(1) True fb(1)]
    let ?d1 = "d\<lparr>d_svrbc_listen := (d_svrbc_listen d)\<lparr>se_sock := -1\<rparr>, d_svr_feedback := -1\<rparr>"
    have u: "unused b ?d1" using un(3) by (simp add: unused_def)
    show ?thesis
    proof (cases "b < 0 \<or> opt < 0")
      case True
      from svr_bcast_fails [OF u True] l fb show ?thesis
        by (intro exI [of _ "(d_svrbc_listen d)\<lparr>se_sock := -1\<rparr>"] exI [of _ "(d_svr_bc d)\<lparr>se_sem := None, se_sock := -1\<rparr>"])
          (simp add: svr_model_start_def io svr_down_def env_down_def)
    next
      case False
      then obtain d2 where "svr_boardcast_start (b, opt) ?d1 = Some (0, d2)"
        "svr_boardcast_stop d2 = Some (0, ?d1\<lparr>d_svr_bc := \<lparr>se_sock = -1, se_thread = False, se_sem = None\<rparr>\<rparr>)"
        using svr_bcast_then_stop [OF u, of opt] by auto
      with l fb show ?thesis
        by (intro exI [of _ "(d_svrbc_listen d)\<lparr>se_sock := -1\<rparr>"] exI [of _ "\<lparr>se_sock = -1, se_thread = False, se_sem = None\<rparr>"])
          (simp add: svr_model_start_def io svr_down_def env_down_def)
    qed
  next
    case False
    have ne: "a \<noteq> f" "b \<notin> {a, f}" using False assms(3) by (auto simp: fresh_fds_def io split: if_splits)
    from False assms(2) have bf: "b < 0 \<or> opt < 0" by (auto simp: svr_io_fails_def io)
    from svr_listen_then_stop [OF un ne(1) _ _ _ _ bf ne(2), of nb bd] False
    obtain d1 d2 where "svr_listen_start (a, nb, bd) f d = Some (0, d1)" "svr_boardcast_start (b, opt) d1 = Some (-1, d2)"
      "svr_listen_stop d2 = Some (0, svr_down \<lparr>se_sock = -1, se_thread = False, se_sem = None\<rparr> ((d_svr_bc d)\<lparr>se_sem := None, se_sock := -1\<rparr>) d)"
      by auto
    with fb show ?thesis
      by (intro exI [of _ "\<lparr>se_sock = -1, se_thread = False, se_sem = None\<rparr>"] exI [of _ "(d_svr_bc d)\<lparr>se_sem := None, se_sock := -1\<rparr>"])
        (simp add: svr_model_start_def io env_down_def)
  qed
  with svr_down_models [OF m] show ?thesis by (auto simp: svr_down_def)
qed

lemma fresh_good:
  "fresh_fds [fst (ci_listen ci), fst (ci_bcast ci)] d \<Longrightarrow> \<not> clt_io_fails ci \<Longrightarrow> clt_io_good ci d"
  "fresh_fds [fst (si_listen si), si_feedback si, fst (si_bcast si)] d \<Longrightarrow> \<not> svr_io_fails si \<Longrightarrow> svr_io_good si d"
  by (auto simp: fresh_fds_def clt_io_good_def clt_io_fails_def svr_io_good_def svr_io_fails_def split: prod.splits if_splits)


definition sample_si :: system_info where
  "sample_si = \<lparr>si_cptname = replicate 64 0, si_sysver = replicate 128 0, si_bits = 1\<rparr>"

text \<open>A process with both sides down.\<close>

definition sample_disc :: "host_req \<Rightarrow> discovery" where
  "sample_disc req = \<lparr>d_cltbc_listen = zero_env, d_clt_startup = -1, d_svr_bc = zero_env, d_svrbc_listen = zero_env,
     d_svr_feedback = -1, d_svr_shutdown = -1, d_runType = 0, d_open = [], d_bound = [], d_sent = [], d_si = Some sample_si,
     d_req = req, d_pf = linux_platform None\<rparr>"

lemma sample_disc_models: "models False False (sample_disc req)"
  by (simp add: sample_disc_def models_defs zero_env_def sample_si_def si_ok_def)


text \<open>\<^verbatim>\<open>ssn_set_boardcast_model\<close> ignores a client that does not start, for instance because its port is taken: it
  returns 0 and records the client as running. Asking again for the client then does nothing, and
  switching it off operates on a semaphore and joins a thread that do not exist.\<close>

theorem discovery_failed_start_forgotten:
  "models False False d \<and> d_runType d = NONE_RUN_TYPE \<and> clt_io_fails ci
     \<and> fresh_fds [fst (ci_listen ci), fst (ci_bcast ci)] d \<Longrightarrow>
   \<exists>d'. ssn_set_boardcast_model ci si CLT_RUN_TYPE d = Some (0, d') \<and> models False False d' \<and> d_runType d' = CLT_RUN_TYPE
     \<and> (\<forall>ci2 si2. ssn_set_boardcast_model ci2 si2 CLT_RUN_TYPE d' = Some (0, d'))
     \<and> (\<forall>ci2 si2. ssn_set_boardcast_model ci2 si2 NONE_RUN_TYPE d' = None)"
proof -
  assume h: "models False False d \<and> d_runType d = NONE_RUN_TYPE \<and> clt_io_fails ci
     \<and> fresh_fds [fst (ci_listen ci), fst (ci_bcast ci)] d"
  then obtain d1 where d1: "clt_model_start ci d = Some (-1, d1)" "models False False d1" "d_runType d1 = d_runType d"
    using clt_start_fails by blast
  let ?d = "d1\<lparr>d_runType := CLT_RUN_TYPE\<rparr>"
  have m: "models False False ?d" using d1(2) by (simp add: models_runType)
  have bits: "and CLT_RUN_TYPE CLT_RUN_TYPE = 1" "and NONE_RUN_TYPE CLT_RUN_TYPE = 0" "and CLT_RUN_TYPE SVR_RUN_TYPE = 0"
    "and NONE_RUN_TYPE SVR_RUN_TYPE = 0" by (simp_all add: CLT_RUN_TYPE_def SVR_RUN_TYPE_def NONE_RUN_TYPE_def)
  have "se_sem (d_cltbc_listen ?d) = None" using m by (simp add: models_defs)
  then have "clt_model_stop ?d = None" by (simp add: clt_model_stop_def env_stop_def sem_post_def)
  with m h d1 bits show ?thesis
    by (intro exI [of _ ?d]) (simp add: ssn_set_boardcast_model_def switch_clt_def switch_svr_def)
qed

theorem discovery_failed_start_forgotten_witness:
  "\<exists>r d'. HostChangeReq = Some r \<and> ssn_set_boardcast_model \<lparr>ci_listen = (3, 0, -1), ci_bcast = (4, 0), ci_sent = 0\<rparr>
       \<lparr>si_listen = (5, 0, 0), si_feedback = 6, si_bcast = (7, 0)\<rparr> 1 (sample_disc r) = Some (0, d') \<and> d_runType d' = 1
     \<and> (\<forall>ci2 si2. ssn_set_boardcast_model ci2 si2 0 d' = None)"
proof -
  obtain r where r: "HostChangeReq = Some r" using cr_inv_init by blast
  have s: "d_open (sample_disc r) = []" "d_runType (sample_disc r) = NONE_RUN_TYPE"
    by (simp_all add: sample_disc_def NONE_RUN_TYPE_def)
  show ?thesis
    using discovery_failed_start_forgotten [of "sample_disc r" "\<lparr>ci_listen = (3, 0, -1), ci_bcast = (4, 0), ci_sent = 0\<rparr>"
      "\<lparr>si_listen = (5, 0, 0), si_feedback = 6, si_bcast = (7, 0)\<rparr>"] sample_disc_models [of r] r
    by (auto simp: fresh_fds_def clt_io_fails_def CLT_RUN_TYPE_def NONE_RUN_TYPE_def s)
qed

section \<open>Discovery\<close>

lemma addsvr_attempt:
  assumes inv: "cr_inv s" and f: "hr_params s a = None" and "length (jobs (hr_pool s)) \<le> 64" "ip \<notin> set (req_ips s)"
  shows "\<exists>s'. addsvrconn a ip port s = Some s' \<and> cr_inv s' \<and> Some ip \<in># attempt_ips s'
    \<and> hr_params s' a = Some \<lparr>pi_ip = ip, pi_port = port\<rparr> \<and> ip \<in> set (req_ips s')"
proof -
  from inv have pl: "pool_ok 4 (hr_pool s)" "closer (hr_pool s) = C_Idle" by (simp_all add: cr_inv_def)
  obtain r pl' where p: "threadpool_push_work a CONN_WORK 0 (hr_pool s) = Some (r, pl')"
    "attempts pl' = add_mset \<lparr>tp_data = a, tp_proc = CONN_WORK, tp_after = 0\<rparr> (attempts (hr_pool s))"
    using attempts_push [OF pl, of a CONN_WORK 0] assms(3) by auto
  let ?s = "s\<lparr>hr_reqs := hr_reqs s @ [\<lparr>pi_ip = ip, pi_port = port\<rparr>],
      hr_params := (hr_params s)(a := Some \<lparr>pi_ip = ip, pi_port = port\<rparr>), hr_pool := pl'\<rparr>"
  have e: "addsvrconn a ip port s = Some ?s" using p(1) assms(4) by (simp add: addsvrconn_def has_req_iff req_ips_def Let_def)
  with cr_inv_add [OF inv f e] p(2) show ?thesis by (simp add: attempt_ips_def req_ips_def)
qed

lemma cr_inv_once:
  assumes "cr_inv s" "Some ip \<in># attempt_ips s"
  shows "count (attempt_ips s) (Some ip) = 1"
proof -
  have "count (attempt_ips s) (Some ip) \<le> count (mset (map Some (req_ips s))) (Some ip)"
    using assms(1) mset_subset_eq_count by (auto simp: cr_inv_def)
  also have "\<dots> \<le> 1" using assms(1) distinct_count_atmost_1 [of "map Some (req_ips s)"]
    by (auto simp: cr_inv_def distinct_map)
  finally show ?thesis using assms(2) by (simp add: le_Suc_eq count_eq_zero_iff)
qed

text \<open>What one host makes of an announcement of another, and of its own startup.\<close>

lemma startup_pkg_read:
  assumes "si_ok si"
  shows "bp_of (bp_bytes (make_pkg BOARDCAST_MSG_STARTUP si)) = make_pkg BOARDCAST_MSG_STARTUP si"
    "length (bp_bytes (make_pkg BOARDCAST_MSG_STARTUP si)) = SIZEOF_BOARDCAST_PACKAGE"
  using assms bp_of_bytes [of "make_pkg BOARDCAST_MSG_STARTUP si"] length_bp_bytes [of "make_pkg BOARDCAST_MSG_STARTUP si"]
  by (simp_all add: make_pkg_def)

lemma models_req: "models c v d \<Longrightarrow> models c v (d\<lparr>d_req := r\<rparr>)"
  by (cases c; cases v) (simp_all add: models_defs)

lemma clt_hears_startup:
  assumes "models True v dc" "si_ok si" "addsvrconn a (ip4_text ip) 10038 (d_req dc) = Some r"
  shows "cltbc_listen_iter \<lparr>rv_ret = 201, rv_buf = bp_bytes (make_pkg BOARDCAST_MSG_STARTUP si), rv_from = ip, rv_new = a\<rparr> dc
    = Some (True, dc\<lparr>d_req := r\<rparr>)"
  using assms(1,3)
  by (simp add: cltbc_listen_iter_def models_def clt_ok_def env_up_def SIZEOF_BOARDCAST_PACKAGE_def startup_pkg_read(1) [OF assms(2)])
    (simp add: make_pkg_def clt_handle_boardcast_msg_def bc_consts deliver_addsvr_msg_def NetIpToString_def)

lemma uv_ip4_addr_text:
  assumes "length ip = 4"
  shows "uv_ip4_addr (ip4_text ip) port = Some (0, \<lparr>sin_family = AF_INET, sin_port = htons (of_int port), sin_addr = ip\<rparr>)"
proof -
  obtain a b c d where "ip = [a, b, c, d]" using length4 [OF assms] by blast
  then show ?thesis using pton4_text by (simp add: uv_ip4_addr_def uv_inet_pton_def Let_def)
qed

text \<open>C33. A server that is up is found by every client that is up and hears it: the announcement the server's
  thread sends goes to the broadcast address at the port the client's socket is bound to, and a
  client that receives it from address \<^verbatim>\<open>ip\<close> queues exactly one job that connects to that address at
  the TCP port of the server, unless a request for it is already pending.\<close>

theorem discovery_server_found:
  "models c True ds \<and> models True v dc \<and> length ip = 4 \<and> cr_inv (d_req dc) \<and> hr_params (d_req dc) a = None
     \<and> length (jobs (hr_pool (d_req dc))) \<le> 64 \<and> ip4_text ip \<notin> set (req_ips (d_req dc)) \<Longrightarrow>
   \<exists>ds' g dc'. boardcast_svr_iter 201 ds = Some (True, ds') \<and> models c True ds' \<and> d_sent ds' = d_sent ds @ [g]
     \<and> dg_to g = (listen_addr CLIENT_BOARDCAST_PORT)\<lparr>sin_addr := enc32 PhyBoardcastAddr\<rparr>
     \<and> (se_sock (d_cltbc_listen dc), listen_addr CLIENT_BOARDCAST_PORT) \<in> set (d_bound dc) \<and> length (dg_data g) = 201
     \<and> cltbc_listen_iter \<lparr>rv_ret = 201, rv_buf = dg_data g, rv_from = ip, rv_new = a\<rparr> dc = Some (True, dc')
     \<and> models True v dc' \<and> cr_inv (d_req dc') \<and> count (attempt_ips (d_req dc')) (Some (ip4_text ip)) = 1
     \<and> hr_params (d_req dc') a = Some \<lparr>pi_ip = ip4_text ip, pi_port = 10038\<rparr>"
proof -
  assume h: "models c True ds \<and> models True v dc \<and> length ip = 4 \<and> cr_inv (d_req dc) \<and> hr_params (d_req dc) a = None
     \<and> length (jobs (hr_pool (d_req dc))) \<le> 64 \<and> ip4_text ip \<notin> set (req_ips (d_req dc))"
  then have "info_ok ds" by (simp add: models_def)
  then obtain si where si: "systemInfo (d_pf ds) (d_si ds) = Some (si, Some si)" "si_ok si" by (rule info_ready)
  let ?g = "\<lparr>dg_sock = se_sock (d_svr_bc ds), dg_to = broadcast_addr CLIENT_BOARDCAST_PORT,
    dg_data = bp_bytes (make_pkg BOARDCAST_MSG_STARTUP si)\<rparr>"
  have s: "boardcast_svr_iter 201 ds = Some (True, with_info si (d_sent ds @ [?g]) ds)"
    using h si(1) by (simp add: boardcast_svr_iter_def models_def svr_ok_def env_up_def make_startup_pkg_def send_to_def
        SIZEOF_BOARDCAST_PACKAGE_def with_info_def)
  obtain r where r: "addsvrconn a (ip4_text ip) 10038 (d_req dc) = Some r" "cr_inv r" "Some (ip4_text ip) \<in># attempt_ips r"
    "hr_params r a = Some \<lparr>pi_ip = ip4_text ip, pi_port = 10038\<rparr>" using addsvr_attempt h by meson
  have "count (attempt_ips r) (Some (ip4_text ip)) = 1" using r(2,3) cr_inv_once by blast
  moreover have "(se_sock (d_cltbc_listen dc), listen_addr CLIENT_BOARDCAST_PORT) \<in> set (d_bound dc)"
    using h by (simp add: models_def bounds_def)
  moreover have "models c True (with_info si (d_sent ds @ [?g]) ds)" "models True v (dc\<lparr>d_req := r\<rparr>)"
    using h si(2) by (simp_all add: with_info_models models_req)
  ultimately show ?thesis
    using s r(2,4) clt_hears_startup [OF _ si(2) r(1), of v] h startup_pkg_read(2) [OF si(2)]
    by (intro exI [of _ "with_info si (d_sent ds @ [?g]) ds"] exI [of _ ?g] exI [of _ "dc\<lparr>d_req := r\<rparr>"])
      (simp add: SIZEOF_BOARDCAST_PACKAGE_def broadcast_to)
qed

text \<open>A client and a server that are up, and nothing pending.\<close>

lemma sample_up:
  "HostChangeReq = Some r \<Longrightarrow> \<exists>dc. models True False dc \<and> d_req dc = r"
  "\<exists>ds. models False True ds"
proof -
  let ?ci = "\<lparr>ci_listen = (3, 0, 0), ci_bcast = (4, 0), ci_sent = 0\<rparr>"
  let ?e = "\<lparr>se_sock = 3, se_thread = True, se_sem = Some 0\<rparr>"
  let ?f = "\<lparr>se_sock = 5, se_thread = True, se_sem = Some 0\<rparr>"
  show "\<exists>dc. models True False dc \<and> d_req dc = r"
    by (rule exI [of _ "(sample_disc r)\<lparr>d_cltbc_listen := ?e, d_clt_startup := 4, d_open := [3, 4],
      d_bound := [(3, listen_addr CLIENT_BOARDCAST_PORT)]\<rparr>"])
      (simp add: sample_disc_def models_defs zero_env_def sample_si_def si_ok_def)
  show "\<exists>ds. models False True ds"
    by (rule exI [of _ "(sample_disc r)\<lparr>d_svrbc_listen := ?e, d_svr_feedback := 4, d_svr_bc := ?f, d_open := [3, 4, 5],
      d_bound := [(3, listen_addr SERVER_BOARDCAST_PORT)]\<rparr>"])
      (simp add: sample_disc_def models_defs zero_env_def sample_si_def si_ok_def)
qed

theorem discovery_server_found_witness:
  "\<exists>ds ds' dc dc' buf. boardcast_svr_iter 201 ds = Some (True, ds') \<and> dg_data (last (d_sent ds')) = buf
     \<and> cltbc_listen_iter \<lparr>rv_ret = 201, rv_buf = buf, rv_from = [192, 168, 0, 9], rv_new = 7\<rparr> dc = Some (True, dc')
     \<and> hr_params (d_req dc') 7 = Some \<lparr>pi_ip = ''192.168.0.9'', pi_port = 10038\<rparr>"
proof -
  obtain r where r: "HostChangeReq = Some r" "cr_inv r" "hr_reqs r = []" "jobs (hr_pool r) = []" "hr_params r = (\<lambda>_. None)"
    using cr_inv_init by blast
  obtain dc ds where d: "models True False dc" "d_req dc = r" "models False True ds" using sample_up r(1) by blast
  have ip: "ip4_text [192, 168, 0, 9] = ''192.168.0.9''" by code_simp
  have "length (jobs (hr_pool r)) \<le> 64" using r(4) by simp
  then obtain ds' g dc' where "boardcast_svr_iter 201 ds = Some (True, ds')" "d_sent ds' = d_sent ds @ [g]"
    "cltbc_listen_iter \<lparr>rv_ret = 201, rv_buf = dg_data g, rv_from = [192, 168, 0, 9], rv_new = 7\<rparr> dc = Some (True, dc')"
    "hr_params (d_req dc') 7 = Some \<lparr>pi_ip = ''192.168.0.9'', pi_port = 10038\<rparr>"
    using discovery_server_found [of False ds False dc "[192, 168, 0, 9]" 7] d r(2,3,5) by (auto simp: ip req_ips_def)
  then show ?thesis by (intro exI [of _ ds] exI [of _ ds'] exI [of _ dc] exI [of _ dc'] exI [of _ "dg_data g"]) simp
qed

text \<open>C34. A client that starts is answered by every server that is up and hears it: its startup packet goes to
  the port the server's socket is bound to, and a server that receives it from address \<^verbatim>\<open>ip\<close> sends
  its own announcement back to exactly that address, at the port the client listens on, where it is
  handled as the announcement of a server.\<close>

theorem discovery_client_answered:
  "models True v dc \<and> models c True ds \<and> length ip = 4 \<Longrightarrow>
   \<exists>dc' g ds' g'. client_startup_boardcast 201 dc = Some (201, dc') \<and> models True v dc' \<and> d_sent dc' = d_sent dc @ [g]
     \<and> dg_to g = (listen_addr SERVER_BOARDCAST_PORT)\<lparr>sin_addr := enc32 PhyBoardcastAddr\<rparr>
     \<and> (se_sock (d_svrbc_listen ds), listen_addr SERVER_BOARDCAST_PORT) \<in> set (d_bound ds)
     \<and> svrbc_listen_iter 201 \<lparr>rv_ret = 201, rv_buf = dg_data g, rv_from = ip, rv_new = a\<rparr> ds = Some (True, ds')
     \<and> models c True ds' \<and> d_sent ds' = d_sent ds @ [g'] \<and> dg_sock g' = d_svr_feedback ds
     \<and> dg_to g' = (listen_addr CLIENT_BOARDCAST_PORT)\<lparr>sin_addr := ip\<rparr>
     \<and> (\<exists>si. si_ok si \<and> dg_data g' = bp_bytes (make_pkg BOARDCAST_MSG_STARTUP si))"
proof -
  assume h: "models True v dc \<and> models c True ds \<and> length ip = 4"
  then have "info_ok dc" "info_ok ds" by (simp_all add: models_def)
  then obtain si sj where si: "systemInfo (d_pf dc) (d_si dc) = Some (si, Some si)" "si_ok si"
    and sj: "systemInfo (d_pf ds) (d_si ds) = Some (sj, Some sj)" "si_ok sj" by (meson info_ready)
  let ?g = "\<lparr>dg_sock = d_clt_startup dc, dg_to = broadcast_addr SERVER_BOARDCAST_PORT,
    dg_data = bp_bytes (make_pkg BOARDCAST_MSG_STARTUP si)\<rparr>"
  let ?g' = "\<lparr>dg_sock = d_svr_feedback ds, dg_to = (listen_addr CLIENT_BOARDCAST_PORT)\<lparr>sin_addr := ip\<rparr>,
    dg_data = bp_bytes (make_pkg BOARDCAST_MSG_STARTUP sj)\<rparr>"
  have s: "client_startup_boardcast 201 dc = Some (201, with_info si (d_sent dc @ [?g]) dc)"
    using si(1) by (simp add: client_startup_boardcast_def make_startup_pkg_def send_to_def SIZEOF_BOARDCAST_PACKAGE_def with_info_def)
  have f: "oriented_feedback 201 (ip4_text ip) ds = Some (with_info sj (d_sent ds @ [?g']) ds)"
    using h sj(1) uv_ip4_addr_text [of ip] by (simp add: oriented_feedback_def models_def svr_ok_def checksocket_def
      make_startup_pkg_def send_to_def SIZEOF_BOARDCAST_PACKAGE_def with_info_def listen_addr_def)
  have "svrbc_listen_iter 201 \<lparr>rv_ret = 201, rv_buf = dg_data ?g, rv_from = ip, rv_new = a\<rparr> ds
      = Some (True, with_info sj (d_sent ds @ [?g']) ds)"
    using h f by (simp add: svrbc_listen_iter_def models_def svr_ok_def env_up_def SIZEOF_BOARDCAST_PACKAGE_def startup_pkg_read(1) [OF si(2)])
      (simp add: make_pkg_def svr_handle_boardcast_msg_def BOARDCAST_MSG_STARTUP_def NetIpToString_def)
  moreover have "(se_sock (d_svrbc_listen ds), listen_addr SERVER_BOARDCAST_PORT) \<in> set (d_bound ds)"
    using h by (simp add: models_def bounds_def)
  moreover have "models True v (with_info si (d_sent dc @ [?g]) dc)" "models c True (with_info sj (d_sent ds @ [?g']) ds)"
    using h si(2) sj(2) by (simp_all add: with_info_models)
  ultimately show ?thesis using s sj(2)
    by (intro exI [of _ "with_info si (d_sent dc @ [?g]) dc"] exI [of _ ?g] exI [of _ "with_info sj (d_sent ds @ [?g']) ds"]
      exI [of _ ?g']) (auto simp: broadcast_to)
qed

theorem discovery_client_answered_witness:
  "\<exists>dc dc' ds ds' buf. client_startup_boardcast 201 dc = Some (201, dc') \<and> dg_data (last (d_sent dc')) = buf
     \<and> svrbc_listen_iter 201 \<lparr>rv_ret = 201, rv_buf = buf, rv_from = [192, 168, 0, 9], rv_new = 7\<rparr> ds = Some (True, ds')
     \<and> sin_addr (dg_to (last (d_sent ds'))) = [192, 168, 0, 9]"
proof -
  obtain r where "HostChangeReq = Some r" using cr_inv_init by blast
  then obtain dc ds where d: "models True False dc" "models False True ds" using sample_up by blast
  then obtain dc' g ds' g' where "client_startup_boardcast 201 dc = Some (201, dc')" "d_sent dc' = d_sent dc @ [g]"
    "svrbc_listen_iter 201 \<lparr>rv_ret = 201, rv_buf = dg_data g, rv_from = [192, 168, 0, 9], rv_new = 7\<rparr> ds = Some (True, ds')"
    "d_sent ds' = d_sent ds @ [g']" "dg_to g' = (listen_addr CLIENT_BOARDCAST_PORT)\<lparr>sin_addr := [192, 168, 0, 9]\<rparr>"
    using discovery_client_answered [of False dc False ds "[192, 168, 0, 9]" 7] by auto
  then show ?thesis by (intro exI [of _ dc] exI [of _ dc'] exI [of _ ds] exI [of _ ds'] exI [of _ "dg_data g"]) simp
qed

end
