(* ===== verification/Uv_Heap.thy ===== *)
theory Uv_Heap
  imports Ssn_Prelude
begin

text \<open>
  The binary min heap of libuv, \<^verbatim>\<open>src/third/libuv/src/heap-inl.h\<close>, in which the event loop keeps the
  timers of the communication core. The code links the nodes by left, right and parent pointers and
  finds the last place of the bottom row by the binary digits of the number of elements; it is
  modelled on an explicit memory, pointer by pointer, with a pointer to a pointer as a location
  and a dereference of NULL or of an address without a node as no result.

  The abstraction places the nodes on the positions 1 to \<open>n\<close> of the complete tree. Every operation is shown
  to return, to keep the links of the complete tree and the order of the heap, and to change the
  set of elements as it should, for every number of elements the counter can hold. The
  interface the timers rely on is the locale \<open>priority_queue\<close> at the end.
\<close>

section \<open>The structures\<close>

record heap_node =
  hn_left :: "addr option"
  hn_right :: "addr option"
  hn_parent :: "addr option"

record heap =
  h_min :: "addr option"
  h_nelts :: u32

type_synonym hmem = "addr \<Rightarrow> heap_node option"
type_synonym heap_st = "heap \<times> hmem"

text \<open>What a \<^verbatim>\<open>struct heap_node **\<close> of the code may point to.\<close>

datatype loc = At_Min | At_Left addr | At_Right addr

fun deref :: "loc \<Rightarrow> heap_st \<Rightarrow> addr option option" where
  "deref At_Min (h, m) = Some (h_min h)"
| "deref (At_Left a) (h, m) = map_option hn_left (m a)"
| "deref (At_Right a) (h, m) = map_option hn_right (m a)"

definition upd :: "addr \<Rightarrow> (heap_node \<Rightarrow> heap_node) \<Rightarrow> hmem \<Rightarrow> hmem option" where
  "upd a g m = (case m a of None \<Rightarrow> None | Some x \<Rightarrow> Some (m(a \<mapsto> g x)))"

text \<open>\<^verbatim>\<open>if (p != NULL) p->field = ...\<close>\<close>

definition upd_opt :: "addr option \<Rightarrow> (heap_node \<Rightarrow> heap_node) \<Rightarrow> hmem \<Rightarrow> hmem option" where
  "upd_opt oa g m = (case oa of None \<Rightarrow> Some m | Some a \<Rightarrow> upd a g m)"

fun store_at :: "loc \<Rightarrow> addr option \<Rightarrow> heap_st \<Rightarrow> heap_st option" where
  "store_at At_Min v (h, m) = Some (h\<lparr>h_min := v\<rparr>, m)"
| "store_at (At_Left a) v (h, m) = map_option (Pair h) (upd a (hn_left_update (\<lambda>_. v)) m)"
| "store_at (At_Right a) v (h, m) = map_option (Pair h) (upd a (hn_right_update (\<lambda>_. v)) m)"

section \<open>The operations\<close>

definition heap_init :: "hmem \<Rightarrow> heap_st" where
  "heap_init m = (\<lparr>h_min = None, h_nelts = 0\<rparr>, m)"

definition heap_min :: "heap_st \<Rightarrow> addr option" where
  "heap_min s = h_min (fst s)"

text \<open>The link to a node in its parent, or in the heap when it has none, is redirected.\<close>

definition relink :: "addr option \<Rightarrow> addr \<Rightarrow> addr \<Rightarrow> heap_st \<Rightarrow> heap_st option" where
  "relink up old new s = (case s of (h, m) \<Rightarrow>
     (case up of
        None \<Rightarrow> Some (h\<lparr>h_min := Some new\<rparr>, m)
      | Some u \<Rightarrow> do {
          un \<leftarrow> m u;
          m' \<leftarrow> (if hn_left un = Some old
                 then upd u (hn_left_update (\<lambda>_. Some new)) m
                 else upd u (hn_right_update (\<lambda>_. Some new)) m);
          Some (h, m')
        }))"

definition heap_node_swap :: "heap_st \<Rightarrow> addr \<Rightarrow> addr \<Rightarrow> heap_st option" where
  "heap_node_swap s parent child = (case s of (h, m) \<Rightarrow> do {
     t \<leftarrow> m parent;
     c \<leftarrow> m child;
     let m = m(parent \<mapsto> c);
     let m = m(child \<mapsto> t);
     m \<leftarrow> upd parent (hn_parent_update (\<lambda>_. Some child)) m;
     cn \<leftarrow> m child;
     let (g, sibling) = (if hn_left cn = Some child
                         then (hn_left_update (\<lambda>_. Some parent), hn_right cn)
                         else (hn_right_update (\<lambda>_. Some parent), hn_left cn));
     m \<leftarrow> upd child g m;
     m \<leftarrow> upd_opt sibling (hn_parent_update (\<lambda>_. Some child)) m;
     pn \<leftarrow> m parent;
     m \<leftarrow> upd_opt (hn_left pn) (hn_parent_update (\<lambda>_. Some parent)) m;
     pn \<leftarrow> m parent;
     m \<leftarrow> upd_opt (hn_right pn) (hn_parent_update (\<lambda>_. Some parent)) m;
     cn \<leftarrow> m child;
     relink (hn_parent cn) parent child (h, m)
   })"

text \<open>\<^verbatim>\<open>for (k = 0, n = ...; n >= 2; k += 1, n /= 2) path = (path << 1) | (n & 1)\<close>\<close>

unbundle bit_operations_syntax

function path_loop :: "u32 \<Rightarrow> u32 \<Rightarrow> u32 \<Rightarrow> u32 \<times> u32" where
  "path_loop n k path =
     (if 2 \<le> n then path_loop (n div 2) (k + 1) (push_bit 1 path OR (n AND 1)) else (path, k))"
  by pat_completeness auto

lemma half_less: "2 \<le> (n :: u32) \<Longrightarrow> unat (n div 2) < unat n"
  by (simp add: unat_div word_le_nat_alt)

termination path_loop
  by (relation "measure (\<lambda>(n, k, path). unat n)") (auto simp: half_less)

definition heap_path :: "u32 \<Rightarrow> u32 \<times> u32" where
  "heap_path n = path_loop n 0 0"

definition take_branch :: "loc \<Rightarrow> u32 \<Rightarrow> heap_st \<Rightarrow> loc option" where
  "take_branch l path s = (case deref l s of
     Some (Some a) \<Rightarrow> Some (if path AND 1 \<noteq> 0 then At_Right a else At_Left a)
   | _ \<Rightarrow> None)"

function insert_walk :: "u32 \<Rightarrow> u32 \<Rightarrow> loc \<Rightarrow> loc \<Rightarrow> heap_st \<Rightarrow> (loc \<times> loc) option" where
  "insert_walk k path parent child s =
     (if 0 < k
      then (case take_branch child path s of
              None \<Rightarrow> None
            | Some c \<Rightarrow> insert_walk (k - 1) (drop_bit 1 path) child c s)
      else Some (parent, child))"
  by pat_completeness auto

lemma pred_less: "0 < (k :: u32) \<Longrightarrow> unat (k - 1) < unat k"
  by (metis less_irrefl measure_unat word_gt_0)

termination insert_walk
  by (relation "measure (\<lambda>(k, path, parent, child, s). unat k)") (auto simp: pred_less)

function remove_walk :: "u32 \<Rightarrow> u32 \<Rightarrow> loc \<Rightarrow> heap_st \<Rightarrow> loc option" where
  "remove_walk k path mx s =
     (if 0 < k
      then (case take_branch mx path s of
              None \<Rightarrow> None
            | Some l \<Rightarrow> remove_walk (k - 1) (drop_bit 1 path) l s)
      else Some mx)"
  by pat_completeness auto

termination remove_walk
  by (relation "measure (\<lambda>(k, path, mx, s). unat k)") (auto simp: pred_less)

declare path_loop.simps [simp del] insert_walk.simps [simp del] remove_walk.simps [simp del]

text \<open>The two loops that move a node along a path: up while it is less than its parent, down while
  a child is less than it.\<close>

partial_function (option) up_loop ::
  "(addr \<Rightarrow> addr \<Rightarrow> bool) \<Rightarrow> addr \<Rightarrow> heap_st \<Rightarrow> heap_st option" where
  [code]: "up_loop lt a s = Option.bind (snd s a) (\<lambda>n.
     (case hn_parent n of
        None \<Rightarrow> Some s
      | Some p \<Rightarrow>
          if lt a p then Option.bind (heap_node_swap s p a) (up_loop lt a) else Some s))"

definition smaller :: "(addr \<Rightarrow> addr \<Rightarrow> bool) \<Rightarrow> addr option \<Rightarrow> addr \<Rightarrow> addr" where
  "smaller lt oa b = (case oa of None \<Rightarrow> b | Some a \<Rightarrow> if lt a b then a else b)"

partial_function (option) down_loop ::
  "(addr \<Rightarrow> addr \<Rightarrow> bool) \<Rightarrow> addr \<Rightarrow> heap_st \<Rightarrow> heap_st option" where
  [code]: "down_loop lt a s = Option.bind (snd s a) (\<lambda>n.
     (let smallest = smaller lt (hn_right n) (smaller lt (hn_left n) a)
      in if smallest = a then Some s
         else Option.bind (heap_node_swap s a smallest) (down_loop lt a)))"

definition heap_insert ::
  "(addr \<Rightarrow> addr \<Rightarrow> bool) \<Rightarrow> heap_st \<Rightarrow> addr \<Rightarrow> heap_st option" where
  "heap_insert lt s newnode = (case s of (h, m) \<Rightarrow> do {
     m \<leftarrow> upd newnode (\<lambda>_. \<lparr>hn_left = None, hn_right = None, hn_parent = None\<rparr>) m;
     let (path, k) = heap_path (1 + h_nelts h);
     (parent, child) \<leftarrow> insert_walk k path At_Min At_Min (h, m);
     p \<leftarrow> deref parent (h, m);
     m \<leftarrow> upd newnode (hn_parent_update (\<lambda>_. p)) m;
     (h, m) \<leftarrow> store_at child (Some newnode) (h, m);
     up_loop lt newnode (h\<lparr>h_nelts := h_nelts h + 1\<rparr>, m)
   })"

definition heap_remove ::
  "(addr \<Rightarrow> addr \<Rightarrow> bool) \<Rightarrow> heap_st \<Rightarrow> addr option \<Rightarrow> heap_st option" where
  "heap_remove lt s node = (case s of (h, m) \<Rightarrow>
     if h_nelts h = 0 then Some (h, m)
     else do {
       let (path, k) = heap_path (h_nelts h);
       mx \<leftarrow> remove_walk k path At_Min (h, m);
       let h = h\<lparr>h_nelts := h_nelts h - 1\<rparr>;
       oc \<leftarrow> deref mx (h, m);
       (h, m) \<leftarrow> store_at mx None (h, m);
       if oc = node
       then Some (if oc = h_min h then h\<lparr>h_min := None\<rparr> else h, m)
       else do {
         child \<leftarrow> oc;
         node \<leftarrow> node;
         nd \<leftarrow> m node;
         m \<leftarrow> upd child (\<lambda>_. nd) m;
         m \<leftarrow> upd_opt (hn_left nd) (hn_parent_update (\<lambda>_. Some child)) m;
         m \<leftarrow> upd_opt (hn_right nd) (hn_parent_update (\<lambda>_. Some child)) m;
         nd \<leftarrow> m node;
         s \<leftarrow> relink (hn_parent nd) node child (h, m);
         s \<leftarrow> down_loop lt child s;
         up_loop lt child s
       }
     })"

definition heap_dequeue :: "(addr \<Rightarrow> addr \<Rightarrow> bool) \<Rightarrow> heap_st \<Rightarrow> heap_st option" where
  "heap_dequeue lt s = heap_remove lt s (heap_min s)"

section \<open>The path to a position\<close>

text \<open>The position reached from position \<open>x\<close> by the lowest \<open>k\<close> binary digits of a path, lowest first.\<close>

fun walk_pos :: "nat \<Rightarrow> nat \<Rightarrow> nat \<Rightarrow> nat" where
  "walk_pos 0 path x = x"
| "walk_pos (Suc k) path x = walk_pos k (path div 2) (2 * x + path mod 2)"

lemma walk_pos_ge: "2 ^ k * x \<le> walk_pos k path x"
proof (induction k arbitrary: path x)
  case (Suc k)
  have "2 ^ k * (2 * x) \<le> 2 ^ k * (2 * x + path mod 2)" by simp
  also have "\<dots> \<le> walk_pos k (path div 2) (2 * x + path mod 2)" by (rule Suc)
  finally show ?case by (simp add: ac_simps)
qed simp

lemma walk_pos_grows: "1 \<le> x \<Longrightarrow> 2 * x \<le> walk_pos (Suc k) path x"
proof -
  assume "1 \<le> x"
  have "1 * (2 * x) \<le> 2 ^ k * (2 * x + path mod 2)" by (intro mult_mono) simp_all
  also have "\<dots> \<le> walk_pos (Suc k) path x" using walk_pos_ge [of k] by simp
  finally show ?thesis by simp
qed

lemma unat_and_one: "unat ((n :: u32) AND 1) = unat n mod 2"
  by (simp add: and_one_eq unat_mod)

lemma unat_push_digit:
  assumes "unat (path :: u32) < 2 ^ 31"
  shows "unat (push_bit 1 path OR (n AND 1)) = 2 * unat path + unat n mod 2"
proof -
  have d: "unat (path * 2) = 2 * unat path"
    using assms by (simp add: unat_mult_lem [THEN iffD1] mult.commute)
  have e: "even (path * 2)" by simp
  have o: "unat (path * 2 + 1) = 2 * unat path + 1"
    using assms d by (subst unat_add_lem [THEN iffD1]) simp_all
  show ?thesis
  proof (cases "even (unat n)")
    case True
    then have "n AND 1 = 0" using unat_and_one [of n] by (simp add: unat_eq_zero even_iff_mod_2_eq_zero)
    with True d show ?thesis by (simp add: mult.commute even_iff_mod_2_eq_zero)
  next
    case False
    then have "unat (n AND 1) = 1" using unat_and_one [of n] by (simp add: odd_iff_mod_2_eq_one)
    then have "n AND 1 = 1" by (metis unat_1 word_unat_eq_iff)
    with False o e show ?thesis by (simp add: or_one_eq odd_iff_mod_2_eq_one)
  qed
qed

lemma path_loop_walk:
  assumes "unat n * 2 ^ unat k \<le> N" "N < 2 ^ 32" "1 \<le> n" "unat path < 2 ^ unat k"
    and "walk_pos (unat k) (unat path) (unat n) = N" "path_loop n k path = (path', k')"
  shows "walk_pos (unat k') (unat path') 1 = N"
  using assms
proof (induction n k path rule: path_loop.induct)
  case (1 n k path)
  show ?case
  proof (cases "2 \<le> n")
    case True
    then have n2: "2 \<le> unat n" by (simp add: word_le_nat_alt)
    have "(2::nat) ^ Suc (unat k) \<le> unat n * 2 ^ unat k"
      using n2 by (simp only: power_Suc) (intro mult_right_mono, simp_all)
    also note 1(2)
    also note 1(3)
    finally have small: "(2::nat) ^ Suc (unat k) < 2 ^ 32" .
    then have "Suc (unat k) < 32" by (simp only: power_strict_increasing_iff)
    then have k: "unat (k + 1) = Suc (unat k)" by (subst unat_add_lem [THEN iffD1]) simp_all
    have p: "unat path < 2 ^ 31" using 1(5) small by simp
    have h: "unat (n div 2) = unat n div 2" by (simp add: unat_div)
    have "path_loop (n div 2) (k + 1) (push_bit 1 path OR (n AND 1)) = (path', k')"
      using 1(7) True by (simp add: path_loop.simps [of n])
    moreover have "unat (n div 2) * 2 ^ unat (k + 1) \<le> N"
    proof -
      have "unat n div 2 * (2 * 2 ^ unat k) = 2 * (unat n div 2) * 2 ^ unat k" by simp
      also have "\<dots> \<le> unat n * 2 ^ unat k" by (intro mult_right_mono) simp_all
      finally show ?thesis unfolding h k power_Suc using 1(2) by (rule order_trans)
    qed
    moreover have "1 \<le> n div 2" using n2 h by (simp add: word_le_nat_alt)
    moreover have "unat (push_bit 1 path OR (n AND 1)) < 2 ^ unat (k + 1)"
    proof -
      have "2 * unat path + unat n mod 2 < 2 * 2 ^ unat k" using 1(5) by presburger
      then show ?thesis using unat_push_digit [OF p, of n] k by simp
    qed
    moreover have "walk_pos (unat (k + 1)) (unat (push_bit 1 path OR (n AND 1))) (unat (n div 2)) = N"
      using 1(6) unat_push_digit [OF p, of n] k h by simp
    ultimately show ?thesis using 1(1) [OF True] 1(3) by blast
  next
    case False
    with 1(4) have "unat n = 1" by (simp add: word_le_nat_alt)
    moreover have "path' = path" "k' = k"
      using 1(7) False by (simp_all add: path_loop.simps [of n])
    ultimately show ?thesis using 1(6) by simp
  qed
qed

lemma heap_path_walk:
  assumes "heap_path n = (path, k)" "1 \<le> n"
  shows "walk_pos (unat k) (unat path) 1 = unat n"
proof (rule path_loop_walk)
  show "path_loop n 0 0 = (path, k)" using assms by (simp add: heap_path_def)
  show "unat n < 2 ^ 32" using unat_lt [of n] by simp
qed (use assms in simp_all)

section \<open>The complete tree\<close>

text \<open>The node at a position of the tree of \<open>n\<close> nodes, \<open>f\<close> giving the node of each position: the
  children of \<open>q\<close> are at \<open>2 q\<close> and \<open>2 q + 1\<close>, its parent at \<open>q div 2\<close>.\<close>

definition pos :: "nat \<Rightarrow> (nat \<Rightarrow> addr) \<Rightarrow> nat \<Rightarrow> addr option" where
  "pos n f q = (if 1 \<le> q \<and> q \<le> n then Some (f q) else None)"

definition cnode :: "nat \<Rightarrow> (nat \<Rightarrow> addr) \<Rightarrow> nat \<Rightarrow> heap_node" where
  "cnode n f q =
     \<lparr>hn_left = pos n f (2 * q), hn_right = pos n f (2 * q + 1), hn_parent = pos n f (q div 2)\<rparr>"

definition linked :: "heap_st \<Rightarrow> nat \<Rightarrow> (nat \<Rightarrow> addr) \<Rightarrow> bool" where
  "linked s n f \<longleftrightarrow> inj_on f {1..n} \<and> h_min (fst s) = pos n f 1 \<and>
     (\<forall>q. 1 \<le> q \<and> q \<le> n \<longrightarrow> snd s (f q) = Some (cnode n f q))"

text \<open>What every operation leaves: which addresses hold a node.\<close>

definition same_dom :: "heap_st \<Rightarrow> heap_st \<Rightarrow> bool" where
  "same_dom s s' \<longleftrightarrow> dom (snd s') = dom (snd s)"

lemma same_dom_refl [simp]: "same_dom s s"
  by (simp add: same_dom_def)

lemma same_dom_trans: "same_dom s s' \<Longrightarrow> same_dom s' s'' \<Longrightarrow> same_dom s s''"
  by (simp add: same_dom_def)

text \<open>A change of the node at a position, as a function on memories.\<close>

definition app :: "addr option \<Rightarrow> (heap_node \<Rightarrow> heap_node) \<Rightarrow> hmem \<Rightarrow> hmem" where
  "app oa g m = (case oa of None \<Rightarrow> m | Some a \<Rightarrow> m(a := map_option g (m a)))"

lemma dom_app [simp]: "dom (app oa g m) = dom m"
  by (auto simp: app_def dom_def split: option.splits)

lemma upd_app: "a \<in> dom m \<Longrightarrow> upd a g m = Some (app (Some a) g m)"
  by (auto simp: upd_def app_def dom_def)

lemma upd_opt_app: "(\<And>a. oa = Some a \<Longrightarrow> a \<in> dom m) \<Longrightarrow> upd_opt oa g m = Some (app oa g m)"
  by (auto simp: upd_opt_def upd_app app_def split: option.splits)

lemma app_pos:
  assumes "inj_on f {1..n}" "1 \<le> q" "q \<le> n"
  shows "app (pos n f x) g m (f q) = (if q = x then map_option g (m (f q)) else m (f q))"
  using assms inj_on_eq_iff [of f "{1..n}" q x] by (cases "1 \<le> x \<and> x \<le> n") (auto simp: app_def pos_def)

lemma linked_dom: "linked s n f \<Longrightarrow> 1 \<le> q \<Longrightarrow> q \<le> n \<Longrightarrow> f q \<in> dom (snd s)"
  by (auto simp: linked_def)

lemma linked_pos_dom: "linked s n f \<Longrightarrow> pos n f q = Some a \<Longrightarrow> a \<in> dom (snd s)"
  using linked_dom [of s n f q] by (auto simp: pos_def split: if_splits)

lemma linked_node: "linked s n f \<Longrightarrow> 1 \<le> q \<Longrightarrow> q \<le> n \<Longrightarrow> snd s (f q) = Some (cnode n f q)"
  by (simp add: linked_def)

lemma pos_eq_iff:
  "inj_on f {1..n} \<Longrightarrow> 1 \<le> q \<Longrightarrow> q \<le> n \<Longrightarrow> pos n f x = Some (f q) \<longleftrightarrow> x = q"
  using inj_on_eq_iff [of f "{1..n}" x q] by (cases "1 \<le> x \<and> x \<le> n") (auto simp: pos_def)

subsection \<open>Walking to a position\<close>

definition loc_of :: "(nat \<Rightarrow> addr) \<Rightarrow> nat \<Rightarrow> loc" where
  "loc_of f q = (if q \<le> 1 then At_Min else if even q then At_Left (f (q div 2)) else At_Right (f (q div 2)))"

lemma loc_of_1: "loc_of f 1 = At_Min"
  by (simp add: loc_of_def)

lemma deref_loc_of:
  assumes "linked s n f" "1 \<le> q" "q div 2 \<le> n"
  shows "deref (loc_of f q) s = Some (pos n f q)"
proof (cases "q \<le> 1")
  case True
  then show ?thesis using assms by (cases s) (simp add: loc_of_def linked_def)
next
  case False
  then have "1 \<le> q div 2" by simp
  then have "snd s (f (q div 2)) = Some (cnode n f (q div 2))" using assms by (simp add: linked_node)
  then show ?thesis using False
    by (cases s) (auto simp: loc_of_def cnode_def elim!: evenE oddE)
qed

lemma take_branch_loc_of:
  assumes "linked s n f" "1 \<le> q" "q \<le> n"
  shows "take_branch (loc_of f q) path s = Some (loc_of f (2 * q + unat path mod 2))"
proof -
  have "deref (loc_of f q) s = Some (Some (f q))" using assms by (simp add: deref_loc_of pos_def)
  moreover have "path AND 1 \<noteq> 0 \<longleftrightarrow> odd (unat path)"
    using unat_and_one [of path] by (metis odd_iff_mod_2_eq_one unat_eq_zero zero_neq_one parity_cases)
  ultimately show ?thesis using assms by (auto simp: take_branch_def loc_of_def even_iff_mod_2_eq_zero odd_iff_mod_2_eq_one)
qed

lemma insert_walk_loc_of:
  assumes "linked s n f" "1 \<le> x" "walk_pos (unat k) (unat path) x = N" "N \<le> n + 1"
  shows "insert_walk k path p (loc_of f x) s =
    Some (if k = 0 then p else loc_of f (N div 2), loc_of f N)"
  using assms
proof (induction k path p "loc_of f x" s arbitrary: x rule: insert_walk.induct)
  case (1 k path p s)
  show ?case
  proof (cases "0 < k")
    case True
    then obtain j where j: "unat k = Suc j" "unat (k - 1) = j"
      by (metis Suc_pred diff_Suc_1 unat_gt_0 unat_minus_one word_neq_0_conv)
    have "2 * x \<le> N" using 1(4) walk_pos_grows [OF 1(3)] 1(4) j by metis
    then have "x \<le> n" using 1(3,5) by linarith
    then have t: "take_branch (loc_of f x) path s = Some (loc_of f (2 * x + unat path mod 2))"
      using 1(2,3) by (simp add: take_branch_loc_of)
    have w: "walk_pos (unat (k - 1)) (unat (drop_bit 1 path)) (2 * x + unat path mod 2) = N"
      using 1(4) j by (simp add: unat_div drop_bit_eq_div)
    have "insert_walk (k - 1) (drop_bit 1 path) (loc_of f x) (loc_of f (2 * x + unat path mod 2)) s =
      Some (if k - 1 = 0 then loc_of f x else loc_of f (N div 2), loc_of f N)"
      using 1(1) [OF True t 1(2) _ w 1(5)] 1(3) by simp
    moreover have "k - 1 = 0 \<Longrightarrow> x = N div 2" using w by auto
    ultimately show ?thesis using True t by (auto simp: insert_walk.simps [of k])
  next
    case False
    then have "k = 0" by (simp add: word_gt_0)
    then show ?thesis using 1(4) by (simp add: insert_walk.simps)
  qed
qed

lemma remove_walk_loc_of:
  assumes "linked s n f" "1 \<le> x" "walk_pos (unat k) (unat path) x = N" "N \<le> n + 1"
  shows "remove_walk k path (loc_of f x) s = Some (loc_of f N)"
proof -
  have "remove_walk k path l s = map_option snd (insert_walk k path p l s)" for k path p l
    by (induction k path l s arbitrary: p rule: remove_walk.induct)
      (subst insert_walk.simps, subst remove_walk.simps, simp split: option.splits)
  from this [of k path _ At_Min] show ?thesis using insert_walk_loc_of [OF assms] by simp
qed

subsection \<open>Exchanging a node with its parent\<close>

definition set_link :: "nat \<Rightarrow> addr \<Rightarrow> heap_node \<Rightarrow> heap_node" where
  "set_link q a x = (if even q then x\<lparr>hn_left := Some a\<rparr> else x\<lparr>hn_right := Some a\<rparr>)"

definition set_parent :: "addr \<Rightarrow> heap_node \<Rightarrow> heap_node" where
  "set_parent a x = x\<lparr>hn_parent := Some a\<rparr>"

lemma set_link_sel [simp]:
  "hn_left (set_link q a x) = (if even q then Some a else hn_left x)"
  "hn_right (set_link q a x) = (if even q then hn_right x else Some a)"
  "hn_parent (set_link q a x) = hn_parent x"
  by (simp_all add: set_link_def)

lemma set_parent_sel [simp]:
  "hn_left (set_parent a x) = hn_left x" "hn_right (set_parent a x) = hn_right x"
  "hn_parent (set_parent a x) = Some a"
  by (simp_all add: set_parent_def)

lemma cnode_sel [simp]:
  "hn_left (cnode n f q) = pos n f (2 * q)" "hn_right (cnode n f q) = pos n f (2 * q + 1)"
  "hn_parent (cnode n f q) = pos n f (q div 2)"
  by (simp_all add: cnode_def)

lemma node_eq_iff:
  "x = y \<longleftrightarrow> hn_left x = hn_left y \<and> hn_right x = hn_right y \<and> hn_parent x = hn_parent y"
  for x y :: heap_node
  by (auto intro: heap_node.equality)

lemma set_updates:
  "hn_parent_update (\<lambda>_. Some a) = set_parent a"
  "hn_left_update (\<lambda>_. Some a) = set_link (2 * i) a"
  "hn_right_update (\<lambda>_. Some a) = set_link (Suc (2 * i)) a"
  by (auto simp: set_parent_def set_link_def)

lemma double_half: "2 * (q div 2) = q \<longleftrightarrow> even (q :: nat)"
  by presburger

lemma half_eq_iff:
  "2 * q = p \<longleftrightarrow> q = p div 2 \<and> even p" "2 * q + 1 = p \<longleftrightarrow> q = p div 2 \<and> odd p" for p q :: nat
  by presburger+

lemma relink_pos:
  assumes "inj_on f {1..n}" "1 \<le> p" "p \<le> n"
    and "2 \<le> p \<Longrightarrow> m (f (p div 2)) = Some u" "2 \<le> p \<Longrightarrow> hn_left u = pos n f (2 * (p div 2))"
  shows "relink (pos n f (p div 2)) (f p) a (h, m) =
    Some (if p = 1 then h\<lparr>h_min := Some a\<rparr> else h, app (pos n f (p div 2)) (set_link p a) m)"
proof (cases "p = 1")
  case True
  then show ?thesis by (simp add: relink_def pos_def app_def)
next
  case False
  with assms have p: "2 \<le> p" "pos n f (p div 2) = Some (f (p div 2))" by (auto simp: pos_def)
  have "hn_left u = Some (f p) \<longleftrightarrow> even p"
    using p(1) assms pos_eq_iff [OF assms(1-3), of "2 * (p div 2)"] by (simp add: double_half)
  moreover have "set_link p a = (if even p then hn_left_update (\<lambda>_. Some a) else hn_right_update (\<lambda>_. Some a))"
    by (auto simp: set_link_def)
  ultimately show ?thesis using False p assms(4)
    by (simp add: relink_def upd_def app_def)
qed

definition swap_mem :: "nat \<Rightarrow> (nat \<Rightarrow> addr) \<Rightarrow> nat \<Rightarrow> nat \<Rightarrow> hmem \<Rightarrow> hmem" where
  "swap_mem n f p c m =
     app (pos n f (p div 2)) (set_link p (f c))
      (app (pos n f (2 * c + 1)) (set_parent (f p))
        (app (pos n f (2 * c)) (set_parent (f p))
          (app (pos n f (if even c then c + 1 else c - 1)) (set_parent (f c))
            (m(f p \<mapsto> set_parent (f c) (cnode n f c), f c \<mapsto> set_link c (f p) (cnode n f p))))))"

lemma swap_eq:
  assumes L: "linked (h, m) n f" and p: "1 \<le> p" and c: "c div 2 = p" "c \<le> n"
  shows "heap_node_swap (h, m) (f p) (f c) =
    Some (if p = 1 then h\<lparr>h_min := Some (f c)\<rparr> else h, swap_mem n f p c m)"
proof -
  have inj: "inj_on f {1..n}" using L by (simp add: linked_def)
  have pn: "p \<le> n" "1 \<le> c" "p \<noteq> c" using p c by auto
  then have ne: "f p \<noteq> f c" "f c \<noteq> f p" using p c inj_on_eq_iff [OF inj, of p c] by auto
  define sb where "sb = (if even c then c + 1 else c - 1)"
  define m1 where "m1 = m(f p \<mapsto> set_parent (f c) (cnode n f c), f c \<mapsto> set_link c (f p) (cnode n f p))"
  define m2 where "m2 = app (pos n f sb) (set_parent (f c)) m1"
  define m3 where "m3 = app (pos n f (2 * c)) (set_parent (f p)) m2"
  define m4 where "m4 = app (pos n f (2 * c + 1)) (set_parent (f p)) m3"
  note lk = app_pos [OF inj]
  have M: "m (f p) = Some (cnode n f p)" "m (f c) = Some (cnode n f c)"
    using L p pn c by (simp_all add: linked_def)
  have D: "pos n f q = Some a \<Longrightarrow> a \<in> dom m1" for q a
    using linked_pos_dom [OF L, of q a] by (simp add: m1_def)
  have left: "pos n f (2 * p) = Some (f c) \<longleftrightarrow> even c"
    using pos_eq_iff [OF inj pn(2) c(2), of "2 * p"] c(1) double_half [of c] by simp
  have c2: "c = 2 * p \<or> c = 2 * p + 1" using c by presburger
  have sb: "sb \<noteq> p" "sb \<noteq> c" using p c2 by (auto simp: sb_def)
  have P4: "m2 (f p) = Some (set_parent (f c) (cnode n f c))" "m3 (f p) = m2 (f p)" "m4 (f p) = m2 (f p)"
    using p pn c sb ne by (simp_all add: m4_def m3_def m2_def m1_def lk)
  have C4: "m4 (f c) = Some (set_link c (f p) (cnode n f p))"
    using p pn c sb ne by (simp add: m4_def m3_def m2_def m1_def lk)
  have R: "relink (pos n f (p div 2)) (f p) (f c) (h, m4) =
    Some (if p = 1 then h\<lparr>h_min := Some (f c)\<rparr> else h, swap_mem n f p c m)"
  proof (subst relink_pos [OF inj p pn(1)])
    assume "2 \<le> p"
    then have q: "1 \<le> p div 2" "p div 2 \<le> n" "p div 2 \<noteq> p" "p div 2 \<noteq> c" "p div 2 \<noteq> sb" "p div 2 \<noteq> 2 * c" "p div 2 \<noteq> 2 * c + 1"
      using p pn c by (auto simp: sb_def)
    then have "f (p div 2) \<noteq> f p" "f (p div 2) \<noteq> f c"
      using inj_on_eq_iff [OF inj, of "p div 2"] p pn c by auto
    then show "m4 (f (p div 2)) = Some (cnode n f (p div 2))"
      using q L by (simp add: m4_def m3_def m2_def m1_def lk linked_def)
  qed (simp_all add: swap_mem_def m4_def m3_def m2_def m1_def sb_def)
  have U: "upd (f p) (hn_parent_update (\<lambda>_. Some (f c))) (m(f p \<mapsto> cnode n f c, f c \<mapsto> cnode n f p)) =
      Some (m(f p \<mapsto> set_parent (f c) (cnode n f c), f c \<mapsto> cnode n f p))"
    "upd (f c) (set_link c (f p)) (m(f p \<mapsto> set_parent (f c) (cnode n f c), f c \<mapsto> cnode n f p)) = Some m1"
    using ne by (simp_all add: upd_def m1_def set_parent_def fun_upd_twist)
  have V: "upd_opt (pos n f sb) (hn_parent_update (\<lambda>_. Some (f c))) m1 = Some m2"
    "upd_opt (pos n f (2 * c)) (hn_parent_update (\<lambda>_. Some (f p))) m2 = Some m3"
    "upd_opt (pos n f (2 * c + 1)) (hn_parent_update (\<lambda>_. Some (f p))) m3 = Some m4"
    using D unfolding set_updates(1) by (simp_all add: upd_opt_app m4_def m3_def m2_def)
  show ?thesis
  proof (cases "even c")
    case True
    then have "sb = 2 * p + 1" "hn_left_update (\<lambda>_. Some (f p)) = set_link c (f p)"
      using c by (auto simp: sb_def set_link_def)
    then show ?thesis using True M left U V P4 C4 R ne by (simp add: heap_node_swap_def)
  next
    case False
    then have "sb = 2 * p" "hn_right_update (\<lambda>_. Some (f p)) = set_link c (f p)"
      using c by (auto simp: sb_def set_link_def)
    then show ?thesis using False M left U V P4 C4 R ne by (simp add: heap_node_swap_def)
  qed
qed

definition exch :: "nat \<Rightarrow> nat \<Rightarrow> (nat \<Rightarrow> addr) \<Rightarrow> nat \<Rightarrow> addr" where
  "exch p c f = f(p := f c, c := f p)"

lemma exch_apply: "exch p c f q = (if q = c then f p else if q = p then f c else f q)"
  by (simp add: exch_def)

lemma exch_image: "1 \<le> p \<Longrightarrow> p \<le> n \<Longrightarrow> 1 \<le> c \<Longrightarrow> c \<le> n \<Longrightarrow> exch p c f ` {1..n} = f ` {1..n}"
  by (auto simp: exch_apply image_iff)

lemma exch_inj: "inj_on f {1..n} \<Longrightarrow> 1 \<le> p \<Longrightarrow> p \<le> n \<Longrightarrow> 1 \<le> c \<Longrightarrow> c \<le> n \<Longrightarrow> inj_on (exch p c f) {1..n}"
  by (rule eq_card_imp_inj_on) (simp_all only: exch_image card_image finite_atLeastAtMost)

lemma pos_exch:
  "1 \<le> p \<Longrightarrow> p \<le> n \<Longrightarrow> 1 \<le> c \<Longrightarrow> c \<le> n \<Longrightarrow>
   pos n (exch p c f) x = (if x = c then Some (f p) else if x = p then Some (f c) else pos n f x)"
  by (simp add: pos_def exch_apply)

lemma swap_mem_at:
  assumes L: "linked (h, m) n f" and p: "1 \<le> p" and c: "c = 2 * p \<or> c = 2 * p + 1" "c \<le> n"
  shows "swap_mem n f p c m (f c) = Some (set_link c (f p) (cnode n f p))"
    and "swap_mem n f p c m (f p) = Some (set_parent (f c) (cnode n f c))"
    and "1 \<le> q \<Longrightarrow> q \<le> n \<Longrightarrow> q \<noteq> p \<Longrightarrow> q \<noteq> c \<Longrightarrow> swap_mem n f p c m (f q) = Some
      ((if q = p div 2 then set_link p (f c) else if q = 2 * c + 1 \<or> q = 2 * c then set_parent (f p)
        else if q = (if even c then c + 1 else c - 1) then set_parent (f c) else id) (cnode n f q))"
proof -
  have inj: "inj_on f {1..n}" using L by (simp add: linked_def)
  have pn: "p \<le> n" "1 \<le> c" "p \<noteq> c" using p c by auto
  have ne: "f p \<noteq> f c" "f c \<noteq> f p" using inj_on_eq_iff [OF inj, of p c] p pn c(2) by auto
  define sb where "sb = (if even c then c + 1 else c - 1)"
  have sb: "c \<noteq> sb" "p \<noteq> sb" "sb \<noteq> 2 * c" "sb \<noteq> 2 * c + 1" "sb \<noteq> p div 2"
    using p c(1) by (elim disjE; simp add: sb_def)+
  have d: "c \<noteq> p div 2" "p \<noteq> p div 2" "p \<noteq> 2 * c" "p \<noteq> 2 * c + 1"
    using p c(1) by (elim disjE; simp)+
  note lk = app_pos [OF inj]
  show "swap_mem n f p c m (f c) = Some (set_link c (f p) (cnode n f p))"
    using pn(2) c(2) sb d unfolding swap_mem_def sb_def [symmetric] by (simp add: lk)
  show "swap_mem n f p c m (f p) = Some (set_parent (f c) (cnode n f c))"
    using p pn c(2) sb d ne unfolding swap_mem_def sb_def [symmetric] by (simp add: lk)
  assume q: "1 \<le> q" "q \<le> n" "q \<noteq> p" "q \<noteq> c"
  then have ne: "f q \<noteq> f p" "f q \<noteq> f c" using inj_on_eq_iff [OF inj, of q] p pn c(2) by auto
  define mb where "mb = m(f p \<mapsto> set_parent (f c) (cnode n f c), f c \<mapsto> set_link c (f p) (cnode n f p))"
  have "mb (f q) = Some (cnode n f q)" using L q ne by (simp add: linked_def mb_def)
  moreover have "2 * c \<noteq> p div 2" "2 * c + 1 \<noteq> p div 2" using p c(1) by auto
  ultimately show "swap_mem n f p c m (f q) = Some
      ((if q = p div 2 then set_link p (f c) else if q = 2 * c + 1 \<or> q = 2 * c then set_parent (f p)
        else if q = (if even c then c + 1 else c - 1) then set_parent (f c) else id) (cnode n f q))"
    using q sb(3-5) unfolding swap_mem_def sb_def [symmetric] mb_def [symmetric] by (auto simp: lk)
qed

lemma swap_mem_node:
  assumes L: "linked (h, m) n f" and p: "1 \<le> p" and c: "c div 2 = p" "c \<le> n"
    and q: "1 \<le> q" "q \<le> n"
  shows "swap_mem n f p c m (exch p c f q) = Some (cnode n (exch p c f) q)"
proof -
  have c2: "c = 2 * p \<or> c = 2 * p + 1" using c by presburger
  have pn: "p \<le> n" "1 \<le> c" "p \<noteq> c" "p div 2 \<noteq> p" "p div 2 < c" using p c by auto
  note at = swap_mem_at [OF L p c2 c(2)]
  consider "q = p" | "q = c" | "q \<noteq> p" "q \<noteq> c" by blast
  then show ?thesis
  proof cases
    case 1
    have "set_link c (f p) (cnode n f p) = cnode n (exch p c f) p"
      using c2 p c(2) pn(4,5) by (elim disjE) (simp_all add: node_eq_iff pos_def exch_apply)
    then show ?thesis using 1 at(1) pn by (simp add: exch_apply)
  next
    case 2
    have "set_parent (f c) (cnode n f c) = cnode n (exch p c f) c"
      using c2 p c(2) pn by (elim disjE) (simp_all add: node_eq_iff pos_def exch_apply)
    then show ?thesis using 2 at(2) pn by (simp add: exch_apply)
  next
    case 3
    have k: "2 * q \<noteq> c" "2 * q + 1 \<noteq> c" "q div 2 = c \<longleftrightarrow> q = 2 * c \<or> q = 2 * c + 1"
      using c(1) 3 by auto
    have k': "q div 2 = p \<longleftrightarrow> q = (if even c then c + 1 else c - 1)" using c2 3 by (elim disjE) auto
    have "(if q = p div 2 then set_link p (f c) else if q = 2 * c + 1 \<or> q = 2 * c then set_parent (f p)
        else if q = (if even c then c + 1 else c - 1) then set_parent (f c) else id) (cnode n f q) =
      cnode n (exch p c f) q"
    proof (cases "q = p div 2")
      case True
      then have "q div 2 \<noteq> c" "q div 2 \<noteq> p" using p pn by auto
      then show ?thesis using True k(1,2) half_eq_iff [of q p]
        by (simp add: node_eq_iff pos_exch [OF p pn(1,2) c(2)])
    next
      case False
      then have "2 * q \<noteq> p" "2 * q + 1 \<noteq> p" using half_eq_iff [of q p] by auto
      then show ?thesis using False k pn(3) unfolding k' [symmetric]
        by (simp add: node_eq_iff pos_exch [OF p pn(1,2) c(2)])
    qed
    then show ?thesis using 3 at(3) [OF q 3] by (simp add: exch_apply)
  qed
qed

lemma dom_swap_mem:
  "linked (h, m) n f \<Longrightarrow> 1 \<le> p \<Longrightarrow> p \<le> n \<Longrightarrow> 1 \<le> c \<Longrightarrow> c \<le> n \<Longrightarrow> dom (swap_mem n f p c m) = dom m"
  using linked_dom [of "(h, m)" n f p] linked_dom [of "(h, m)" n f c] by (auto simp: swap_mem_def)

text \<open>The exchange exchanges the nodes of two positions, and does nothing else to the tree.\<close>

lemma heap_node_swap_linked:
  assumes L: "linked s n f" and p: "1 \<le> p" and c: "c div 2 = p" "c \<le> n"
  obtains s' where "heap_node_swap s (f p) (f c) = Some s'" "linked s' n (exch p c f)"
    "same_dom s s'" "h_nelts (fst s') = h_nelts (fst s)"
proof -
  obtain h m where s: "s = (h, m)" by (cases s)
  note L = L [unfolded s]
  define h' where "h' = (if p = 1 then h\<lparr>h_min := Some (f c)\<rparr> else h)"
  have pn: "p \<le> n" "1 \<le> c" "p \<noteq> c" "c \<noteq> 1" using p c by auto
  have "h_min h' = pos n (exch p c f) 1"
    using L p pn c(2) by (auto simp: h'_def linked_def pos_exch)
  then have "linked (h', swap_mem n f p c m) n (exch p c f)"
    using L swap_mem_node [OF L p c] exch_inj [of f n p c] p pn c(2) by (simp add: linked_def)
  moreover have "heap_node_swap s (f p) (f c) = Some (h', swap_mem n f p c m)"
    unfolding s h'_def by (rule swap_eq [OF L p c])
  moreover have "same_dom s (h', swap_mem n f p c m)"
    using dom_swap_mem [OF L p pn(1,2) c(2)] by (simp add: s same_dom_def)
  ultimately show ?thesis using that by (simp add: s h'_def)
qed

section \<open>The order\<close>

text \<open>Nodes are compared by a key, as the callers of the heap do. \<open>ordered\<close> is the order of the heap; \<open>loose p\<close>
  leaves out the comparisons of position \<open>p\<close> with its parent and its children, and asks that these
  are right once \<open>p\<close> is skipped.\<close>

definition ordered :: "(addr \<Rightarrow> 'k::linorder) \<Rightarrow> nat \<Rightarrow> (nat \<Rightarrow> addr) \<Rightarrow> bool" where
  "ordered key n f \<longleftrightarrow> (\<forall>q. 2 \<le> q \<and> q \<le> n \<longrightarrow> key (f (q div 2)) \<le> key (f q))"

definition loose :: "(addr \<Rightarrow> 'k::linorder) \<Rightarrow> nat \<Rightarrow> nat \<Rightarrow> (nat \<Rightarrow> addr) \<Rightarrow> bool" where
  "loose key n p f \<longleftrightarrow>
     (\<forall>q. 2 \<le> q \<and> q \<le> n \<and> q \<noteq> p \<and> q div 2 \<noteq> p \<longrightarrow> key (f (q div 2)) \<le> key (f q)) \<and>
     (\<forall>q. 2 \<le> p \<and> q \<le> n \<and> q div 2 = p \<longrightarrow> key (f (p div 2)) \<le> key (f q))"

definition below_ok :: "(addr \<Rightarrow> 'k::linorder) \<Rightarrow> nat \<Rightarrow> nat \<Rightarrow> (nat \<Rightarrow> addr) \<Rightarrow> bool" where
  "below_ok key n p f \<longleftrightarrow> (\<forall>q. q \<le> n \<and> q div 2 = p \<longrightarrow> key (f p) \<le> key (f q))"

lemma ordered_loose: "ordered key n f \<Longrightarrow> 1 \<le> p \<Longrightarrow> loose key n p f"
proof (unfold loose_def, intro conjI allI impI)
  fix q assume o: "ordered key n f" and q: "2 \<le> p \<and> q \<le> n \<and> q div 2 = p"
  then have "key (f (p div 2)) \<le> key (f p)" and "key (f p) \<le> key (f q)"
    unfolding ordered_def by (metis div_le_dividend le_trans, metis div_le_dividend le_trans)
  then show "key (f (p div 2)) \<le> key (f q)" by (rule order_trans)
qed (simp add: ordered_def)

lemma loose_ordered:
  assumes "loose key n p f" "below_ok key n p f" "2 \<le> p \<Longrightarrow> p \<le> n \<Longrightarrow> key (f (p div 2)) \<le> key (f p)"
  shows "ordered key n f"
  using assms unfolding loose_def below_ok_def ordered_def by metis

lemma loose_up:
  assumes "loose key n p f" "below_ok key n p f" "2 \<le> p" "p \<le> n" "key (f p) \<le> key (f (p div 2))"
  shows "loose key n (p div 2) (exch (p div 2) p f)" "below_ok key n (p div 2) (exch (p div 2) p f)"
proof -
  have L: "\<And>q. 2 \<le> q \<Longrightarrow> q \<le> n \<Longrightarrow> q \<noteq> p \<Longrightarrow> q div 2 \<noteq> p \<Longrightarrow> key (f (q div 2)) \<le> key (f q)"
    "\<And>q. q \<le> n \<Longrightarrow> q div 2 = p \<Longrightarrow> key (f (p div 2)) \<le> key (f q)"
    "\<And>q. q \<le> n \<Longrightarrow> q div 2 = p \<Longrightarrow> key (f p) \<le> key (f q)"
    using assms by (auto simp: loose_def below_ok_def)
  show "below_ok key n (p div 2) (exch (p div 2) p f)"
    unfolding below_ok_def
  proof (intro allI impI, elim conjE)
    fix q assume q: "q \<le> n" "q div 2 = p div 2"
    then have "1 \<le> q div 2" using assms(3) by simp
    then have "2 \<le> q" by simp
    then show "key (exch (p div 2) p f (p div 2)) \<le> key (exch (p div 2) p f q)"
      using q assms(3,5) L(1) [of q] by (cases "q = p") (auto simp: exch_apply)
  qed
  show "loose key n (p div 2) (exch (p div 2) p f)"
    unfolding loose_def
  proof (intro conjI allI impI; elim conjE)
    fix q assume q: "2 \<le> q" "q \<le> n" "q \<noteq> p div 2" "q div 2 \<noteq> p div 2"
    then show "key (exch (p div 2) p f (q div 2)) \<le> key (exch (p div 2) p f q)"
      using L(1,2) [of q] by (auto simp: exch_apply)
  next
    fix q assume q: "2 \<le> p div 2" "q \<le> n" "q div 2 = p div 2"
    have pp: "key (f (p div 2 div 2)) \<le> key (f (p div 2))" using L(1) [of "p div 2"] q(1) assms(3,4) by auto
    show "key (exch (p div 2) p f (p div 2 div 2)) \<le> key (exch (p div 2) p f q)"
    proof (cases "q = p")
      case True
      then show ?thesis using pp q(1) by (auto simp: exch_apply)
    next
      case False
      then have "key (f (p div 2)) \<le> key (f q)" using L(1) [of q] q assms(3) by auto
      then show ?thesis using pp False q by (auto simp: exch_apply)
    qed
  qed
qed

lemma loose_down:
  assumes "loose key n p f" "1 \<le> p" "c div 2 = p" "c \<le> n"
    and least: "key (f c) < key (f p)" "\<And>q. q \<le> n \<Longrightarrow> q div 2 = p \<Longrightarrow> key (f c) \<le> key (f q)"
  shows "loose key n c (exch p c f)"
proof -
  have L: "\<And>q. 2 \<le> q \<Longrightarrow> q \<le> n \<Longrightarrow> q \<noteq> p \<Longrightarrow> q div 2 \<noteq> p \<Longrightarrow> key (f (q div 2)) \<le> key (f q)"
    "\<And>q. 2 \<le> p \<Longrightarrow> q \<le> n \<Longrightarrow> q div 2 = p \<Longrightarrow> key (f (p div 2)) \<le> key (f q)"
    using assms(1) by (auto simp: loose_def)
  have c: "p < c" "p div 2 \<noteq> c" "p div 2 \<noteq> p" using assms(2,3) by auto
  show ?thesis
    unfolding loose_def
  proof (intro conjI allI impI; elim conjE)
    fix q assume q: "2 \<le> q" "q \<le> n" "q \<noteq> c" "q div 2 \<noteq> c"
    consider "q = p" | "q \<noteq> p" "q div 2 = p" | "q \<noteq> p" "q div 2 \<noteq> p" by blast
    then show "key (exch p c f (q div 2)) \<le> key (exch p c f q)"
    proof cases
      case 1
      then show ?thesis using L(2) [of c] q c assms(3,4) by (simp add: exch_apply)
    next
      case 2
      then show ?thesis using least(2) [of q] q c by (simp add: exch_apply)
    next
      case 3
      then show ?thesis using L(1) [of q] q by (simp add: exch_apply)
    qed
  next
    fix q assume q: "2 \<le> c" "q \<le> n" "q div 2 = c"
    then have "q \<noteq> p" "q div 2 \<noteq> p" "2 \<le> q" "q \<noteq> c" using c by auto
    then show "key (exch p c f (c div 2)) \<le> key (exch p c f q)"
      using L(1) [of q] q c assms(3) by (simp add: exch_apply)
  qed
qed

section \<open>The loops end with the order restored\<close>

abbreviation lt_key :: "(addr \<Rightarrow> 'k::linorder) \<Rightarrow> addr \<Rightarrow> addr \<Rightarrow> bool" where
  "lt_key key a b \<equiv> key a < key b"

text \<open>\<open>moved s n f s' g\<close>: the nodes of the tree changed places and nothing else happened.\<close>

definition moved :: "heap_st \<Rightarrow> nat \<Rightarrow> (nat \<Rightarrow> addr) \<Rightarrow> heap_st \<Rightarrow> (nat \<Rightarrow> addr) \<Rightarrow> bool" where
  "moved s n f s' g \<longleftrightarrow> linked s' n g \<and> same_dom s s' \<and> h_nelts (fst s') = h_nelts (fst s) \<and>
     g ` {1..n} = f ` {1..n}"

lemma moved_refl: "linked s n f \<Longrightarrow> moved s n f s f"
  by (simp add: moved_def)

lemma moved_trans: "moved s n f s' g \<Longrightarrow> moved s' n g s'' g' \<Longrightarrow> moved s n f s'' g'"
  by (auto simp: moved_def elim: same_dom_trans)

lemma swap_moved:
  assumes "linked s n f" "1 \<le> p" "c div 2 = p" "c \<le> n"
  obtains s' where "heap_node_swap s (f p) (f c) = Some s'" "moved s n f s' (exch p c f)"
proof -
  obtain s' where s': "heap_node_swap s (f p) (f c) = Some s'" "linked s' n (exch p c f)"
    "same_dom s s'" "h_nelts (fst s') = h_nelts (fst s)"
    using heap_node_swap_linked [OF assms] by blast
  moreover have "exch p c f ` {1..n} = f ` {1..n}" using assms by (intro exch_image) auto
  ultimately show ?thesis using that by (simp add: moved_def)
qed

lemma up_loop_ok:
  assumes "linked s n f" "1 \<le> p" "p \<le> n" "loose key n p f" "below_ok key n p f"
  shows "\<exists>s' g. up_loop (lt_key key) (f p) s = Some s' \<and> moved s n f s' g \<and> ordered key n g"
  using assms
proof (induction p arbitrary: s f rule: less_induct)
  case (less p)
  note node = linked_node [OF less.prems(1-3)]
  show ?case
  proof (cases "2 \<le> p \<and> key (f p) < key (f (p div 2))")
    case False
    then have "up_loop (lt_key key) (f p) s = Some s"
      using less.prems(2,3) by (subst up_loop.simps) (auto simp: node pos_def)
    moreover have "ordered key n f" using loose_ordered [OF less.prems(4,5)] False by auto
    ultimately show ?thesis using moved_refl [OF less.prems(1)] by blast
  next
    case True
    then have q: "1 \<le> p div 2" "p div 2 < p" "p div 2 \<le> n" using less.prems(3) by auto
    obtain s' where s': "heap_node_swap s (f (p div 2)) (f p) = Some s'" "moved s n f s' (exch (p div 2) p f)"
      using swap_moved [OF less.prems(1) q(1) refl less.prems(3)] by blast
    let ?g = "exch (p div 2) p f"
    have a: "?g (p div 2) = f p" using q by (simp add: exch_apply)
    have "\<exists>s'' g. up_loop (lt_key key) (?g (p div 2)) s' = Some s'' \<and> moved s' n ?g s'' g \<and> ordered key n g"
    proof (rule less.IH [OF q(2)])
      show "linked s' n ?g" using s'(2) by (simp add: moved_def)
      show "loose key n (p div 2) ?g" "below_ok key n (p div 2) ?g"
        using loose_up [OF less.prems(4,5) _ less.prems(3)] True by auto
    qed (use q in simp_all)
    moreover have "up_loop (lt_key key) (f p) s = up_loop (lt_key key) (f p) s'"
      using True q less.prems(3) s'(1) by (subst up_loop.simps) (simp add: node pos_def)
    ultimately show ?thesis using s'(2) moved_trans a by metis
  qed
qed

lemma smallest_child:
  fixes key :: "addr \<Rightarrow> 'k::linorder" and f :: "nat \<Rightarrow> addr"
  assumes "1 \<le> p" "p \<le> n"
  defines "sm \<equiv> smaller (lt_key key) (pos n f (2 * p + 1)) (smaller (lt_key key) (pos n f (2 * p)) (f p))"
  obtains "sm = f p" "below_ok key n p f"
  | c where "c div 2 = p" "c \<le> n" "sm = f c" "key (f c) < key (f p)"
      "\<And>q. q \<le> n \<Longrightarrow> q div 2 = p \<Longrightarrow> key (f c) \<le> key (f q)"
proof -
  have kids: "q div 2 = p \<longleftrightarrow> q = 2 * p \<or> q = 2 * p + 1" for q by auto
  define l where "l = (if 2 * p \<le> n \<and> key (f (2 * p)) < key (f p) then 2 * p else p)"
  define r where "r = (if 2 * p + 1 \<le> n \<and> key (f (2 * p + 1)) < key (f l) then 2 * p + 1 else l)"
  have "smaller (lt_key key) (pos n f (2 * p)) (f p) = f l"
    using assms(1) by (simp add: smaller_def l_def pos_def)
  then have sm: "sm = f r"
    using assms(1) by (simp add: smaller_def sm_def r_def pos_def)
  have l: "key (f l) \<le> key (f p)" "2 * p \<le> n \<Longrightarrow> key (f l) \<le> key (f (2 * p))" by (auto simp: l_def)
  have r: "key (f r) \<le> key (f l)" "2 * p + 1 \<le> n \<Longrightarrow> key (f r) \<le> key (f (2 * p + 1))" by (auto simp: r_def)
  have least: "key (f r) \<le> key (f q)" if "q \<le> n" "q div 2 = p" for q
    using that l r by (auto simp: kids intro: order_trans)
  show ?thesis
  proof (cases "r = p")
    case True
    then show ?thesis using sm least by (intro that(1)) (auto simp: below_ok_def)
  next
    case False
    then have "r div 2 = p" "r \<le> n" "key (f r) < key (f p)"
      using l by (auto simp: r_def l_def split: if_splits)
    then show ?thesis using sm least by (intro that(2) [of r])
  qed
qed

lemma down_loop_ok:
  assumes "linked s n f" "1 \<le> p" "p \<le> n" "loose key n p f"
  shows "\<exists>s' g p'. down_loop (lt_key key) (f p) s = Some s' \<and> moved s n f s' g \<and>
    1 \<le> p' \<and> p' \<le> n \<and> g p' = f p \<and> loose key n p' g \<and> below_ok key n p' g"
  using assms
proof (induction "n - p" arbitrary: p s f rule: less_induct)
  case less
  note node = linked_node [OF less.prems(1-3)]
  have inj: "inj_on f {1..n}" using less.prems(1) by (simp add: linked_def)
  show ?case
  proof (rule smallest_child [OF less.prems(2,3), of key f], goal_cases)
    case 1
    then have "down_loop (lt_key key) (f p) s = Some s"
      by (subst down_loop.simps) (simp add: node)
    then show ?case using 1 moved_refl [OF less.prems(1)] less.prems by blast
  next
    case (2 c)
    have c: "p < c" using 2(1) less.prems(2) by auto
    then have "f c \<noteq> f p" using inj_on_eq_iff [OF inj, of c p] 2(2) less.prems(2,3) by auto
    obtain s' where s': "heap_node_swap s (f p) (f c) = Some s'" "moved s n f s' (exch p c f)"
      using swap_moved [OF less.prems(1,2) 2(1,2)] by blast
    let ?g = "exch p c f"
    have a: "?g c = f p" by (simp add: exch_apply)
    have "\<exists>s'' g p'. down_loop (lt_key key) (?g c) s' = Some s'' \<and> moved s' n ?g s'' g \<and>
      1 \<le> p' \<and> p' \<le> n \<and> g p' = ?g c \<and> loose key n p' g \<and> below_ok key n p' g"
    proof (rule less.hyps)
      show "n - c < n - p" using c 2(2) by simp
      show "linked s' n ?g" using s'(2) by (simp add: moved_def)
      show "loose key n c ?g" using loose_down [OF less.prems(4,2) 2(1,2,4,5)] by simp
    qed (use c 2(2) in simp_all)
    moreover have "down_loop (lt_key key) (f p) s = down_loop (lt_key key) (f p) s'"
      using 2(3) \<open>f c \<noteq> f p\<close> s'(1) by (subst down_loop.simps) (simp add: node)
    ultimately show ?case using s'(2) moved_trans a by metis
  qed
qed

section \<open>Insertion\<close>

definition put_link :: "nat \<Rightarrow> addr option \<Rightarrow> heap_node \<Rightarrow> heap_node" where
  "put_link q v x = (if even q then x\<lparr>hn_left := v\<rparr> else x\<lparr>hn_right := v\<rparr>)"

lemma put_link_sel [simp]:
  "hn_left (put_link q v x) = (if even q then v else hn_left x)"
  "hn_right (put_link q v x) = (if even q then hn_right x else v)"
  "hn_parent (put_link q v x) = hn_parent x"
  by (simp_all add: put_link_def)

lemma store_loc_of:
  assumes "1 \<le> q" "q div 2 \<le> n" "2 \<le> q \<Longrightarrow> f (q div 2) \<in> dom m"
  shows "store_at (loc_of f q) v (h, m) =
    Some (if q = 1 then h\<lparr>h_min := v\<rparr> else h, app (pos n f (q div 2)) (put_link q v) m)"
proof (cases "q = 1")
  case True
  then show ?thesis by (simp add: loc_of_def pos_def app_def)
next
  case False
  with assms have "pos n f (q div 2) = Some (f (q div 2))" "f (q div 2) \<in> dom m" by (auto simp: pos_def)
  moreover have "put_link q v = (if even q then hn_left_update (\<lambda>_. v) else hn_right_update (\<lambda>_. v))"
    by (auto simp: put_link_def)
  ultimately show ?thesis using assms(1) False by (auto simp: loc_of_def upd_app)
qed

lemma app_pos_out: "a \<notin> f ` {1..n} \<Longrightarrow> app (pos n f x) g m a = m a"
  by (auto simp: app_def pos_def split: option.splits if_splits)

lemma pos_grow: "pos (n + 1) (f(n + 1 := a)) x = (if x = n + 1 then Some a else pos n f x)"
  by (auto simp: pos_def)

lemma image_grow: "f(n + 1 := a) ` {1..n + 1} = insert a (f ` {1..n})" for f :: "nat \<Rightarrow> addr"
proof -
  have "{1..n + 1} = insert (n + 1) {1..n}" by auto
  moreover have "f(n + 1 := a) ` {1..n} = f ` {1..n}" by (rule image_cong) auto
  ultimately show ?thesis by (simp only: image_insert fun_upd_same)
qed

lemma inj_grow:
  fixes f :: "nat \<Rightarrow> addr"
  assumes "inj_on f {1..n}" "a \<notin> f ` {1..n}"
  shows "inj_on (f(n + 1 := a)) {1..n + 1}"
proof (rule eq_card_imp_inj_on)
  have "card (f ` {1..n}) = n" using card_image [OF assms(1)] by simp
  then show "card (f(n + 1 := a) ` {1..n + 1}) = card {1..n + 1}"
    unfolding image_grow using assms(2) by simp
qed simp

lemma cnode_grow:
  assumes N: "N = n + 1" and q: "q div 2 \<noteq> N"
  shows "cnode N (f(N := a)) q = (if q = N div 2 then put_link N (Some a) (cnode n f q) else cnode n f q)"
proof -
  have g: "pos N (f(N := a)) x = (if x = N then Some a else pos n f x)" for x
    unfolding N by (rule pos_grow)
  show ?thesis using q half_eq_iff [of q N] by (cases "q = N div 2") (simp_all add: node_eq_iff g)
qed

lemma linked_frame:
  "linked (h, m) n f \<Longrightarrow> (\<And>q. 1 \<le> q \<Longrightarrow> q \<le> n \<Longrightarrow> m' (f q) = m (f q)) \<Longrightarrow> h_min h' = h_min h \<Longrightarrow>
   linked (h', m') n f"
  by (simp add: linked_def)

lemma insert_linked:
  assumes L: "linked (h, m) n f" and a: "a \<notin> f ` {1..n}"
    and m: "m a = Some \<lparr>hn_left = None, hn_right = None, hn_parent = pos n f ((n + 1) div 2)\<rparr>"
    and h': "h_min h' = (if n = 0 then Some a else h_min h)"
  shows "linked (h', app (pos n f ((n + 1) div 2)) (put_link (n + 1) (Some a)) m) (n + 1) (f(n + 1 := a))"
proof -
  let ?f = "f(n + 1 := a)" and ?m = "app (pos n f ((n + 1) div 2)) (put_link (n + 1) (Some a)) m"
  have inj: "inj_on f {1..n}" using L by (simp add: linked_def)
  have "inj_on ?f {1..n + 1}" by (rule inj_grow [OF inj a])
  moreover have "h_min h' = pos (n + 1) ?f 1" unfolding pos_grow using L h' by (auto simp: linked_def)
  moreover have "?m (?f q) = Some (cnode (n + 1) ?f q)" if q: "1 \<le> q" "q \<le> n + 1" for q
  proof (cases "q = n + 1")
    case True
    then show ?thesis using app_pos_out [OF a] m
      by (simp add: node_eq_iff pos_grow [unfolded Suc_eq_plus1 [symmetric]]) (simp add: pos_def)
  next
    case False
    with q have q: "1 \<le> q" "q \<le> n" by auto
    then have "m (f q) = Some (cnode n f q)" using L by (simp add: linked_def)
    moreover have "cnode (n + 1) ?f q = (if q = (n + 1) div 2 then put_link (n + 1) (Some a) (cnode n f q) else cnode n f q)"
      using q by (intro cnode_grow) simp_all
    ultimately show ?thesis using q app_pos [OF inj q] by (cases "q = (n + 1) div 2") (auto simp del: cnode_sel)
  qed
  ultimately show ?thesis by (simp add: linked_def)
qed

lemma insert_place:
  assumes L: "linked (h, m) n f" and n: "unat (h_nelts h) = n" "n + 1 < 2 ^ 32"
    and a: "a \<in> dom m" "a \<notin> f ` {1..n}"
  obtains s' where "heap_insert lt (h, m) a = up_loop lt a s'" "linked s' (n + 1) (f(n + 1 := a))"
    "same_dom (h, m) s'" "unat (h_nelts (fst s')) = n + 1"
proof -
  define m1 where "m1 = m(a \<mapsto> \<lparr>hn_left = None, hn_right = None, hn_parent = None\<rparr>)"
  define m2 where "m2 = m(a \<mapsto> \<lparr>hn_left = None, hn_right = None, hn_parent = pos n f ((n + 1) div 2)\<rparr>)"
  have keep: "f q \<noteq> a" if "1 \<le> q" "q \<le> n" for q using a that by auto
  have L1: "linked (h, m1) n f" "linked (h, m2) n f"
    using linked_frame [OF L] keep by (simp_all add: m1_def m2_def)
  have u: "unat (1 + h_nelts h) = n + 1"
    using n by (subst unat_add_lem [THEN iffD1]) (simp_all)
  obtain path k where pk: "heap_path (1 + h_nelts h) = (path, k)" by fastforce
  have "1 \<le> 1 + h_nelts h" using u by (simp add: word_le_nat_alt)
  then have w: "walk_pos (unat k) (unat path) 1 = n + 1" using heap_path_walk [OF pk] u by simp
  have walk: "insert_walk k path At_Min At_Min (h, m1) =
    Some (if k = 0 then At_Min else loc_of f ((n + 1) div 2), loc_of f (n + 1))"
    using insert_walk_loc_of [OF L1(1) order_refl w order_refl, of At_Min] by (simp only: loc_of_1)
  have half: "(n + 1) div 2 \<le> n" "(n + 1) div 2 div 2 \<le> n" by auto
  have par: "deref (if k = 0 then At_Min else loc_of f ((n + 1) div 2)) (h, m1) = Some (pos n f ((n + 1) div 2))"
  proof (cases "n = 0")
    case True
    then show ?thesis using L by (simp add: loc_of_def linked_def pos_def)
  next
    case False
    then have "k \<noteq> 0" using w by auto
    moreover have "1 \<le> (n + 1) div 2" using False by auto
    ultimately show ?thesis using deref_loc_of [OF L1(1) _ half(2)] by simp
  qed
  define h' where "h' = (if n + 1 = 1 then h\<lparr>h_min := Some a\<rparr> else h)"
  define m3 where "m3 = app (pos n f ((n + 1) div 2)) (put_link (n + 1) (Some a)) m2"
  have "f ((n + 1) div 2) \<in> dom m2" if "2 \<le> n + 1"
    using linked_dom [OF L1(2), of "(n + 1) div 2"] that by simp
  then have as: "store_at (loc_of f (n + 1)) (Some a) (h, m2) = Some (h', m3)"
    using store_loc_of [of "n + 1" n f m2 "Some a" h] half(1) by (simp add: h'_def m3_def)
  have upds: "upd a (\<lambda>_. \<lparr>hn_left = None, hn_right = None, hn_parent = None\<rparr>) m = Some m1"
    "upd a (hn_parent_update (\<lambda>_. pos n f ((n + 1) div 2))) m1 = Some m2"
    using a by (auto simp: upd_def m1_def m2_def)
  let ?s = "(h'\<lparr>h_nelts := h_nelts h' + 1\<rparr>, m3)"
  have "heap_insert lt (h, m) a = up_loop lt a ?s"
    by (simp only: heap_insert_def prod.case upds bind.bind_lunit pk walk par as Let_def)
  moreover have "linked ?s (n + 1) (f(n + 1 := a))"
    unfolding m3_def by (rule insert_linked [OF L1(2) a(2)]) (simp_all add: m2_def h'_def)
  moreover have "same_dom (h, m) ?s" using a(1) by (auto simp: same_dom_def m3_def m2_def)
  moreover have "unat (h_nelts (fst ?s)) = n + 1" using u by (simp add: h'_def add.commute)
  ultimately show ?thesis using that by blast
qed

section \<open>Removal\<close>

text \<open>The last node of the tree is cut off.\<close>

lemma shrink_linked:
  assumes L: "linked (h, m) (n + 1) f" and h': "h_min h' = (if n = 0 then None else h_min h)"
  shows "linked (h', app (pos (n + 1) f ((n + 1) div 2)) (put_link (n + 1) None) m) n f"
proof -
  define N where "N = n + 1"
  let ?m = "app (pos N f (N div 2)) (put_link N None) m"
  note L = L [folded N_def]
  have inj: "inj_on f {1..N}" using L by (simp add: linked_def)
  have p: "pos n f x = (if x = N then None else pos N f x)" for x by (auto simp: pos_def N_def)
  have "inj_on f {1..n}" using inj by (rule inj_on_subset) (auto simp: N_def)
  moreover have "h_min h' = pos n f 1" using L h' by (auto simp: linked_def pos_def N_def)
  moreover have "?m (f q) = Some (cnode n f q)" if q: "1 \<le> q" "q \<le> n" for q
  proof -
    have q': "q \<le> N" "q div 2 \<noteq> N" using q by (auto simp: N_def)
    then have "m (f q) = Some (cnode N f q)" using L q by (simp add: linked_def)
    moreover have "cnode n f q = (if q = N div 2 then put_link N None (cnode N f q) else cnode N f q)"
      using q' half_eq_iff [of q N] by (cases "q = N div 2") (simp_all add: node_eq_iff p)
    ultimately show ?thesis using app_pos [OF inj q(1) q'(1)] by (cases "q = N div 2") auto
  qed
  ultimately show ?thesis by (simp add: linked_def N_def)
qed

text \<open>A node outside the tree takes the place of one in it.\<close>

definition replace_mem :: "nat \<Rightarrow> (nat \<Rightarrow> addr) \<Rightarrow> nat \<Rightarrow> addr \<Rightarrow> hmem \<Rightarrow> hmem" where
  "replace_mem n f p a m =
     app (pos n f (p div 2)) (set_link p a)
      (app (pos n f (2 * p + 1)) (set_parent a)
        (app (pos n f (2 * p)) (set_parent a) (m(a \<mapsto> cnode n f p))))"

lemma replace_inj:
  assumes "inj_on f {1..n}" "a \<notin> f ` {1..n}"
  shows "inj_on (f(p := a)) {1..n}"
  using assms by (rule inj_on_fun_updI)

lemma replace_image:
  fixes f :: "nat \<Rightarrow> addr"
  assumes "inj_on f {1..n}" "1 \<le> p" "p \<le> n"
  shows "f(p := a) ` {1..n} = insert a (f ` {1..n} - {f p})"
proof -
  have "{1..n} = insert p ({1..n} - {p})" using assms by auto
  moreover have "f(p := a) ` ({1..n} - {p}) = f ` ({1..n} - {p})" by (rule image_cong) auto
  moreover have "f ` ({1..n} - {p}) = f ` {1..n} - {f p}"
    using inj_on_image_set_diff [OF assms(1), of "{1..n}" "{p}"] assms by auto
  ultimately show ?thesis by (metis fun_upd_same image_insert)
qed

lemma replace_linked:
  assumes L: "linked (h, m) n f" and p: "1 \<le> p" "p \<le> n" and a: "a \<notin> f ` {1..n}"
    and h': "h_min h' = (if p = 1 then Some a else h_min h)"
  shows "linked (h', replace_mem n f p a m) n (f(p := a))"
proof -
  have inj: "inj_on f {1..n}" using L by (simp add: linked_def)
  have P: "pos n (f(p := a)) x = (if x = p then Some a else pos n f x)" for x using p by (simp add: pos_def)
  have "h_min h' = pos n (f(p := a)) 1" using L h' p by (auto simp: P linked_def)
  moreover have "replace_mem n f p a m ((f(p := a)) q) = Some (cnode n (f(p := a)) q)"
    if q: "1 \<le> q" "q \<le> n" for q
  proof (cases "q = p")
    case True
    have "cnode n (f(p := a)) p = cnode n f p" using p by (auto simp: node_eq_iff P)
    then show ?thesis using True by (simp add: replace_mem_def app_pos_out [OF a])
  next
    case False
    have M: "(m(a \<mapsto> cnode n f p)) (f q) = Some (cnode n f q)" using L q a by (auto simp: linked_def)
    have k: "q div 2 = p \<longleftrightarrow> q = 2 * p \<or> q = 2 * p + 1" by auto
    have ne: "2 * p \<noteq> p div 2" "2 * p + 1 \<noteq> p div 2" using p by auto
    have "replace_mem n f p a m (f q) =
      Some ((if q = p div 2 then set_link p a else if q = 2 * p + 1 \<or> q = 2 * p then set_parent a else id) (cnode n f q))"
      using M ne unfolding replace_mem_def app_pos [OF inj q] by (auto simp del: fun_upd_apply)
    also have "\<dots> = Some (cnode n (f(p := a)) q)"
    proof (cases "q = p div 2")
      case True
      then have "q div 2 \<noteq> p" using p by auto
      then show ?thesis using True half_eq_iff [of q p] by (simp add: node_eq_iff P)
    next
      case False
      then have "2 * q \<noteq> p" "2 * q + 1 \<noteq> p" using half_eq_iff [of q p] by auto
      then show ?thesis using False k by (simp add: node_eq_iff P)
    qed
    finally show ?thesis using False by simp
  qed
  ultimately show ?thesis using replace_inj [OF inj a] by (simp add: linked_def)
qed

lemma loose_replace:
  assumes "1 \<le> p" "loose key n p f"
  shows "loose key n p (f(p := a))"
  unfolding loose_def
proof (intro conjI allI impI; elim conjE)
  fix q assume "2 \<le> q" "q \<le> n" "q \<noteq> p" "q div 2 \<noteq> p"
  then show "key ((f(p := a)) (q div 2)) \<le> key ((f(p := a)) q)" using assms by (simp add: loose_def)
next
  fix q assume q: "2 \<le> p" "q \<le> n" "q div 2 = p"
  then have "p div 2 \<noteq> p" "q \<noteq> p" by auto
  then show "key ((f(p := a)) (p div 2)) \<le> key ((f(p := a)) q)" using assms q by (simp add: loose_def)
qed

lemma replace_run:
  assumes L: "linked (h, m) n f" and p: "1 \<le> p" "p \<le> n" and a: "a \<notin> f ` {1..n}" "a \<in> dom m"
  obtains s' where
    "do { m \<leftarrow> upd a (\<lambda>_. cnode n f p) m;
          m \<leftarrow> upd_opt (pos n f (2 * p)) (hn_parent_update (\<lambda>_. Some a)) m;
          m \<leftarrow> upd_opt (pos n f (2 * p + 1)) (hn_parent_update (\<lambda>_. Some a)) m;
          nd \<leftarrow> m (f p);
          relink (hn_parent nd) (f p) a (h, m) } = Some s'"
    "linked s' n (f(p := a))" "same_dom (h, m) s'" "h_nelts (fst s') = h_nelts h"
proof -
  have inj: "inj_on f {1..n}" using L by (simp add: linked_def)
  define m1 where "m1 = m(a \<mapsto> cnode n f p)"
  define m2 where "m2 = app (pos n f (2 * p)) (set_parent a) m1"
  define m3 where "m3 = app (pos n f (2 * p + 1)) (set_parent a) m2"
  define h' where "h' = (if p = 1 then h\<lparr>h_min := Some a\<rparr> else h)"
  have M1: "m1 (f q) = Some (cnode n f q)" if "1 \<le> q" "q \<le> n" for q
    using L a(1) that by (auto simp: m1_def linked_def)
  have D: "pos n f q = Some b \<Longrightarrow> b \<in> dom m1" for q b
    using linked_pos_dom [OF L, of q b] by (simp add: m1_def)
  have u: "upd a (\<lambda>_. cnode n f p) m = Some m1" using a(2) by (auto simp: upd_def m1_def)
  have v: "upd_opt (pos n f (2 * p)) (hn_parent_update (\<lambda>_. Some a)) m1 = Some m2"
    "upd_opt (pos n f (2 * p + 1)) (hn_parent_update (\<lambda>_. Some a)) m2 = Some m3"
    using D unfolding set_updates(1) by (simp_all add: upd_opt_app m3_def m2_def)
  have P: "m3 (f p) = Some (cnode n f p)"
    using p M1 [OF p] by (simp add: m3_def m2_def app_pos [OF inj p])
  have R: "relink (pos n f (p div 2)) (f p) a (h, m3) = Some (h', replace_mem n f p a m)"
  proof (subst relink_pos [OF inj p])
    assume "2 \<le> p"
    then have q: "1 \<le> p div 2" "p div 2 \<le> n" "p div 2 \<noteq> 2 * p" "p div 2 \<noteq> 2 * p + 1" using p by auto
    then show "m3 (f (p div 2)) = Some (cnode n f (p div 2))"
      using M1 [OF q(1,2)] by (simp add: m3_def m2_def app_pos [OF inj q(1,2)])
  qed (simp_all add: h'_def replace_mem_def m3_def m2_def m1_def)
  have "linked (h', replace_mem n f p a m) n (f(p := a))"
    by (rule replace_linked [OF L p a(1)]) (simp add: h'_def)
  moreover have "same_dom (h, m) (h', replace_mem n f p a m)"
    using a(2) by (auto simp: same_dom_def replace_mem_def)
  ultimately show ?thesis
    using that [of "(h', replace_mem n f p a m)"] u v P R by (simp add: h'_def)
qed

text \<open>The last node is found and cut off; the rest of the removal works on the smaller tree.\<close>

lemma remove_cut:
  assumes L: "linked (h, m) (n + 1) f" and n: "unat (h_nelts h) = n + 1"
  obtains path k h' m' where "heap_path (h_nelts h) = (path, k)" "h_nelts h \<noteq> 0"
    "remove_walk k path At_Min (h, m) = Some (loc_of f (n + 1))"
    "deref (loc_of f (n + 1)) (h\<lparr>h_nelts := h_nelts h - 1\<rparr>, m) = Some (Some (f (n + 1)))"
    "store_at (loc_of f (n + 1)) None (h\<lparr>h_nelts := h_nelts h - 1\<rparr>, m) = Some (h', m')"
    "linked (h', m') n f" "same_dom (h, m) (h', m')" "unat (h_nelts h') = n"
proof -
  let ?h = "h\<lparr>h_nelts := h_nelts h - 1\<rparr>"
  obtain path k where pk: "heap_path (h_nelts h) = (path, k)" by fastforce
  have nz: "h_nelts h \<noteq> 0" "1 \<le> h_nelts h" using n by (auto simp: word_le_nat_alt)
  then have w: "walk_pos (unat k) (unat path) 1 = n + 1" using heap_path_walk [OF pk] n by simp
  have walk: "remove_walk k path At_Min (h, m) = Some (loc_of f (n + 1))"
    using remove_walk_loc_of [OF L order_refl w] by (simp add: loc_of_1 [unfolded One_nat_def])
  have L': "linked (?h, m) (n + 1) f" using linked_frame [OF L] by simp
  have d: "deref (loc_of f (n + 1)) (?h, m) = Some (Some (f (n + 1)))"
    using deref_loc_of [OF L', of "n + 1"] by (simp add: pos_def)
  define h' where "h' = (if n + 1 = 1 then ?h\<lparr>h_min := None\<rparr> else ?h)"
  define m' where "m' = app (pos (n + 1) f ((n + 1) div 2)) (put_link (n + 1) None) m"
  have "f ((n + 1) div 2) \<in> dom m" if "2 \<le> n + 1"
    using linked_dom [OF L, of "(n + 1) div 2"] that by simp
  then have as: "store_at (loc_of f (n + 1)) None (?h, m) = Some (h', m')"
    using store_loc_of [of "n + 1" "n + 1" f m None ?h] by (simp add: h'_def m'_def)
  have "linked (h', m') n f"
    unfolding m'_def by (rule shrink_linked [OF L]) (simp add: h'_def)
  moreover have "same_dom (h, m) (h', m')" by (simp add: same_dom_def m'_def)
  moreover have "unat (h_nelts h') = n" using n nz by (simp add: h'_def unat_minus_one)
  ultimately show ?thesis using that pk nz(1) walk d as by blast
qed

section \<open>The heap as a set with a least element\<close>

definition is_heap :: "(addr \<Rightarrow> 'k::linorder) \<Rightarrow> heap_st \<Rightarrow> addr set \<Rightarrow> bool" where
  "is_heap key s A \<longleftrightarrow> (\<exists>n f. linked s n f \<and> unat (h_nelts (fst s)) = n \<and> ordered key n f \<and> A = f ` {1..n})"

definition heap_nodes :: "heap_st \<Rightarrow> addr set" where
  "heap_nodes s = dom (snd s)"

lemma is_heapE:
  assumes "is_heap key s A"
  obtains n f where "linked s n f" "unat (h_nelts (fst s)) = n" "ordered key n f" "A = f ` {1..n}"
    "inj_on f {1..n}" "card A = n"
proof -
  obtain n f where *: "linked s n f" "unat (h_nelts (fst s)) = n" "ordered key n f" "A = f ` {1..n}"
    using assms by (auto simp: is_heap_def)
  then have "inj_on f {1..n}" by (simp add: linked_def)
  then show ?thesis using that [OF *] * by (simp add: card_image)
qed

lemma is_heapI: "linked s n f \<Longrightarrow> unat (h_nelts (fst s)) = n \<Longrightarrow> ordered key n f \<Longrightarrow> is_heap key s (f ` {1..n})"
  by (auto simp: is_heap_def)

lemma is_heap_card: "is_heap key s A \<Longrightarrow> card A = unat (h_nelts (fst s))"
  by (metis is_heapE)

lemma is_heap_finite: "is_heap key s A \<Longrightarrow> finite A"
  by (auto simp: is_heap_def)

lemma is_heap_nodes: "is_heap key s A \<Longrightarrow> A \<subseteq> heap_nodes s"
  using linked_dom [of s] by (fastforce simp: is_heap_def heap_nodes_def)

lemma is_heap_cong:
  assumes "is_heap key s A" "\<And>a. a \<in> A \<Longrightarrow> key' a = key a"
  shows "is_heap key' s A"
proof -
  obtain n f where *: "linked s n f" "unat (h_nelts (fst s)) = n" "ordered key n f" "A = f ` {1..n}"
    using assms(1) by (rule is_heapE)
  have "ordered key' n f"
    unfolding ordered_def
  proof (intro allI impI; elim conjE)
    fix q assume "2 \<le> q" "q \<le> n"
    moreover from this have "f q \<in> A" "f (q div 2) \<in> A" unfolding *(4) by (auto intro!: imageI)
    ultimately show "key' (f (q div 2)) \<le> key' (f q)" using *(3) assms(2) by (simp add: ordered_def)
  qed
  then show ?thesis using * is_heapI by blast
qed

text \<open>The owner of a node that is not in the heap may free it.\<close>

definition free_node :: "addr \<Rightarrow> heap_st \<Rightarrow> heap_st" where
  "free_node a s = (fst s, (snd s)(a := None))"

lemma is_heap_free:
  assumes "is_heap key s A" "a \<notin> A"
  shows "is_heap key (free_node a s) A"
proof -
  obtain n f where *: "linked s n f" "unat (h_nelts (fst s)) = n" "ordered key n f" "A = f ` {1..n}"
    using assms(1) by (rule is_heapE)
  have "f q \<noteq> a" if "1 \<le> q" "q \<le> n" for q using assms(2) that unfolding *(4) by auto
  then have "linked (free_node a s) n f" using *(1) by (simp add: linked_def free_node_def)
  then show ?thesis using * is_heapI [of "free_node a s" n f key] by (simp add: free_node_def)
qed

lemma free_node_nodes: "heap_nodes (free_node a s) = heap_nodes s - {a}"
  by (auto simp: heap_nodes_def free_node_def)

lemma heap_init_ok: "is_heap key (heap_init m) {}"
  by (auto simp: is_heap_def heap_init_def linked_def pos_def ordered_def)

lemma heap_insert_ok:
  assumes "is_heap key s A" "a \<notin> A" "a \<in> heap_nodes s" "card A < 2 ^ 32 - 1"
  shows "\<exists>s'. heap_insert (lt_key key) s a = Some s' \<and> is_heap key s' (insert a A) \<and> heap_nodes s' = heap_nodes s"
proof -
  obtain h m where s: "s = (h, m)" by (cases s)
  obtain n f where *: "linked (h, m) n f" "unat (h_nelts h) = n" "ordered key n f" "A = f ` {1..n}" "card A = n"
    using assms(1) unfolding s by (metis is_heapE fst_conv)
  let ?g = "f(n + 1 := a)"
  have a: "a \<in> dom m" "a \<notin> f ` {1..n}" using assms(2,3) *(4) by (simp_all add: s heap_nodes_def)
  have "n + 1 < 2 ^ 32" using assms(4) *(5) by simp
  from insert_place [OF *(1,2) this a, of "lt_key key"]
  obtain s1 where s1: "heap_insert (lt_key key) (h, m) a = up_loop (lt_key key) a s1" "linked s1 (n + 1) ?g"
    "same_dom (h, m) s1" "unat (h_nelts (fst s1)) = n + 1" by blast
  have "loose key (n + 1) (n + 1) ?g" "below_ok key (n + 1) (n + 1) ?g"
    using *(3) by (auto simp: loose_def below_ok_def ordered_def)
  from up_loop_ok [OF s1(2) _ _ this]
  obtain s' g where g: "up_loop (lt_key key) a s1 = Some s'" "moved s1 (n + 1) ?g s' g" "ordered key (n + 1) g"
    by auto
  have "is_heap key s' (g ` {1..n + 1})"
    using g(2,3) s1(4) by (intro is_heapI) (simp_all add: moved_def)
  moreover have "g ` {1..n + 1} = insert a A"
    using g(2) by (simp only: moved_def image_grow *(4))
  moreover have "heap_nodes s' = heap_nodes s"
    using g(2) s1(3) by (simp add: s moved_def same_dom_def heap_nodes_def)
  ultimately show ?thesis using s s1(1) g(1) by auto
qed

text \<open>The part of the removal after the last node was cut off, when it is not the one to remove.\<close>

definition replace_settle ::
  "(addr \<Rightarrow> addr \<Rightarrow> bool) \<Rightarrow> heap_node \<Rightarrow> addr \<Rightarrow> addr \<Rightarrow> heap_st \<Rightarrow> heap_st option" where
  "replace_settle lt nd node child s = (case s of (h, m) \<Rightarrow> do {
     m \<leftarrow> upd child (\<lambda>_. nd) m;
     m \<leftarrow> upd_opt (hn_left nd) (hn_parent_update (\<lambda>_. Some child)) m;
     m \<leftarrow> upd_opt (hn_right nd) (hn_parent_update (\<lambda>_. Some child)) m;
     nd \<leftarrow> m node;
     s \<leftarrow> relink (hn_parent nd) node child (h, m);
     s \<leftarrow> down_loop lt child s;
     up_loop lt child s
   })"

lemma replace_settle_ok:
  assumes L: "linked (h, m) n f" and ord: "ordered key n f" and p: "1 \<le> p" "p \<le> n"
    and a: "a \<notin> f ` {1..n}" "a \<in> dom m"
  obtains s' g where "replace_settle (lt_key key) (cnode n f p) (f p) a (h, m) = Some s'" "linked s' n g"
    "ordered key n g" "same_dom (h, m) s'" "h_nelts (fst s') = h_nelts h"
    "g ` {1..n} = insert a (f ` {1..n} - {f p})"
proof -
  have inj: "inj_on f {1..n}" using L by (simp add: linked_def)
  obtain s1 where s1: "do { m \<leftarrow> upd a (\<lambda>_. cnode n f p) m;
        m \<leftarrow> upd_opt (pos n f (2 * p)) (hn_parent_update (\<lambda>_. Some a)) m;
        m \<leftarrow> upd_opt (pos n f (2 * p + 1)) (hn_parent_update (\<lambda>_. Some a)) m;
        nd \<leftarrow> m (f p);
        relink (hn_parent nd) (f p) a (h, m) } = Some s1"
    "linked s1 n (f(p := a))" "same_dom (h, m) s1" "h_nelts (fst s1) = h_nelts h"
    using replace_run [OF L p a] by blast
  have "loose key n p (f(p := a))" using loose_replace [OF p(1) ordered_loose [OF ord p(1)]] .
  from down_loop_ok [OF s1(2) p this]
  obtain s2 g2 p2 where s2: "down_loop (lt_key key) a s1 = Some s2" "moved s1 n (f(p := a)) s2 g2"
    "1 \<le> p2" "p2 \<le> n" "g2 p2 = a" "loose key n p2 g2" "below_ok key n p2 g2" by auto
  have "linked s2 n g2" using s2(2) by (simp add: moved_def)
  from up_loop_ok [OF this s2(3,4,6,7)]
  obtain s3 g3 where s3: "up_loop (lt_key key) a s2 = Some s3" "moved s2 n g2 s3 g3" "ordered key n g3"
    using s2(5) by auto
  have "replace_settle (lt_key key) (cnode n f p) (f p) a (h, m) = Some s3"
    using s1(1) s2(1) s3(1) by (cases s1; cases s2) (fastforce simp: replace_settle_def bind_eq_Some_conv)
  moreover have mv: "moved s1 n (f(p := a)) s3 g3" using moved_trans [OF s2(2) s3(2)] .
  moreover have "same_dom (h, m) s3" using mv s1(3) by (auto simp: moved_def elim: same_dom_trans)
  ultimately show ?thesis using that [of s3 g3] s3(3) s1(4) replace_image [OF inj p, of a] by (simp add: moved_def)
qed

lemma heap_remove_ok:
  assumes "is_heap key s A" "a \<in> A"
  shows "\<exists>s'. heap_remove (lt_key key) s (Some a) = Some s' \<and> is_heap key s' (A - {a}) \<and> heap_nodes s' = heap_nodes s"
proof -
  obtain h m where s: "s = (h, m)" by (cases s)
  obtain n0 f where *: "linked (h, m) n0 f" "unat (h_nelts h) = n0" "ordered key n0 f" "A = f ` {1..n0}" "inj_on f {1..n0}"
    using assms(1) unfolding s by (metis is_heapE fst_conv)
  obtain p where p: "a = f p" "1 \<le> p" "p \<le> n0" using assms(2) *(4) by auto
  define n where "n = n0 - 1"
  then have n0: "n0 = n + 1" using p by simp
  note * = *[unfolded n0]
  obtain path k h' m' where c: "heap_path (h_nelts h) = (path, k)" "h_nelts h \<noteq> 0"
    "remove_walk k path At_Min (h, m) = Some (loc_of f (n + 1))"
    "deref (loc_of f (n + 1)) (h\<lparr>h_nelts := h_nelts h - 1\<rparr>, m) = Some (Some (f (n + 1)))"
    "store_at (loc_of f (n + 1)) None (h\<lparr>h_nelts := h_nelts h - 1\<rparr>, m) = Some (h', m')"
    "linked (h', m') n f" "same_dom (h, m) (h', m')" "unat (h_nelts h') = n"
    using remove_cut [OF *(1,2)] by blast
  have ord: "ordered key n f" using *(3) by (simp add: ordered_def)
  have inj: "inj_on f {1..n}" using c(6) by (simp add: linked_def)
  have last: "f (n + 1) \<notin> f ` {1..n}" using *(5) inj_on_image_mem_iff [of f "{1..n + 1}" "n + 1" "{1..n}"] by auto
  have A: "A = insert (f (n + 1)) (f ` {1..n})" using *(4) image_grow [of f n "f (n + 1)"] by simp
  show ?thesis
  proof (cases "p = n + 1")
    case True
    have "1 \<le> n \<Longrightarrow> f 1 \<noteq> f (n + 1)" using last by (metis atLeastAtMost_iff imageI order_refl)
    then have "h_min h' \<noteq> Some a" using c(6) p True by (auto simp: linked_def pos_def)
    then have "heap_remove (lt_key key) s (Some a) = Some (h', m')"
      using c(1-5) True p(1) by (simp add: s heap_remove_def)
    moreover have "A - {a} = f ` {1..n}" using A last p True by auto
    ultimately show ?thesis using c(6,7,8) ord is_heapI [of "(h', m')" n f key]
      by (auto simp: s same_dom_def heap_nodes_def)
  next
    case False
    with p n0 have pn: "p \<le> n" by simp
    have node: "m' (f p) = Some (cnode n f p)" using linked_node [OF c(6) p(2) pn] by simp
    have ne: "f (n + 1) \<noteq> a" using last p(1,2) pn by auto
    have dm: "f (n + 1) \<in> dom m'" using linked_dom [OF *(1), of "n + 1"] c(7) by (simp add: same_dom_def)
    obtain s' g where s': "replace_settle (lt_key key) (cnode n f p) (f p) (f (n + 1)) (h', m') = Some s'"
      "linked s' n g" "ordered key n g" "same_dom (h', m') s'" "h_nelts (fst s') = h_nelts h'"
      "g ` {1..n} = insert (f (n + 1)) (f ` {1..n} - {f p})"
      using replace_settle_ok [OF c(6) ord p(2) pn last dm] by blast
    have "heap_remove (lt_key key) s (Some a) = Some s'"
      using c(1-5) p(1) ne node s'(1) by (simp add: s heap_remove_def replace_settle_def)
    moreover have "is_heap key s' (g ` {1..n})" using s'(2,3,5) c(8) by (intro is_heapI) simp_all
    moreover have "g ` {1..n} = A - {a}" using s'(6) A ne p(1) by auto
    moreover have "heap_nodes s' = heap_nodes s" using s'(4) c(7) by (simp add: s same_dom_def heap_nodes_def)
    ultimately show ?thesis by simp
  qed
qed

lemma ordered_root: "ordered key n f \<Longrightarrow> 1 \<le> q \<Longrightarrow> q \<le> n \<Longrightarrow> key (f 1) \<le> key (f q)"
proof (induction q rule: less_induct)
  case (less q)
  show ?case
  proof (cases "q = 1")
    case False
    then have q: "2 \<le> q" "1 \<le> q div 2" "q div 2 < q" "q div 2 \<le> n" using less.prems(2,3) by auto
    have "key (f 1) \<le> key (f (q div 2))" using less.IH [OF q(3) less.prems(1) q(2,4)] .
    also have "\<dots> \<le> key (f q)" using less.prems(1,3) q(1) by (simp add: ordered_def)
    finally show ?thesis .
  qed simp
qed

lemma heap_min_none: "is_heap key s A \<Longrightarrow> heap_min s = None \<longleftrightarrow> A = {}"
  by (auto simp: is_heap_def heap_min_def linked_def pos_def split: if_splits)

lemma heap_min_some:
  assumes "is_heap key s A" "heap_min s = Some a"
  shows "a \<in> A \<and> (\<forall>b\<in>A. key a \<le> key b)"
proof -
  obtain n f where *: "linked s n f" "ordered key n f" "A = f ` {1..n}" using assms(1) by (rule is_heapE)
  then have "a = f 1" "1 \<le> n" using assms(2) by (auto simp: heap_min_def linked_def pos_def split: if_splits)
  then show ?thesis using *(2,3) by (auto intro: ordered_root [unfolded One_nat_def])
qed

lemma heap_dequeue_ok:
  "is_heap key s A \<Longrightarrow>
   heap_dequeue lt s = (case heap_min s of None \<Rightarrow> Some s | Some a \<Rightarrow> heap_remove lt s (Some a))"
proof (cases "heap_min s")
  case None
  assume o: "is_heap key s A"
  with None have "A = {}" by (simp add: heap_min_none)
  then have "h_nelts (fst s) = 0" using is_heap_card [OF o] by (simp add: unat_eq_zero)
  then show ?thesis using None by (cases s) (simp add: heap_dequeue_def heap_remove_def)
qed (simp add: heap_dequeue_def)

section \<open>The interface\<close>

text \<open>The reference is a list of the elements in the order of their keys.\<close>

datatype 'a pq_op = Pq_Insert 'a | Pq_Remove 'a | Pq_Dequeue

fun pq_spec :: "('a \<Rightarrow> 'k::linorder) \<Rightarrow> 'a pq_op \<Rightarrow> 'a list \<Rightarrow> 'a list option" where
  "pq_spec key (Pq_Insert a) xs = (if a \<in> set xs then None else Some (insort_key key a xs))"
| "pq_spec key (Pq_Remove a) xs = (if a \<in> set xs then Some (remove1 a xs) else None)"
| "pq_spec key Pq_Dequeue xs = Some (tl xs)"

fun pq_impl ::
  "('s \<Rightarrow> 'a \<Rightarrow> 's option) \<Rightarrow> ('s \<Rightarrow> 'a \<Rightarrow> 's option) \<Rightarrow> ('s \<Rightarrow> 's option) \<Rightarrow> 'a pq_op \<Rightarrow> 's \<Rightarrow> 's option" where
  "pq_impl ins del deq (Pq_Insert a) s = ins s a"
| "pq_impl ins del deq (Pq_Remove a) s = del s a"
| "pq_impl ins del deq Pq_Dequeue s = deq s"

text \<open>A run of operations, with what the least element was after each of them.\<close>

fun pq_run :: "('op \<Rightarrow> 's \<Rightarrow> 's option) \<Rightarrow> ('s \<Rightarrow> 'a option) \<Rightarrow> 'op list \<Rightarrow> 's \<Rightarrow> ('s \<times> 'a option list) option" where
  "pq_run step least [] s = Some (s, [])"
| "pq_run step least (op # ops) s = (case step op s of
     None \<Rightarrow> None
   | Some s' \<Rightarrow> map_option (\<lambda>(s'', outs). (s'', least s' # outs)) (pq_run step least ops s'))"

definition hd_opt :: "'a list \<Rightarrow> 'a option" where
  "hd_opt xs = (case xs of [] \<Rightarrow> None | x # _ \<Rightarrow> Some x)"

fun op_nodes :: "'a pq_op \<Rightarrow> 'a set" where
  "op_nodes (Pq_Insert a) = {a}"
| "op_nodes _ = {}"

locale priority_queue =
  fixes ok :: "('a \<Rightarrow> 'k::linorder) \<Rightarrow> 's \<Rightarrow> 'a set \<Rightarrow> bool" and nodes :: "'s \<Rightarrow> 'a set" and cap :: nat
    and ins :: "('a \<Rightarrow> 'a \<Rightarrow> bool) \<Rightarrow> 's \<Rightarrow> 'a \<Rightarrow> 's option"
    and del :: "('a \<Rightarrow> 'a \<Rightarrow> bool) \<Rightarrow> 's \<Rightarrow> 'a \<Rightarrow> 's option"
    and deq :: "('a \<Rightarrow> 'a \<Rightarrow> bool) \<Rightarrow> 's \<Rightarrow> 's option"
    and least :: "'s \<Rightarrow> 'a option" and free :: "'a \<Rightarrow> 's \<Rightarrow> 's"
  assumes ins_ok: "ok key s A \<Longrightarrow> a \<notin> A \<Longrightarrow> a \<in> nodes s \<Longrightarrow> card A < cap \<Longrightarrow>
      \<exists>s'. ins (\<lambda>a b. key a < key b) s a = Some s' \<and> ok key s' (insert a A) \<and> nodes s' = nodes s"
    and del_ok: "ok key s A \<Longrightarrow> a \<in> A \<Longrightarrow>
      \<exists>s'. del (\<lambda>a b. key a < key b) s a = Some s' \<and> ok key s' (A - {a}) \<and> nodes s' = nodes s"
    and deq_eq: "ok key s A \<Longrightarrow> deq lt s = (case least s of None \<Rightarrow> Some s | Some a \<Rightarrow> del lt s a)"
    and least_none: "ok key s A \<Longrightarrow> least s = None \<longleftrightarrow> A = {}"
    and least_some: "ok key s A \<Longrightarrow> least s = Some a \<Longrightarrow> a \<in> A \<and> (\<forall>b\<in>A. key a \<le> key b)"
    and ok_cong: "ok key s A \<Longrightarrow> (\<And>a. a \<in> A \<Longrightarrow> key' a = key a) \<Longrightarrow> ok key' s A"
    and ok_finite: "ok key s A \<Longrightarrow> finite A"
    and ok_nodes: "ok key s A \<Longrightarrow> A \<subseteq> nodes s"
    and free_ok: "ok key s A \<Longrightarrow> a \<notin> A \<Longrightarrow> ok key (free a s) A"
    and free_nodes: "nodes (free a s) = nodes s - {a}"
begin

text \<open>Keys may change outside the queue.\<close>

lemma ins_rekey:
  assumes "ok key s A" "\<And>b. b \<in> A \<Longrightarrow> key' b = key b" "a \<notin> A" "a \<in> nodes s" "card A < cap"
  shows "\<exists>s'. ins (\<lambda>a b. key' a < key' b) s a = Some s' \<and> ok key' s' (insert a A) \<and> nodes s' = nodes s"
  using ins_ok [OF ok_cong [OF assms(1,2)] assms(3-5)] .

lemma del_rekey:
  assumes "ok key s A" "a \<in> A" "\<And>b. b \<in> A - {a} \<Longrightarrow> key' b = key b"
  shows "\<exists>s'. del (\<lambda>a b. key a < key b) s a = Some s' \<and> ok key' s' (A - {a}) \<and> nodes s' = nodes s"
  using del_ok [OF assms(1,2)] ok_cong [of key _ "A - {a}" key'] assms(3) by blast

definition sim :: "('a \<Rightarrow> 'k) \<Rightarrow> 'a list \<Rightarrow> 's \<Rightarrow> bool" where
  "sim key xs s \<longleftrightarrow> ok key s (set xs) \<and> sorted_wrt (\<lambda>a b. key a < key b) xs"

lemma sim_distinct: "sim key xs s \<Longrightarrow> distinct xs"
  by (auto simp: sim_def distinct_conv_nth sorted_wrt_iff_nth_less) (metis linorder_neqE_nat less_irrefl)

lemma least_sim: "sim key xs s \<Longrightarrow> least s = hd_opt xs"
proof (cases xs)
  case Nil
  assume "sim key xs s"
  then show ?thesis using Nil least_none [of key s "{}"] by (simp add: sim_def hd_opt_def)
next
  case (Cons x xs')
  assume S: "sim key xs s"
  then obtain a where a: "least s = Some a" using Cons least_none [of key s "set xs"] by (auto simp: sim_def)
  then have "a \<in> set xs" "key a \<le> key x" using S Cons least_some [of key s "set xs" a] by (auto simp: sim_def)
  then have "a = x" using S Cons by (auto simp: sim_def)
  then show ?thesis using a Cons by (simp add: hd_opt_def)
qed

lemma insort_strict:
  "sorted_wrt (\<lambda>a b. key a < key b) xs \<Longrightarrow> inj_on key N \<Longrightarrow> a \<in> N \<Longrightarrow> set xs \<subseteq> N \<Longrightarrow> a \<notin> set xs \<Longrightarrow>
   sorted_wrt (\<lambda>a b. key a < key b) (insort_key key a xs)"
proof (induction xs)
  case (Cons x xs)
  then have "key a \<noteq> key x" by (auto dest: inj_onD)
  then show ?case using Cons by (auto simp: set_insort_key)
qed simp

lemma remove1_strict:
  "sorted_wrt P xs \<Longrightarrow> sorted_wrt P (remove1 a xs)"
  by (induction xs) (auto dest: notin_set_remove1 set_remove1_subset [THEN subsetD])

lemma del_sim:
  assumes "sim key xs s" "a \<in> set xs"
  shows "\<exists>s'. del (\<lambda>a b. key a < key b) s a = Some s' \<and> sim key (remove1 a xs) s' \<and> nodes s' = nodes s"
  using assms del_ok [of key s "set xs" a] sim_distinct [OF assms(1)]
  by (auto simp: sim_def remove1_strict)

lemma step_sim:
  assumes S: "sim key xs s" and spec: "pq_spec key op xs = Some xs'"
    and inj: "inj_on key (nodes s)" and N: "op_nodes op \<subseteq> nodes s" and c: "length xs < cap"
  shows "\<exists>s'. pq_impl (ins (\<lambda>a b. key a < key b)) (del (\<lambda>a b. key a < key b)) (deq (\<lambda>a b. key a < key b)) op s =
    Some s' \<and> sim key xs' s' \<and> nodes s' = nodes s \<and> length xs' \<le> Suc (length xs)"
proof (cases op)
  case (Pq_Insert a)
  then have a: "a \<notin> set xs" "xs' = insort_key key a xs" "a \<in> nodes s" using spec N by (auto split: if_splits)
  have "card (set xs) < cap" using c card_length [of xs] by linarith
  then obtain s' where "ins (\<lambda>a b. key a < key b) s a = Some s'" "ok key s' (insert a (set xs))" "nodes s' = nodes s"
    using ins_ok [of key s "set xs" a] S a by (auto simp: sim_def)
  moreover have "sorted_wrt (\<lambda>a b. key a < key b) xs'"
    using insort_strict [OF _ inj a(3) _ a(1)] S ok_nodes [of key s "set xs"] a(2) by (simp add: sim_def)
  ultimately show ?thesis using Pq_Insert a(2) by (simp add: sim_def set_insort_key length_insort)
next
  case (Pq_Remove a)
  then have "a \<in> set xs" "xs' = remove1 a xs" using spec by (auto split: if_splits)
  then show ?thesis using del_sim [OF S, of a] Pq_Remove by (auto simp: length_remove1)
next
  case Pq_Dequeue
  show ?thesis
  proof (cases xs)
    case Nil
    then show ?thesis using Pq_Dequeue spec S least_sim [OF S] deq_eq [of key s "{}"]
      by (simp add: sim_def hd_opt_def)
  next
    case (Cons x ys)
    then show ?thesis using Pq_Dequeue spec S least_sim [OF S] deq_eq [of key s "set xs"] del_sim [OF S, of x]
      by (auto simp: sim_def hd_opt_def)
  qed
qed

lemma run_sim:
  assumes "sim key xs s" "pq_run (pq_spec key) hd_opt ops xs = Some (xs', outs)"
    and "inj_on key (nodes s)" "\<And>op. op \<in> set ops \<Longrightarrow> op_nodes op \<subseteq> nodes s" "length xs + length ops \<le> cap"
  shows "\<exists>s'. pq_run (pq_impl (ins (\<lambda>a b. key a < key b)) (del (\<lambda>a b. key a < key b)) (deq (\<lambda>a b. key a < key b)))
      least ops s = Some (s', outs) \<and> sim key xs' s'"
  using assms
proof (induction ops arbitrary: xs s outs)
  case (Cons op ops)
  from Cons.prems(2) obtain ys os where y: "pq_spec key op xs = Some ys"
    "pq_run (pq_spec key) hd_opt ops ys = Some (xs', os)" "outs = hd_opt ys # os"
    by (auto split: option.splits)
  obtain s1 where s1: "pq_impl (ins (\<lambda>a b. key a < key b)) (del (\<lambda>a b. key a < key b)) (deq (\<lambda>a b. key a < key b)) op s =
    Some s1" "sim key ys s1" "nodes s1 = nodes s" "length ys \<le> Suc (length xs)"
    using step_sim [OF Cons.prems(1) y(1) Cons.prems(3)] Cons.prems(4,5) by auto
  then show ?case
    using Cons.IH [OF s1(2) y(2)] Cons.prems(3-5) y(3) least_sim [OF s1(2)] by auto
qed simp

end

interpretation uvh: priority_queue is_heap heap_nodes "2 ^ 32 - 1" heap_insert
  "\<lambda>lt s a. heap_remove lt s (Some a)" heap_dequeue heap_min free_node
  by unfold_locales
    (fact heap_insert_ok heap_remove_ok heap_dequeue_ok heap_min_none heap_min_some is_heap_cong
      is_heap_finite is_heap_nodes is_heap_free free_node_nodes)+

section \<open>Correctness\<close>

definition heap_run :: "(addr \<Rightarrow> addr \<Rightarrow> bool) \<Rightarrow> addr pq_op list \<Rightarrow> heap_st \<Rightarrow> (heap_st \<times> addr option list) option" where
  "heap_run lt = pq_run
     (pq_impl (heap_insert lt) (\<lambda>s a. heap_remove lt s (Some a)) (heap_dequeue lt)) heap_min"

text \<open>C10. The heap of libuv is a priority queue. Run any sequence of \<^verbatim>\<open>heap_insert\<close>, \<^verbatim>\<open>heap_remove\<close> of an
  arbitrary element and \<^verbatim>\<open>heap_dequeue\<close> from \<^verbatim>\<open>heap_init\<close>, of fewer than \<open>2 ^ 32\<close> operations and with keys
  that tell the nodes apart, whose reference run on a list sorted by key is legal (no node inserted twice, none
  removed that is not there): then every operation returns without touching memory that is not a
  node, \<^verbatim>\<open>heap_min\<close> is after every operation the head of the sorted list, and at the end the
  nodes are linked as a complete binary tree in heap order, its elements and its counter being those of the list.\<close>

theorem uv_heap_refines_sorted_list:
  assumes "pq_run (pq_spec key) hd_opt ops [] = Some (xs, outs)"
    and "inj_on key (dom m)" "\<forall>op \<in> set ops. op_nodes op \<subseteq> dom m" "length ops < 2 ^ 32"
  shows "\<exists>s. heap_run (\<lambda>a b. key a < key b) ops (heap_init m) = Some (s, outs) \<and>
    is_heap key s (set xs) \<and> unat (h_nelts (fst s)) = length xs"
proof -
  have S: "uvh.sim key [] (heap_init m)" by (simp add: uvh.sim_def heap_init_ok)
  have N: "heap_nodes (heap_init m) = dom m" by (simp add: heap_nodes_def heap_init_def)
  obtain s where s: "heap_run (\<lambda>a b. key a < key b) ops (heap_init m) = Some (s, outs)" "uvh.sim key xs s"
    using uvh.run_sim [OF S assms(1)] assms(2-4) unfolding N heap_run_def by auto
  have "unat (h_nelts (fst s)) = length xs"
    using s(2) is_heap_card [of key s "set xs"] uvh.sim_distinct [OF s(2)] by (simp add: uvh.sim_def distinct_card)
  then show ?thesis using s by (auto simp: uvh.sim_def)
qed

definition sample_mem :: hmem where
  "sample_mem = (let x = \<lparr>hn_left = None, hn_right = None, hn_parent = None\<rparr>
                 in [1 \<mapsto> x, 2 \<mapsto> x, 3 \<mapsto> x, 4 \<mapsto> x, 5 \<mapsto> x])"

definition sample_ops :: "addr pq_op list" where
  "sample_ops = [Pq_Insert 1, Pq_Insert 2, Pq_Insert 3, Pq_Insert 4, Pq_Insert 5, Pq_Remove 3, Pq_Dequeue, Pq_Remove 1]"

theorem uv_heap_refines_sorted_list_witness:
  "\<exists>s. heap_run (\<lambda>a b. 9 - int a < 9 - int b) sample_ops (heap_init sample_mem) =
      Some (s, [Some 1, Some 2, Some 3, Some 4, Some 5, Some 5, Some 4, Some 4]) \<and>
    is_heap (\<lambda>a. 9 - int a) s {4, 2} \<and> unat (h_nelts (fst s)) = 2"
proof -
  have "pq_run (pq_spec (\<lambda>a. 9 - int a)) hd_opt sample_ops [] =
    Some ([4, 2], [Some 1, Some 2, Some 3, Some 4, Some 5, Some 5, Some 4, Some 4])"
    by (simp add: sample_ops_def hd_opt_def)
  moreover have "inj_on (\<lambda>a. 9 - int a) (dom sample_mem)" by (auto simp: inj_on_def)
  moreover have "\<forall>op \<in> set sample_ops. op_nodes op \<subseteq> dom sample_mem"
    by (simp add: sample_ops_def sample_mem_def Let_def)
  moreover have "length sample_ops < 2 ^ 32" by (simp add: sample_ops_def)
  ultimately show ?thesis
    using uv_heap_refines_sorted_list [of "\<lambda>a. 9 - int a" sample_ops "[4, 2]" _ sample_mem] by (simp add: numeral_2_eq_2)
qed

end
