(* ===== verification/Uv_Queue.thy ===== *)
theory Uv_Queue
  imports Ssn_Prelude
begin

text \<open>
  The intrusive circular lists of libuv, the macros of \<^verbatim>\<open>src/third/libuv/src/queue.h\<close>, with which a loop keeps its
  handles and requests. A \<^verbatim>\<open>QUEUE\<close> is a pair of pointers to the next and the previous node; a list is a
  ring of nodes through its head. The macros are modelled assignment by assignment on an explicit memory, an access to
  an address without a node having no result, and each is shown to do to the list what its name
  says. The interface for the loop's own lists is the locale \<open>ring_list\<close>.
\<close>

section \<open>The macros\<close>

record qnode =
  q_nxt :: addr
  q_prv :: addr

type_synonym qmem = "addr \<Rightarrow> qnode option"

definition QUEUE_NEXT :: "qmem \<Rightarrow> addr \<Rightarrow> addr option" where
  "QUEUE_NEXT m q = map_option q_nxt (m q)"

definition QUEUE_PREV :: "qmem \<Rightarrow> addr \<Rightarrow> addr option" where
  "QUEUE_PREV m q = map_option q_prv (m q)"

definition set_next :: "addr \<Rightarrow> addr \<Rightarrow> qmem \<Rightarrow> qmem option" where
  "set_next q v m = map_option (\<lambda>n. m(q \<mapsto> n\<lparr>q_nxt := v\<rparr>)) (m q)"

definition set_prev :: "addr \<Rightarrow> addr \<Rightarrow> qmem \<Rightarrow> qmem option" where
  "set_prev q v m = map_option (\<lambda>n. m(q \<mapsto> n\<lparr>q_prv := v\<rparr>)) (m q)"

text \<open>\<^verbatim>\<open>QUEUE_PREV_NEXT(q) = v\<close> and \<^verbatim>\<open>QUEUE_NEXT_PREV(q) = v\<close>\<close>

definition set_prev_next :: "addr \<Rightarrow> addr \<Rightarrow> qmem \<Rightarrow> qmem option" where
  "set_prev_next q v m = do { p \<leftarrow> QUEUE_PREV m q; set_next p v m }"

definition set_next_prev :: "addr \<Rightarrow> addr \<Rightarrow> qmem \<Rightarrow> qmem option" where
  "set_next_prev q v m = do { n \<leftarrow> QUEUE_NEXT m q; set_prev n v m }"

definition QUEUE_EMPTY :: "qmem \<Rightarrow> addr \<Rightarrow> bool option" where
  "QUEUE_EMPTY m q = map_option (\<lambda>n. q = n) (QUEUE_NEXT m q)"

definition QUEUE_HEAD :: "qmem \<Rightarrow> addr \<Rightarrow> addr option" where
  "QUEUE_HEAD m q = QUEUE_NEXT m q"

definition QUEUE_INIT :: "addr \<Rightarrow> qmem \<Rightarrow> qmem option" where
  "QUEUE_INIT q m = do { m \<leftarrow> set_next q q m; set_prev q q m }"

definition QUEUE_ADD :: "addr \<Rightarrow> addr \<Rightarrow> qmem \<Rightarrow> qmem option" where
  "QUEUE_ADD h n m = do {
     x \<leftarrow> QUEUE_NEXT m n;
     m \<leftarrow> set_prev_next h x m;
     y \<leftarrow> QUEUE_PREV m h;
     m \<leftarrow> set_next_prev n y m;
     z \<leftarrow> QUEUE_PREV m n;
     m \<leftarrow> set_prev h z m;
     set_prev_next h h m
   }"

definition QUEUE_SPLIT :: "addr \<Rightarrow> addr \<Rightarrow> addr \<Rightarrow> qmem \<Rightarrow> qmem option" where
  "QUEUE_SPLIT h q n m = do {
     x \<leftarrow> QUEUE_PREV m h;
     m \<leftarrow> set_prev n x m;
     m \<leftarrow> set_prev_next n n m;
     m \<leftarrow> set_next n q m;
     y \<leftarrow> QUEUE_PREV m q;
     m \<leftarrow> set_prev h y m;
     m \<leftarrow> set_prev_next h h m;
     set_prev q n m
   }"

definition QUEUE_MOVE :: "addr \<Rightarrow> addr \<Rightarrow> qmem \<Rightarrow> qmem option" where
  "QUEUE_MOVE h n m = do {
     e \<leftarrow> QUEUE_EMPTY m h;
     if e then QUEUE_INIT n m
     else do { q \<leftarrow> QUEUE_HEAD m h; QUEUE_SPLIT h q n m }
   }"

definition QUEUE_INSERT_HEAD :: "addr \<Rightarrow> addr \<Rightarrow> qmem \<Rightarrow> qmem option" where
  "QUEUE_INSERT_HEAD h q m = do {
     x \<leftarrow> QUEUE_NEXT m h;
     m \<leftarrow> set_next q x m;
     m \<leftarrow> set_prev q h m;
     m \<leftarrow> set_next_prev q q m;
     set_next h q m
   }"

definition QUEUE_INSERT_TAIL :: "addr \<Rightarrow> addr \<Rightarrow> qmem \<Rightarrow> qmem option" where
  "QUEUE_INSERT_TAIL h q m = do {
     m \<leftarrow> set_next q h m;
     x \<leftarrow> QUEUE_PREV m h;
     m \<leftarrow> set_prev q x m;
     m \<leftarrow> set_prev_next q q m;
     set_prev h q m
   }"

definition QUEUE_REMOVE :: "addr \<Rightarrow> qmem \<Rightarrow> qmem option" where
  "QUEUE_REMOVE q m = do {
     n \<leftarrow> QUEUE_NEXT m q;
     m \<leftarrow> set_prev_next q n m;
     p \<leftarrow> QUEUE_PREV m q;
     set_next_prev q p m
   }"

text \<open>The nodes a \<^verbatim>\<open>QUEUE_FOREACH\<close> visits.\<close>

partial_function (option) foreach_loop :: "qmem \<Rightarrow> addr \<Rightarrow> addr \<Rightarrow> addr list option" where
  [code]: "foreach_loop m h q =
     (if q = h then Some []
      else Option.bind (QUEUE_NEXT m q) (\<lambda>n. Option.bind (foreach_loop m h n) (\<lambda>qs. Some (q # qs))))"

definition QUEUE_FOREACH :: "qmem \<Rightarrow> addr \<Rightarrow> addr list option" where
  "QUEUE_FOREACH m h = Option.bind (QUEUE_NEXT m h) (foreach_loop m h)"

section \<open>Rings\<close>

text \<open>Consecutive nodes of a list point at each other.\<close>

fun link :: "qmem \<Rightarrow> addr list \<Rightarrow> bool" where
  "link m (a # b # zs) \<longleftrightarrow> QUEUE_NEXT m a = Some b \<and> QUEUE_PREV m b = Some a \<and> link m (b # zs)"
| "link m _ \<longleftrightarrow> True"

definition ring :: "qmem \<Rightarrow> addr \<Rightarrow> addr list \<Rightarrow> bool" where
  "ring m h xs \<longleftrightarrow> distinct (h # xs) \<and> link m (h # xs @ [h])"

lemma link_append: "link m (xs @ a # ys) \<longleftrightarrow> link m (xs @ [a]) \<and> link m (a # ys)"
proof (induction xs)
  case (Cons x xs)
  then show ?case by (cases xs) auto
qed (cases ys; simp)

lemma link_cong:
  assumes "\<And>a. a \<in> set (butlast zs) \<Longrightarrow> QUEUE_NEXT m' a = QUEUE_NEXT m a"
    and "\<And>a. a \<in> set (tl zs) \<Longrightarrow> QUEUE_PREV m' a = QUEUE_PREV m a"
  shows "link m' zs = link m zs"
  using assms
proof (induction zs rule: induct_list012)
  case (3 a b zs)
  then have "link m' (b # zs) = link m (b # zs)" by (cases zs) auto
  with 3 show ?case by simp
qed simp_all

lemma QUEUE_upd [simp]:
  "QUEUE_NEXT (m(q \<mapsto> n)) a = (if a = q then Some (q_nxt n) else QUEUE_NEXT m a)"
  "QUEUE_PREV (m(q \<mapsto> n)) a = (if a = q then Some (q_prv n) else QUEUE_PREV m a)"
  by (simp_all add: QUEUE_NEXT_def QUEUE_PREV_def)

text \<open>The effect of an assignment in terms of the two links of every node.\<close>

lemma set_next_Some:
  assumes "QUEUE_NEXT m q = Some x"
  obtains m' where "set_next q v m = Some m'" "QUEUE_NEXT m' = (QUEUE_NEXT m)(q \<mapsto> v)" "QUEUE_PREV m' = QUEUE_PREV m"
    "dom m' = dom m"
proof -
  from assms obtain n where n: "m q = Some n" by (auto simp: QUEUE_NEXT_def)
  let ?m = "m(q \<mapsto> n\<lparr>q_nxt := v\<rparr>)"
  have "QUEUE_NEXT ?m = (QUEUE_NEXT m)(q \<mapsto> v)" by (rule ext) simp
  moreover have "QUEUE_PREV ?m = QUEUE_PREV m" using n by (intro ext) (simp add: QUEUE_PREV_def)
  ultimately show ?thesis using that [of ?m] n by (simp add: set_next_def insert_absorb domI)
qed

lemma set_prev_Some:
  assumes "QUEUE_PREV m q = Some x"
  obtains m' where "set_prev q v m = Some m'" "QUEUE_PREV m' = (QUEUE_PREV m)(q \<mapsto> v)" "QUEUE_NEXT m' = QUEUE_NEXT m"
    "dom m' = dom m"
proof -
  from assms obtain n where n: "m q = Some n" by (auto simp: QUEUE_PREV_def)
  let ?m = "m(q \<mapsto> n\<lparr>q_prv := v\<rparr>)"
  have "QUEUE_PREV ?m = (QUEUE_PREV m)(q \<mapsto> v)" by (rule ext) simp
  moreover have "QUEUE_NEXT ?m = QUEUE_NEXT m" using n by (intro ext) (simp add: QUEUE_NEXT_def)
  ultimately show ?thesis using that [of ?m] n by (simp add: set_prev_def insert_absorb domI)
qed

text \<open>The ring cut open before its head: \<open>A @ [p]\<close> is the head with the list, \<open>p\<close> its last node.\<close>

lemma ring_last:
  assumes "ring m h xs"
  obtains A p where "h # xs = A @ [p]" "link m (A @ [p])" "QUEUE_NEXT m p = Some h" "QUEUE_PREV m h = Some p" "p \<in> set (h # xs)"
proof -
  define A p where "A = butlast (h # xs)" and "p = last (h # xs)"
  have A: "h # xs = A @ [p]" unfolding A_def p_def by (rule append_butlast_last_id [symmetric]) simp
  then have "h # xs @ [h] = A @ p # [h]" by simp
  then have "link m (A @ p # [h])" using assms by (metis ring_def)
  then have "link m (A @ [p])" "link m [p, h]" using link_append [of m A p "[h]"] by simp_all
  moreover have "p \<in> set (h # xs)" unfolding A by simp
  ultimately show ?thesis using that A by simp
qed

lemma ring_close:
  assumes "h # xs = A @ [p]" "link m (A @ [p])" "QUEUE_NEXT m p = Some h" "QUEUE_PREV m h = Some p" "distinct (h # xs)"
  shows "ring m h xs"
proof -
  have "h # xs @ [h] = A @ p # [h]" using assms(1) by (metis append_Cons append.assoc append_Nil)
  moreover have "link m (A @ p # [h])" using assms(2-4) link_append [of m A p "[h]"] by simp
  ultimately have "link m (h # xs @ [h])" by (simp only:)
  with assms(5) show ?thesis unfolding ring_def ..
qed

lemma ring_first:
  assumes "ring m h xs"
  obtains f R where "xs @ [h] = f # R" "link m (f # R)" "QUEUE_NEXT m h = Some f" "QUEUE_PREV m f = Some h"
  using assms that by (cases "xs @ [h]") (auto simp: ring_def)

lemma ring_node: "ring m h xs \<Longrightarrow> a \<in> set (h # xs) \<Longrightarrow> \<exists>n. m a = Some n"
proof -
  assume R: "ring m h xs" and a: "a \<in> set (h # xs)"
  then obtain B C where "h # xs = B @ a # C" by (meson split_list)
  then have "h # xs @ [h] = B @ a # (C @ [h])" by simp
  then have "link m (B @ a # (C @ [h]))" using R by (metis ring_def)
  then have "link m (a # (C @ [h]))" using link_append [of m B a "C @ [h]"] by simp
  then show ?thesis by (cases C) (auto simp: QUEUE_NEXT_def)
qed

lemma dom_links:
  assumes "q \<in> dom m"
  obtains x y where "QUEUE_NEXT m q = Some x" "QUEUE_PREV m q = Some y"
  using assms by (auto simp: QUEUE_NEXT_def QUEUE_PREV_def)

lemma ring_dom: "ring m h xs \<Longrightarrow> set (h # xs) \<subseteq> dom m"
  using ring_node by blast

text \<open>A ring is not touched by changes elsewhere.\<close>

lemma ring_frame:
  assumes "ring m h xs" "\<And>a. a \<in> set (h # xs) \<Longrightarrow> QUEUE_NEXT m' a = QUEUE_NEXT m a \<and> QUEUE_PREV m' a = QUEUE_PREV m a"
  shows "ring m' h xs"
proof -
  have "link m' (h # xs @ [h]) = link m (h # xs @ [h])"
    using assms(2) by (intro link_cong) (auto simp: butlast_append)
  then show ?thesis using assms(1) by (simp add: ring_def)
qed

lemma ring_disjoint:
  assumes "ring m h xs" "\<And>a. a \<notin> S \<Longrightarrow> QUEUE_NEXT m' a = QUEUE_NEXT m a \<and> QUEUE_PREV m' a = QUEUE_PREV m a"
    and "set (h # xs) \<inter> S = {}"
  shows "ring m' h xs"
  by (rule ring_frame [OF assms(1)]) (use assms(2,3) in blast)

section \<open>What the macros do\<close>

lemma queue_init:
  assumes "h \<in> dom m"
  obtains m' where "QUEUE_INIT h m = Some m'" "ring m' h []" "dom m' = dom m"
    "\<And>a. a \<noteq> h \<Longrightarrow> QUEUE_NEXT m' a = QUEUE_NEXT m a \<and> QUEUE_PREV m' a = QUEUE_PREV m a"
proof -
  obtain n where n: "m h = Some n" using assms by auto
  let ?m = "m(h \<mapsto> n\<lparr>q_nxt := h, q_prv := h\<rparr>)"
  have "QUEUE_INIT h m = Some ?m" using n by (simp add: QUEUE_INIT_def set_next_def set_prev_def)
  then show ?thesis using that [of ?m] n by (auto simp: ring_def)
qed

lemma queue_empty: "ring m h xs \<Longrightarrow> QUEUE_EMPTY m h = Some (xs = [])"
  by (cases xs) (auto simp: ring_def QUEUE_EMPTY_def)

lemma queue_head: "ring m h (x # xs) \<Longrightarrow> QUEUE_HEAD m h = Some x"
  by (simp add: ring_def QUEUE_HEAD_def)

lemma foreach_link: "link m (zs @ [h]) \<Longrightarrow> h \<notin> set zs \<Longrightarrow> foreach_loop m h (hd (zs @ [h])) = Some zs"
proof (induction zs)
  case (Cons a zs)
  have n: "QUEUE_NEXT m a = Some (hd (zs @ [h]))" "link m (zs @ [h])" using Cons.prems(1) by (cases zs; simp)+
  then show ?case using Cons.IH Cons.prems(2) foreach_loop.simps [of m h a] by simp
qed (simp add: foreach_loop.simps)

lemma queue_foreach: "ring m h xs \<Longrightarrow> QUEUE_FOREACH m h = Some xs"
  using foreach_link [of m xs h] by (cases xs) (auto simp: ring_def QUEUE_FOREACH_def)

lemma queue_insert_tail:
  assumes R: "ring m h xs" and q: "q \<notin> set (h # xs)" "q \<in> dom m"
  obtains m' where "QUEUE_INSERT_TAIL h q m = Some m'" "ring m' h (xs @ [q])" "dom m' = dom m"
    "\<And>a. a \<notin> set (q # h # xs) \<Longrightarrow> QUEUE_NEXT m' a = QUEUE_NEXT m a \<and> QUEUE_PREV m' a = QUEUE_PREV m a"
proof -
  obtain A p where A: "h # xs = A @ [p]" "link m (A @ [p])" "QUEUE_NEXT m p = Some h" "QUEUE_PREV m h = Some p" "p \<in> set (h # xs)"
    by (rule ring_last [OF R])
  obtain qx qy where qn: "QUEUE_NEXT m q = Some qx" "QUEUE_PREV m q = Some qy" by (rule dom_links [OF q(2)])
  have ne: "p \<noteq> q" "h \<noteq> q" using q(1) A(5) by auto
  obtain m1 where m1: "set_next q h m = Some m1" "QUEUE_NEXT m1 = (QUEUE_NEXT m)(q \<mapsto> h)" "QUEUE_PREV m1 = QUEUE_PREV m" "dom m1 = dom m"
    by (rule set_next_Some [OF qn(1)])
  obtain m2 where m2: "set_prev q p m1 = Some m2" "QUEUE_PREV m2 = (QUEUE_PREV m1)(q \<mapsto> p)" "QUEUE_NEXT m2 = QUEUE_NEXT m1" "dom m2 = dom m1"
    by (rule set_prev_Some [of m1 q]) (simp add: m1 qn)
  obtain m3 where m3: "set_next p q m2 = Some m3" "QUEUE_NEXT m3 = (QUEUE_NEXT m2)(p \<mapsto> q)" "QUEUE_PREV m3 = QUEUE_PREV m2" "dom m3 = dom m2"
    by (rule set_next_Some [of m2 p h]) (use ne A in \<open>simp add: m1 m2\<close>)
  obtain m4 where m4: "set_prev h q m3 = Some m4" "QUEUE_PREV m4 = (QUEUE_PREV m3)(h \<mapsto> q)" "QUEUE_NEXT m4 = QUEUE_NEXT m3" "dom m4 = dom m3"
    by (rule set_prev_Some [of m3 h p]) (use ne A in \<open>simp add: m1 m2 m3\<close>)
  have run: "QUEUE_INSERT_TAIL h q m = Some m4"
    using A(4) ne by (simp add: QUEUE_INSERT_TAIL_def set_prev_next_def m1 m2 m3 m4)
  have N: "QUEUE_NEXT m4 = (QUEUE_NEXT m)(q \<mapsto> h, p \<mapsto> q)" "QUEUE_PREV m4 = (QUEUE_PREV m)(q \<mapsto> p, h \<mapsto> q)"
    by (simp_all add: m1 m2 m3 m4)
  have d: "distinct (A @ [p])" "q \<notin> set (A @ [p])" using R q(1) unfolding A(1) [symmetric] by (simp_all add: ring_def)
  have tlA: "set (tl (A @ [p])) = set xs" using A(1) by (metis list.sel(3))
  have "link m4 (A @ [p]) = link m (A @ [p])"
  proof (rule link_cong)
    fix a assume "a \<in> set (butlast (A @ [p]))"
    then show "QUEUE_NEXT m4 a = QUEUE_NEXT m a" using d by (auto simp: N)
  next
    fix a assume "a \<in> set (tl (A @ [p]))"
    then show "QUEUE_PREV m4 a = QUEUE_PREV m a" using R q(1) tlA by (auto simp: N ring_def)
  qed
  moreover have "link m4 [p, q, h]" using ne by (simp add: N)
  ultimately have "link m4 (A @ p # [q, h])" using A(2) by (simp add: link_append [of m4 A p "[q, h]"])
  moreover have "h # (xs @ [q]) @ [h] = A @ p # [q, h]" using A(1) by (metis append.assoc append_Cons append_Nil)
  ultimately have "link m4 (h # (xs @ [q]) @ [h])" by (simp only:)
  moreover have "distinct (h # xs @ [q])" using R q(1) by (simp add: ring_def)
  ultimately have "ring m4 h (xs @ [q])" unfolding ring_def by blast
  moreover have "dom m4 = dom m" by (simp add: m1 m2 m3 m4)
  moreover have "QUEUE_NEXT m4 a = QUEUE_NEXT m a \<and> QUEUE_PREV m4 a = QUEUE_PREV m a"
    if "a \<notin> set (q # h # xs)" for a using that A(5) by (auto simp: N)
  ultimately show ?thesis by (rule that [OF run])
qed

lemma queue_insert_head:
  assumes R: "ring m h xs" and q: "q \<notin> set (h # xs)" "q \<in> dom m"
  obtains m' where "QUEUE_INSERT_HEAD h q m = Some m'" "ring m' h (q # xs)" "dom m' = dom m"
proof -
  obtain f F where F: "xs @ [h] = f # F" "link m (f # F)" "QUEUE_NEXT m h = Some f" "QUEUE_PREV m f = Some h"
    by (rule ring_first [OF R])
  obtain qx qy where qn: "QUEUE_NEXT m q = Some qx" "QUEUE_PREV m q = Some qy" by (rule dom_links [OF q(2)])
  have "f \<in> set (xs @ [h])" by (simp add: F(1))
  then have ne: "f \<noteq> q" "h \<noteq> q" using q(1) by auto
  obtain m1 where m1: "set_next q f m = Some m1" "QUEUE_NEXT m1 = (QUEUE_NEXT m)(q \<mapsto> f)" "QUEUE_PREV m1 = QUEUE_PREV m" "dom m1 = dom m"
    by (rule set_next_Some [OF qn(1)])
  obtain m2 where m2: "set_prev q h m1 = Some m2" "QUEUE_PREV m2 = (QUEUE_PREV m1)(q \<mapsto> h)" "QUEUE_NEXT m2 = QUEUE_NEXT m1" "dom m2 = dom m1"
    by (rule set_prev_Some [of m1 q]) (simp add: m1 qn)
  obtain m3 where m3: "set_prev f q m2 = Some m3" "QUEUE_PREV m3 = (QUEUE_PREV m2)(f \<mapsto> q)" "QUEUE_NEXT m3 = QUEUE_NEXT m2" "dom m3 = dom m2"
    by (rule set_prev_Some [of m2 f h]) (use ne F in \<open>simp add: m1 m2\<close>)
  obtain m4 where m4: "set_next h q m3 = Some m4" "QUEUE_NEXT m4 = (QUEUE_NEXT m3)(h \<mapsto> q)" "QUEUE_PREV m4 = QUEUE_PREV m3" "dom m4 = dom m3"
    by (rule set_next_Some [of m3 h f]) (use ne F in \<open>simp add: m1 m2 m3\<close>)
  have run: "QUEUE_INSERT_HEAD h q m = Some m4"
    using F(3) ne by (simp add: QUEUE_INSERT_HEAD_def set_next_prev_def m1 m2 m3 m4)
  have N: "QUEUE_NEXT m4 = (QUEUE_NEXT m)(q \<mapsto> f, h \<mapsto> q)" "QUEUE_PREV m4 = (QUEUE_PREV m)(q \<mapsto> h, f \<mapsto> q)"
    by (simp_all add: m1 m2 m3 m4)
  have d: "distinct (f # F)" "q \<notin> set (f # F)" using R q(1) unfolding F(1) [symmetric] by (auto simp: ring_def)
  have bl: "butlast (f # F) = xs" using F(1) by (metis butlast_snoc)
  have "link m4 (f # F) = link m (f # F)"
  proof (rule link_cong)
    fix a assume "a \<in> set (butlast (f # F))"
    then show "QUEUE_NEXT m4 a = QUEUE_NEXT m a" using R q(1) unfolding bl by (auto simp: N ring_def)
  next
    fix a assume "a \<in> set (tl (f # F))"
    then show "QUEUE_PREV m4 a = QUEUE_PREV m a" using d by (auto simp: N)
  qed
  then have "link m4 (h # q # f # F)" using F(2) ne by (simp add: N)
  then have "ring m4 h (q # xs)" using R q(1) F(1) by (auto simp: ring_def)
  then show ?thesis using that [OF run] by (simp add: m1 m2 m3 m4)
qed

lemma queue_remove:
  assumes R: "ring m h (xs @ q # ys)"
  obtains m' where "QUEUE_REMOVE q m = Some m'" "ring m' h (xs @ ys)" "dom m' = dom m"
    "\<And>a. a \<notin> set (h # xs @ ys) \<Longrightarrow> QUEUE_NEXT m' a = QUEUE_NEXT m a \<and> QUEUE_PREV m' a = QUEUE_PREV m a"
proof -
  define A p where "A = butlast (h # xs)" and "p = last (h # xs)"
  have A: "h # xs = A @ [p]" unfolding A_def p_def by (rule append_butlast_last_id [symmetric]) simp
  obtain n F where F: "ys @ [h] = n # F" by (cases "ys @ [h]") auto
  have "h # (xs @ q # ys) @ [h] = A @ p # q # n # F" using A F by (metis append.assoc append_Cons append_Nil)
  then have "link m (A @ p # q # n # F)" using R by (simp add: ring_def)
  then have L: "link m (A @ [p])" "QUEUE_NEXT m p = Some q" "QUEUE_PREV m q = Some p" "QUEUE_NEXT m q = Some n"
    "QUEUE_PREV m n = Some q" "link m (n # F)"
    using link_append [of m A p "q # n # F"] by simp_all
  have dist: "distinct (h # xs @ q # ys)" using R by (simp add: ring_def)
  have p: "p \<in> set (h # xs)" unfolding A by simp
  have nn: "n \<in> set (h # ys)" using F by (metis list.set_intros(1) rotate1.simps(2) set_rotate1)
  have ne: "p \<noteq> q" "n \<noteq> q" using p nn dist by auto
  obtain m1 where m1: "set_next p n m = Some m1" "QUEUE_NEXT m1 = (QUEUE_NEXT m)(p \<mapsto> n)" "QUEUE_PREV m1 = QUEUE_PREV m" "dom m1 = dom m"
    by (rule set_next_Some [OF L(2)])
  obtain m2 where m2: "set_prev n p m1 = Some m2" "QUEUE_PREV m2 = (QUEUE_PREV m1)(n \<mapsto> p)" "QUEUE_NEXT m2 = QUEUE_NEXT m1" "dom m2 = dom m1"
    by (rule set_prev_Some [of m1 n q]) (simp add: m1 L)
  have run: "QUEUE_REMOVE q m = Some m2"
    using L ne by (simp add: QUEUE_REMOVE_def set_prev_next_def set_next_prev_def m1 m2)
  have N: "QUEUE_NEXT m2 = (QUEUE_NEXT m)(p \<mapsto> n)" "QUEUE_PREV m2 = (QUEUE_PREV m)(n \<mapsto> p)" by (simp_all add: m1 m2)
  have dA: "distinct (A @ [p])" using dist unfolding A [symmetric] by simp
  have dF: "distinct (n # F)" using dist unfolding F [symmetric] by auto
  have tlA: "tl (A @ [p]) = xs" using A by (metis list.sel(3))
  have blF: "butlast (n # F) = ys" using F by (metis butlast_snoc)
  have "link m2 (A @ [p]) = link m (A @ [p])"
    by (rule link_cong; use dA nn dist in \<open>auto simp: N tlA\<close>)
  moreover have "link m2 (n # F) = link m (n # F)"
  proof (rule link_cong)
    fix a assume "a \<in> set (butlast (n # F))"
    then show "QUEUE_NEXT m2 a = QUEUE_NEXT m a" using p dist unfolding blF by (auto simp: N)
  next
    fix a assume "a \<in> set (tl (n # F))"
    then show "QUEUE_PREV m2 a = QUEUE_PREV m a" using dF by (auto simp: N)
  qed
  ultimately have "link m2 (A @ p # n # F)" using L link_append [of m2 A p "n # F"] by (simp add: N)
  moreover have "h # (xs @ ys) @ [h] = A @ p # n # F" using A F by (metis append.assoc append_Cons append_Nil)
  ultimately have "ring m2 h (xs @ ys)" using dist by (simp add: ring_def)
  moreover have "dom m2 = dom m" by (simp add: m1 m2)
  moreover have "QUEUE_NEXT m2 a = QUEUE_NEXT m a \<and> QUEUE_PREV m2 a = QUEUE_PREV m a"
    if "a \<notin> set (h # xs @ ys)" for a using that p nn by (auto simp: N)
  ultimately show ?thesis by (rule that [OF run])
qed

text \<open>The list of \<open>n\<close> is appended to that of \<open>h\<close>; \<open>n\<close> itself is not part of it.\<close>

lemma queue_add:
  assumes R: "ring m h xs" and S: "ring m n ys" and D: "set (h # xs) \<inter> set (n # ys) = {}"
  obtains m' where "QUEUE_ADD h n m = Some m'" "ring m' h (xs @ ys)" "dom m' = dom m"
proof -
  obtain A p where A: "h # xs = A @ [p]" "link m (A @ [p])" "QUEUE_NEXT m p = Some h" "QUEUE_PREV m h = Some p" "p \<in> set (h # xs)"
    by (rule ring_last [OF R])
  obtain B l where B: "n # ys = B @ [l]" "link m (B @ [l])" "QUEUE_NEXT m l = Some n" "QUEUE_PREV m n = Some l" "l \<in> set (n # ys)"
    by (rule ring_last [OF S])
  obtain f F where F: "ys @ [n] = f # F" "link m (f # F)" "QUEUE_NEXT m n = Some f" "QUEUE_PREV m f = Some n"
    by (rule ring_first [OF S])
  have f: "f \<in> set (n # ys)" using F(1) by (metis list.set_intros(1) rotate1.simps(2) set_rotate1)
  have ne: "p \<noteq> n" "p \<noteq> l" "h \<noteq> f" "h \<noteq> n" "h \<noteq> l" "p \<noteq> f" using A(5) B(5) f D by auto
  obtain m1 where m1: "set_next p f m = Some m1" "QUEUE_NEXT m1 = (QUEUE_NEXT m)(p \<mapsto> f)" "QUEUE_PREV m1 = QUEUE_PREV m" "dom m1 = dom m"
    by (rule set_next_Some [OF A(3)])
  obtain m2 where m2: "set_prev f p m1 = Some m2" "QUEUE_PREV m2 = (QUEUE_PREV m1)(f \<mapsto> p)" "QUEUE_NEXT m2 = QUEUE_NEXT m1" "dom m2 = dom m1"
    by (rule set_prev_Some [of m1 f n]) (simp add: m1 F)
  define z where "z = (if f = n then p else l)"
  obtain m3 where m3: "set_prev h z m2 = Some m3" "QUEUE_PREV m3 = (QUEUE_PREV m2)(h \<mapsto> z)" "QUEUE_NEXT m3 = QUEUE_NEXT m2" "dom m3 = dom m2"
    by (rule set_prev_Some [of m2 h p]) (use ne A in \<open>simp add: m1 m2\<close>)
  obtain m4 where m4: "set_next z h m3 = Some m4" "QUEUE_NEXT m4 = (QUEUE_NEXT m3)(z \<mapsto> h)" "QUEUE_PREV m4 = QUEUE_PREV m3" "dom m4 = dom m3"
    by (rule set_next_Some [of m3 z "if f = n then f else n"]) (use ne B in \<open>simp add: z_def m1 m2 m3\<close>)
  have run: "QUEUE_ADD h n m = Some m4"
  proof -
    have "QUEUE_PREV m1 h = Some p" "QUEUE_NEXT m1 n = Some f" "QUEUE_PREV m2 n = Some z" "QUEUE_PREV m3 h = Some z"
      using A(4) B(4) F(3) ne by (simp_all add: z_def m1 m2 m3)
    then show ?thesis
      using A(4) F(3) by (simp add: QUEUE_ADD_def set_prev_next_def set_next_prev_def m1(1) m2(1) m3(1) m4(1))
  qed
  have N: "QUEUE_NEXT m4 = (QUEUE_NEXT m)(p \<mapsto> f, z \<mapsto> h)" "QUEUE_PREV m4 = (QUEUE_PREV m)(f \<mapsto> p, h \<mapsto> z)"
    by (simp_all add: m1 m2 m3 m4)
  have dist: "distinct (h # xs @ ys)" using R S D by (auto simp: ring_def)
  have dA: "distinct (A @ [p])" using dist unfolding A(1) [symmetric] by simp
  have tlA: "tl (A @ [p]) = xs" using A(1) by (metis list.sel(3))
  have lA: "link m4 (A @ [p])"
  proof -
    have sub: "set A \<subseteq> set (h # xs)" by (simp only: A(1)) auto
    have zA: "z \<notin> set A" using sub dA B(5) D by (auto simp: z_def)
    have "link m4 (A @ [p]) = link m (A @ [p])"
    proof (rule link_cong)
      fix a assume "a \<in> set (butlast (A @ [p]))"
      then show "QUEUE_NEXT m4 a = QUEUE_NEXT m a" using dA zA by (auto simp: N)
    next
      fix a assume "a \<in> set (tl (A @ [p]))"
      then have "a \<in> set xs" by (simp only: tlA)
      then show "QUEUE_PREV m4 a = QUEUE_PREV m a" using f D dist by (auto simp: N)
    qed
    then show ?thesis using A(2) by simp
  qed
  show ?thesis
  proof (cases ys)
    case Nil
    then have "f = n" "z = p" using F(1) by (simp_all add: z_def)
    then have "link m4 (A @ p # [h])" using lA link_append [of m4 A p "[h]"] by (simp add: N)
    then have "ring m4 h (xs @ ys)" using Nil A(1) dist unfolding ring_def by (metis append_Cons append_Nil append_Nil2 append.assoc)
    then show ?thesis using that [OF run] by (simp add: m1 m2 m3 m4)
  next
    case (Cons y ys')
    then have y: "f = y" "f \<noteq> n" "z = l" using F(1) S by (auto simp: z_def ring_def)
    obtain C where C: "ys = C @ [l]" using B(1) Cons by (metis append_butlast_last_id last_ConsR last_snoc list.distinct(1))
    have dy: "distinct (C @ [l])" using dist unfolding C [symmetric] by simp
    have "link m ys" using B(1,2) Cons by (metis link.simps(1))
    moreover have "link m4 ys = link m ys"
    proof (rule link_cong)
      fix a assume "a \<in> set (butlast ys)"
      then show "QUEUE_NEXT m4 a = QUEUE_NEXT m a" using dy C D A(5) y(3) by (auto simp: N)
    next
      fix a assume "a \<in> set (tl ys)"
      then show "QUEUE_PREV m4 a = QUEUE_PREV m a" using Cons y(1) dist by (auto simp: N)
    qed
    ultimately have "link m4 (p # ys)" using Cons y ne by (simp add: N)
    moreover have "link m4 [l, h]" using y by (simp add: N)
    ultimately have "link m4 (p # C @ l # [h])" using link_append [of m4 "p # C" l "[h]"] C by simp
    then have "link m4 (A @ p # ys @ [h])" using lA link_append [of m4 A p "ys @ [h]"] C by simp
    moreover have "h # (xs @ ys) @ [h] = A @ p # ys @ [h]" using A(1) by (metis append.assoc append_Cons append_Nil)
    ultimately have "ring m4 h (xs @ ys)" using dist unfolding ring_def by (simp only: simp_thms)
    then show ?thesis using that [OF run] by (simp add: m1 m2 m3 m4)
  qed
qed

text \<open>The list of \<open>h\<close> is cut before \<open>q\<close>; the second part becomes the list of \<open>n\<close>, which held none.\<close>

lemma queue_split:
  assumes R: "ring m h (xs @ q # ys)" and n: "n \<notin> set (h # xs @ q # ys)" "n \<in> dom m"
  obtains m' where "QUEUE_SPLIT h q n m = Some m'" "ring m' h xs" "ring m' n (q # ys)" "dom m' = dom m"
proof -
  define A p where "A = butlast (h # xs)" and "p = last (h # xs)"
  define C l where "C = butlast (q # ys)" and "l = last (q # ys)"
  have A: "h # xs = A @ [p]" unfolding A_def p_def by (rule append_butlast_last_id [symmetric]) simp
  have C: "q # ys = C @ [l]" unfolding C_def l_def by (rule append_butlast_last_id [symmetric]) simp
  have dist: "distinct (h # xs @ q # ys)" using R by (simp add: ring_def)
  have sets: "set (h # xs) = set (A @ [p])" "set (q # ys) = set (C @ [l])" by (simp_all only: A C)
  have p: "p \<in> set (h # xs)" and l: "l \<in> set (q # ys)" by (simp_all only: sets) simp_all
  have "h # (xs @ q # ys) @ [h] = A @ p # q # ys @ [h]" using A by (metis append.assoc append_Cons append_Nil)
  then have "link m (A @ p # q # ys @ [h])" using R by (metis ring_def)
  then have L: "link m (A @ [p])" "QUEUE_NEXT m p = Some q" "QUEUE_PREV m q = Some p" "link m (C @ l # [h])"
    using link_append [of m A p "q # ys @ [h]"] C by (simp_all, metis append_Cons append.assoc append_Nil)
  then have M: "link m (C @ [l])" "QUEUE_NEXT m l = Some h" "QUEUE_PREV m h = Some l"
    using link_append [of m C l "[h]"] by simp_all
  have ne: "p \<noteq> l" "h \<noteq> q" "n \<noteq> p" "n \<noteq> l" "n \<noteq> q" "n \<noteq> h" using p l dist n(1) by auto
  obtain x y where xy: "QUEUE_NEXT m n = Some x" "QUEUE_PREV m n = Some y" by (rule dom_links [OF n(2)])
  obtain m1 where m1: "set_prev n l m = Some m1" "QUEUE_PREV m1 = (QUEUE_PREV m)(n \<mapsto> l)" "QUEUE_NEXT m1 = QUEUE_NEXT m" "dom m1 = dom m"
    by (rule set_prev_Some [OF xy(2)])
  obtain m2 where m2: "set_next l n m1 = Some m2" "QUEUE_NEXT m2 = (QUEUE_NEXT m1)(l \<mapsto> n)" "QUEUE_PREV m2 = QUEUE_PREV m1" "dom m2 = dom m1"
    by (rule set_next_Some [of m1 l h]) (simp add: m1 M)
  obtain m3 where m3: "set_next n q m2 = Some m3" "QUEUE_NEXT m3 = (QUEUE_NEXT m2)(n \<mapsto> q)" "QUEUE_PREV m3 = QUEUE_PREV m2" "dom m3 = dom m2"
    by (rule set_next_Some [of m2 n x]) (use ne xy in \<open>simp add: m1 m2\<close>)
  obtain m4 where m4: "set_prev h p m3 = Some m4" "QUEUE_PREV m4 = (QUEUE_PREV m3)(h \<mapsto> p)" "QUEUE_NEXT m4 = QUEUE_NEXT m3" "dom m4 = dom m3"
    by (rule set_prev_Some [of m3 h l]) (use ne M in \<open>simp add: m1 m2 m3\<close>)
  obtain m5 where m5: "set_next p h m4 = Some m5" "QUEUE_NEXT m5 = (QUEUE_NEXT m4)(p \<mapsto> h)" "QUEUE_PREV m5 = QUEUE_PREV m4" "dom m5 = dom m4"
    by (rule set_next_Some [of m4 p q]) (use ne L in \<open>simp add: m1 m2 m3 m4\<close>)
  obtain m6 where m6: "set_prev q n m5 = Some m6" "QUEUE_PREV m6 = (QUEUE_PREV m5)(q \<mapsto> n)" "QUEUE_NEXT m6 = QUEUE_NEXT m5" "dom m6 = dom m5"
    by (rule set_prev_Some [of m5 q p]) (use ne L in \<open>simp add: m1 m2 m3 m4 m5\<close>)
  have run: "QUEUE_SPLIT h q n m = Some m6"
  proof -
    have "QUEUE_PREV m1 n = Some l" "QUEUE_PREV m3 q = Some p" "QUEUE_PREV m4 h = Some p"
      using ne L by (simp_all add: m1 m2 m3 m4)
    then show ?thesis
      using M(3) by (simp add: QUEUE_SPLIT_def set_prev_next_def m1(1) m2(1) m3(1) m4(1) m5(1) m6(1))
  qed
  have N: "QUEUE_NEXT m6 = (QUEUE_NEXT m)(l \<mapsto> n, n \<mapsto> q, p \<mapsto> h)" "QUEUE_PREV m6 = (QUEUE_PREV m)(n \<mapsto> l, h \<mapsto> p, q \<mapsto> n)"
    by (simp_all add: m1 m2 m3 m4 m5 m6)
  have tls: "tl (A @ [p]) = xs" "tl (C @ [l]) = ys" using A C by (metis list.sel(3))+
  have dA: "distinct (A @ [p])" "distinct (C @ [l])" using dist unfolding A [symmetric] C [symmetric] by auto
  have sub: "set A \<subseteq> set (h # xs)" "set C \<subseteq> set (q # ys)" by (simp_all only: sets) auto
  have "link m6 (A @ [p]) = link m (A @ [p])"
    by (rule link_cong; use dA sub(1) l dist n(1) in \<open>auto simp: N tls\<close>)
  then have "ring m6 h xs" using L(1) ne dist by (intro ring_close [OF A]) (simp_all add: N)
  moreover have "link m6 (C @ [l]) = link m (C @ [l])"
    by (rule link_cong; use dA sub(2) p dist n(1) in \<open>auto simp: N tls\<close>)
  then have "link m6 (q # ys)" using M(1) C by simp
  then have "link m6 ((n # C) @ [l])" using ne by (simp add: N flip: C)
  then have "ring m6 n (q # ys)" using ne dist n(1) C by (intro ring_close [of _ _ "n # C" l]) (simp_all add: N)
  ultimately show ?thesis using that [OF run] by (simp add: m1 m2 m3 m4 m5 m6)
qed

lemma queue_move:
  assumes R: "ring m h xs" and n: "n \<notin> set (h # xs)" "n \<in> dom m"
  obtains m' where "QUEUE_MOVE h n m = Some m'" "ring m' h []" "ring m' n xs" "dom m' = dom m"
proof (cases xs)
  case Nil
  obtain m' where m': "QUEUE_INIT n m = Some m'" "ring m' n []" "dom m' = dom m"
    "\<And>a. a \<noteq> n \<Longrightarrow> QUEUE_NEXT m' a = QUEUE_NEXT m a \<and> QUEUE_PREV m' a = QUEUE_PREV m a"
    using queue_init [OF n(2)] by blast
  have "ring m' h []" using ring_frame [OF R, of m'] n(1) Nil m'(4) by simp
  then show ?thesis using that [of m'] m' Nil queue_empty [OF R] by (simp add: QUEUE_MOVE_def)
next
  case (Cons q ys)
  then have R': "ring m h ([] @ q # ys)" and n': "n \<notin> set (h # [] @ q # ys)" using R n(1) by simp_all
  obtain m' where "QUEUE_SPLIT h q n m = Some m'" "ring m' h []" "ring m' n (q # ys)" "dom m' = dom m"
    by (rule queue_split [OF R' n' n(2)])
  then show ?thesis using that [of m'] Cons queue_empty [OF R] queue_head [of m h q ys] R
    by (simp add: QUEUE_MOVE_def)
qed

section \<open>The interface\<close>

text \<open>A list of nodes kept in a memory \<open>'m\<close>: nodes with room for links are appended, removed and, once out of the
  list, freed.\<close>

locale ring_list =
  fixes is_list :: "'m \<Rightarrow> 'a list \<Rightarrow> bool" and nodes :: "'m \<Rightarrow> 'a set"
    and ins :: "'a \<Rightarrow> 'm \<Rightarrow> 'm option" and del :: "'a \<Rightarrow> 'm \<Rightarrow> 'm option" and free :: "'a \<Rightarrow> 'm \<Rightarrow> 'm"
  assumes ins_ok: "is_list m xs \<Longrightarrow> q \<in> nodes m \<Longrightarrow> q \<notin> set xs \<Longrightarrow>
      \<exists>m'. ins q m = Some m' \<and> is_list m' (xs @ [q]) \<and> nodes m' = nodes m"
    and del_ok: "is_list m xs \<Longrightarrow> q \<in> set xs \<Longrightarrow>
      \<exists>m'. del q m = Some m' \<and> is_list m' (remove1 q xs) \<and> nodes m' = nodes m"
    and free_ok: "is_list m xs \<Longrightarrow> q \<in> nodes m \<Longrightarrow> q \<notin> set xs \<Longrightarrow> is_list (free q m) xs"
    and free_nodes: "nodes (free q m) = nodes m - {q}"
    and distinct: "is_list m xs \<Longrightarrow> distinct xs"
    and members: "is_list m xs \<Longrightarrow> set xs \<subseteq> nodes m"
begin

fun del_free :: "'a list \<Rightarrow> 'm \<Rightarrow> 'm option" where
  "del_free [] m = Some m"
| "del_free (q # qs) m = Option.bind (del q m) (\<lambda>m. del_free qs (free q m))"

text \<open>Members can be taken out and freed one after the other, in any order.\<close>

lemma del_then_free:
  assumes "is_list m xs" "q \<in> set xs"
  shows "\<exists>m'. del q m = Some m' \<and> is_list (free q m') (remove1 q xs) \<and> nodes (free q m') = nodes m - {q}"
proof -
  obtain m' where m': "del q m = Some m'" "is_list m' (remove1 q xs)" "nodes m' = nodes m"
    using del_ok [OF assms] by blast
  have "q \<in> nodes m'" "q \<notin> set (remove1 q xs)"
    using m'(3) members [OF assms(1)] assms(2) distinct [OF assms(1)] by auto
  then show ?thesis using m' free_ok free_nodes by auto
qed

lemma del_free_all:
  assumes "is_list m xs" "distinct qs" "set qs \<subseteq> set xs"
  shows "\<exists>m'. del_free qs m = Some m' \<and> is_list m' (filter (\<lambda>x. x \<notin> set qs) xs) \<and> nodes m' = nodes m - set qs"
  using assms
proof (induction qs arbitrary: m xs)
  case (Cons q qs)
  obtain m1 where m1: "del q m = Some m1" "is_list (free q m1) (remove1 q xs)" "nodes (free q m1) = nodes m - {q}"
    using del_then_free [OF Cons.prems(1), of q] Cons.prems(3) by auto
  have r: "remove1 q xs = filter (\<lambda>x. x \<noteq> q) xs" using distinct_remove1_removeAll [OF distinct [OF Cons.prems(1)], of q]
    by (auto simp: removeAll_filter_not_eq intro: filter_cong)
  have "set qs \<subseteq> set (remove1 q xs)" using Cons.prems(2,3) by (auto simp: r)
  from Cons.IH [OF m1(2) _ this] Cons.prems(2) obtain m' where
    "del_free qs (free q m1) = Some m'" "is_list m' (filter (\<lambda>x. x \<notin> set qs) (remove1 q xs))"
    "nodes m' = nodes m - {q} - set qs" using m1(3) by auto
  then show ?case using m1(1) by (auto simp: r conj_commute Diff_insert2 [symmetric])
qed simp

end

lemma queue_insert_tail_ok:
  "ring m h xs \<Longrightarrow> q \<in> dom m - {h} \<Longrightarrow> q \<notin> set xs \<Longrightarrow>
   \<exists>m'. QUEUE_INSERT_TAIL h q m = Some m' \<and> ring m' h (xs @ [q]) \<and> dom m' - {h} = dom m - {h}"
  by (rule queue_insert_tail [of m h xs q]) auto

lemma queue_remove_ok:
  assumes "ring m h xs" "q \<in> set xs"
  shows "\<exists>m'. QUEUE_REMOVE q m = Some m' \<and> ring m' h (remove1 q xs) \<and> dom m' - {h} = dom m - {h}"
proof -
  obtain ys zs where ys: "xs = ys @ q # zs" using assms(2) by (meson split_list)
  then have "q \<notin> set ys" using assms(1) by (auto simp: ring_def)
  then have "remove1 q xs = ys @ zs" using ys by (simp add: remove1_append)
  then show ?thesis using queue_remove [of m h ys q zs] assms(1) ys by metis
qed

lemma ring_free: "ring m h xs \<Longrightarrow> q \<noteq> h \<Longrightarrow> q \<notin> set xs \<Longrightarrow> ring (m(q := None)) h xs"
  by (rule ring_frame [of m]) (auto simp: QUEUE_NEXT_def QUEUE_PREV_def)

interpretation uvq: ring_list "\<lambda>m. ring m h" "\<lambda>m. dom m - {h}" "QUEUE_INSERT_TAIL h" QUEUE_REMOVE "\<lambda>q m. m(q := None)" for h
proof unfold_locales
  fix m :: qmem and xs q assume "ring m h xs" "q \<in> dom m - {h}" "q \<notin> set xs"
  then show "\<exists>m'. QUEUE_INSERT_TAIL h q m = Some m' \<and> ring m' h (xs @ [q]) \<and> dom m' - {h} = dom m - {h}"
    by (rule queue_insert_tail_ok)
next
  fix m :: qmem and xs assume "ring m h xs"
  then show "set xs \<subseteq> dom m - {h}" using ring_dom [of m h xs] by (auto simp: ring_def)
next
  fix m :: qmem and xs assume "ring m h xs"
  then show "distinct xs" by (simp add: ring_def)
qed (auto simp: queue_remove_ok ring_free)

end
