(* ===== verification/Uv_Timer.thy ===== *)
theory Uv_Timer
  imports Uv_Heap Uv_Queue "HOL-Library.Product_Lexorder"
begin

text \<open>
  The timers of libuv's event loop, \<^verbatim>\<open>src/third/libuv/src/unix/timer.c\<close>, with which the communication core
  bounds its requests and connection attempts, and the handle macros of \<^verbatim>\<open>uv-common.h\<close> they use. The
  timers stand in the heap of \<open>Uv_Heap\<close>, compared by due time and, for equal times, by the
  order in which they were started; all that is used of the heap is its interface \<open>priority_queue\<close>.

  The heap node and the links of the handle queue are embedded in the timer, so a timer and its nodes share an address.
  One loop is modelled, which is the \<^verbatim>\<open>loop\<close> of every handle. What a callback does is a parameter of \<open>uv_run_timers\<close>.
  On Unix \<^verbatim>\<open>UV__HANDLE_CLOSING\<close> is 0, so the two assertions of the handle macros always hold.
\<close>

unbundle bit_operations_syntax

section \<open>The state\<close>

record 'cb uv_timer =
  t_cb :: "'cb option"
  t_timeout :: u64
  t_repeat :: u64
  t_start_id :: u64
  t_flags :: u32
  t_close_cb :: "'cb option"
  t_next_closing :: "addr option"

record ('cb, 'u) uv_loop =
  l_time :: u64
  l_timer_counter :: u64
  l_heap :: heap_st
  l_timers :: "addr \<Rightarrow> 'cb uv_timer option"
  l_active_handles :: u32
  l_handle_queue :: qmem
  l_closing_handles :: "addr option"
  l_user :: 'u

text \<open>The address of \<^verbatim>\<open>loop->handle_queue\<close>, the head of the list of all handles of the loop.\<close>

definition HANDLE_QUEUE :: addr where "HANDLE_QUEUE = 0"

definition UV_HANDLE_ACTIVE :: u32 where "UV_HANDLE_ACTIVE = 0x4000"
definition UV_HANDLE_REF :: u32 where "UV_HANDLE_REF = 0x2000"
definition EINVAL :: int where "EINVAL = 22"

definition uv_is_active :: "'cb uv_timer \<Rightarrow> bool" where
  "uv_is_active t \<longleftrightarrow> t_flags t AND UV_HANDLE_ACTIVE \<noteq> 0"

definition uv_has_ref :: "'cb uv_timer \<Rightarrow> bool" where
  "uv_has_ref t \<longleftrightarrow> t_flags t AND UV_HANDLE_REF \<noteq> 0"

definition set_timer :: "addr \<Rightarrow> 'cb uv_timer \<Rightarrow> ('cb, 'u) uv_loop \<Rightarrow> ('cb, 'u) uv_loop" where
  "set_timer h t L = L\<lparr>l_timers := (l_timers L)(h \<mapsto> t)\<rparr>"

section \<open>The operations\<close>

definition uv_handle_start :: "('cb, 'u) uv_loop \<Rightarrow> addr \<Rightarrow> ('cb, 'u) uv_loop option" where
  "uv_handle_start L h = do {
     t \<leftarrow> l_timers L h;
     if uv_is_active t then Some L
     else Some (let L = set_timer h (t\<lparr>t_flags := t_flags t OR UV_HANDLE_ACTIVE\<rparr>) L
                in if uv_has_ref t then L\<lparr>l_active_handles := l_active_handles L + 1\<rparr> else L)
   }"

definition uv_handle_stop :: "('cb, 'u) uv_loop \<Rightarrow> addr \<Rightarrow> ('cb, 'u) uv_loop option" where
  "uv_handle_stop L h = do {
     t \<leftarrow> l_timers L h;
     if \<not> uv_is_active t then Some L
     else Some (let L = set_timer h (t\<lparr>t_flags := t_flags t AND NOT UV_HANDLE_ACTIVE\<rparr>) L
                in if uv_has_ref t then L\<lparr>l_active_handles := l_active_handles L - 1\<rparr> else L)
   }"

text \<open>The two fields of a timer the heap compares; every node of the heap is the node of a timer.\<close>

definition timer_key :: "(addr \<Rightarrow> 'cb uv_timer option) \<Rightarrow> addr \<Rightarrow> u64 \<times> u64" where
  "timer_key ts a = (case ts a of Some t \<Rightarrow> (t_timeout t, t_start_id t) | None \<Rightarrow> (0, 0))"

definition timer_less_than :: "(addr \<Rightarrow> 'cb uv_timer option) \<Rightarrow> addr \<Rightarrow> addr \<Rightarrow> bool" where
  "timer_less_than ts ha hb =
     (let (a_timeout, a_start_id) = timer_key ts ha; (b_timeout, b_start_id) = timer_key ts hb
      in if a_timeout < b_timeout then True
         else if b_timeout < a_timeout then False
         else if a_start_id < b_start_id then True
         else if b_start_id < a_start_id then False
         else False)"

definition uv_timer_init :: "('cb, 'u) uv_loop \<Rightarrow> addr \<Rightarrow> (int \<times> ('cb, 'u) uv_loop) option" where
  "uv_timer_init L h = do {
     t \<leftarrow> l_timers L h;
     q \<leftarrow> QUEUE_INSERT_TAIL HANDLE_QUEUE h (l_handle_queue L);
     Some (0, set_timer h (t\<lparr>t_flags := UV_HANDLE_REF, t_next_closing := None, t_cb := None, t_repeat := 0\<rparr>)
                (L\<lparr>l_handle_queue := q\<rparr>))
   }"

definition uv_timer_stop :: "('cb, 'u) uv_loop \<Rightarrow> addr \<Rightarrow> (int \<times> ('cb, 'u) uv_loop) option" where
  "uv_timer_stop L h = do {
     t \<leftarrow> l_timers L h;
     if \<not> uv_is_active t then Some (0, L)
     else do {
       hp \<leftarrow> heap_remove (timer_less_than (l_timers L)) (l_heap L) (Some h);
       L \<leftarrow> uv_handle_stop (L\<lparr>l_heap := hp\<rparr>) h;
       Some (0, L)
     }
   }"

definition clamped :: "u64 \<Rightarrow> u64 \<Rightarrow> u64" where
  "clamped time timeout = (if time + timeout < timeout then - 1 else time + timeout)"

definition uv_timer_start ::
  "('cb, 'u) uv_loop \<Rightarrow> addr \<Rightarrow> 'cb option \<Rightarrow> u64 \<Rightarrow> u64 \<Rightarrow> (int \<times> ('cb, 'u) uv_loop) option" where
  "uv_timer_start L h cb timeout repeat =
     (if cb = None then Some (- EINVAL, L)
      else do {
        t \<leftarrow> l_timers L h;
        (r, L) \<leftarrow> (if uv_is_active t then uv_timer_stop L h else Some (0, L));
        t \<leftarrow> l_timers L h;
        let L = set_timer h (t\<lparr>t_cb := cb, t_timeout := clamped (l_time L) timeout, t_repeat := repeat,
                               t_start_id := l_timer_counter L\<rparr>) L;
        let L = L\<lparr>l_timer_counter := l_timer_counter L + 1\<rparr>;
        hp \<leftarrow> heap_insert (timer_less_than (l_timers L)) (l_heap L) h;
        L \<leftarrow> uv_handle_start (L\<lparr>l_heap := hp\<rparr>) h;
        Some (0, L)
      })"

definition uv_timer_again :: "('cb, 'u) uv_loop \<Rightarrow> addr \<Rightarrow> (int \<times> ('cb, 'u) uv_loop) option" where
  "uv_timer_again L h = do {
     t \<leftarrow> l_timers L h;
     if t_cb t = None then Some (- EINVAL, L)
     else if t_repeat t \<noteq> 0 then do {
       (r, L) \<leftarrow> uv_timer_stop L h;
       t \<leftarrow> l_timers L h;
       (r, L) \<leftarrow> uv_timer_start L h (t_cb t) (t_repeat t) (t_repeat t);
       Some (0, L)
     }
     else Some (0, L)
   }"

definition uv_timer_set_repeat :: "('cb, 'u) uv_loop \<Rightarrow> addr \<Rightarrow> u64 \<Rightarrow> ('cb, 'u) uv_loop option" where
  "uv_timer_set_repeat L h repeat =
     map_option (\<lambda>t. set_timer h (t\<lparr>t_repeat := repeat\<rparr>) L) (l_timers L h)"

definition uv_timer_get_repeat :: "('cb, 'u) uv_loop \<Rightarrow> addr \<Rightarrow> u64 option" where
  "uv_timer_get_repeat L h = map_option t_repeat (l_timers L h)"

definition uv_next_timeout :: "('cb, 'u) uv_loop \<Rightarrow> int option" where
  "uv_next_timeout L = (case heap_min (l_heap L) of
     None \<Rightarrow> Some (- 1)
   | Some h \<Rightarrow> do {
       t \<leftarrow> l_timers L h;
       if t_timeout t \<le> l_time L then Some 0
       else let diff = t_timeout t - l_time L
            in Some (if 2147483647 < diff then 2147483647 else uint diff)
     })"

partial_function (option) uv_run_timers ::
  "('cb \<Rightarrow> addr \<Rightarrow> ('cb, 'u) uv_loop \<Rightarrow> ('cb, 'u) uv_loop option) \<Rightarrow> ('cb, 'u) uv_loop \<Rightarrow>
   ('cb, 'u) uv_loop option" where
  [code]: "uv_run_timers call L = (case heap_min (l_heap L) of
     None \<Rightarrow> Some L
   | Some h \<Rightarrow> Option.bind (l_timers L h) (\<lambda>t.
       if l_time L < t_timeout t then Some L
       else Option.bind (uv_timer_stop L h) (\<lambda>(_, L).
            Option.bind (uv_timer_again L h) (\<lambda>(_, L).
            Option.bind (l_timers L h) (\<lambda>t.
            Option.bind (t_cb t) (\<lambda>cb.
            Option.bind (call cb h L) (uv_run_timers call)))))))"

definition uv_timer_close :: "('cb, 'u) uv_loop \<Rightarrow> addr \<Rightarrow> ('cb, 'u) uv_loop option" where
  "uv_timer_close L h = map_option snd (uv_timer_stop L h)"

section \<open>The invariant\<close>

definition active_set :: "(addr \<Rightarrow> 'cb uv_timer option) \<Rightarrow> addr set" where
  "active_set ts = {a. \<exists>t. ts a = Some t \<and> uv_is_active t}"

text \<open>The heap holds exactly the active timers, in the order of due time and start; their start
  ids are distinct and below the counter, and each has a callback.\<close>

definition timer_inv :: "('cb, 'u) uv_loop \<Rightarrow> bool" where
  "timer_inv L \<longleftrightarrow>
     dom (l_timers L) = heap_nodes (l_heap L) \<and>
     is_heap (timer_key (l_timers L)) (l_heap L) (active_set (l_timers L)) \<and>
     inj_on (\<lambda>a. snd (timer_key (l_timers L) a)) (active_set (l_timers L)) \<and>
     (\<forall>a t. l_timers L a = Some t \<and> uv_is_active t \<longrightarrow>
        unat (t_start_id t) < unat (l_timer_counter L) \<and> t_cb t \<noteq> None)"

definition turn_on :: "'cb uv_timer \<Rightarrow> 'cb uv_timer" where
  "turn_on t = t\<lparr>t_flags := t_flags t OR UV_HANDLE_ACTIVE\<rparr>"

definition turn_off :: "'cb uv_timer \<Rightarrow> 'cb uv_timer" where
  "turn_off t = t\<lparr>t_flags := t_flags t AND NOT UV_HANDLE_ACTIVE\<rparr>"

lemma turn_active [simp]: "uv_is_active (turn_on t)" "\<not> uv_is_active (turn_off t)"
proof -
  have "(t_flags t OR UV_HANDLE_ACTIVE) AND UV_HANDLE_ACTIVE = UV_HANDLE_ACTIVE"
    by (simp add: or.commute and.commute)
  then show "uv_is_active (turn_on t)" by (simp add: uv_is_active_def turn_on_def UV_HANDLE_ACTIVE_def)
  have "(t_flags t AND NOT UV_HANDLE_ACTIVE) AND UV_HANDLE_ACTIVE = 0"
    by (simp add: and.assoc)
  then show "\<not> uv_is_active (turn_off t)" by (simp add: uv_is_active_def turn_off_def)
qed

lemma turn_sel [simp]:
  "t_cb (turn_on t) = t_cb t" "t_timeout (turn_on t) = t_timeout t" "t_repeat (turn_on t) = t_repeat t"
  "t_start_id (turn_on t) = t_start_id t" "t_cb (turn_off t) = t_cb t" "t_timeout (turn_off t) = t_timeout t"
  "t_repeat (turn_off t) = t_repeat t" "t_start_id (turn_off t) = t_start_id t"
  by (simp_all add: turn_on_def turn_off_def)

lemma timer_less_than_key: "timer_less_than ts = (\<lambda>a b. timer_key ts a < timer_key ts b)"
  by (intro ext) (auto simp: timer_less_than_def less_prod_def' split: prod.splits)

lemma timer_key_upd: "timer_key (ts(h \<mapsto> t)) a = (if a = h then (t_timeout t, t_start_id t) else timer_key ts a)"
  by (simp add: timer_key_def)

lemma active_set_on [simp]: "uv_is_active t \<Longrightarrow> active_set (ts(h \<mapsto> t)) = insert h (active_set ts)"
  by (auto simp: active_set_def)

lemma active_set_off [simp]: "\<not> uv_is_active t \<Longrightarrow> active_set (ts(h \<mapsto> t)) = active_set ts - {h}"
  by (auto simp: active_set_def)

lemma timer_invD:
  assumes "timer_inv L"
  shows "dom (l_timers L) = heap_nodes (l_heap L)"
    "is_heap (timer_key (l_timers L)) (l_heap L) (active_set (l_timers L))"
    "inj_on (\<lambda>a. snd (timer_key (l_timers L) a)) (active_set (l_timers L))"
    "l_timers L a = Some t \<Longrightarrow> uv_is_active t \<Longrightarrow> unat (t_start_id t) < unat (l_timer_counter L)"
    "l_timers L a = Some t \<Longrightarrow> uv_is_active t \<Longrightarrow> t_cb t \<noteq> None"
  using assms by (simp_all add: timer_inv_def)

text \<open>Stopping an active timer.\<close>

definition timer_stopped :: "('cb, 'u) uv_loop \<Rightarrow> addr \<Rightarrow> 'cb uv_timer \<Rightarrow> heap_st \<Rightarrow> ('cb, 'u) uv_loop" where
  "timer_stopped L h t hp = L\<lparr>l_heap := hp, l_timers := (l_timers L)(h \<mapsto> turn_off t),
     l_active_handles := l_active_handles L - (if uv_has_ref t then 1 else 0)\<rparr>"

lemma stop_ok:
  assumes I: "timer_inv L" and t: "l_timers L h = Some t" "uv_is_active t"
  obtains hp where "uv_timer_stop L h = Some (0, timer_stopped L h t hp)" "timer_inv (timer_stopped L h t hp)"
proof -
  let ?ts = "l_timers L" and ?A = "active_set (l_timers L)"
  have h: "h \<in> ?A" using t by (auto simp: active_set_def)
  have K: "timer_key (?ts(h \<mapsto> turn_off t)) = timer_key ?ts"
    using t(1) by (auto simp: timer_key_upd timer_key_def)
  from uvh.del_rekey [OF timer_invD(2) [OF I] h, of "timer_key ?ts"]
  obtain hp where hp: "heap_remove (timer_less_than ?ts) (l_heap L) (Some h) = Some hp"
    "is_heap (timer_key ?ts) hp (?A - {h})" "heap_nodes hp = heap_nodes (l_heap L)"
    by (auto simp: timer_less_than_key)
  have "uv_timer_stop L h = Some (0, timer_stopped L h t hp)"
    using t hp(1) by (simp add: uv_timer_stop_def uv_handle_stop_def set_timer_def timer_stopped_def turn_off_def Let_def)
  moreover have "timer_inv (timer_stopped L h t hp)"
    unfolding timer_inv_def
  proof (intro conjI)
    show "inj_on (\<lambda>a. snd (timer_key (l_timers (timer_stopped L h t hp)) a)) (active_set (l_timers (timer_stopped L h t hp)))"
      using timer_invD(3) [OF I] by (auto simp: timer_stopped_def K intro: inj_on_subset)
    show "dom (l_timers (timer_stopped L h t hp)) = heap_nodes (l_heap (timer_stopped L h t hp))"
      using timer_invD(1) [OF I] hp(3) t(1) by (auto simp: timer_stopped_def)
    show "is_heap (timer_key (l_timers (timer_stopped L h t hp))) (l_heap (timer_stopped L h t hp)) (active_set (l_timers (timer_stopped L h t hp)))"
      using hp(2) by (simp add: timer_stopped_def K)
  qed (use timer_invD(4,5) [OF I] in \<open>auto simp: timer_stopped_def split: if_splits\<close>)
  ultimately show ?thesis by (rule that)
qed

text \<open>Starting one that is not active.\<close>

definition armed :: "('cb, 'u) uv_loop \<Rightarrow> 'cb uv_timer \<Rightarrow> 'cb \<Rightarrow> u64 \<Rightarrow> u64 \<Rightarrow> 'cb uv_timer" where
  "armed L t cb timeout repeat = turn_on (t\<lparr>t_cb := Some cb, t_timeout := clamped (l_time L) timeout,
     t_repeat := repeat, t_start_id := l_timer_counter L\<rparr>)"

definition timer_started :: "('cb, 'u) uv_loop \<Rightarrow> addr \<Rightarrow> 'cb uv_timer \<Rightarrow> 'cb \<Rightarrow> u64 \<Rightarrow> u64 \<Rightarrow> heap_st \<Rightarrow> ('cb, 'u) uv_loop" where
  "timer_started L h t cb timeout repeat hp = L\<lparr>l_timer_counter := l_timer_counter L + 1, l_heap := hp,
     l_timers := (l_timers L)(h \<mapsto> armed L t cb timeout repeat),
     l_active_handles := l_active_handles L + (if uv_has_ref t then 1 else 0)\<rparr>"

lemma armed_sel [simp]:
  "uv_is_active (armed L t cb timeout repeat)" "t_cb (armed L t cb timeout repeat) = Some cb"
  "t_timeout (armed L t cb timeout repeat) = clamped (l_time L) timeout"
  "t_repeat (armed L t cb timeout repeat) = repeat" "t_start_id (armed L t cb timeout repeat) = l_timer_counter L"
  by (simp_all add: armed_def)

lemma start_ok:
  assumes I: "timer_inv L" and t: "l_timers L h = Some t" "\<not> uv_is_active t"
    and c: "unat (l_timer_counter L) + 1 < 2 ^ 64" and room: "card (active_set (l_timers L)) < 2 ^ 32 - 1"
  obtains hp where "uv_timer_start L h (Some cb) timeout repeat = Some (0, timer_started L h t cb timeout repeat hp)"
    "timer_inv (timer_started L h t cb timeout repeat hp)"
proof -
  let ?ts = "l_timers L" and ?A = "active_set (l_timers L)"
  define t1 where "t1 = armed L t cb timeout repeat"
  define t0 where "t0 = t\<lparr>t_cb := Some cb, t_timeout := clamped (l_time L) timeout, t_repeat := repeat,
    t_start_id := l_timer_counter L\<rparr>"
  have h: "h \<notin> ?A" "h \<in> heap_nodes (l_heap L)"
    using t timer_invD(1) [OF I] by (auto simp: active_set_def)
  have "timer_key (?ts(h \<mapsto> t0)) = timer_key (?ts(h \<mapsto> t1))"
    by (rule ext) (simp add: timer_key_upd t0_def t1_def)
  then have K: "timer_less_than (?ts(h \<mapsto> t0)) = (\<lambda>a b. timer_key (?ts(h \<mapsto> t1)) a < timer_key (?ts(h \<mapsto> t1)) b)"
    by (simp only: timer_less_than_key)
  have "b \<in> ?A \<Longrightarrow> timer_key (?ts(h \<mapsto> t1)) b = timer_key ?ts b" for b
    using h(1) by (auto simp: timer_key_upd)
  from uvh.ins_rekey [OF timer_invD(2) [OF I] this h room]
  obtain hp where hp: "heap_insert (timer_less_than (?ts(h \<mapsto> t0))) (l_heap L) h = Some hp"
    "is_heap (timer_key (?ts(h \<mapsto> t1))) hp (insert h ?A)" "heap_nodes hp = heap_nodes (l_heap L)"
    unfolding K by blast
  have fl: "uv_is_active t0 = uv_is_active t" "uv_has_ref t0 = uv_has_ref t"
    by (simp_all add: uv_is_active_def uv_has_ref_def t0_def)
  let ?L = "timer_started L h t cb timeout repeat hp"
  have "uv_timer_start L h (Some cb) timeout repeat = Some (0, ?L)"
    using t hp(1) fl unfolding t0_def
    by (simp add: uv_timer_start_def uv_handle_start_def set_timer_def timer_started_def armed_def turn_on_def Let_def)
  moreover have "timer_inv ?L"
    unfolding timer_inv_def
  proof (intro conjI allI impI; (elim conjE)?)
    have c': "unat (l_timer_counter L + 1) = unat (l_timer_counter L) + 1"
      using c by (subst unat_add_lem [THEN iffD1]) simp_all
    show "inj_on (\<lambda>a. snd (timer_key (l_timers ?L) a)) (active_set (l_timers ?L))"
      using timer_invD(3) [OF I] timer_invD(4) [OF I] h(1)
      by (force simp: timer_started_def timer_key_upd inj_on_def active_set_def timer_key_def split: if_splits)
    fix a u assume "l_timers ?L a = Some u" "uv_is_active u"
    then show "unat (t_start_id u) < unat (l_timer_counter ?L)" "t_cb u \<noteq> None"
      using timer_invD(4,5) [OF I, of a u] c' by (auto simp: timer_started_def split: if_splits)
  qed (use hp timer_invD(1) [OF I] t(1) in \<open>auto simp: timer_started_def t1_def\<close>)
  ultimately show ?thesis by (rule that)
qed

section \<open>Running the due timers\<close>

definition due :: "('cb, 'u) uv_loop \<Rightarrow> addr set" where
  "due L = {a. \<exists>t. l_timers L a = Some t \<and> uv_is_active t \<and> t_timeout t \<le> l_time L}"

lemma due_active: "due L \<subseteq> active_set (l_timers L)"
  by (auto simp: due_def active_set_def)

lemma due_finite: "timer_inv L \<Longrightarrow> finite (due L)"
  using due_active uvh.ok_finite [OF timer_invD(2)] by (rule finite_subset)

lemma clamped_later: "time \<noteq> - 1 \<Longrightarrow> r \<noteq> 0 \<Longrightarrow> time < clamped time r"
proof (cases "time + r < r")
  case True
  assume "time \<noteq> - 1"
  then show ?thesis using True by (simp add: clamped_def word_order.not_eq_extremum)
next
  case False
  assume "r \<noteq> 0"
  then have "time \<noteq> time + r" by simp
  moreover have "time \<le> time + r" using False by (simp add: olen_add_eqv not_less)
  ultimately have "time < time + r" by (rule le_neq_trans [rotated])
  then show ?thesis using False by (simp add: clamped_def)
qed

text \<open>What became of a timer whose callback was due: it is inactive, or runs again from now if it repeats.\<close>

definition fired :: "u64 \<Rightarrow> 'cb uv_timer \<Rightarrow> 'cb uv_timer \<Rightarrow> bool" where
  "fired time t t' \<longleftrightarrow> t_cb t' = t_cb t \<and> t_repeat t' = t_repeat t \<and> (uv_is_active t' \<longleftrightarrow> t_repeat t \<noteq> 0) \<and>
     (t_repeat t \<noteq> 0 \<longrightarrow> t_timeout t' = clamped time (t_repeat t))"

lemma again_ok:
  assumes I: "timer_inv L" and t: "l_timers L h = Some t" "\<not> uv_is_active t" "t_cb t \<noteq> None"
    and c: "unat (l_timer_counter L) + 1 < 2 ^ 64" and room: "card (active_set (l_timers L)) < 2 ^ 32 - 1"
  obtains L' t' where "uv_timer_again L h = Some (0, L')" "timer_inv L'" "l_timers L' = (l_timers L)(h \<mapsto> t')"
    "fired (l_time L) t t'" "l_time L' = l_time L" "l_user L' = l_user L"
    "unat (l_timer_counter L') \<le> unat (l_timer_counter L) + 1"
proof (cases "t_repeat t = 0")
  case True
  have "uv_timer_again L h = Some (0, L)" using t(1,3) True by (auto simp: uv_timer_again_def)
  moreover have "fired (l_time L) t t" using True t(2) by (simp add: fired_def)
  ultimately show ?thesis using I that [of L t] t(1) by (simp add: map_upd_triv)
next
  case False
  obtain cb where cb: "t_cb t = Some cb" using t(3) by auto
  obtain hp where hp: "uv_timer_start L h (Some cb) (t_repeat t) (t_repeat t) =
      Some (0, timer_started L h t cb (t_repeat t) (t_repeat t) hp)"
    "timer_inv (timer_started L h t cb (t_repeat t) (t_repeat t) hp)"
    using start_ok [OF I t(1,2) c room] by blast
  have "uv_timer_again L h = Some (0, timer_started L h t cb (t_repeat t) (t_repeat t) hp)"
    using t(1,2) cb False hp(1) by (simp add: uv_timer_again_def uv_timer_stop_def)
  moreover have "unat (l_timer_counter L + 1) = unat (l_timer_counter L) + 1"
    using c by (subst unat_add_lem [THEN iffD1]) simp_all
  ultimately show ?thesis
    using hp(2) that [of _ "armed L t cb (t_repeat t) (t_repeat t)"] cb False
    by (simp add: timer_started_def fired_def)
qed

lemma least_due:
  assumes I: "timer_inv L" and m: "heap_min (l_heap L) = Some h"
  obtains t where "l_timers L h = Some t" "uv_is_active t"
    "\<And>a. a \<in> active_set (l_timers L) \<Longrightarrow> timer_key (l_timers L) h \<le> timer_key (l_timers L) a"
    "\<And>a. a \<in> active_set (l_timers L) \<Longrightarrow> a \<noteq> h \<Longrightarrow> timer_less_than (l_timers L) h a"
proof -
  let ?ts = "l_timers L" and ?A = "active_set (l_timers L)"
  have h: "h \<in> ?A" "\<And>a. a \<in> ?A \<Longrightarrow> timer_key ?ts h \<le> timer_key ?ts a"
    using uvh.least_some [OF timer_invD(2) [OF I] m] by auto
  moreover have "timer_less_than ?ts h a" if "a \<in> ?A" "a \<noteq> h" for a
    using h that timer_invD(3) [OF I] by (auto simp: timer_less_than_key inj_on_def intro!: le_neq_trans)
  ultimately show ?thesis using that by (auto simp: active_set_def)
qed

lemma fire_step:
  assumes I: "timer_inv L" and m: "heap_min (l_heap L) = Some h" and t: "l_timers L h = Some t" "t_timeout t \<le> l_time L"
    and c: "unat (l_timer_counter L) + 1 < 2 ^ 64"
  obtains L0 L' t' where "uv_timer_stop L h = Some (0, L0)" "uv_timer_again L0 h = Some (0, L')" "timer_inv L'"
    "l_timers L' = (l_timers L)(h \<mapsto> t')" "fired (l_time L) t t'" "l_time L' = l_time L" "l_user L' = l_user L"
    "unat (l_timer_counter L') \<le> unat (l_timer_counter L) + 1"
proof -
  have a: "uv_is_active t" using least_due [OF I m] t(1) by auto
  obtain hp where s: "uv_timer_stop L h = Some (0, timer_stopped L h t hp)" "timer_inv (timer_stopped L h t hp)"
    using stop_ok [OF I t(1) a] by blast
  let ?L = "timer_stopped L h t hp"
  have sel: "l_timers ?L = (l_timers L)(h \<mapsto> turn_off t)" "l_time ?L = l_time L" "l_user ?L = l_user L"
    "l_timer_counter ?L = l_timer_counter L" by (simp_all add: timer_stopped_def)
  have "h \<in> active_set (l_timers L)" using a t(1) by (auto simp: active_set_def)
  moreover have "card (active_set (l_timers L)) < 2 ^ 32"
    using is_heap_card [OF timer_invD(2) [OF I]] unat_lt [of "h_nelts (fst (l_heap L))"] by simp
  ultimately have room: "card (active_set (l_timers ?L)) < 2 ^ 32 - 1"
    using uvh.ok_finite [OF timer_invD(2) [OF I]] by (simp add: sel card_Diff_singleton card_gt_0_iff)
  have cb: "t_cb (turn_off t) \<noteq> None" using timer_invD(5) [OF I t(1) a] by simp
  obtain L' t' where r: "uv_timer_again ?L h = Some (0, L')" "timer_inv L'" "l_timers L' = (l_timers ?L)(h \<mapsto> t')"
    "fired (l_time ?L) (turn_off t) t'" "l_time L' = l_time ?L" "l_user L' = l_user ?L"
    "unat (l_timer_counter L') \<le> unat (l_timer_counter ?L) + 1"
    using again_ok [OF s(2) _ turn_active(2) cb _ room, of h] c by (auto simp: sel)
  then show ?thesis using that [OF s(1) r(1,2)] by (simp add: sel fired_def)
qed

definition invoke :: "('cb \<Rightarrow> addr \<Rightarrow> 'u \<Rightarrow> 'u) \<Rightarrow> (addr \<Rightarrow> 'cb uv_timer option) \<Rightarrow> addr \<Rightarrow> 'u \<Rightarrow> 'u" where
  "invoke g ts h u = (case Option.bind (ts h) t_cb of None \<Rightarrow> u | Some cb \<Rightarrow> g cb h u)"

lemma timer_inv_user: "timer_inv (L\<lparr>l_user := u\<rparr>) = timer_inv L" "due (L\<lparr>l_user := u\<rparr>) = due L"
  by (simp_all add: timer_inv_def due_def)

lemma fired_due:
  assumes "l_time L \<noteq> - 1" "fired (l_time L) t t'" "l_timers L' = (l_timers L)(h \<mapsto> t')" "l_time L' = l_time L"
  shows "due L' = due L - {h}"
  using assms clamped_later [of "l_time L" "t_repeat t"] by (auto simp: due_def fired_def not_le split: if_splits)

text \<open>The outcome of a run: \<open>hs\<close> are the timers whose callbacks ran, in this order.\<close>

definition timers_ran :: "('cb \<Rightarrow> addr \<Rightarrow> 'u \<Rightarrow> 'u) \<Rightarrow> ('cb, 'u) uv_loop \<Rightarrow> addr list \<Rightarrow> ('cb, 'u) uv_loop \<Rightarrow> bool" where
  "timers_ran g L hs L' \<longleftrightarrow> set hs = due L \<and> sorted_wrt (timer_less_than (l_timers L)) hs \<and>
     l_user L' = fold (invoke g (l_timers L)) hs (l_user L) \<and> l_time L' = l_time L \<and>
     (\<forall>a. a \<notin> due L \<longrightarrow> l_timers L' a = l_timers L a) \<and>
     (\<forall>a\<in>due L. \<exists>t t'. l_timers L a = Some t \<and> l_timers L' a = Some t' \<and> fired (l_time L) t t') \<and>
     timer_inv L' \<and> due L' = {}"

lemma ran_step:
  assumes t: "l_timers L h = Some t" "t_cb t = Some cb" "fired (l_time L) t t'"
    and L1: "l_timers L1 = (l_timers L)(h \<mapsto> t')" "l_time L1 = l_time L" "l_user L1 = g cb h (l_user L)"
      "due L1 = due L - {h}"
    and h: "h \<in> due L" "\<And>a. a \<in> due L \<Longrightarrow> a \<noteq> h \<Longrightarrow> timer_less_than (l_timers L) h a"
    and R: "timers_ran g L1 hs L'"
  shows "timers_ran g L (h # hs) L'"
proof -
  have S: "set hs = due L - {h}" using R L1(4) by (simp add: timers_ran_def)
  have K: "a \<in> set hs \<Longrightarrow> timer_key (l_timers L1) a = timer_key (l_timers L) a" for a
    using S by (simp add: L1(1) timer_key_upd)
  have "sorted_wrt (timer_less_than (l_timers L)) hs"
    using R unfolding timers_ran_def timer_less_than_key by (auto elim!: sorted_wrt_mono_rel [rotated] simp: K)
  moreover have "fold (invoke g (l_timers L1)) hs u = fold (invoke g (l_timers L)) hs u" for u
    using S by (intro List.fold_cong refl) (auto simp: invoke_def L1(1) fun_eq_iff)
  moreover have "invoke g (l_timers L) h (l_user L) = g cb h (l_user L)" using t by (simp add: invoke_def)
  moreover have "\<exists>t t'. l_timers L a = Some t \<and> l_timers L' a = Some t' \<and> fired (l_time L) t t'" if "a \<in> due L" for a
  proof (cases "a = h")
    case True
    then have "l_timers L' a = Some t'" using R L1(1,4) by (simp add: timers_ran_def)
    then show ?thesis using t True by blast
  next
    case False
    then have "a \<in> due L1" using that L1(4) by simp
    then show ?thesis using R False unfolding timers_ran_def L1(1,2) by fastforce
  qed
  moreover have "l_timers L' a = l_timers L a" if "a \<notin> due L" for a
    using R that h(1) L1(1,4) by (auto simp: timers_ran_def)
  moreover have "\<forall>a\<in>set hs. timer_less_than (l_timers L) h a" using S h(2) by simp
  moreover have "set (h # hs) = due L" using S h(1) by auto
  ultimately show ?thesis using R L1(2,3) by (simp add: timers_ran_def)
qed

lemma run_timers_ran:
  assumes "timer_inv L" "\<And>cb h L. call cb h L = Some (L\<lparr>l_user := g cb h (l_user L)\<rparr>)"
    and "l_time L \<noteq> - 1" "unat (l_timer_counter L) + card (due L) < 2 ^ 64"
  shows "\<exists>L' hs. uv_run_timers call L = Some L' \<and> timers_ran g L hs L'"
  using assms
proof (induction "card (due L)" arbitrary: L rule: less_induct)
  case (less L)
  note I = less.prems(1)
  show ?case
  proof (cases "heap_min (l_heap L)")
    case None
    then have "active_set (l_timers L) = {}" using uvh.least_none [OF timer_invD(2) [OF I]] by simp
    then have "due L = {}" using due_active by blast
    then have "timers_ran g L [] L" using I by (simp add: timers_ran_def)
    moreover have "uv_run_timers call L = Some L" using None by (simp add: uv_run_timers.simps)
    ultimately show ?thesis by blast
  next
    case (Some h)
    obtain t where t: "l_timers L h = Some t" "uv_is_active t"
      "\<And>a. a \<in> active_set (l_timers L) \<Longrightarrow> timer_key (l_timers L) h \<le> timer_key (l_timers L) a"
      "\<And>a. a \<in> active_set (l_timers L) \<Longrightarrow> a \<noteq> h \<Longrightarrow> timer_less_than (l_timers L) h a"
      using least_due [OF I Some] by blast
    show ?thesis
    proof (cases "l_time L < t_timeout t")
      case True
      have "t_timeout t \<le> t_timeout u" if "l_timers L a = Some u" "uv_is_active u" for a u
        using t(1) t(3) [of a] that by (auto simp: active_set_def timer_key_def less_eq_prod_def)
      then have "due L = {}" using True by (force simp: due_def not_le [symmetric])
      then have "timers_ran g L [] L" using I by (simp add: timers_ran_def)
      moreover have "uv_run_timers call L = Some L" using Some t(1) True by (simp add: uv_run_timers.simps)
      ultimately show ?thesis by blast
    next
      case False
      then have h: "h \<in> due L" using t(1,2) by (auto simp: due_def)
      have fin: "finite (due L)" using due_finite [OF I] .
      have cd: "card (due L - {h}) < card (due L)" using h fin by (intro psubset_card_mono) auto
      then have "unat (l_timer_counter L) + 1 < 2 ^ 64" using less.prems(4) by linarith
      from fire_step [OF I Some t(1) _ this] False
      obtain L0 L1 t' where f: "uv_timer_stop L h = Some (0, L0)" "uv_timer_again L0 h = Some (0, L1)" "timer_inv L1"
        "l_timers L1 = (l_timers L)(h \<mapsto> t')" "fired (l_time L) t t'" "l_time L1 = l_time L" "l_user L1 = l_user L"
        "unat (l_timer_counter L1) \<le> unat (l_timer_counter L) + 1"
        by (metis not_less)
      obtain cb where cb: "t_cb t = Some cb" using timer_invD(5) [OF I t(1,2)] by auto
      define L2 where "L2 = L1\<lparr>l_user := g cb h (l_user L1)\<rparr>"
      have d2: "due L2 = due L - {h}"
        using fired_due [OF less.prems(3) f(5,4,6)] by (simp add: L2_def timer_inv_user)
      have "\<exists>L' hs. uv_run_timers call L2 = Some L' \<and> timers_ran g L2 hs L'"
      proof (rule less.hyps)
        show "card (due L2) < card (due L)" using cd d2 by simp
        show "unat (l_timer_counter L2) + card (due L2) < 2 ^ 64"
          using less.prems(4) f(8) cd d2 by (simp add: L2_def)
      qed (use less.prems(2,3) f(3,6) in \<open>simp_all add: L2_def timer_inv_user\<close>)
      then obtain L' hs where R: "uv_run_timers call L2 = Some L'" "timers_ran g L2 hs L'" by blast
      have "uv_run_timers call L = Some L'"
        using Some t(1) False f(1,2,4,5) cb less.prems(2) R(1)
        by (subst uv_run_timers.simps) (simp add: fired_def L2_def)
      moreover have "timers_ran g L (h # hs) L'"
        by (rule ran_step [OF t(1) cb f(5) _ _ _ d2 h _ R(2)])
          (use f(4,6,7) t(4) due_active [of L] in \<open>auto simp: L2_def\<close>)
      ultimately show ?thesis by blast
    qed
  qed
qed

lemma next_timeout_idle:
  assumes I: "timer_inv L" and d: "due L = {}"
  shows "\<exists>r. uv_next_timeout L = Some r \<and> r \<noteq> 0 \<and> (r = - 1 \<longleftrightarrow> active_set (l_timers L) = {})"
proof (cases "heap_min (l_heap L)")
  case None
  then show ?thesis using uvh.least_none [OF timer_invD(2) [OF I]] by (simp add: uv_next_timeout_def)
next
  case (Some h)
  obtain t where t: "l_timers L h = Some t" "uv_is_active t" using least_due [OF I Some] by blast
  then have "\<not> t_timeout t \<le> l_time L" using d by (auto simp: due_def)
  moreover from this have "t_timeout t - l_time L \<noteq> 0" by auto
  then have "0 < uint (t_timeout t - l_time L)" by (simp add: order.strict_iff_order uint_0_iff)
  ultimately show ?thesis using Some t by (auto simp: uv_next_timeout_def active_set_def Let_def)
qed

section \<open>Timers fire once, in order\<close>


definition sample_timer :: "unit uv_timer" where
  "sample_timer = \<lparr>t_cb = None, t_timeout = 0, t_repeat = 0, t_start_id = 0, t_flags = UV_HANDLE_REF,
    t_close_cb = None, t_next_closing = None\<rparr>"

definition sample_ring :: qmem where
  "sample_ring = [0 \<mapsto> \<lparr>q_nxt = 1, q_prv = 3\<rparr>, 1 \<mapsto> \<lparr>q_nxt = 2, q_prv = 0\<rparr>,
     2 \<mapsto> \<lparr>q_nxt = 3, q_prv = 1\<rparr>, 3 \<mapsto> \<lparr>q_nxt = 0, q_prv = 2\<rparr>]"

definition sample_loop :: "(unit, addr list) uv_loop" where
  "sample_loop = \<lparr>l_time = 10, l_timer_counter = 0, l_heap = heap_init sample_mem,
     l_timers = map_option (\<lambda>_. sample_timer) \<circ> sample_mem, l_active_handles = 0, l_handle_queue = sample_ring, l_closing_handles = None, l_user = []\<rparr>"

definition sample_started :: "(unit, addr list) uv_loop option" where
  "sample_started = do {
     (_, L) \<leftarrow> uv_timer_start sample_loop 1 (Some ()) 5 0;
     (_, L) \<leftarrow> uv_timer_start L 2 (Some ()) 3 0;
     (_, L) \<leftarrow> uv_timer_start L 3 (Some ()) 100 0;
     Some (L\<lparr>l_time := 20\<rparr>)
   }"

lemma sample_idle: "\<not> uv_is_active sample_timer"
  by (simp add: sample_timer_def uv_is_active_def UV_HANDLE_REF_def UV_HANDLE_ACTIVE_def)

lemma sample_inv: "timer_inv sample_loop" "active_set (l_timers sample_loop) = {}"
proof -
  show A: "active_set (l_timers sample_loop) = {}"
    using sample_idle by (auto simp: active_set_def sample_loop_def)
  have "heap_nodes (heap_init sample_mem) = dom (map_option (\<lambda>_. sample_timer) \<circ> sample_mem)"
    by (auto simp: heap_nodes_def heap_init_def)
  then show "timer_inv sample_loop"
    using A sample_idle by (auto simp: timer_inv_def heap_init_ok sample_loop_def)
qed

lemma timer_inv_time: "timer_inv (L\<lparr>l_time := n\<rparr>) = timer_inv L"
  by (simp add: timer_inv_def)

lemma sample_started_ok:
  obtains L where "sample_started = Some L" "timer_inv L" "due L = {1, 2}" "l_time L = 20" "l_user L = []"
    "l_timer_counter L = 3" "timer_less_than (l_timers L) 2 1" "invoke g (l_timers L) 1 = g () 1" "invoke g (l_timers L) 2 = g () 2"
    "l_handle_queue L = sample_ring" "l_closing_handles L = None" "l_timers L 1 = Some (armed sample_loop sample_timer () 5 0)"
proof -
  let ?i = "\<lambda>x. l_timers sample_loop x = Some sample_timer"
  have i: "?i 1" "?i 2" "?i 3" by (simp_all add: sample_loop_def sample_mem_def Let_def)
  have c: "l_timer_counter sample_loop = 0" by (simp add: sample_loop_def)
  obtain hp1 where 1: "uv_timer_start sample_loop 1 (Some ()) 5 0 = Some (0, timer_started sample_loop 1 sample_timer () 5 0 hp1)"
    "timer_inv (timer_started sample_loop 1 sample_timer () 5 0 hp1)"
    using start_ok [OF sample_inv(1) i(1) sample_idle, of "()" 5 0] by (auto simp: sample_inv(2) c)
  define L1 where "L1 = timer_started sample_loop 1 sample_timer () 5 0 hp1"
  have l1: "l_timers L1 2 = Some sample_timer" "l_timers L1 3 = Some sample_timer" "l_timer_counter L1 = 1" "active_set (l_timers L1) = {1}"
    using i c sample_inv(2) by (simp_all add: L1_def timer_started_def)
  obtain hp2 where 2: "uv_timer_start L1 2 (Some ()) 3 0 = Some (0, timer_started L1 2 sample_timer () 3 0 hp2)"
    "timer_inv (timer_started L1 2 sample_timer () 3 0 hp2)"
    using start_ok [OF 1(2) [folded L1_def] l1(1) sample_idle, of "()" 3 0] by (auto simp: l1)
  define L2 where "L2 = timer_started L1 2 sample_timer () 3 0 hp2"
  have l2: "l_timers L2 3 = Some sample_timer" "l_timer_counter L2 = 2" "active_set (l_timers L2) = {2, 1}"
    using l1 by (simp_all add: L2_def timer_started_def)
  obtain hp3 where 3: "uv_timer_start L2 3 (Some ()) 100 0 = Some (0, timer_started L2 3 sample_timer () 100 0 hp3)"
    "timer_inv (timer_started L2 3 sample_timer () 100 0 hp3)"
    using start_ok [OF 2(2) [folded L2_def] l2(1) sample_idle, of "()" 100 0] by (auto simp: l2)
  define L3 where "L3 = timer_started L2 3 sample_timer () 100 0 hp3"
  have tm: "l_time sample_loop = 10" "l_time L1 = 10" "l_time L2 = 10" "l_time L3 = 10" "l_user L3 = []"
    "l_handle_queue L3 = sample_ring" "l_closing_handles L3 = None"
    by (simp_all add: L3_def L2_def L1_def timer_started_def sample_loop_def)
  have ts: "l_timers L3 = (l_timers sample_loop)(1 \<mapsto> armed sample_loop sample_timer () 5 0,
      2 \<mapsto> armed L1 sample_timer () 3 0, 3 \<mapsto> armed L2 sample_timer () 100 0)"
    by (simp add: L3_def L2_def L1_def timer_started_def)
  have inact: "l_timers sample_loop a = Some t \<Longrightarrow> \<not> uv_is_active t" for a t
    using sample_inv(2) by (auto simp: active_set_def)
  have cl: "clamped 10 5 = 15" "clamped 10 3 = 13" "clamped 10 100 = 110" by (simp_all add: clamped_def)
  show ?thesis
  proof (rule that [of "L3\<lparr>l_time := 20\<rparr>"])
    show "sample_started = Some (L3\<lparr>l_time := 20\<rparr>)"
      using 1(1) 2(1) 3(1) by (simp add: sample_started_def L1_def L2_def L3_def)
    show "timer_inv (L3\<lparr>l_time := 20\<rparr>)" using 3(2) by (simp add: timer_inv_time L3_def)
    show "due (L3\<lparr>l_time := 20\<rparr>) = {1, 2}"
      by (auto simp: due_def ts tm cl dest: inact split: if_splits)
    show "l_timer_counter (L3\<lparr>l_time := 20\<rparr>) = 3" using l2(2) by (simp add: L3_def timer_started_def)
    show "timer_less_than (l_timers (L3\<lparr>l_time := 20\<rparr>)) 2 1"
      by (simp add: timer_less_than_def timer_key_def ts tm cl)
  qed (simp_all add: tm ts invoke_def fun_eq_iff)
qed


section \<open>Timers restarted with timeout 0\<close>

text \<open>One turn of the loop of \<^verbatim>\<open>uv__run_timers\<close>; no result when the loop is left.\<close>

definition timer_round ::
  "('cb \<Rightarrow> addr \<Rightarrow> ('cb, 'u) uv_loop \<Rightarrow> ('cb, 'u) uv_loop option) \<Rightarrow> ('cb, 'u) uv_loop \<Rightarrow>
   ('cb, 'u) uv_loop option" where
  "timer_round call L = (case heap_min (l_heap L) of
     None \<Rightarrow> None
   | Some h \<Rightarrow> Option.bind (l_timers L h) (\<lambda>t.
       if l_time L < t_timeout t then None
       else Option.bind (uv_timer_stop L h) (\<lambda>(_, L).
            Option.bind (uv_timer_again L h) (\<lambda>(_, L).
            Option.bind (l_timers L h) (\<lambda>t.
            Option.bind (t_cb t) (\<lambda>cb. call cb h L))))))"

fun timer_rounds ::
  "('cb \<Rightarrow> addr \<Rightarrow> ('cb, 'u) uv_loop \<Rightarrow> ('cb, 'u) uv_loop option) \<Rightarrow> nat \<Rightarrow> ('cb, 'u) uv_loop \<Rightarrow>
   ('cb, 'u) uv_loop option" where
  "timer_rounds call 0 L = Some L"
| "timer_rounds call (Suc n) L = Option.bind (timer_round call L) (timer_rounds call n)"

lemma timer_roundE:
  assumes "timer_round call L = Some L'"
  obtains h t r0 L0 r1 L1 t1 cb where "heap_min (l_heap L) = Some h" "l_timers L h = Some t" "\<not> l_time L < t_timeout t"
    "uv_timer_stop L h = Some (r0, L0)" "uv_timer_again L0 h = Some (r1, L1)" "l_timers L1 h = Some t1"
    "t_cb t1 = Some cb" "call cb h L1 = Some L'"
proof (cases "heap_min (l_heap L)")
  case None
  then show ?thesis using assms by (simp add: timer_round_def)
next
  case (Some h)
  then obtain t where t: "l_timers L h = Some t" "\<not> l_time L < t_timeout t"
    using assms by (cases "l_timers L h") (auto simp: timer_round_def split: if_splits)
  then have "Option.bind (uv_timer_stop L h) (\<lambda>(_, L). Option.bind (uv_timer_again L h) (\<lambda>(_, L).
      Option.bind (l_timers L h) (\<lambda>t. Option.bind (t_cb t) (\<lambda>cb. call cb h L)))) = Some L'"
    using assms Some by (simp add: timer_round_def)
  then obtain r0 L0 where s: "uv_timer_stop L h = Some (r0, L0)" "Option.bind (uv_timer_again L0 h) (\<lambda>(_, L).
      Option.bind (l_timers L h) (\<lambda>t. Option.bind (t_cb t) (\<lambda>cb. call cb h L))) = Some L'"
    by (cases "uv_timer_stop L h") auto
  then obtain r1 L1 where "uv_timer_again L0 h = Some (r1, L1)"
    "Option.bind (l_timers L1 h) (\<lambda>t. Option.bind (t_cb t) (\<lambda>cb. call cb h L1)) = Some L'"
    by (cases "uv_timer_again L0 h") auto
  then show ?thesis using that [OF Some t s(1)] by (auto simp: bind_eq_Some_conv)
qed

lemma timer_round_run:
  assumes "timer_round call L = Some L'"
  shows "uv_run_timers call L = uv_run_timers call L'"
  using assms by (rule timer_roundE) (subst uv_run_timers.simps, simp)

lemma restart_ok:
  assumes I: "timer_inv L" and t: "l_timers L h = Some t"
    and c: "unat (l_timer_counter L) + 1 < 2 ^ 64" and room: "card (active_set (l_timers L) - {h}) < 2 ^ 32 - 1"
  obtains L' t' where "uv_timer_start L h (Some cb) timeout repeat = Some (0, L')" "timer_inv L'"
    "l_timers L' = (l_timers L)(h \<mapsto> t')" "uv_is_active t'" "t_timeout t' = clamped (l_time L) timeout"
    "l_time L' = l_time L" "l_timer_counter L' = l_timer_counter L + 1"
proof (cases "uv_is_active t")
  case False
  then have "h \<notin> active_set (l_timers L)" using t by (auto simp: active_set_def)
  with room have "card (active_set (l_timers L)) < 2 ^ 32 - 1" by simp
  then obtain hp where "uv_timer_start L h (Some cb) timeout repeat = Some (0, timer_started L h t cb timeout repeat hp)"
    "timer_inv (timer_started L h t cb timeout repeat hp)"
    using start_ok [OF I t False c] by blast
  then show ?thesis using that [of _ "armed L t cb timeout repeat"] by (simp add: timer_started_def)
next
  case True
  obtain hp where s: "uv_timer_stop L h = Some (0, timer_stopped L h t hp)" "timer_inv (timer_stopped L h t hp)"
    using stop_ok [OF I t True] by blast
  let ?L = "timer_stopped L h t hp"
  have sel: "l_timers ?L = (l_timers L)(h \<mapsto> turn_off t)" "l_time ?L = l_time L" "l_timer_counter ?L = l_timer_counter L"
    by (simp_all add: timer_stopped_def)
  obtain hp' where r: "uv_timer_start ?L h (Some cb) timeout repeat = Some (0, timer_started ?L h (turn_off t) cb timeout repeat hp')"
    "timer_inv (timer_started ?L h (turn_off t) cb timeout repeat hp')"
    using start_ok [OF s(2) _ turn_active(2), of h t cb timeout repeat] c room by (auto simp: sel)
  have "uv_timer_start L h (Some cb) timeout repeat = uv_timer_start ?L h (Some cb) timeout repeat"
    using t True s(1) turn_active(2) [of t] sel(1) by (simp add: uv_timer_start_def)
  then show ?thesis using r that [of _ "armed ?L (turn_off t) cb timeout repeat"] sel by (simp add: timer_started_def)
qed

lemma active_room:
  assumes I: "timer_inv L" and h: "h \<in> active_set (l_timers L)"
  shows "card (active_set (l_timers L) - {h}) < 2 ^ 32 - 1"
proof -
  have "card (active_set (l_timers L)) < 2 ^ 32"
    using is_heap_card [OF timer_invD(2) [OF I]] unat_lt [of "h_nelts (fst (l_heap L))"] by simp
  then show ?thesis
    using h uvh.ok_finite [OF timer_invD(2) [OF I]] by (simp add: card_Diff_singleton card_gt_0_iff)
qed

lemma zero_round:
  assumes I: "timer_inv L" and d: "due L \<noteq> {}" and c: "unat (l_timer_counter L) + 2 < 2 ^ 64"
    and call: "\<And>cb h M. call cb h M = map_option snd (uv_timer_start M h (Some cb) 0 0)"
  obtains L' where "timer_round call L = Some L'" "timer_inv L'" "due L' \<noteq> {}"
    "unat (l_timer_counter L') \<le> unat (l_timer_counter L) + 2"
proof -
  obtain a u where a: "l_timers L a = Some u" "uv_is_active u" "t_timeout u \<le> l_time L" using d by (auto simp: due_def)
  then have A: "a \<in> active_set (l_timers L)" by (auto simp: active_set_def)
  then obtain h where m: "heap_min (l_heap L) = Some h" using uvh.least_none [OF timer_invD(2) [OF I]] by fastforce
  obtain t where t: "l_timers L h = Some t" "uv_is_active t"
    "\<And>a. a \<in> active_set (l_timers L) \<Longrightarrow> timer_key (l_timers L) h \<le> timer_key (l_timers L) a"
    using least_due [OF I m] by blast
  have "t_timeout t \<le> t_timeout u" using t(3) [OF A] t(1) a(1) by (auto simp: timer_key_def less_eq_prod_def)
  then have tm: "t_timeout t \<le> l_time L" using a(3) by simp
  have c0: "unat (l_timer_counter L) + 1 < 2 ^ 64" using c by linarith
  obtain L0 L1 t' where f: "uv_timer_stop L h = Some (0, L0)" "uv_timer_again L0 h = Some (0, L1)" "timer_inv L1"
    "l_timers L1 = (l_timers L)(h \<mapsto> t')" "fired (l_time L) t t'" "l_time L1 = l_time L" "l_user L1 = l_user L"
    "unat (l_timer_counter L1) \<le> unat (l_timer_counter L) + 1"
    using fire_step [OF I m t(1) tm c0] by blast
  obtain cb where cb: "t_cb t' = Some cb" using timer_invD(5) [OF I t(1,2)] f(5) by (auto simp: fired_def)
  have "active_set (l_timers L1) - {h} = active_set (l_timers L) - {h}" unfolding f(4) by (auto simp: active_set_def)
  then have room: "card (active_set (l_timers L1) - {h}) < 2 ^ 32 - 1"
    using active_room [OF I, of h] t(1,2) by (auto simp: active_set_def)
  have c1: "unat (l_timer_counter L1) + 1 < 2 ^ 64" using f(8) c by linarith
  have "l_timers L1 h = Some t'" by (simp add: f(4))
  then obtain L' t2 where r: "uv_timer_start L1 h (Some cb) 0 0 = Some (0, L')" "timer_inv L'"
    "l_timers L' = (l_timers L1)(h \<mapsto> t2)" "uv_is_active t2" "t_timeout t2 = clamped (l_time L1) 0"
    "l_time L' = l_time L1" "l_timer_counter L' = l_timer_counter L1 + 1"
    using restart_ok [OF f(3) _ c1 room, of t' cb 0 0] by blast
  have "timer_round call L = Some L'"
    using m t(1) tm f(1,2,4) cb r(1) by (simp add: timer_round_def call not_less [symmetric])
  moreover have "h \<in> due L'" using r(3-6) f(6) by (auto simp: due_def clamped_def)
  moreover have "unat (l_timer_counter L') \<le> unat (l_timer_counter L) + 2"
    using f(8) c1 unat_word_ariths(1) [of "l_timer_counter L1" 1] by (simp add: r(7))
  ultimately show ?thesis using that r(2) by blast
qed

text \<open>A callback that restarts its timer with timeout 0 is called again in the same pass: for as many
  turns as the 64-bit counter of start ids lasts, \<^verbatim>\<open>uv__run_timers\<close> finds the timer due
  once more and does not return to the loop, which polls no socket in between.\<close>

theorem zero_timeout_starves_loop:
  assumes "timer_inv L" "due L \<noteq> {}" "unat (l_timer_counter L) + 2 * n < 2 ^ 64"
    and "\<And>cb h M. call cb h M = map_option snd (uv_timer_start M h (Some cb) 0 0)"
  shows "\<exists>L'. timer_rounds call n L = Some L' \<and> due L' \<noteq> {} \<and> uv_run_timers call L = uv_run_timers call L'"
  using assms(1-3)
proof (induction n arbitrary: L)
  case (Suc n)
  have "unat (l_timer_counter L) + 2 < 2 ^ 64" using Suc.prems(3) by simp
  from zero_round [OF Suc.prems(1,2) this assms(4)]
  obtain L1 where L1: "timer_round call L = Some L1" "timer_inv L1" "due L1 \<noteq> {}"
    "unat (l_timer_counter L1) \<le> unat (l_timer_counter L) + 2" by metis
  moreover have "unat (l_timer_counter L1) + 2 * n < 2 ^ 64" using L1(4) Suc.prems(3) by simp
  ultimately obtain L' where "timer_rounds call n L1 = Some L'" "due L' \<noteq> {}" "uv_run_timers call L1 = uv_run_timers call L'"
    using Suc.IH by blast
  then show ?case using L1(1) timer_round_run [OF L1(1)] by auto
qed simp

end
