(* ===== verification/Uv_Close.thy ===== *)
theory Uv_Close
  imports Uv_Timer
begin

text \<open>
  Closing timers: \<^verbatim>\<open>uv_close\<close> and what the loop does for it at the end of a turn, \<^verbatim>\<open>uv__run_closing_handles\<close>, of
  \<^verbatim>\<open>src/third/libuv/src/unix/core.c\<close>, for handles of the type \<^verbatim>\<open>UV_TIMER\<close>. Closed handles wait in a list linked by
  \<^verbatim>\<open>next_closing\<close> until the loop takes them out of its queue of handles and calls their close
  callbacks, which may free them; the communication core's callback does.
\<close>

unbundle bit_operations_syntax

section \<open>The operations\<close>

definition UV_CLOSING :: u32 where "UV_CLOSING = 1"
definition UV_CLOSED :: u32 where "UV_CLOSED = 2"

definition uv_is_closing :: "'cb uv_timer \<Rightarrow> bool" where
  "uv_is_closing t \<longleftrightarrow> t_flags t AND (UV_CLOSING OR UV_CLOSED) \<noteq> 0"

text \<open>What the assertions of \<^verbatim>\<open>uv__make_close_pending\<close> and \<^verbatim>\<open>uv__finish_close\<close> ask.\<close>

definition close_pending :: "'cb uv_timer \<Rightarrow> bool" where
  "close_pending t \<longleftrightarrow> t_flags t AND UV_CLOSING \<noteq> 0 \<and> t_flags t AND UV_CLOSED = 0"

definition uv_make_close_pending :: "('cb, 'u) uv_loop \<Rightarrow> addr \<Rightarrow> ('cb, 'u) uv_loop option" where
  "uv_make_close_pending L h = do {
     t \<leftarrow> l_timers L h;
     if \<not> close_pending t then None
     else Some ((set_timer h (t\<lparr>t_next_closing := l_closing_handles L\<rparr>) L)\<lparr>l_closing_handles := Some h\<rparr>)
   }"

definition uv_close :: "('cb, 'u) uv_loop \<Rightarrow> addr \<Rightarrow> 'cb option \<Rightarrow> ('cb, 'u) uv_loop option" where
  "uv_close L h close_cb = do {
     t \<leftarrow> l_timers L h;
     if uv_is_closing t then None
     else do {
       L \<leftarrow> uv_timer_close (set_timer h (t\<lparr>t_flags := t_flags t OR UV_CLOSING, t_close_cb := close_cb\<rparr>) L) h;
       uv_make_close_pending L h
     }
   }"

definition uv_handle_unref :: "('cb, 'u) uv_loop \<Rightarrow> addr \<Rightarrow> ('cb, 'u) uv_loop option" where
  "uv_handle_unref L h = do {
     t \<leftarrow> l_timers L h;
     if \<not> uv_has_ref t then Some L
     else Some (let L = set_timer h (t\<lparr>t_flags := t_flags t AND NOT UV_HANDLE_REF\<rparr>) L
                in if uv_is_active t then L\<lparr>l_active_handles := l_active_handles L - 1\<rparr> else L)
   }"

definition uv_finish_close ::
  "('cb \<Rightarrow> addr \<Rightarrow> ('cb, 'u) uv_loop \<Rightarrow> ('cb, 'u) uv_loop option) \<Rightarrow> ('cb, 'u) uv_loop \<Rightarrow> addr \<Rightarrow>
   ('cb, 'u) uv_loop option" where
  "uv_finish_close call L h = do {
     t \<leftarrow> l_timers L h;
     if \<not> close_pending t then None
     else do {
       L \<leftarrow> uv_handle_unref (set_timer h (t\<lparr>t_flags := t_flags t OR UV_CLOSED\<rparr>) L) h;
       q \<leftarrow> QUEUE_REMOVE h (l_handle_queue L);
       let L = L\<lparr>l_handle_queue := q\<rparr>;
       t \<leftarrow> l_timers L h;
       (case t_close_cb t of None \<Rightarrow> Some L | Some cb \<Rightarrow> call cb h L)
     }
   }"

partial_function (option) closing_loop ::
  "('cb \<Rightarrow> addr \<Rightarrow> ('cb, 'u) uv_loop \<Rightarrow> ('cb, 'u) uv_loop option) \<Rightarrow> addr option \<Rightarrow> ('cb, 'u) uv_loop \<Rightarrow>
   ('cb, 'u) uv_loop option" where
  [code]: "closing_loop call p L = (case p of
     None \<Rightarrow> Some L
   | Some h \<Rightarrow> Option.bind (l_timers L h) (\<lambda>t.
       Option.bind (uv_finish_close call L h) (closing_loop call (t_next_closing t))))"

definition uv_run_closing_handles ::
  "('cb \<Rightarrow> addr \<Rightarrow> ('cb, 'u) uv_loop \<Rightarrow> ('cb, 'u) uv_loop option) \<Rightarrow> ('cb, 'u) uv_loop \<Rightarrow> ('cb, 'u) uv_loop option" where
  "uv_run_closing_handles call L = closing_loop call (l_closing_handles L) (L\<lparr>l_closing_handles := None\<rparr>)"

section \<open>Flags\<close>

lemma flag_or: "(a AND b :: u32) = 0 \<Longrightarrow> (f OR a) AND b = f AND b"
  by (simp add: bit.conj_disj_distrib2)

lemma flag_and_not: "(a AND b :: u32) = 0 \<Longrightarrow> (f AND NOT a) AND b = f AND b"
proof -
  assume z: "a AND b = 0"
  have "b AND NOT a = b"
  proof (rule bit_eqI)
    fix n
    have "bit (a AND b) n = False" using z by simp
    then show "bit (b AND NOT a) n = bit b n"
      by (auto simp: bit_and_iff bit_not_iff dest: bit_imp_le_length)
  qed
  then show ?thesis by (metis and.assoc and.commute)
qed

lemma flag_disjoint [simp]:
  "UV_CLOSING AND UV_HANDLE_ACTIVE = 0" "UV_CLOSED AND UV_HANDLE_ACTIVE = 0" "UV_HANDLE_ACTIVE AND UV_CLOSING = 0"
  "UV_HANDLE_ACTIVE AND UV_CLOSED = 0" "UV_HANDLE_REF AND UV_HANDLE_ACTIVE = 0" "UV_CLOSING AND UV_CLOSED = 0"
  "UV_CLOSING \<noteq> 0"
  by (simp_all add: UV_CLOSING_def UV_CLOSED_def UV_HANDLE_ACTIVE_def UV_HANDLE_REF_def)

lemma closing_flags [simp]:
  "uv_is_active (t\<lparr>t_flags := t_flags t OR UV_CLOSING, t_close_cb := c\<rparr>) = uv_is_active t"
  "uv_is_active (t\<lparr>t_flags := t_flags t OR UV_CLOSED\<rparr>) = uv_is_active t"
  "close_pending (turn_off t) = close_pending t"
  "uv_is_active (t\<lparr>t_flags := t_flags t AND NOT UV_HANDLE_REF\<rparr>) = uv_is_active t"
  by (simp_all add: uv_is_active_def close_pending_def turn_off_def flag_or flag_and_not)

lemma closing_pending: "\<not> uv_is_closing t \<Longrightarrow> close_pending (t\<lparr>t_flags := t_flags t OR UV_CLOSING, t_close_cb := c\<rparr>)"
proof -
  assume "\<not> uv_is_closing t"
  then have "(t_flags t AND UV_CLOSING) OR (t_flags t AND UV_CLOSED) = 0"
    by (simp add: uv_is_closing_def bit.conj_disj_distrib)
  then have "t_flags t AND UV_CLOSED = 0" by (metis or_eq_0_iff)
  moreover have "(t_flags t OR UV_CLOSING) AND UV_CLOSING = UV_CLOSING" by (simp add: or.commute and.commute)
  ultimately show ?thesis by (simp add: close_pending_def flag_or)
qed

section \<open>The closing list\<close>

fun closing_chain :: "(addr \<Rightarrow> 'cb uv_timer option) \<Rightarrow> addr option \<Rightarrow> addr list \<Rightarrow> bool" where
  "closing_chain ts p [] \<longleftrightarrow> p = None"
| "closing_chain ts p (h # hs) \<longleftrightarrow> p = Some h \<and> (\<exists>t. ts h = Some t \<and> close_pending t \<and> \<not> uv_is_active t \<and>
     t_close_cb t \<noteq> None \<and> closing_chain ts (t_next_closing t) hs)"

lemma closing_chain_cong: "(\<And>a. a \<in> set hs \<Longrightarrow> ts' a = ts a) \<Longrightarrow> closing_chain ts' p hs = closing_chain ts p hs"
  by (induction hs arbitrary: p) auto

lemma closing_chain_upd: "h \<notin> set hs \<Longrightarrow> closing_chain (ts(h := x)) p hs = closing_chain ts p hs"
  by (rule closing_chain_cong) auto

lemma close_pending_closing: "close_pending t \<Longrightarrow> uv_is_closing t"
  by (auto simp: close_pending_def uv_is_closing_def bit.conj_disj_distrib or_eq_0_iff)

lemma closing_chain_closing: "closing_chain ts p hs \<Longrightarrow> a \<in> set hs \<Longrightarrow> \<exists>t. ts a = Some t \<and> uv_is_closing t"
  by (induction hs arbitrary: p) (auto dest: close_pending_closing)

lemma timer_inv_cong:
  "l_timers L' = l_timers L \<Longrightarrow> l_heap L' = l_heap L \<Longrightarrow> l_timer_counter L' = l_timer_counter L \<Longrightarrow>
   timer_inv L' = timer_inv L"
  by (simp add: timer_inv_def)

text \<open>Changes of a timer that the loop's heap does not see.\<close>

lemma timer_inv_upd:
  assumes I: "timer_inv L" and t: "l_timers L h = Some t"
    and same: "uv_is_active t' = uv_is_active t" "t_timeout t' = t_timeout t" "t_start_id t' = t_start_id t" "t_cb t' = t_cb t"
  shows "timer_inv (set_timer h t' L)"
proof -
  have K: "timer_key ((l_timers L)(h \<mapsto> t')) = timer_key (l_timers L)"
    using t same by (intro ext) (simp add: timer_key_upd timer_key_def)
  have A: "active_set ((l_timers L)(h \<mapsto> t')) = active_set (l_timers L)"
    using t same by (auto simp: active_set_def split: if_splits)
  have D: "dom ((l_timers L)(h \<mapsto> t')) = dom (l_timers L)" using t by auto
  have sel: "l_timers (set_timer h t' L) = (l_timers L)(h \<mapsto> t')" "l_heap (set_timer h t' L) = l_heap L"
    "l_timer_counter (set_timer h t' L) = l_timer_counter L" by (simp_all add: set_timer_def)
  have "unat (t_start_id u) < unat (l_timer_counter L) \<and> t_cb u \<noteq> None"
    if "((l_timers L)(h \<mapsto> t')) a = Some u" "uv_is_active u" for a u
    using that timer_invD(4,5) [OF I, of a] t same by (auto split: if_splits)
  then show ?thesis using timer_invD(1-3) [OF I] unfolding timer_inv_def sel K A D by blast
qed

definition free_timer :: "addr \<Rightarrow> ('cb, 'u) uv_loop \<Rightarrow> ('cb, 'u) uv_loop" where
  "free_timer h L = L\<lparr>l_timers := (l_timers L)(h := None), l_heap := free_node h (l_heap L),
     l_handle_queue := (l_handle_queue L)(h := None)\<rparr>"

lemma timer_inv_free:
  assumes I: "timer_inv L" and t: "l_timers L h = Some t" "\<not> uv_is_active t"
  shows "timer_inv (free_timer h L)"
proof -
  let ?ts = "(l_timers L)(h := None)"
  have A: "active_set ?ts = active_set (l_timers L)" "h \<notin> active_set (l_timers L)"
    using t by (auto simp: active_set_def split: if_splits)
  have K: "a \<in> active_set (l_timers L) \<Longrightarrow> timer_key ?ts a = timer_key (l_timers L) a" for a
    using A(2) by (auto simp: timer_key_def)
  have "is_heap (timer_key ?ts) (free_node h (l_heap L)) (active_set (l_timers L))"
    using uvh.ok_cong [OF uvh.free_ok [OF timer_invD(2) [OF I] A(2)] K] .
  moreover have "inj_on (\<lambda>a. snd (timer_key ?ts a)) (active_set (l_timers L))"
    using timer_invD(3) [OF I] K by (simp cong: inj_on_cong)
  moreover have "dom ?ts = heap_nodes (free_node h (l_heap L))"
    using timer_invD(1) [OF I] by (simp add: uvh.free_nodes)
  ultimately show ?thesis
    using timer_invD(4,5) [OF I] unfolding timer_inv_def free_timer_def by (simp add: A(1)) blast
qed

lemma uv_close_ok:
  assumes I: "timer_inv L" and t: "l_timers L h = Some t" "\<not> uv_is_closing t"
    and C: "closing_chain (l_timers L) (l_closing_handles L) hs"
  obtains L' t' where "uv_close L h (Some cb) = Some L'" "timer_inv L'" "l_timers L' = (l_timers L)(h \<mapsto> t')"
    "\<not> uv_is_active t'" "t_close_cb t' = Some cb" "closing_chain (l_timers L') (l_closing_handles L') (h # hs)"
    "l_handle_queue L' = l_handle_queue L" "l_user L' = l_user L"
proof -
  define t1 where "t1 = t\<lparr>t_flags := t_flags t OR UV_CLOSING, t_close_cb := Some cb\<rparr>"
  define L1 where "L1 = set_timer h t1 L"
  have I1: "timer_inv L1" unfolding L1_def by (rule timer_inv_upd [OF I t(1)]) (simp_all add: t1_def)
  have ts1: "l_timers L1 = (l_timers L)(h \<mapsto> t1)" by (simp add: L1_def set_timer_def)
  have p1: "close_pending t1" unfolding t1_def by (rule closing_pending [OF t(2)])
  obtain L2 t2 where L2: "uv_timer_close L1 h = Some L2" "timer_inv L2" "l_timers L2 = (l_timers L)(h \<mapsto> t2)"
    "\<not> uv_is_active t2" "close_pending t2" "t_close_cb t2 = Some cb" "l_closing_handles L2 = l_closing_handles L"
    "l_handle_queue L2 = l_handle_queue L" "l_user L2 = l_user L"
  proof (cases "uv_is_active t1")
    case True
    obtain hp where "uv_timer_stop L1 h = Some (0, timer_stopped L1 h t1 hp)" "timer_inv (timer_stopped L1 h t1 hp)"
      using stop_ok [OF I1 _ True, of h] ts1 by auto
    then show ?thesis using that [of "timer_stopped L1 h t1 hp" "turn_off t1"] p1
      by (simp add: uv_timer_close_def timer_stopped_def ts1) (simp add: L1_def set_timer_def t1_def turn_off_def)
  next
    case False
    then have "uv_timer_stop L1 h = Some (0, L1)" using ts1 by (simp add: uv_timer_stop_def)
    then show ?thesis using that [of L1 t1] I1 ts1 False p1
      by (simp add: uv_timer_close_def) (simp add: L1_def set_timer_def t1_def)
  qed
  define t3 where "t3 = t2\<lparr>t_next_closing := l_closing_handles L\<rparr>"
  define L3 where "L3 = (set_timer h t3 L2)\<lparr>l_closing_handles := Some h\<rparr>"
  have same: "uv_is_active t3 = uv_is_active t2" "close_pending t3 = close_pending t2"
    "t_timeout t3 = t_timeout t2" "t_start_id t3 = t_start_id t2" "t_cb t3 = t_cb t2"
    by (simp_all add: t3_def uv_is_active_def close_pending_def)
  have "uv_close L h (Some cb) = Some L3"
    using t L2(1,3,5,7) by (simp add: uv_close_def uv_make_close_pending_def L3_def t3_def t1_def [symmetric] L1_def [symmetric])
  moreover have "timer_inv (set_timer h t3 L2)"
    by (rule timer_inv_upd [OF L2(2)]) (simp_all add: L2(3) same)
  then have "timer_inv L3" using timer_inv_cong [of L3 "set_timer h t3 L2"] by (simp add: L3_def)
  moreover have ts3: "l_timers L3 = (l_timers L)(h \<mapsto> t3)" by (simp add: L3_def set_timer_def L2(3))
  moreover have "h \<notin> set hs" using closing_chain_closing [OF C, of h] t by auto
  then have "closing_chain (l_timers L3) (l_closing_handles L) hs"
    using C by (simp add: ts3 closing_chain_upd)
  then have "closing_chain (l_timers L3) (l_closing_handles L3) (h # hs)"
    using L2(4,5,6) same by (simp add: ts3) (simp add: L3_def t3_def)
  ultimately show ?thesis using that [of L3 t3] same L2(4,6,8,9) by (simp add: L3_def set_timer_def t3_def)
qed

section \<open>Finishing\<close>

lemma finish_close_ok:
  assumes I: "timer_inv L" and R: "ring (l_handle_queue L) HANDLE_QUEUE qs" "h \<in> set qs"
    and t: "l_timers L h = Some t" "close_pending t" "\<not> uv_is_active t" "t_close_cb t = Some cb"
    and call: "\<And>cb h M. call cb h M = Some ((free_timer h M)\<lparr>l_user := g cb h (l_user M)\<rparr>)"
  obtains L' where "uv_finish_close call L h = Some L'" "timer_inv L'" "l_timers L' = (l_timers L)(h := None)"
    "ring (l_handle_queue L') HANDLE_QUEUE (remove1 h qs)" "l_user L' = g cb h (l_user L)"
    "l_closing_handles L' = l_closing_handles L"
proof -
  define t1 where "t1 = t\<lparr>t_flags := t_flags t OR UV_CLOSED\<rparr>"
  define t2 where "t2 = (if uv_has_ref t1 then t1\<lparr>t_flags := t_flags t1 AND NOT UV_HANDLE_REF\<rparr> else t1)"
  define L2 where "L2 = set_timer h t2 L"
  have act: "uv_is_active t1 = uv_is_active t" by (simp add: t1_def)
  have same: "uv_is_active t2 = uv_is_active t" "t_timeout t2 = t_timeout t" "t_start_id t2 = t_start_id t"
    "t_cb t2 = t_cb t" "t_close_cb t2 = t_close_cb t"
    using act by (simp_all add: t2_def) (simp_all add: t1_def)
  have I2: "timer_inv L2" unfolding L2_def by (rule timer_inv_upd [OF I t(1)]) (simp_all add: same)
  have sel: "l_timers L2 = (l_timers L)(h \<mapsto> t2)" "l_handle_queue L2 = l_handle_queue L"
    "l_user L2 = l_user L" "l_closing_handles L2 = l_closing_handles L" by (simp_all add: L2_def set_timer_def)
  have un: "uv_handle_unref (set_timer h t1 L) h = Some L2"
    using t(3) act by (auto simp: uv_handle_unref_def set_timer_def L2_def t2_def)
  obtain q where q: "QUEUE_REMOVE h (l_handle_queue L) = Some q" "ring (q(h := None)) HANDLE_QUEUE (remove1 h qs)"
    using uvq.del_then_free [OF R] by blast
  define L3 where "L3 = L2\<lparr>l_handle_queue := q\<rparr>"
  have I3: "timer_inv L3" using I2 timer_inv_cong [of L3 L2] by (simp add: L3_def)
  have sel3: "l_timers L3 = (l_timers L)(h \<mapsto> t2)" "l_handle_queue L3 = q" "l_user L3 = l_user L"
    "l_closing_handles L3 = l_closing_handles L" using sel by (simp_all add: L3_def)
  define L4 where "L4 = (free_timer h L3)\<lparr>l_user := g cb h (l_user L3)\<rparr>"
  have "uv_finish_close call L h = Some L4"
    using t un q(1) same(5) call [of cb h L3] sel(1,2)
    by (simp add: uv_finish_close_def L4_def L3_def [symmetric] t1_def [symmetric])
  moreover have "timer_inv (free_timer h L3)"
    by (rule timer_inv_free [OF I3, of h t2]) (simp_all add: sel3 same t(3))
  then have "timer_inv L4" using timer_inv_cong [of L4 "free_timer h L3"] by (simp add: L4_def)
  ultimately show ?thesis using that [of L4] q(2) by (simp add: L4_def free_timer_def sel3)
qed

definition invoke_close :: "('cb \<Rightarrow> addr \<Rightarrow> 'u \<Rightarrow> 'u) \<Rightarrow> (addr \<Rightarrow> 'cb uv_timer option) \<Rightarrow> addr \<Rightarrow> 'u \<Rightarrow> 'u" where
  "invoke_close g ts h u = (case Option.bind (ts h) t_close_cb of None \<Rightarrow> u | Some cb \<Rightarrow> g cb h u)"

lemma closing_loop_ok:
  assumes "timer_inv L" "ring (l_handle_queue L) HANDLE_QUEUE qs" "closing_chain (l_timers L) p hs"
    and "distinct hs" "set hs \<subseteq> set qs"
    and call: "\<And>cb h M. call cb h M = Some ((free_timer h M)\<lparr>l_user := g cb h (l_user M)\<rparr>)"
  shows "\<exists>L'. closing_loop call p L = Some L' \<and> timer_inv L' \<and>
    l_timers L' = (\<lambda>a. if a \<in> set hs then None else l_timers L a) \<and>
    ring (l_handle_queue L') HANDLE_QUEUE (filter (\<lambda>a. a \<notin> set hs) qs) \<and>
    l_user L' = fold (invoke_close g (l_timers L)) hs (l_user L) \<and> l_closing_handles L' = l_closing_handles L"
  using assms(1-5)
proof (induction hs arbitrary: L p qs)
  case Nil
  then show ?case by (simp add: closing_loop.simps)
next
  case (Cons h hs)
  obtain t cb where t: "p = Some h" "l_timers L h = Some t" "close_pending t" "\<not> uv_is_active t" "t_close_cb t = Some cb"
    "closing_chain (l_timers L) (t_next_closing t) hs" using Cons.prems(3) by auto
  have h: "h \<in> set qs" "h \<notin> set hs" using Cons.prems(4,5) by auto
  obtain L1 where L1: "uv_finish_close call L h = Some L1" "timer_inv L1" "l_timers L1 = (l_timers L)(h := None)"
    "ring (l_handle_queue L1) HANDLE_QUEUE (remove1 h qs)" "l_user L1 = g cb h (l_user L)"
    "l_closing_handles L1 = l_closing_handles L"
    using finish_close_ok [where call = call and g = g, OF Cons.prems(1,2) h(1) t(2-5)] call by blast
  have dq: "distinct qs" using uvq.distinct [OF Cons.prems(2)] .
  have r: "filter (\<lambda>a. a \<notin> set hs) (remove1 h qs) = filter (\<lambda>a. a \<notin> set (h # hs)) qs"
    using dq by (simp add: distinct_remove1_removeAll removeAll_filter_not_eq) (rule filter_cong, auto)
  have ch: "closing_chain (l_timers L1) (t_next_closing t) hs" using t(6) h(2) by (simp add: L1(3) closing_chain_upd)
  have sub: "set hs \<subseteq> set (remove1 h qs)" using Cons.prems(5) h(2) dq by auto
  obtain L' where L': "closing_loop call (t_next_closing t) L1 = Some L'" "timer_inv L'"
    "l_timers L' = (\<lambda>a. if a \<in> set hs then None else l_timers L1 a)"
    "ring (l_handle_queue L') HANDLE_QUEUE (filter (\<lambda>a. a \<notin> set hs) (remove1 h qs))"
    "l_user L' = fold (invoke_close g (l_timers L1)) hs (l_user L1)" "l_closing_handles L' = l_closing_handles L1"
    using Cons.IH [OF L1(2,4) ch] Cons.prems(4) sub by auto
  have "closing_loop call p L = Some L'"
    using t(1,2) L1(1) L'(1) by (subst closing_loop.simps) simp
  moreover have "fold (invoke_close g (l_timers L1)) hs u = fold (invoke_close g (l_timers L)) hs u" for u
    using h(2) by (intro List.fold_cong refl) (auto simp: invoke_close_def L1(3) fun_eq_iff)
  then have "l_user L' = fold (invoke_close g (l_timers L)) (h # hs) (l_user L)"
    using L'(5) L1(5) t(2,5) by (simp add: invoke_close_def)
  moreover have "l_timers L' = (\<lambda>a. if a \<in> set (h # hs) then None else l_timers L a)"
    unfolding L'(3) L1(3) by (rule ext) simp
  moreover note L'(2) L'(4) [unfolded r] trans [OF L'(6) L1(6)]
  ultimately show ?case by (intro exI [of _ L'] conjI)
qed

text \<open>C12. Closing a timer is safe at any time. \<^verbatim>\<open>uv_close\<close> of a timer of the loop that is not being closed yet, active or
  not, returns, and the timer will not fire; once the loop runs \<^verbatim>\<open>uv__run_closing_handles\<close>, the close callbacks of this timer and of all
  those closed before it run exactly once each, the last closed first, and although every callback
  frees its timer, no freed memory is touched: the other timers are unchanged and in order, the loop's queue of
  handles holds exactly the others, and nothing is left to close.\<close>

theorem timer_close_safe:
  fixes L :: "('cb, 'u) uv_loop"
  assumes "timer_inv L" "ring (l_handle_queue L) HANDLE_QUEUE qs"
    and "closing_chain (l_timers L) (l_closing_handles L) hs" "distinct hs" "set (h # hs) \<subseteq> set qs"
    and "l_timers L h = Some t" "\<not> uv_is_closing t"
    and "\<And>cb h M. call cb h M = Some ((free_timer h M)\<lparr>l_user := g cb h (l_user M)\<rparr>)"
  shows "\<exists>L1 L2. uv_close L h (Some cb) = Some L1 \<and> timer_inv L1 \<and> h \<notin> active_set (l_timers L1) \<and>
    uv_run_closing_handles call L1 = Some L2 \<and> timer_inv L2 \<and>
    l_user L2 = fold (invoke_close g (l_timers L)) hs (g cb h (l_user L)) \<and>
    l_timers L2 = (\<lambda>a. if a \<in> set (h # hs) then None else l_timers L a) \<and>
    ring (l_handle_queue L2) HANDLE_QUEUE (filter (\<lambda>a. a \<notin> set (h # hs)) qs) \<and> l_closing_handles L2 = None"
proof -
  obtain L1 t' where c: "uv_close L h (Some cb) = Some L1" "timer_inv L1" "l_timers L1 = (l_timers L)(h \<mapsto> t')"
    "\<not> uv_is_active t'" "t_close_cb t' = Some cb" "closing_chain (l_timers L1) (l_closing_handles L1) (h # hs)"
    "l_handle_queue L1 = l_handle_queue L" "l_user L1 = l_user L"
    using uv_close_ok [OF assms(1,6,7,3)] by blast
  define La where "La = L1\<lparr>l_closing_handles := None\<rparr>"
  have sel: "l_timers La = l_timers L1" "l_user La = l_user L1" "l_closing_handles La = None"
    "l_handle_queue La = l_handle_queue L" using c(7) by (simp_all add: La_def)
  have h: "h \<notin> set hs" using closing_chain_closing [OF assms(3), of h] assms(6,7) by auto
  have I: "timer_inv La" using c(2) timer_inv_cong [of La L1] by (simp add: La_def)
  have pre: "ring (l_handle_queue La) HANDLE_QUEUE qs" "closing_chain (l_timers La) (l_closing_handles L1) (h # hs)"
    "distinct (h # hs)" using assms(2,4) c(6) h by (simp_all only: sel distinct.simps simp_thms)
  obtain L2 where L2: "closing_loop call (l_closing_handles L1) La = Some L2" "timer_inv L2"
    "l_timers L2 = (\<lambda>a. if a \<in> set (h # hs) then None else l_timers L1 a)"
    "ring (l_handle_queue L2) HANDLE_QUEUE (filter (\<lambda>a. a \<notin> set (h # hs)) qs)"
    "l_user L2 = fold (invoke_close g (l_timers L1)) (h # hs) (l_user L1)" "l_closing_handles L2 = None"
    using closing_loop_ok [where call = call and g = g, OF I pre assms(5)] assms(8) unfolding sel by blast
  have "fold (invoke_close g (l_timers L1)) hs u = fold (invoke_close g (l_timers L)) hs u" for u
    using h by (intro List.fold_cong refl) (auto simp: invoke_close_def c(3) fun_eq_iff)
  then have "l_user L2 = fold (invoke_close g (l_timers L)) hs (g cb h (l_user L))"
    using L2(5) c(3,5,8) by (simp add: invoke_close_def)
  moreover have "l_timers L2 = (\<lambda>a. if a \<in> set (h # hs) then None else l_timers L a)"
    unfolding L2(3) c(3) by (rule ext) simp
  moreover have "h \<notin> active_set (l_timers L1)" using c(3,4) by (auto simp: active_set_def)
  ultimately show ?thesis using c(1,2) L2(1,2,4,6) unfolding uv_run_closing_handles_def La_def by blast
qed

theorem timer_close_safe_witness:
  "\<exists>L L1 L2. sample_started = Some L \<and> uv_close L 1 (Some ()) = Some L1 \<and>
    uv_run_closing_handles (\<lambda>_ h M. Some ((free_timer h M)\<lparr>l_user := l_user M @ [h]\<rparr>)) L1 = Some L2 \<and>
    l_user L2 = [1] \<and> ring (l_handle_queue L2) HANDLE_QUEUE [2, 3]"
proof -
  let ?g = "\<lambda>_ h u. u @ [h :: addr]"
  obtain L where L: "sample_started = Some L" "timer_inv L" "l_user L = []" "l_handle_queue L = sample_ring"
    "l_closing_handles L = None" "l_timers L 1 = Some (armed sample_loop sample_timer () 5 0)"
    by (rule sample_started_ok [of ?g]) blast
  have R: "ring (l_handle_queue L) HANDLE_QUEUE [1, 2, 3]"
    by (simp add: L(4) ring_def HANDLE_QUEUE_def sample_ring_def)
  have C: "closing_chain (l_timers L) (l_closing_handles L) []" using L(5) by simp
  have O: "\<not> uv_is_closing (armed sample_loop sample_timer () 5 0)"
    by (simp add: uv_is_closing_def armed_def turn_on_def sample_timer_def UV_CLOSING_def UV_CLOSED_def
        UV_HANDLE_REF_def UV_HANDLE_ACTIVE_def)
  obtain L1 L2 where "uv_close L 1 (Some ()) = Some L1"
    "uv_run_closing_handles (\<lambda>_ h M. Some ((free_timer h M)\<lparr>l_user := l_user M @ [h]\<rparr>)) L1 = Some L2"
    "l_user L2 = [1]" "ring (l_handle_queue L2) HANDLE_QUEUE [2, 3]"
    using timer_close_safe [OF L(2) R C _ _ L(6) O,
        of "\<lambda>_ h M. Some ((free_timer h M)\<lparr>l_user := l_user M @ [h]\<rparr>)" ?g "()"] L(3) by auto
  then show ?thesis using L(1) by blast
qed

end
