(* ===== verification/Uv_Async.thy ===== *)
theory Uv_Async
  imports Uv_Timer
begin

text \<open>
  The async handles of libuv, \<^verbatim>\<open>src/third/libuv/src/unix/async.c\<close>, by which the calling threads of the library
  reach the loop: \<^verbatim>\<open>uv_async_send\<close> sets the pending flag of a handle and writes to the eventfd the loop polls,
  \<^verbatim>\<open>uv__async_event\<close> walks the loop's list of handles and calls back those whose flag is set.

  Shown here: one pass over the handles returns, calls back the pending ones once each and in the order of the list,
  and leaves in the list exactly those whose callback has not closed them. \<^verbatim>\<open>Uv_Wakeup\<close> puts the
  operations under threads.

  The kernel's part is the counter of the eventfd: a write adds 1 unless the counter is at its maximum, a read
  returns it and sets it to 0. Memory accesses are sequentially consistent.
\<close>

unbundle bit_operations_syntax

section \<open>The operations\<close>

record 'cb uv_async =
  a_cb :: "'cb option"
  a_pending :: int
  a_flags :: u32

record ('cb, 'u) async_loop =
  as_handle_queue :: qmem
  as_queue :: qmem
  as_handles :: "addr \<Rightarrow> 'cb uv_async option"
  as_active_handles :: u32
  as_fd :: nat
  as_user :: 'u

text \<open>The heads of \<^verbatim>\<open>loop->async_handles\<close> and of the local \<^verbatim>\<open>queue\<close> of \<^verbatim>\<open>uv__async_event\<close>.\<close>

definition ASYNC_HANDLES :: addr where "ASYNC_HANDLES = 0"
definition LOCAL_QUEUE :: addr where "LOCAL_QUEUE = 1"

text \<open>The old value and the new one.\<close>

definition cmpxchgi :: "int \<Rightarrow> int \<Rightarrow> int \<Rightarrow> int \<times> int" where
  "cmpxchgi v oldval newval = (v, if v = oldval then newval else v)"

definition set_async :: "addr \<Rightarrow> 'cb uv_async \<Rightarrow> ('cb, 'u) async_loop \<Rightarrow> ('cb, 'u) async_loop" where
  "set_async h a L = L\<lparr>as_handles := (as_handles L)(h \<mapsto> a)\<rparr>"

text \<open>\<open>err\<close> is the result of \<^verbatim>\<open>uv__async_start\<close>, which opens the eventfd on the first call.\<close>

definition uv_async_init ::
  "int \<Rightarrow> ('cb, 'u) async_loop \<Rightarrow> addr \<Rightarrow> 'cb option \<Rightarrow> (int \<times> ('cb, 'u) async_loop) option" where
  "uv_async_init err L h cb =
     (if err \<noteq> 0 then Some (err, L)
      else do {
        a \<leftarrow> as_handles L h;
        hq \<leftarrow> QUEUE_INSERT_TAIL HANDLE_QUEUE h (as_handle_queue L);
        q \<leftarrow> QUEUE_INSERT_TAIL ASYNC_HANDLES h (as_queue L);
        let L = set_async h (a\<lparr>a_cb := cb, a_pending := 0, a_flags := UV_HANDLE_REF OR UV_HANDLE_ACTIVE\<rparr>) L;
        Some (0, L\<lparr>as_handle_queue := hq, as_queue := q, as_active_handles := as_active_handles L + 1\<rparr>)
      })"

text \<open>\<^verbatim>\<open>uv__async_send\<close> on Linux: the write to the eventfd.\<close>

definition uv_async_wake :: "nat \<Rightarrow> nat" where
  "uv_async_wake fd = (if fd < 2 ^ 64 - 2 then fd + 1 else fd)"

text \<open>
  The accesses of \<^verbatim>\<open>uv_async_send\<close> to the handle, each of which another thread can come before: the first read, the
  compare and swap, and the read of \<^verbatim>\<open>handle->loop\<close> for the write. Each fails if the handle is not in memory.
\<close>

definition send_check :: "('cb, 'u) async_loop \<Rightarrow> addr \<Rightarrow> bool option" where
  "send_check L h = map_option (\<lambda>a. a_pending a \<noteq> 0) (as_handles L h)"

definition send_cas :: "('cb, 'u) async_loop \<Rightarrow> addr \<Rightarrow> (bool \<times> ('cb, 'u) async_loop) option" where
  "send_cas L h = map_option (\<lambda>a. let (old, new) = cmpxchgi (a_pending a) 0 1
     in (old = 0, set_async h (a\<lparr>a_pending := new\<rparr>) L)) (as_handles L h)"

definition send_wake :: "('cb, 'u) async_loop \<Rightarrow> addr \<Rightarrow> ('cb, 'u) async_loop option" where
  "send_wake L h = map_option (\<lambda>_. L\<lparr>as_fd := uv_async_wake (as_fd L)\<rparr>) (as_handles L h)"

definition uv_async_send :: "('cb, 'u) async_loop \<Rightarrow> addr \<Rightarrow> (int \<times> ('cb, 'u) async_loop) option" where
  "uv_async_send L h = do {
     pending \<leftarrow> send_check L h;
     if pending then Some (0, L)
     else do {
       (won, L) \<leftarrow> send_cas L h;
       L \<leftarrow> (if won then send_wake L h else Some L);
       Some (0, L)
     }
   }"

definition uv_async_close :: "('cb, 'u) async_loop \<Rightarrow> addr \<Rightarrow> ('cb, 'u) async_loop option" where
  "uv_async_close L h = do {
     q \<leftarrow> QUEUE_REMOVE h (as_queue L);
     a \<leftarrow> as_handles L h;
     let L = L\<lparr>as_queue := q\<rparr>;
     if a_flags a AND UV_HANDLE_ACTIVE = 0 then Some L
     else Some (let L = set_async h (a\<lparr>a_flags := a_flags a AND NOT UV_HANDLE_ACTIVE\<rparr>) L
                in if a_flags a AND UV_HANDLE_REF \<noteq> 0 then L\<lparr>as_active_handles := as_active_handles L - 1\<rparr> else L)
   }"

text \<open>One turn of the loop of \<^verbatim>\<open>uv__async_event\<close>, and the loop.\<close>

definition async_visit ::
  "('cb \<Rightarrow> addr \<Rightarrow> ('cb, 'u) async_loop \<Rightarrow> ('cb, 'u) async_loop option) \<Rightarrow> ('cb, 'u) async_loop \<Rightarrow>
   ('cb, 'u) async_loop option" where
  "async_visit call L = do {
     h \<leftarrow> QUEUE_HEAD (as_queue L) LOCAL_QUEUE;
     q \<leftarrow> QUEUE_REMOVE h (as_queue L);
     q \<leftarrow> QUEUE_INSERT_TAIL ASYNC_HANDLES h q;
     a \<leftarrow> as_handles L h;
     let (old, new) = cmpxchgi (a_pending a) 1 0;
         L = set_async h (a\<lparr>a_pending := new\<rparr>) (L\<lparr>as_queue := q\<rparr>)
     in if old = 0 then Some L
        else (case a_cb a of None \<Rightarrow> Some L | Some cb \<Rightarrow> call cb h L)
   }"

partial_function (option) event_loop ::
  "('cb \<Rightarrow> addr \<Rightarrow> ('cb, 'u) async_loop \<Rightarrow> ('cb, 'u) async_loop option) \<Rightarrow> ('cb, 'u) async_loop \<Rightarrow>
   ('cb, 'u) async_loop option" where
  [code]: "event_loop call L = Option.bind (QUEUE_EMPTY (as_queue L) LOCAL_QUEUE) (\<lambda>e.
     if e then Some L else Option.bind (async_visit call L) (event_loop call))"

definition uv_async_event ::
  "('cb \<Rightarrow> addr \<Rightarrow> ('cb, 'u) async_loop \<Rightarrow> ('cb, 'u) async_loop option) \<Rightarrow> ('cb, 'u) async_loop \<Rightarrow>
   ('cb, 'u) async_loop option" where
  "uv_async_event call L = do {
     q \<leftarrow> QUEUE_MOVE ASYNC_HANDLES LOCAL_QUEUE (as_queue L);
     event_loop call (L\<lparr>as_queue := q\<rparr>)
   }"

text \<open>\<^verbatim>\<open>uv__async_io\<close>: the eventfd is read, which must give 8 bytes, then the handles are looked at.\<close>

definition uv_async_io ::
  "('cb \<Rightarrow> addr \<Rightarrow> ('cb, 'u) async_loop \<Rightarrow> ('cb, 'u) async_loop option) \<Rightarrow> ('cb, 'u) async_loop \<Rightarrow>
   ('cb, 'u) async_loop option" where
  "uv_async_io call L = (if as_fd L = 0 then None else uv_async_event call (L\<lparr>as_fd := 0\<rparr>))"

section \<open>One pass over the handles\<close>

definition is_pending :: "(addr \<Rightarrow> 'cb uv_async option) \<Rightarrow> addr \<Rightarrow> bool" where
  "is_pending as h = (case as h of None \<Rightarrow> False | Some a \<Rightarrow> a_pending a \<noteq> 0)"

definition has_callback :: "('cb \<Rightarrow> bool) \<Rightarrow> (addr \<Rightarrow> 'cb uv_async option) \<Rightarrow> addr \<Rightarrow> bool" where
  "has_callback P as h = (case Option.bind (as h) a_cb of None \<Rightarrow> False | Some cb \<Rightarrow> P cb)"

definition invoke_async :: "('cb \<Rightarrow> addr \<Rightarrow> 'u \<Rightarrow> 'u) \<Rightarrow> (addr \<Rightarrow> 'cb uv_async option) \<Rightarrow> addr \<Rightarrow> 'u \<Rightarrow> 'u" where
  "invoke_async g as h u = (case Option.bind (as h) a_cb of None \<Rightarrow> u | Some cb \<Rightarrow> g cb h u)"

text \<open>A callback that changes the program's state and, if \<open>closes\<close> says so, closes its handle, as the callback of the library does.\<close>

definition async_call ::
  "('cb \<Rightarrow> bool) \<Rightarrow> ('cb \<Rightarrow> addr \<Rightarrow> 'u \<Rightarrow> 'u) \<Rightarrow> 'cb \<Rightarrow> addr \<Rightarrow> ('cb, 'u) async_loop \<Rightarrow> ('cb, 'u) async_loop option" where
  "async_call closes g cb h L =
     map_option (\<lambda>L. L\<lparr>as_user := g cb h (as_user L)\<rparr>) (if closes cb then uv_async_close L h else Some L)"

definition two_lists :: "('cb, 'u) async_loop \<Rightarrow> addr list \<Rightarrow> addr list \<Rightarrow> bool" where
  "two_lists L ys zs \<longleftrightarrow> ring (as_queue L) ASYNC_HANDLES ys \<and> ring (as_queue L) LOCAL_QUEUE zs \<and>
     set (ASYNC_HANDLES # ys) \<inter> set (LOCAL_QUEUE # zs) = {}"

definition flags_ok :: "('cb, 'u) async_loop \<Rightarrow> addr list \<Rightarrow> bool" where
  "flags_ok L zs \<longleftrightarrow> (\<forall>h\<in>set zs. \<exists>a. as_handles L h = Some a \<and> a_pending a \<in> {0, 1})"

lemma take_one:
  assumes "two_lists L ys (h # zs)"
  obtains q q' where "QUEUE_EMPTY (as_queue L) LOCAL_QUEUE = Some False" "QUEUE_HEAD (as_queue L) LOCAL_QUEUE = Some h"
    "QUEUE_REMOVE h (as_queue L) = Some q" "QUEUE_INSERT_TAIL ASYNC_HANDLES h q = Some q'"
    "two_lists (L\<lparr>as_queue := q'\<rparr>) (ys @ [h]) zs"
proof -
  have R: "ring (as_queue L) ASYNC_HANDLES ys" "ring (as_queue L) LOCAL_QUEUE ([] @ h # zs)"
    "set (ASYNC_HANDLES # ys) \<inter> set (LOCAL_QUEUE # h # zs) = {}" using assms by (simp_all add: two_lists_def)
  have dz: "h \<noteq> LOCAL_QUEUE" "h \<notin> set zs" "LOCAL_QUEUE \<notin> set zs" using R(2) by (auto simp: ring_def)
  have hd: "h \<in> dom (as_queue L)" using ring_dom [OF R(2)] by auto
  obtain q where q: "QUEUE_REMOVE h (as_queue L) = Some q" "ring q LOCAL_QUEUE ([] @ zs)" "dom q = dom (as_queue L)"
    "\<And>a. a \<notin> set (LOCAL_QUEUE # [] @ zs) \<Longrightarrow> QUEUE_NEXT q a = QUEUE_NEXT (as_queue L) a \<and> QUEUE_PREV q a = QUEUE_PREV (as_queue L) a"
    using queue_remove [OF R(2)] by metis
  have Q: "ring q ASYNC_HANDLES ys" by (rule ring_disjoint [where S = "set (LOCAL_QUEUE # [] @ zs)", OF R(1) q(4)]) (use R(3) in auto)
  have h: "h \<notin> set (ASYNC_HANDLES # ys)" "h \<in> dom q" using R(3) hd q(3) by auto
  obtain q' where q': "QUEUE_INSERT_TAIL ASYNC_HANDLES h q = Some q'" "ring q' ASYNC_HANDLES (ys @ [h])"
    "\<And>a. a \<notin> set (h # ASYNC_HANDLES # ys) \<Longrightarrow> QUEUE_NEXT q' a = QUEUE_NEXT q a \<and> QUEUE_PREV q' a = QUEUE_PREV q a"
    using queue_insert_tail [OF Q h] by metis
  have "ring q' LOCAL_QUEUE zs" by (rule ring_disjoint [where S = "set (h # ASYNC_HANDLES # ys)", OF _ q'(3)]) (use q(2) R(3) dz in auto)
  then have "two_lists (L\<lparr>as_queue := q'\<rparr>) (ys @ [h]) zs" using q'(2) R(3) dz by (auto simp: two_lists_def)
  then show ?thesis using that q(1) q'(1) queue_empty [of _ _ "h # zs"] queue_head [of _ _ h zs] R(2) by simp
qed

lemma close_ok:
  assumes "two_lists L (ys @ [h]) zs" "as_handles L h = Some a"
  obtains L' a' where "uv_async_close L h = Some L'" "two_lists L' ys zs" "as_handles L' = (as_handles L)(h \<mapsto> a')"
    "a_pending a' = a_pending a" "a_cb a' = a_cb a" "as_user L' = as_user L" "as_fd L' = as_fd L"
proof -
  have R: "ring (as_queue L) ASYNC_HANDLES (ys @ h # [])" "ring (as_queue L) LOCAL_QUEUE zs"
    "set (ASYNC_HANDLES # ys @ [h]) \<inter> set (LOCAL_QUEUE # zs) = {}" using assms by (simp_all add: two_lists_def)
  obtain q where q: "QUEUE_REMOVE h (as_queue L) = Some q" "ring q ASYNC_HANDLES (ys @ [])"
    "\<And>a. a \<notin> set (ASYNC_HANDLES # ys @ []) \<Longrightarrow> QUEUE_NEXT q a = QUEUE_NEXT (as_queue L) a \<and> QUEUE_PREV q a = QUEUE_PREV (as_queue L) a"
    using queue_remove [OF R(1)] by metis
  have "ring q LOCAL_QUEUE zs" by (rule ring_disjoint [where S = "set (ASYNC_HANDLES # ys @ [])", OF R(2) q(3)]) (use R(3) in auto)
  then have l: "two_lists L' ys zs" if "as_queue L' = q" for L' :: "('a, 'b) async_loop"
    using that q(2) R(3) by (auto simp: two_lists_def)
  show ?thesis
  proof (cases "a_flags a AND UV_HANDLE_ACTIVE = 0")
    case True
    show ?thesis by (rule that [of "L\<lparr>as_queue := q\<rparr>" a])
        (use q(1) assms(2) True l in \<open>simp_all add: uv_async_close_def map_upd_triv\<close>)
  next
    case False
    define L' where "L' = (let L = set_async h (a\<lparr>a_flags := a_flags a AND NOT UV_HANDLE_ACTIVE\<rparr>) (L\<lparr>as_queue := q\<rparr>)
      in if a_flags a AND UV_HANDLE_REF \<noteq> 0 then L\<lparr>as_active_handles := as_active_handles L - 1\<rparr> else L)"
    have "uv_async_close L h = Some L'"
      using q(1) assms(2) False by (simp add: uv_async_close_def L'_def Let_def)
    moreover have "as_queue L' = q" "as_handles L' = (as_handles L)(h \<mapsto> a\<lparr>a_flags := a_flags a AND NOT UV_HANDLE_ACTIVE\<rparr>)"
      "as_user L' = as_user L" "as_fd L' = as_fd L" by (simp_all add: L'_def set_async_def Let_def)
    ultimately show ?thesis using l by (intro that [of L' "a\<lparr>a_flags := a_flags a AND NOT UV_HANDLE_ACTIVE\<rparr>"]) simp_all
  qed
qed

text \<open>What one turn does to the handle at the head of the local list.\<close>

lemma visit_ok:
  assumes W: "two_lists L ys (h # zs)" and a: "as_handles L h = Some a" "a_pending a \<in> {0, 1}"
  obtains L' a' where "async_visit (async_call closes g) L = Some L'"
    "two_lists L' (if is_pending (as_handles L) h \<and> has_callback closes (as_handles L) h then ys else ys @ [h]) zs"
    "as_handles L' = (as_handles L)(h \<mapsto> a')" "a_pending a' = 0" "a_cb a' = a_cb a" "as_fd L' = as_fd L"
    "as_user L' = (if is_pending (as_handles L) h then invoke_async g (as_handles L) h (as_user L) else as_user L)"
proof -
  obtain q q' where q: "QUEUE_EMPTY (as_queue L) LOCAL_QUEUE = Some False" "QUEUE_HEAD (as_queue L) LOCAL_QUEUE = Some h"
    "QUEUE_REMOVE h (as_queue L) = Some q" "QUEUE_INSERT_TAIL ASYNC_HANDLES h q = Some q'"
    "two_lists (L\<lparr>as_queue := q'\<rparr>) (ys @ [h]) zs" by (rule take_one [OF W])
  define L1 where "L1 = set_async h (a\<lparr>a_pending := 0\<rparr>) (L\<lparr>as_queue := q'\<rparr>)"
  have sel: "as_handles L1 = (as_handles L)(h \<mapsto> a\<lparr>a_pending := 0\<rparr>)" "as_user L1 = as_user L" "as_fd L1 = as_fd L"
    by (simp_all add: L1_def set_async_def)
  have W1: "two_lists L1 (ys @ [h]) zs" using q(5) by (simp add: two_lists_def L1_def set_async_def)
  have E: "async_visit (async_call closes g) L =
    (if a_pending a = 0 then Some L1 else (case a_cb a of None \<Rightarrow> Some L1 | Some cb \<Rightarrow> async_call closes g cb h L1))"
  proof (cases "a_pending a = 0")
    case True
    then have "a\<lparr>a_pending := 0\<rparr> = a" by simp
    then show ?thesis using q(2-4) a(1) True by (simp add: async_visit_def cmpxchgi_def L1_def)
  next
    case False
    then have "a_pending a = 1" using a(2) by simp
    then show ?thesis using q(2-4) a(1) by (cases "a_cb a") (simp_all add: async_visit_def cmpxchgi_def L1_def Let_def)
  qed
  show ?thesis
  proof (cases "a_pending a \<noteq> 0 \<and> a_cb a \<noteq> None")
    case False
    then have "async_visit (async_call closes g) L = Some L1" using E by (auto split: option.splits)
    then show ?thesis using that [of L1 "a\<lparr>a_pending := 0\<rparr>"] W1 sel a(1) False
      by (auto simp: is_pending_def has_callback_def invoke_async_def)
  next
    case True
    then obtain cb where cb: "a_cb a = Some cb" by auto
    have R: "async_visit (async_call closes g) L = async_call closes g cb h L1"
      using E True cb by simp
    show ?thesis
    proof (cases "closes cb")
      case False
      show ?thesis
        by (rule that [of "L1\<lparr>as_user := g cb h (as_user L1)\<rparr>" "a\<lparr>a_pending := 0\<rparr>"])
          (use R False True cb W1 sel a(1) in
            \<open>simp_all add: async_call_def is_pending_def has_callback_def invoke_async_def two_lists_def\<close>)
    next
      case clo: True
      obtain L2 a2 where c: "uv_async_close L1 h = Some L2" "two_lists L2 ys zs" "as_handles L2 = (as_handles L1)(h \<mapsto> a2)"
        "a_pending a2 = 0" "a_cb a2 = a_cb a" "as_user L2 = as_user L1" "as_fd L2 = as_fd L1"
        using close_ok [OF W1, of "a\<lparr>a_pending := 0\<rparr>"] sel(1) by auto
      show ?thesis
        by (rule that [of "L2\<lparr>as_user := g cb h (as_user L2)\<rparr>" a2])
          (use R clo True cb c sel a(1) in
            \<open>simp_all add: async_call_def is_pending_def has_callback_def invoke_async_def two_lists_def\<close>)
    qed
  qed
qed

text \<open>The outcome of a pass over the handles \<open>zs\<close> with flags as in \<open>as\<close>.\<close>

definition passed ::
  "('cb \<Rightarrow> bool) \<Rightarrow> ('cb \<Rightarrow> addr \<Rightarrow> 'u \<Rightarrow> 'u) \<Rightarrow> ('cb, 'u) async_loop \<Rightarrow> addr list \<Rightarrow> ('cb, 'u) async_loop \<Rightarrow> bool" where
  "passed closes g L zs L' \<longleftrightarrow>
     as_user L' = fold (invoke_async g (as_handles L)) (filter (is_pending (as_handles L)) zs) (as_user L) \<and>
     (\<forall>h\<in>set zs. \<exists>a. as_handles L' h = Some a \<and> a_pending a = 0) \<and>
     (\<forall>h. h \<notin> set zs \<longrightarrow> as_handles L' h = as_handles L h) \<and> as_fd L' = as_fd L"

definition staying :: "('cb \<Rightarrow> bool) \<Rightarrow> (addr \<Rightarrow> 'cb uv_async option) \<Rightarrow> addr list \<Rightarrow> addr list" where
  "staying closes as zs = filter (\<lambda>h. \<not> (is_pending as h \<and> has_callback closes as h)) zs"

lemma flag_cong:
  assumes "\<And>h. h \<in> set zs \<Longrightarrow> as' h = as h"
  shows "filter (is_pending as') zs = filter (is_pending as) zs" "staying closes as' zs = staying closes as zs"
    "fold (invoke_async g as') (filter P zs) u = fold (invoke_async g as) (filter P zs) u"
  using assms by (auto simp: is_pending_def staying_def has_callback_def invoke_async_def fun_eq_iff
      intro!: filter_cong List.fold_cong)

lemma event_loop_ok:
  assumes "two_lists L ys zs" "flags_ok L zs"
  shows "\<exists>L'. event_loop (async_call closes g) L = Some L' \<and>
    two_lists L' (ys @ staying closes (as_handles L) zs) [] \<and> passed closes g L zs L'"
  using assms
proof (induction zs arbitrary: L ys)
  case Nil
  then have "QUEUE_EMPTY (as_queue L) LOCAL_QUEUE = Some True"
    using queue_empty [of "as_queue L" LOCAL_QUEUE "[]"] by (simp add: two_lists_def)
  then show ?case using Nil(1) by (simp add: event_loop.simps passed_def staying_def)
next
  case (Cons h zs)
  obtain a where a: "as_handles L h = Some a" "a_pending a \<in> {0, 1}" using Cons.prems(2) by (auto simp: flags_ok_def)
  obtain L1 a1 where L1: "async_visit (async_call closes g) L = Some L1"
    "two_lists L1 (if is_pending (as_handles L) h \<and> has_callback closes (as_handles L) h then ys else ys @ [h]) zs"
    "as_handles L1 = (as_handles L)(h \<mapsto> a1)" "a_pending a1 = 0" "a_cb a1 = a_cb a" "as_fd L1 = as_fd L"
    "as_user L1 = (if is_pending (as_handles L) h then invoke_async g (as_handles L) h (as_user L) else as_user L)"
    using visit_ok [OF Cons.prems(1) a, of closes g] by blast
  have ne: "QUEUE_EMPTY (as_queue L) LOCAL_QUEUE = Some False"
    using queue_empty [of "as_queue L" LOCAL_QUEUE "h # zs"] Cons.prems(1) by (simp add: two_lists_def)
  have h: "h \<notin> set zs" using Cons.prems(1) by (auto simp: two_lists_def ring_def)
  have same: "as_handles L1 x = as_handles L x" if "x \<in> set zs" for x using that h L1(3) by auto
  note cong = flag_cong [of zs "as_handles L1" "as_handles L", OF same]
  have "flags_ok L1 zs" using Cons.prems(2) same by (auto simp: flags_ok_def)
  from Cons.IH [OF L1(2) this] obtain L' where L': "event_loop (async_call closes g) L1 = Some L'"
    "two_lists L' ((if is_pending (as_handles L) h \<and> has_callback closes (as_handles L) h then ys else ys @ [h]) @
      staying closes (as_handles L1) zs) []" "passed closes g L1 zs L'" by blast
  have "two_lists L' (ys @ staying closes (as_handles L) (h # zs)) []"
    using L'(2) cong(2) [of closes]
    by (cases "is_pending (as_handles L) h \<and> has_callback closes (as_handles L) h") (simp_all add: staying_def)
  moreover have "as_handles L' h = Some a1" using L'(3) h L1(3) by (simp add: passed_def)
  then have "passed closes g L (h # zs) L'"
    using L'(3) L1(3,4,6,7) cong(1) cong(3) [of g]
    by (auto simp: passed_def)
  moreover have "event_loop (async_call closes g) L = Some L'"
    using ne L1(1) L'(1) by (subst event_loop.simps) simp
  ultimately show ?case by blast
qed

lemma async_event_ok:
  assumes R: "ring (as_queue L) ASYNC_HANDLES xs" and l: "LOCAL_QUEUE \<in> dom (as_queue L)" "LOCAL_QUEUE \<notin> set xs"
    and f: "flags_ok L xs"
  shows "\<exists>L'. uv_async_event (async_call closes g) L = Some L' \<and>
    ring (as_queue L') ASYNC_HANDLES (staying closes (as_handles L) xs) \<and> passed closes g L xs L'"
proof -
  have n: "LOCAL_QUEUE \<notin> set (ASYNC_HANDLES # xs)" using l(2) by (simp add: LOCAL_QUEUE_def ASYNC_HANDLES_def)
  obtain q where q: "QUEUE_MOVE ASYNC_HANDLES LOCAL_QUEUE (as_queue L) = Some q" "ring q ASYNC_HANDLES []" "ring q LOCAL_QUEUE xs"
    by (rule queue_move [OF R n l(1)])
  define L1 where "L1 = L\<lparr>as_queue := q\<rparr>"
  have "ASYNC_HANDLES \<notin> set xs" using R by (simp add: ring_def)
  then have "two_lists L1 [] xs" using q(2,3) n by (auto simp: two_lists_def L1_def)
  moreover have "flags_ok L1 xs" using f by (simp add: flags_ok_def L1_def)
  ultimately obtain L' where "event_loop (async_call closes g) L1 = Some L'"
    "two_lists L' ([] @ staying closes (as_handles L1) xs) []" "passed closes g L1 xs L'"
    using event_loop_ok by blast
  then show ?thesis using q(1) by (auto simp: uv_async_event_def two_lists_def passed_def L1_def)
qed

end
