(* ===== verification/Uv_Wakeup.thy ===== *)
theory Uv_Wakeup
  imports Uv_Async
begin

text \<open>
  The async handles of \<^verbatim>\<open>Uv_Async\<close> under threads. Any number of threads call \<^verbatim>\<open>uv_async_send\<close> while the loop
  reads its eventfd, walks its handles and frees the closed ones; a step is one access of a sender or one
  step of the loop. Handles are made before, callbacks may close their handle, memory is sequentially consistent.

  Three things are shown. No send is lost, and a callback only follows a send.
  \<^verbatim>\<open>uv_async_send\<close> may read a handle its callback has already freed. And \<^verbatim>\<open>uv_async_init\<close>, which the library
  calls on the threads of its callers without a lock, may leave one of two new handles out of the list, so that the loop never
  calls it back.
\<close>

section \<open>Senders and the loop\<close>

text \<open>Where a thread is in \<^verbatim>\<open>uv_async_send\<close>.\<close>

datatype send_pc = Idle | Cas addr | Wake addr

text \<open>A send takes effect when it finds the flag set or sets it; a handle is answered when the loop clears its flag.\<close>

datatype async_event = Sent addr | Answered addr

record ('cb, 'u) async_state =
  am_loop :: "('cb, 'u) async_loop"
  am_busy :: bool
  am_pc :: "nat \<Rightarrow> send_pc"
  am_closing :: "addr set"
  am_log :: "async_event list"

text \<open>The log has the last event first.\<close>

fun unanswered :: "addr \<Rightarrow> async_event list \<Rightarrow> bool" where
  "unanswered h [] \<longleftrightarrow> False"
| "unanswered h (Sent k # es) \<longleftrightarrow> k = h \<or> unanswered h es"
| "unanswered h (Answered k # es) \<longleftrightarrow> k \<noteq> h \<and> unanswered h es"

definition free_async :: "addr \<Rightarrow> ('cb, 'u) async_loop \<Rightarrow> ('cb, 'u) async_loop" where
  "free_async h L = L\<lparr>as_handles := (as_handles L)(h := None), as_queue := (as_queue L)(h := None)\<rparr>"

text \<open>The loop leaves the handle it looked at next: \<open>am_busy\<close> says that it is in \<^verbatim>\<open>uv__async_event\<close>.\<close>

inductive async_step ::
  "('cb \<Rightarrow> bool) \<Rightarrow> ('cb \<Rightarrow> addr \<Rightarrow> 'u \<Rightarrow> 'u) \<Rightarrow> ('cb, 'u) async_state \<Rightarrow> ('cb, 'u) async_state \<Rightarrow> bool"
  for closes g where
  send_seen: "am_pc s t = Idle \<Longrightarrow> send_check (am_loop s) h = Some True \<Longrightarrow>
    async_step closes g s (s\<lparr>am_log := Sent h # am_log s\<rparr>)"
| send_begin: "am_pc s t = Idle \<Longrightarrow> send_check (am_loop s) h = Some False \<Longrightarrow>
    async_step closes g s (s\<lparr>am_pc := (am_pc s)(t := Cas h)\<rparr>)"
| send_won: "am_pc s t = Cas h \<Longrightarrow> send_cas (am_loop s) h = Some (True, L) \<Longrightarrow>
    async_step closes g s (s\<lparr>am_loop := L, am_pc := (am_pc s)(t := Wake h), am_log := Sent h # am_log s\<rparr>)"
| send_lost: "am_pc s t = Cas h \<Longrightarrow> send_cas (am_loop s) h = Some (False, L) \<Longrightarrow>
    async_step closes g s (s\<lparr>am_loop := L, am_pc := (am_pc s)(t := Idle), am_log := Sent h # am_log s\<rparr>)"
| send_woke: "am_pc s t = Wake h \<Longrightarrow> send_wake (am_loop s) h = Some L \<Longrightarrow>
    async_step closes g s (s\<lparr>am_loop := L, am_pc := (am_pc s)(t := Idle)\<rparr>)"
| loop_read: "\<not> am_busy s \<Longrightarrow> as_fd (am_loop s) \<noteq> 0 \<Longrightarrow>
    QUEUE_MOVE ASYNC_HANDLES LOCAL_QUEUE (as_queue (am_loop s)) = Some q \<Longrightarrow>
    async_step closes g s (s\<lparr>am_loop := (am_loop s)\<lparr>as_fd := 0, as_queue := q\<rparr>, am_busy := True\<rparr>)"
| loop_visit: "am_busy s \<Longrightarrow> QUEUE_EMPTY (as_queue (am_loop s)) LOCAL_QUEUE = Some False \<Longrightarrow>
    QUEUE_HEAD (as_queue (am_loop s)) LOCAL_QUEUE = Some h \<Longrightarrow>
    async_visit (async_call closes g) (am_loop s) = Some L \<Longrightarrow>
    async_step closes g s (s\<lparr>am_loop := L,
      am_log := (if is_pending (as_handles (am_loop s)) h then Answered h # am_log s else am_log s),
      am_closing := (if is_pending (as_handles (am_loop s)) h \<and> has_callback closes (as_handles (am_loop s)) h
                     then insert h (am_closing s) else am_closing s)\<rparr>)"
| loop_done: "am_busy s \<Longrightarrow> QUEUE_EMPTY (as_queue (am_loop s)) LOCAL_QUEUE = Some True \<Longrightarrow>
    async_step closes g s (s\<lparr>am_busy := False\<rparr>)"
| loop_free: "\<not> am_busy s \<Longrightarrow> h \<in> am_closing s \<Longrightarrow>
    async_step closes g s (s\<lparr>am_loop := free_async h (am_loop s), am_closing := am_closing s - {h}\<rparr>)"

definition in_list :: "qmem \<Rightarrow> addr \<Rightarrow> addr \<Rightarrow> bool" where
  "in_list m head h \<longleftrightarrow> (case QUEUE_FOREACH m head of None \<Rightarrow> False | Some hs \<Rightarrow> h \<in> set hs)"

text \<open>The handles of the loop: those of its list and, during a pass, those still to look at.\<close>

definition watched :: "('cb, 'u) async_state \<Rightarrow> addr \<Rightarrow> bool" where
  "watched s h \<longleftrightarrow> in_list (as_queue (am_loop s)) ASYNC_HANDLES h \<or>
     am_busy s \<and> in_list (as_queue (am_loop s)) LOCAL_QUEUE h"

definition async_start :: "addr list \<Rightarrow> ('cb, 'u) async_state \<Rightarrow> bool" where
  "async_start hs s \<longleftrightarrow> ring (as_queue (am_loop s)) ASYNC_HANDLES hs \<and>
     LOCAL_QUEUE \<in> dom (as_queue (am_loop s)) \<and> LOCAL_QUEUE \<notin> set hs \<and>
     (\<forall>h a. as_handles (am_loop s) h = Some a \<longrightarrow> a_pending a = 0) \<and> set hs \<subseteq> dom (as_handles (am_loop s)) \<and>
     \<not> am_busy s \<and> (\<forall>t. am_pc s t = Idle) \<and> am_closing s = {} \<and> am_log s = []"

section \<open>The invariant\<close>

text \<open>
  The list is \<open>ys\<close>, the handles still to look at are \<open>zs\<close>. A handle of the loop is unanswered
  exactly if its flag is set, and then the eventfd is readable, or the thread that set the flag is about to
  write to it, or the loop has yet to come to the handle.
\<close>

definition async_lists :: "('cb, 'u) async_state \<Rightarrow> addr list \<Rightarrow> addr list \<Rightarrow> bool" where
  "async_lists s ys zs \<longleftrightarrow> ring (as_queue (am_loop s)) ASYNC_HANDLES ys \<and> LOCAL_QUEUE \<in> dom (as_queue (am_loop s)) \<and>
     LOCAL_QUEUE \<notin> set ys \<and> (if am_busy s then two_lists (am_loop s) ys zs else zs = [])"

definition waking :: "(nat \<Rightarrow> send_pc) \<Rightarrow> addr \<Rightarrow> bool" where
  "waking pc h \<longleftrightarrow> (\<exists>t. pc t = Wake h)"

lemma waking_upd: "pc t \<noteq> Wake k \<Longrightarrow> waking (pc(t := p)) k \<longleftrightarrow> waking pc k \<or> p = Wake k"
  by (auto simp: waking_def)

definition handle_ok :: "('cb, 'u) async_state \<Rightarrow> addr list \<Rightarrow> addr \<Rightarrow> bool" where
  "handle_ok s zs h \<longleftrightarrow> (unanswered h (am_log s) \<longleftrightarrow> is_pending (as_handles (am_loop s)) h) \<and>
     (is_pending (as_handles (am_loop s)) h \<longrightarrow>
        as_fd (am_loop s) > 0 \<or> waking (am_pc s) h \<or> h \<in> set zs)"

definition async_mem :: "('cb, 'u) async_state \<Rightarrow> addr set \<Rightarrow> bool" where
  "async_mem s H \<longleftrightarrow> (\<forall>h a. as_handles (am_loop s) h = Some a \<longrightarrow> a_pending a \<in> {0, 1}) \<and>
     H \<subseteq> dom (as_handles (am_loop s)) \<and> am_closing s \<inter> ({ASYNC_HANDLES, LOCAL_QUEUE} \<union> H) = {}"

definition async_at :: "('cb, 'u) async_state \<Rightarrow> addr list \<Rightarrow> addr list \<Rightarrow> bool" where
  "async_at s ys zs \<longleftrightarrow> async_lists s ys zs \<and> async_mem s (set ys \<union> set zs) \<and>
     (\<forall>h \<in> set ys \<union> set zs. handle_ok s zs h)"

definition async_inv :: "('cb, 'u) async_state \<Rightarrow> bool" where
  "async_inv s \<longleftrightarrow> (\<exists>ys zs. async_at s ys zs)"

lemma async_lists_cong:
  "as_queue (am_loop s') = as_queue (am_loop s) \<Longrightarrow> am_busy s' = am_busy s \<Longrightarrow> async_lists s' ys zs = async_lists s ys zs"
  by (simp add: async_lists_def two_lists_def)

lemma start_at: "async_start hs s \<Longrightarrow> async_at s hs []"
  by (auto simp: async_start_def async_at_def async_lists_def async_mem_def handle_ok_def is_pending_def split: option.splits)

text \<open>The steps of a sender leave the lists as they are.\<close>

lemma sender_keeps:
  assumes A: "async_at s ys zs"
    and Q: "as_queue (am_loop s') = as_queue (am_loop s)" "am_busy s' = am_busy s" "am_closing s' = am_closing s"
    and D: "dom (as_handles (am_loop s')) = dom (as_handles (am_loop s))"
      "\<And>h a. as_handles (am_loop s') h = Some a \<Longrightarrow> a_pending a \<in> {0, 1}"
    and H: "\<And>h. handle_ok s zs h \<Longrightarrow> handle_ok s' zs h"
  shows "async_at s' ys zs"
  using A async_lists_cong [OF Q(1,2), of ys zs] Q(3) D H by (simp add: async_at_def async_mem_def)

lemma set_pending:
  assumes "as_handles L h = Some a" "a_pending a' = v"
  shows "is_pending (as_handles (set_async h a' L)) k \<longleftrightarrow> (if k = h then v \<noteq> 0 else is_pending (as_handles L) k)"
    "dom (as_handles (set_async h a' L)) = dom (as_handles L)"
    "as_queue (set_async h a' L) = as_queue L" "as_fd (set_async h a' L) = as_fd L"
  using assms by (auto simp: set_async_def is_pending_def)

lemma step_seen:
  assumes A: "async_at s ys zs" and c: "send_check (am_loop s) h = Some True"
  shows "async_at (s\<lparr>am_log := Sent h # am_log s\<rparr>) ys zs"
proof (rule sender_keeps [OF A])
  show "handle_ok (s\<lparr>am_log := Sent h # am_log s\<rparr>) zs k" if "handle_ok s zs k" for k
    using that c by (auto simp: handle_ok_def send_check_def is_pending_def)
qed (use A in \<open>simp_all add: async_at_def async_mem_def\<close>)

lemma step_begin:
  assumes A: "async_at s ys zs" and t: "am_pc s t = Idle"
  shows "async_at (s\<lparr>am_pc := (am_pc s)(t := Cas h)\<rparr>) ys zs"
proof (rule sender_keeps [OF A])
  show "handle_ok (s\<lparr>am_pc := (am_pc s)(t := Cas h)\<rparr>) zs k" if "handle_ok s zs k" for k
    using that t by (auto simp: handle_ok_def waking_upd)
qed (use A in \<open>simp_all add: async_at_def async_mem_def\<close>)

lemma send_cas_cases:
  assumes "send_cas L h = Some (won, L')"
  obtains a a' where "as_handles L h = Some a" "L' = set_async h a' L" "won \<longleftrightarrow> a_pending a = 0"
    "a_pending a' = (if won then 1 else a_pending a)"
proof -
  obtain a where a: "as_handles L h = Some a" using assms by (auto simp: send_cas_def)
  let ?a = "a\<lparr>a_pending := if a_pending a = 0 then 1 else a_pending a\<rparr>"
  have "won \<longleftrightarrow> a_pending a = 0" "L' = set_async h ?a L"
    using assms a by (auto simp: send_cas_def cmpxchgi_def Let_def)
  then show ?thesis by (intro that [OF a, of ?a]) simp_all
qed

lemma step_cas:
  assumes A: "async_at s ys zs" and t: "am_pc s t = Cas h" and c: "send_cas (am_loop s) h = Some (won, L)"
    and p: "won \<Longrightarrow> p = Wake h"
  shows "async_at (s\<lparr>am_loop := L, am_pc := (am_pc s)(t := p), am_log := Sent h # am_log s\<rparr>) ys zs"
proof -
  obtain a a' where a: "as_handles (am_loop s) h = Some a" "L = set_async h a' (am_loop s)" "won \<longleftrightarrow> a_pending a = 0"
    "a_pending a' = (if won then 1 else a_pending a)" by (rule send_cas_cases [OF c])
  note P = set_pending [OF a(1) refl, of a']
  show ?thesis
  proof (rule sender_keeps [OF A])
    show "handle_ok (s\<lparr>am_loop := L, am_pc := (am_pc s)(t := p), am_log := Sent h # am_log s\<rparr>) zs k"
      if k: "handle_ok s zs k" for k
    proof (cases "k = h")
      case True
      have "is_pending (as_handles (am_loop s)) h" if "\<not> won" using that a(1,3) by (simp add: is_pending_def)
      then show ?thesis using k True a(2-4) P t p
        by (cases won) (auto simp: handle_ok_def waking_upd)
    next
      case False
      have "am_pc s t \<noteq> Wake k" using t by simp
      then show ?thesis using k False a(2) P by (auto simp: handle_ok_def waking_upd)
    qed
  next
    fix k b assume "as_handles (am_loop (s\<lparr>am_loop := L, am_pc := (am_pc s)(t := p), am_log := Sent h # am_log s\<rparr>)) k = Some b"
    then show "a_pending b \<in> {0, 1}"
      using A a by (auto simp: async_at_def async_mem_def set_async_def split: if_splits)
  qed (use a(2) P in simp_all)
qed

lemma step_woke:
  assumes A: "async_at s ys zs" and c: "send_wake (am_loop s) h = Some L"
  shows "async_at (s\<lparr>am_loop := L, am_pc := (am_pc s)(t := Idle)\<rparr>) ys zs" "0 < as_fd L"
proof -
  have L: "L = (am_loop s)\<lparr>as_fd := uv_async_wake (as_fd (am_loop s))\<rparr>" using c by (auto simp: send_wake_def)
  then show fd: "0 < as_fd L" by (simp add: uv_async_wake_def)
  show "async_at (s\<lparr>am_loop := L, am_pc := (am_pc s)(t := Idle)\<rparr>) ys zs"
  proof (rule sender_keeps [OF A])
    show "handle_ok (s\<lparr>am_loop := L, am_pc := (am_pc s)(t := Idle)\<rparr>) zs k" if "handle_ok s zs k" for k
      using that L fd by (simp add: handle_ok_def)
  qed (use A L in \<open>simp_all add: async_at_def async_mem_def\<close>)
qed

text \<open>The steps of the loop.\<close>

definition read_state :: "qmem \<Rightarrow> ('cb, 'u) async_state \<Rightarrow> ('cb, 'u) async_state" where
  "read_state q s = s\<lparr>am_loop := (am_loop s)\<lparr>as_fd := 0, as_queue := q\<rparr>, am_busy := True\<rparr>"

lemma step_read:
  assumes A: "async_at s ys zs" and b: "\<not> am_busy s"
  obtains q where "QUEUE_MOVE ASYNC_HANDLES LOCAL_QUEUE (as_queue (am_loop s)) = Some q"
    "async_at (read_state q s) [] ys" "zs = []"
proof -
  have R: "ring (as_queue (am_loop s)) ASYNC_HANDLES ys" "LOCAL_QUEUE \<in> dom (as_queue (am_loop s))" "LOCAL_QUEUE \<notin> set ys"
    and z: "zs = []" using A b by (simp_all add: async_at_def async_lists_def)
  have n: "LOCAL_QUEUE \<notin> set (ASYNC_HANDLES # ys)" using R(3) by (simp add: LOCAL_QUEUE_def ASYNC_HANDLES_def)
  obtain q where q: "QUEUE_MOVE ASYNC_HANDLES LOCAL_QUEUE (as_queue (am_loop s)) = Some q" "ring q ASYNC_HANDLES []"
    "ring q LOCAL_QUEUE ys" by (rule queue_move [OF R(1) n R(2)])
  have "ASYNC_HANDLES \<notin> set ys" using R(1) by (simp add: ring_def)
  then have "async_lists (read_state q s) [] ys"
    using q(2,3) n ring_dom [OF q(3)] by (auto simp: async_lists_def two_lists_def read_state_def)
  moreover have "async_mem (read_state q s) (set [] \<union> set ys)"
    using A z by (simp add: async_at_def async_mem_def read_state_def)
  moreover have "handle_ok (read_state q s) ys k" if "k \<in> set ys" for k
    using A that by (simp add: async_at_def handle_ok_def read_state_def)
  ultimately show ?thesis using that [OF q(1) _ z] by (simp add: async_at_def)
qed

definition visit_state ::
  "('cb \<Rightarrow> bool) \<Rightarrow> addr \<Rightarrow> ('cb, 'u) async_loop \<Rightarrow> ('cb, 'u) async_state \<Rightarrow> ('cb, 'u) async_state" where
  "visit_state closes h L s = s\<lparr>am_loop := L,
      am_log := (if is_pending (as_handles (am_loop s)) h then Answered h # am_log s else am_log s),
      am_closing := (if is_pending (as_handles (am_loop s)) h \<and> has_callback closes (as_handles (am_loop s)) h
                     then insert h (am_closing s) else am_closing s)\<rparr>"

lemma step_visit:
  assumes A: "async_at s ys (h # zs)" and b: "am_busy s"
  obtains L where "async_visit (async_call closes g) (am_loop s) = Some L"
    "QUEUE_EMPTY (as_queue (am_loop s)) LOCAL_QUEUE = Some False" "QUEUE_HEAD (as_queue (am_loop s)) LOCAL_QUEUE = Some h"
    "async_at (visit_state closes h L s)
       (if is_pending (as_handles (am_loop s)) h \<and> has_callback closes (as_handles (am_loop s)) h then ys else ys @ [h]) zs"
    "as_fd L = as_fd (am_loop s)" "\<And>k. k \<noteq> h \<Longrightarrow> as_handles L k = as_handles (am_loop s) k"
    "\<not> is_pending (as_handles L) h"
proof -
  have W: "two_lists (am_loop s) ys (h # zs)" using A b by (simp add: async_at_def async_lists_def)
  obtain a where a: "as_handles (am_loop s) h = Some a" "a_pending a \<in> {0, 1}"
    using A unfolding async_at_def async_mem_def by (metis UnCI domD list.set_intros(1) subsetD)
  let ?gone = "is_pending (as_handles (am_loop s)) h \<and> has_callback closes (as_handles (am_loop s)) h"
  let ?ys = "if ?gone then ys else ys @ [h]"
  obtain L a' where L: "async_visit (async_call closes g) (am_loop s) = Some L" "two_lists L ?ys zs"
    "as_handles L = (as_handles (am_loop s))(h \<mapsto> a')" "a_pending a' = 0" "as_fd L = as_fd (am_loop s)"
    using visit_ok [OF W a, of closes g] by blast
  have R: "ring (as_queue (am_loop s)) LOCAL_QUEUE (h # zs)" using W by (simp add: two_lists_def)
  have h: "h \<noteq> LOCAL_QUEUE" "h \<notin> set zs" "h \<noteq> ASYNC_HANDLES" "h \<notin> set ys" using W by (auto simp: two_lists_def ring_def)
  have "async_lists (visit_state closes h L s) ?ys zs"
    using L(2) b ring_dom [of "as_queue L" LOCAL_QUEUE zs] by (auto simp: async_lists_def visit_state_def two_lists_def)
  moreover have "async_mem (visit_state closes h L s) (set ?ys \<union> set zs)"
    using A L(3,4) h by (auto simp: async_at_def async_mem_def visit_state_def)
  moreover have "handle_ok (visit_state closes h L s) zs k" if k: "k \<in> set ?ys \<union> set zs" for k
  proof (cases "k = h")
    case True
    have "handle_ok s (h # zs) h" using A by (simp add: async_at_def)
    then show ?thesis using True L(3,4) by (auto simp: handle_ok_def visit_state_def is_pending_def)
  next
    case False
    then have "handle_ok s (h # zs) k" using A k by (auto simp: async_at_def split: if_splits)
    then show ?thesis using False L(3,5) by (auto simp: handle_ok_def visit_state_def is_pending_def)
  qed
  ultimately have "async_at (visit_state closes h L s) ?ys zs" by (simp add: async_at_def)
  then show ?thesis
    using that [OF L(1)] queue_empty [OF R] queue_head [OF R] L(3-5) by (simp add: is_pending_def)
qed

lemma step_done:
  assumes A: "async_at s ys []" shows "async_at (s\<lparr>am_busy := False\<rparr>) ys []"
  using A by (simp add: async_at_def async_lists_def async_mem_def handle_ok_def)

lemma step_free:
  assumes A: "async_at s ys zs" and b: "\<not> am_busy s" and h: "h \<in> am_closing s"
  shows "async_at (s\<lparr>am_loop := free_async h (am_loop s), am_closing := am_closing s - {h}\<rparr>) ys zs"
proof -
  let ?s = "s\<lparr>am_loop := free_async h (am_loop s), am_closing := am_closing s - {h}\<rparr>"
  have n: "h \<noteq> ASYNC_HANDLES" "h \<noteq> LOCAL_QUEUE" "h \<notin> set ys" "h \<notin> set zs"
    using A h by (auto simp: async_at_def async_mem_def)
  have "async_lists ?s ys zs"
    using A b n ring_free [of "as_queue (am_loop s)" ASYNC_HANDLES ys h]
    by (simp add: async_at_def async_lists_def free_async_def)
  moreover have "async_mem ?s (set ys \<union> set zs)"
    using A n by (auto simp: async_at_def async_mem_def free_async_def)
  moreover have "handle_ok ?s zs k" if "k \<in> set ys \<union> set zs" for k
  proof -
    have "k \<noteq> h" using that n by auto
    moreover have "handle_ok s zs k" using A that by (simp add: async_at_def)
    ultimately show ?thesis by (simp add: handle_ok_def free_async_def is_pending_def)
  qed
  ultimately show ?thesis by (simp add: async_at_def)
qed

lemma async_keep:
  assumes "async_step closes g s s'" "async_inv s"
  shows "async_inv s'"
proof -
  obtain ys zs where A: "async_at s ys zs" using assms(2) by (auto simp: async_inv_def)
  note B = A [unfolded async_at_def async_lists_def]
  from assms(1) have "\<exists>ys zs. async_at s' ys zs"
  proof cases
    case (send_seen t h) then show ?thesis using step_seen [OF A] by blast
  next
    case (send_begin t h) then show ?thesis using step_begin [OF A] by blast
  next
    case (send_won t h L) then show ?thesis using step_cas [OF A, of t h True L "Wake h"] by blast
  next
    case (send_lost t h L) then show ?thesis using step_cas [OF A, of t h False L Idle] by blast
  next
    case (send_woke t h L) then show ?thesis using step_woke [OF A] by blast
  next
    case (loop_read q) then show ?thesis using step_read [OF A] by (metis read_state_def option.inject)
  next
    case (loop_visit h L)
    then have R: "ring (as_queue (am_loop s)) LOCAL_QUEUE zs" using B by (simp add: two_lists_def)
    obtain zs' where zs: "zs = h # zs'" using loop_visit(3,4) queue_empty [OF R] queue_head [of _ _ "hd zs" "tl zs"] R
      by (cases zs) auto
    show ?thesis
      by (rule step_visit [OF A [unfolded zs] loop_visit(2), of closes g])
        (use loop_visit in \<open>auto simp: visit_state_def [symmetric]\<close>)
  next
    case loop_done
    then have "zs = []" using B queue_empty [of "as_queue (am_loop s)" LOCAL_QUEUE zs] by (simp add: two_lists_def)
    then show ?thesis using step_done A loop_done(1) by blast
  next
    case (loop_free h) then show ?thesis using step_free [OF A] by blast
  qed
  then show ?thesis by (simp add: async_inv_def)
qed

interpretation asm: machine "async_step closes g" async_inv for closes g
  by unfold_locales (rule async_keep)

section \<open>The loop answers\<close>

lemma reach_trans: "reach step s1 s2 \<Longrightarrow> reach step s0 s1 \<Longrightarrow> reach step s0 s2"
  by (induction rule: reach.induct) (auto intro: reach_step)

lemmas reach_one = reach_step [OF reach_start]

text \<open>A pass that has begun ends with every handle answered; those whose callback closes them wait for their close callback.\<close>

lemma drain:
  assumes "async_at s ys zs" "am_busy s"
  shows "\<exists>s' ys'. reach (async_step closes g) s s' \<and> async_at s' ys' [] \<and> \<not> am_busy s' \<and>
    as_fd (am_loop s') = as_fd (am_loop s) \<and> am_pc s' = am_pc s \<and> set ys \<subseteq> set ys' \<and> am_closing s \<subseteq> am_closing s' \<and>
    (\<forall>h\<in>set zs. \<not> unanswered h (am_log s') \<and>
       (is_pending (as_handles (am_loop s)) h \<and> has_callback closes (as_handles (am_loop s)) h \<longrightarrow> h \<in> am_closing s')) \<and>
    (\<forall>h. \<not> unanswered h (am_log s) \<longrightarrow> \<not> unanswered h (am_log s'))"
  using assms
proof (induction zs arbitrary: s ys)
  case Nil
  have "QUEUE_EMPTY (as_queue (am_loop s)) LOCAL_QUEUE = Some True"
    using Nil queue_empty [of "as_queue (am_loop s)" LOCAL_QUEUE "[]"] by (simp add: async_at_def async_lists_def two_lists_def)
  then have "reach (async_step closes g) s (s\<lparr>am_busy := False\<rparr>)" using Nil(2) by (intro reach_one loop_done)
  then show ?case using step_done [OF Nil(1)] by (intro exI [of _ "s\<lparr>am_busy := False\<rparr>"] exI [of _ ys]) simp
next
  case (Cons h zs)
  let ?gone = "is_pending (as_handles (am_loop s)) h \<and> has_callback closes (as_handles (am_loop s)) h"
  let ?ys = "if ?gone then ys else ys @ [h]"
  obtain L where L: "async_visit (async_call closes g) (am_loop s) = Some L"
    "QUEUE_EMPTY (as_queue (am_loop s)) LOCAL_QUEUE = Some False" "QUEUE_HEAD (as_queue (am_loop s)) LOCAL_QUEUE = Some h"
    "async_at (visit_state closes h L s) ?ys zs"
    "as_fd L = as_fd (am_loop s)" "\<And>k. k \<noteq> h \<Longrightarrow> as_handles L k = as_handles (am_loop s) k"
    using step_visit [OF Cons.prems, of closes g] by metis
  define s1 where "s1 = visit_state closes h L s"
  have one: "reach (async_step closes g) s s1"
    unfolding s1_def visit_state_def using Cons.prems(2) L(1-3) by (intro reach_one loop_visit)
  have s1: "am_busy s1" "am_loop s1 = L" "am_pc s1 = am_pc s" "am_closing s \<subseteq> am_closing s1" "?gone \<Longrightarrow> h \<in> am_closing s1"
    using Cons.prems(2) by (auto simp: s1_def visit_state_def)
  have log: "\<not> unanswered k (am_log s1)" if "k = h \<or> \<not> unanswered k (am_log s)" for k
  proof (cases "k = h")
    case True
    have "handle_ok s (h # zs) h" using Cons.prems(1) by (simp add: async_at_def)
    then show ?thesis using True by (simp add: s1_def visit_state_def handle_ok_def)
  qed (use that in \<open>simp add: s1_def visit_state_def\<close>)
  obtain s' ys' where s': "reach (async_step closes g) s1 s'" "async_at s' ys' []" "\<not> am_busy s'"
    "as_fd (am_loop s') = as_fd L" "am_pc s' = am_pc s" "set ?ys \<subseteq> set ys'" "am_closing s1 \<subseteq> am_closing s'"
    "\<And>k. k \<in> set zs \<Longrightarrow> \<not> unanswered k (am_log s')"
    "\<And>k. k \<in> set zs \<Longrightarrow> is_pending (as_handles L) k \<Longrightarrow> has_callback closes (as_handles L) k \<Longrightarrow> k \<in> am_closing s'"
    "\<And>k. \<not> unanswered k (am_log s1) \<Longrightarrow> \<not> unanswered k (am_log s')"
    using Cons.IH [OF L(4) [folded s1_def] s1(1)] s1(2,3) by (smt (verit, best))
  have h: "h \<notin> set zs" using Cons.prems by (auto simp: async_at_def async_lists_def two_lists_def ring_def)
  have gone: "k \<in> am_closing s'"
    if "k \<in> set (h # zs)" "is_pending (as_handles (am_loop s)) k" "has_callback closes (as_handles (am_loop s)) k" for k
  proof (cases "k = h")
    case True
    then show ?thesis using that s1(5) s'(7) by auto
  next
    case False
    then show ?thesis using that s'(9) [of k] L(6) [of k] by (simp add: is_pending_def has_callback_def)
  qed
  have answered: "\<not> unanswered k (am_log s')" if "k \<in> set (h # zs)" for k using that s'(8,10) log by auto
  have "set ys \<subseteq> set ys'" using s'(6) by (auto split: if_splits)
  then show ?case
    using reach_trans [OF s'(1) one] s'(2-5,7,10) L(5) s1(4) gone answered log
    by (intro exI [of _ s'] exI [of _ ys']) auto
qed

lemma watched_at: "async_at s ys zs \<Longrightarrow> watched s h \<longleftrightarrow> h \<in> set ys \<union> set zs"
  by (auto simp: async_at_def async_lists_def two_lists_def watched_def in_list_def queue_foreach split: if_splits)

lemma read_then_drain:
  assumes A: "async_at s ys []" and b: "\<not> am_busy s" and f: "as_fd (am_loop s) > 0"
  shows "\<exists>s' ys'. reach (async_step closes g) s s' \<and> async_at s' ys' [] \<and> \<not> am_busy s' \<and> am_pc s' = am_pc s \<and>
    (\<forall>h\<in>set ys. \<not> unanswered h (am_log s') \<and>
       (is_pending (as_handles (am_loop s)) h \<and> has_callback closes (as_handles (am_loop s)) h \<longrightarrow> h \<in> am_closing s'))"
proof -
  obtain q where q: "QUEUE_MOVE ASYNC_HANDLES LOCAL_QUEUE (as_queue (am_loop s)) = Some q"
    "async_at (read_state q s) [] ys" using step_read [OF A b] by metis
  have one: "reach (async_step closes g) s (read_state q s)"
    unfolding read_state_def using b f q(1) by (intro reach_one loop_read) simp_all
  have sel: "am_busy (read_state q s)" "am_pc (read_state q s) = am_pc s"
    "as_handles (am_loop (read_state q s)) = as_handles (am_loop s)" by (simp_all add: read_state_def)
  from drain [OF q(2) sel(1), of closes g] reach_trans [OF _ one] show ?thesis unfolding sel(2,3) by blast
qed

lemma wake_up:
  assumes A: "async_at s ys zs" and h: "h \<in> set ys \<union> set zs" "is_pending (as_handles (am_loop s)) h" "h \<notin> set zs"
  shows "\<exists>s'. reach (async_step closes g) s s' \<and> async_at s' ys zs \<and> 0 < as_fd (am_loop s') \<and>
    am_busy s' = am_busy s \<and> am_log s' = am_log s"
proof (cases "0 < as_fd (am_loop s)")
  case True
  then show ?thesis using A reach_start [of "async_step closes g" s] by blast
next
  case False
  then obtain t where t: "am_pc s t = Wake h" using A h by (auto simp: async_at_def handle_ok_def waking_def)
  obtain a where "as_handles (am_loop s) h = Some a" using h(2) by (auto simp: is_pending_def split: option.splits)
  then obtain L where L: "send_wake (am_loop s) h = Some L" by (simp add: send_wake_def)
  define s' where "s' = s\<lparr>am_loop := L, am_pc := (am_pc s)(t := Idle)\<rparr>"
  have "async_step closes g s s'" unfolding s'_def by (rule send_woke [OF t L])
  then have "reach (async_step closes g) s s'" by (rule reach_one)
  then show ?thesis using step_woke(1) [OF A L, of t] step_woke(2) [OF A L]
    by (intro exI [of _ s']) (simp add: s'_def)
qed

lemma can_be_answered:
  assumes A: "async_at s ys zs" and h: "h \<in> set ys \<union> set zs" "unanswered h (am_log s)"
  shows "\<exists>s'. reach (async_step closes g) s s' \<and> \<not> unanswered h (am_log s')"
proof (cases "h \<in> set zs")
  case True
  then have "am_busy s" using A by (auto simp: async_at_def async_lists_def split: if_splits)
  then show ?thesis using drain [OF A, of closes g] True by blast
next
  case False
  have "is_pending (as_handles (am_loop s)) h" using A h by (simp add: async_at_def handle_ok_def)
  from wake_up [OF A h(1) this False, of closes g] obtain s1 where s1: "reach (async_step closes g) s s1" "async_at s1 ys zs"
    "0 < as_fd (am_loop s1)" "am_busy s1 = am_busy s" by blast
  obtain s2 ys' where s2: "reach (async_step closes g) s1 s2" "async_at s2 ys' []" "\<not> am_busy s2" "0 < as_fd (am_loop s2)" "h \<in> set ys'"
  proof (cases "am_busy s1")
    case True
    have "h \<in> set ys" using False h(1) by simp
    then show ?thesis using drain [OF s1(2) True, of closes g] s1(3) that by (metis subsetD)
  next
    case b: False
    then have "zs = []" using s1(2) by (simp add: async_at_def async_lists_def)
    then show ?thesis using that [OF reach_start, of ys] s1(2,3) b h(1) by simp
  qed
  show ?thesis using read_then_drain [OF s2(2-4), of closes g] s2(5) reach_trans s1(1) s2(1) by metis
qed

section \<open>A sample\<close>

text \<open>Two handles, 2 and 3, whose callback closes them, and two that have yet to enter the list, 4 and 5.\<close>

definition sample_handle :: "nat uv_async" where
  "sample_handle = \<lparr>a_cb = Some 7, a_pending = 0, a_flags = UV_HANDLE_REF OR UV_HANDLE_ACTIVE\<rparr>"

definition sample_async_loop :: "(nat, nat) async_loop" where
  "sample_async_loop = \<lparr>as_handle_queue = Map.empty,
     as_queue = [0 \<mapsto> \<lparr>q_nxt = 2, q_prv = 3\<rparr>, 1 \<mapsto> \<lparr>q_nxt = 1, q_prv = 1\<rparr>, 2 \<mapsto> \<lparr>q_nxt = 3, q_prv = 0\<rparr>,
                 3 \<mapsto> \<lparr>q_nxt = 0, q_prv = 2\<rparr>, 4 \<mapsto> \<lparr>q_nxt = 0, q_prv = 0\<rparr>, 5 \<mapsto> \<lparr>q_nxt = 0, q_prv = 0\<rparr>],
     as_handles = [2 \<mapsto> sample_handle, 3 \<mapsto> sample_handle, 4 \<mapsto> sample_handle, 5 \<mapsto> sample_handle],
     as_active_handles = 2, as_fd = 0, as_user = 0\<rparr>"

definition sample_async :: "(nat, nat) async_state" where
  "sample_async = \<lparr>am_loop = sample_async_loop, am_busy = False, am_pc = (\<lambda>_. Idle), am_closing = {}, am_log = []\<rparr>"

text \<open>Thread 0 has set the flag of 2 and not yet written.\<close>

definition sample_won :: "(nat, nat) async_state" where
  "sample_won = sample_async\<lparr>am_loop := set_async 2 (sample_handle\<lparr>a_pending := 1\<rparr>) sample_async_loop,
     am_pc := (\<lambda>_. Idle)(0 := Wake 2), am_log := [Sent 2]\<rparr>"

lemma sample_async_start: "async_start [2, 3] sample_async"
  by (auto simp: async_start_def sample_async_def sample_async_loop_def sample_handle_def ring_def ASYNC_HANDLES_def LOCAL_QUEUE_def
      QUEUE_NEXT_def QUEUE_PREV_def split: if_splits)

lemma sample_async_reach: "reach (async_step closes g) sample_async sample_won"
proof -
  define s where "s = sample_async\<lparr>am_pc := (am_pc sample_async)(0 := Cas 2)\<rparr>"
  have "async_step closes g sample_async s" unfolding s_def
    by (rule send_begin) (simp_all add: sample_async_def sample_async_loop_def send_check_def sample_handle_def)
  moreover have "async_step closes g s (s\<lparr>am_loop := set_async 2 (sample_handle\<lparr>a_pending := 1\<rparr>) sample_async_loop,
      am_pc := (am_pc s)(0 := Wake 2), am_log := Sent 2 # am_log s\<rparr>)"
    by (rule send_won) (simp_all add: s_def sample_async_def sample_async_loop_def send_cas_def sample_handle_def cmpxchgi_def)
  then have "async_step closes g s sample_won" by (simp add: s_def sample_won_def sample_async_def)
  ultimately show ?thesis using reach_one reach_step by metis
qed

section \<open>No send is lost\<close>

text \<open>C13. Under every interleaving of sending threads and the loop, a handle of the loop is unanswered
  exactly while its pending flag is set. Then the eventfd is readable, or a thread is about to write to it, or the
  pass under way has yet to come to the handle; and from there it can always be answered.\<close>

theorem async_no_lost_wakeup:
  assumes "async_start hs s0" "reach (async_step closes g) s0 s" "watched s h"
  shows "(unanswered h (am_log s) \<longleftrightarrow> is_pending (as_handles (am_loop s)) h) \<and>
    (unanswered h (am_log s) \<longrightarrow>
       (0 < as_fd (am_loop s) \<or> (\<exists>t. am_pc s t = Wake h) \<or> am_busy s \<and> in_list (as_queue (am_loop s)) LOCAL_QUEUE h) \<and>
       (\<exists>s'. reach (async_step closes g) s s' \<and> \<not> unanswered h (am_log s')))"
proof -
  have "async_inv s0" using start_at [OF assms(1)] by (auto simp: async_inv_def)
  then obtain ys zs where A: "async_at s ys zs" using asm.reach_inv [OF assms(2)] by (auto simp: async_inv_def)
  then have h: "h \<in> set ys \<union> set zs" "handle_ok s zs h" using watched_at [OF A] assms(3) by (auto simp: async_at_def)
  have "h \<in> set zs \<Longrightarrow> am_busy s \<and> in_list (as_queue (am_loop s)) LOCAL_QUEUE h"
    using A by (auto simp: async_at_def async_lists_def two_lists_def in_list_def queue_foreach split: if_splits)
  with h(2) can_be_answered [OF A h(1), of closes g] show ?thesis by (auto simp: handle_ok_def waking_def)
qed

theorem async_no_lost_wakeup_witness:
  "is_pending (as_handles (am_loop sample_won)) 2 \<and>
   (\<exists>s'. reach (async_step (\<lambda>_. True) (\<lambda>_ h u. u + h)) sample_won s' \<and> \<not> unanswered 2 (am_log s'))"
proof -
  have "ring (as_queue (am_loop sample_won)) ASYNC_HANDLES [2, 3]"
    using sample_async_start by (simp add: async_start_def sample_won_def sample_async_def set_async_def)
  then have "watched sample_won 2" by (simp add: watched_def in_list_def queue_foreach)
  moreover have "unanswered 2 (am_log sample_won)" by (simp add: sample_won_def)
  ultimately show ?thesis
    using async_no_lost_wakeup [OF sample_async_start sample_async_reach] by blast
qed

section \<open>A handle freed under its sender\<close>

lemma set_async_callback:
  "as_handles L h = Some a \<Longrightarrow> a_cb a' = a_cb a \<Longrightarrow>
   has_callback P (as_handles (set_async h a' L)) = has_callback P (as_handles L)"
  by (rule ext) (simp add: has_callback_def set_async_def)

text \<open>A thread that calls \<^verbatim>\<open>uv_async_send\<close> undisturbed up to the write.\<close>

lemma send_starts:
  assumes A: "async_at s ys zs" and t: "am_pc s t = Idle" and h: "h \<in> set ys \<union> set zs" "\<not> is_pending (as_handles (am_loop s)) h"
  shows "\<exists>s'. reach (async_step closes g) s s' \<and> async_at s' ys zs \<and> am_pc s' = (am_pc s)(t := Wake h) \<and>
    am_busy s' = am_busy s \<and> (\<forall>k. is_pending (as_handles (am_loop s')) k \<longleftrightarrow> k = h \<or> is_pending (as_handles (am_loop s)) k) \<and>
    has_callback closes (as_handles (am_loop s')) = has_callback closes (as_handles (am_loop s)) \<and>
    as_fd (am_loop s') = as_fd (am_loop s)"
proof -
  obtain a where a: "as_handles (am_loop s) h = Some a" using A h(1) unfolding async_at_def async_mem_def by blast
  then have z: "a_pending a = 0" using h(2) by (simp add: is_pending_def)
  define s1 where "s1 = s\<lparr>am_pc := (am_pc s)(t := Cas h)\<rparr>"
  have "send_check (am_loop s) h = Some False" using a z by (simp add: send_check_def)
  then have r1: "reach (async_step closes g) s s1" unfolding s1_def by (intro reach_one send_begin [OF t])
  have A1: "async_at s1 ys zs" unfolding s1_def by (rule step_begin [OF A t])
  have t1: "am_pc s1 t = Cas h" by (simp add: s1_def)
  let ?a = "a\<lparr>a_pending := 1\<rparr>"
  define L where "L = set_async h ?a (am_loop s)"
  have c: "send_cas (am_loop s1) h = Some (True, L)" using a z by (simp add: send_cas_def cmpxchgi_def s1_def L_def)
  define s2 where "s2 = s1\<lparr>am_loop := L, am_pc := (am_pc s1)(t := Wake h), am_log := Sent h # am_log s1\<rparr>"
  have "reach (async_step closes g) s s2" unfolding s2_def by (rule reach_step [OF r1 send_won [OF t1 c]])
  moreover have "async_at s2 ys zs" unfolding s2_def by (rule step_cas [OF A1 t1 c refl])
  ultimately show ?thesis
    using set_pending [OF a, of ?a 1] set_async_callback [OF a, of ?a closes]
    by (intro exI [of _ s2]) (simp add: s2_def s1_def L_def)
qed

text \<open>C14. \<^verbatim>\<open>uv_async_send\<close> sets the flag of its handle and then reads \<^verbatim>\<open>handle->loop\<close> for the write. If another
  handle has made the eventfd readable, the loop may call back the handle in between; when the callback closes it, as the callback
  of the library does, and the close callback frees it, the thread reads freed memory.\<close>

theorem async_send_after_free:
  assumes "async_start hs s0" "{h, k} \<subseteq> set hs" "h \<noteq> k" "has_callback closes (as_handles (am_loop s0)) h" "t \<noteq> t'"
  shows "\<exists>s. reach (async_step closes g) s0 s \<and> am_pc s t = Wake h \<and> send_wake (am_loop s) h = None"
proof -
  let ?r = "reach (async_step closes g)"
  have A0: "async_at s0 hs []" by (rule start_at [OF assms(1)])
  have s0: "am_pc s0 x = Idle" "\<not> am_busy s0" "\<not> is_pending (as_handles (am_loop s0)) y" for x y
    using assms(1) by (auto simp: async_start_def is_pending_def split: option.splits)
  have k: "k \<in> set hs \<union> set []" and h: "h \<in> set hs \<union> set []" using assms(2) by auto
  obtain s1 where s1: "?r s0 s1" "async_at s1 hs []" "am_pc s1 = (am_pc s0)(t' := Wake k)" "\<not> am_busy s1"
    "\<And>x. is_pending (as_handles (am_loop s1)) x \<longleftrightarrow> x = k" "has_callback closes (as_handles (am_loop s1)) h"
    using send_starts [where closes = closes and g = g and t = t', OF A0 s0(1) k s0(3)] s0(2,3) assms(4) by auto
  obtain L where L: "send_wake (am_loop s1) k = Some L" "as_handles L = as_handles (am_loop s1)"
    using s1(5) [of k] by (auto simp: send_wake_def is_pending_def split: option.splits)
  define s2 where "s2 = s1\<lparr>am_loop := L, am_pc := (am_pc s1)(t' := Idle)\<rparr>"
  have s2: "?r s0 s2" "async_at s2 hs []" "0 < as_fd (am_loop s2)" "\<not> am_busy s2" "am_pc s2 t = Idle"
    "\<not> is_pending (as_handles (am_loop s2)) h" "has_callback closes (as_handles (am_loop s2)) h"
    using reach_step [OF s1(1) send_woke [OF _ L(1)], of t'] step_woke(1) [OF s1(2) L(1), of t'] step_woke(2) [OF s1(2) L(1)] s1(3-6) L(2) s0(1) assms(3,5)
    by (simp_all add: s2_def)
  obtain s3 where s3: "?r s2 s3" "async_at s3 hs []" "am_pc s3 t = Wake h" "\<not> am_busy s3" "0 < as_fd (am_loop s3)"
    "is_pending (as_handles (am_loop s3)) h" "has_callback closes (as_handles (am_loop s3)) h"
    using send_starts [where closes = closes and g = g, OF s2(2,5) h s2(6)] s2(3,4,7) by auto
  obtain s4 where s4: "?r s3 s4" "\<not> am_busy s4" "am_pc s4 t = Wake h" "h \<in> am_closing s4"
    using read_then_drain [OF s3(2,4,5), of closes g] s3(3,6,7) h by auto
  define s5 where "s5 = s4\<lparr>am_loop := free_async h (am_loop s4), am_closing := am_closing s4 - {h}\<rparr>"
  have "?r s3 s5" unfolding s5_def by (rule reach_step [OF s4(1) loop_free [OF s4(2,4)]])
  then have "?r s0 s5" using reach_trans s2(1) s3(1) by metis
  then show ?thesis using s4(3) by (intro exI [of _ s5]) (simp add: s5_def send_wake_def free_async_def)
qed

theorem async_send_after_free_witness:
  "\<exists>s. reach (async_step (\<lambda>_. True) (\<lambda>_ h u. u + h)) sample_async s \<and> am_pc s 0 = Wake 2 \<and> send_wake (am_loop s) 2 = None"
proof -
  have "has_callback (\<lambda>_. True) (as_handles (am_loop sample_async)) 2"
    by (simp add: has_callback_def sample_async_def sample_async_loop_def sample_handle_def)
  then show ?thesis
    using async_send_after_free [OF sample_async_start, of 2 3 "\<lambda>_. True" 0 1 "\<lambda>_ h u. u + h"] by simp
qed

section \<open>Two handles made at once\<close>

text \<open>\<^verbatim>\<open>QUEUE_INSERT_TAIL\<close>, the last thing \<^verbatim>\<open>uv_async_init\<close> does to the list, as its four assignments.\<close>

definition insert_tail_steps :: "addr \<Rightarrow> addr \<Rightarrow> (qmem \<Rightarrow> qmem option) list" where
  "insert_tail_steps h q =
     [set_next q h, \<lambda>m. Option.bind (QUEUE_PREV m h) (\<lambda>x. set_prev q x m), set_prev_next q q, set_prev h q]"

fun run_steps :: "(qmem \<Rightarrow> qmem option) list \<Rightarrow> qmem \<Rightarrow> qmem option" where
  "run_steps [] m = Some m"
| "run_steps (f # fs) m = Option.bind (f m) (run_steps fs)"

lemma insert_tail_steps_run: "run_steps (insert_tail_steps h q) m = QUEUE_INSERT_TAIL h q m"
  by (simp add: insert_tail_steps_def QUEUE_INSERT_TAIL_def bind_assoc cong: bind_option_cong)

text \<open>The order in which the first handle is lost: both threads read the same last node.\<close>

lemma race_order:
  "[a1, a2, b1, b2, a3, b3, a4, b4] \<in> shuffles [a1, a2, a3, a4] [b1, b2, b3, b4]"
  by (intro Cons_in_shuffles_leftI Cons_in_shuffles_rightI) simp

lemma race_ring:
  assumes R: "ring m h xs" and q: "q1 \<noteq> q2" "{q1, q2} \<inter> set (h # xs) = {}" "{q1, q2} \<subseteq> dom m"
  obtains m' where "run_steps [set_next q1 h, \<lambda>m. Option.bind (QUEUE_PREV m h) (\<lambda>x. set_prev q1 x m),
      set_next q2 h, \<lambda>m. Option.bind (QUEUE_PREV m h) (\<lambda>x. set_prev q2 x m),
      set_prev_next q1 q1, set_prev_next q2 q2, set_prev h q1, set_prev h q2] m = Some m'"
    "ring m' h (xs @ [q2])" "dom m' = dom m"
proof -
  obtain A p where A: "h # xs = A @ [p]" "link m (A @ [p])" "QUEUE_NEXT m p = Some h" "QUEUE_PREV m h = Some p" "p \<in> set (h # xs)"
    by (rule ring_last [OF R])
  have ne: "p \<noteq> q1" "p \<noteq> q2" "h \<noteq> q1" "h \<noteq> q2" using A(5) q(2) by auto
  obtain x1 y1 x2 y2 where xy: "QUEUE_NEXT m q1 = Some x1" "QUEUE_PREV m q1 = Some y1" "QUEUE_NEXT m q2 = Some x2" "QUEUE_PREV m q2 = Some y2"
    using dom_links q(3) by (metis insert_subset)
  obtain m1 where m1: "set_next q1 h m = Some m1" "QUEUE_NEXT m1 = (QUEUE_NEXT m)(q1 \<mapsto> h)" "QUEUE_PREV m1 = QUEUE_PREV m" "dom m1 = dom m"
    by (rule set_next_Some [OF xy(1)])
  obtain m2 where m2: "set_prev q1 p m1 = Some m2" "QUEUE_PREV m2 = (QUEUE_PREV m1)(q1 \<mapsto> p)" "QUEUE_NEXT m2 = QUEUE_NEXT m1" "dom m2 = dom m1"
    by (rule set_prev_Some [of m1 q1 y1]) (simp add: m1 xy)
  obtain m3 where m3: "set_next q2 h m2 = Some m3" "QUEUE_NEXT m3 = (QUEUE_NEXT m2)(q2 \<mapsto> h)" "QUEUE_PREV m3 = QUEUE_PREV m2" "dom m3 = dom m2"
    by (rule set_next_Some [of m2 q2 x2]) (use q(1) in \<open>simp add: m1 m2 xy\<close>)
  obtain m4 where m4: "set_prev q2 p m3 = Some m4" "QUEUE_PREV m4 = (QUEUE_PREV m3)(q2 \<mapsto> p)" "QUEUE_NEXT m4 = QUEUE_NEXT m3" "dom m4 = dom m3"
    by (rule set_prev_Some [of m3 q2 y2]) (use q(1) in \<open>simp add: m1 m2 m3 xy\<close>)
  obtain m5 where m5: "set_next p q1 m4 = Some m5" "QUEUE_NEXT m5 = (QUEUE_NEXT m4)(p \<mapsto> q1)" "QUEUE_PREV m5 = QUEUE_PREV m4" "dom m5 = dom m4"
    by (rule set_next_Some [of m4 p h]) (use ne A(3) in \<open>simp add: m1 m2 m3 m4\<close>)
  obtain m6 where m6: "set_next p q2 m5 = Some m6" "QUEUE_NEXT m6 = (QUEUE_NEXT m5)(p \<mapsto> q2)" "QUEUE_PREV m6 = QUEUE_PREV m5" "dom m6 = dom m5"
    by (rule set_next_Some [of m5 p q1]) (simp add: m5)
  obtain m7 where m7: "set_prev h q1 m6 = Some m7" "QUEUE_PREV m7 = (QUEUE_PREV m6)(h \<mapsto> q1)" "QUEUE_NEXT m7 = QUEUE_NEXT m6" "dom m7 = dom m6"
    by (rule set_prev_Some [of m6 h p]) (use ne A(4) in \<open>simp add: m1 m2 m3 m4 m5 m6\<close>)
  obtain m8 where m8: "set_prev h q2 m7 = Some m8" "QUEUE_PREV m8 = (QUEUE_PREV m7)(h \<mapsto> q2)" "QUEUE_NEXT m8 = QUEUE_NEXT m7" "dom m8 = dom m7"
    by (rule set_prev_Some [of m7 h q1]) (simp add: m7)
  have r: "QUEUE_PREV m1 h = Some p" "QUEUE_PREV m3 h = Some p" "QUEUE_PREV m4 q1 = Some p" "QUEUE_PREV m5 q2 = Some p"
    using ne q(1) A(4) by (simp_all add: m1 m2 m3 m4 m5)
  have N: "QUEUE_NEXT m8 = (QUEUE_NEXT m)(q1 \<mapsto> h, q2 \<mapsto> h, p \<mapsto> q2)" "QUEUE_PREV m8 = (QUEUE_PREV m)(q1 \<mapsto> p, q2 \<mapsto> p, h \<mapsto> q2)"
    by (simp_all add: m1 m2 m3 m4 m5 m6 m7 m8)
  have dist: "distinct (h # xs)" using R by (simp add: ring_def)
  have dA: "distinct (A @ [p])" using dist by (simp only: A(1))
  have sub: "set A \<subseteq> set (h # xs)" by (simp only: A(1)) auto
  have tlA: "tl (A @ [p]) = xs" using A(1) by (metis list.sel(3))
  have "link m8 (A @ [p]) = link m (A @ [p])"
    by (rule link_cong; use dA sub q(2) dist in \<open>auto simp: N tlA\<close>)
  moreover have "link m8 [p, q2]" using ne q(1) by (simp add: N)
  ultimately have "link m8 ((A @ [p]) @ [q2])" using A(2) link_append [of m8 A p "[q2]"] by simp
  moreover have "h # xs @ [q2] = (A @ [p]) @ [q2]" using A(1) by (metis append_Cons)
  moreover have "distinct (h # xs @ [q2])" using dist q(2) by auto
  ultimately have "ring m8 h (xs @ [q2])"
    using ne q(1) by (intro ring_close [of _ _ "A @ [p]"]) (simp_all only: N fun_upd_same fun_upd_other if_False simp_thms)
  then show ?thesis
    by (intro that [of m8]) (use r in \<open>simp_all add: set_prev_next_def m1 m2 m3 m4 m5 m6 m7 m8\<close>)
qed

text \<open>A send on a handle that is not in the list.\<close>

lemma unlisted_send:
  assumes R: "ring (as_queue L) ASYNC_HANDLES ys" "LOCAL_QUEUE \<in> dom (as_queue L)" "LOCAL_QUEUE \<notin> set ys"
    and f: "as_fd L = 0" and ys: "\<And>h. h \<in> insert q (set ys) \<Longrightarrow> \<exists>a. as_handles L h = Some a \<and> a_pending a = 0" and q: "q \<notin> set ys"
  shows "\<exists>L1 L2. uv_async_send L q = Some (0, L1) \<and> uv_async_io (async_call closes g) L1 = Some L2 \<and>
    as_user L2 = as_user L \<and> is_pending (as_handles L2) q \<and> uv_async_send L2 q = Some (0, L2) \<and> as_fd L2 = 0"
proof -
  obtain a where a: "as_handles L q = Some a" "a_pending a = 0" using ys [of q] by auto
  define L1 where "L1 = set_async q (a\<lparr>a_pending := 1\<rparr>) L\<lparr>as_fd := 1\<rparr>"
  have send: "uv_async_send L q = Some (0, L1)" using a f
    by (simp add: uv_async_send_def send_check_def send_cas_def send_wake_def cmpxchgi_def uv_async_wake_def L1_def set_async_def)
  define L0 where "L0 = L1\<lparr>as_fd := 0\<rparr>"
  have L0: "as_queue L0 = as_queue L" "as_handles L0 = (as_handles L)(q \<mapsto> a\<lparr>a_pending := 1\<rparr>)" "as_user L0 = as_user L" "as_fd L0 = 0"
    by (simp_all add: L0_def L1_def set_async_def)
  have others: "\<exists>b. as_handles L0 h = Some b \<and> a_pending b = 0" if "h \<in> set ys" for h
    using ys [of h] that q L0(2) by auto
  then have idle: "filter (is_pending (as_handles L0)) ys = []" by (fastforce simp: filter_empty_conv is_pending_def)
  have "flags_ok L0 ys" unfolding flags_ok_def using others by (metis insertI1)
  from async_event_ok [OF R [folded L0(1)] this, of closes g] obtain L2 where
    L2: "uv_async_event (async_call closes g) L0 = Some L2" "passed closes g L0 ys L2" by blast
  have io: "uv_async_io (async_call closes g) L1 = Some L2" using L2(1) by (simp add: uv_async_io_def L0_def L1_def)
  have user: "as_user L2 = as_user L" "as_fd L2 = 0" using L2(2) idle L0(3,4) by (simp_all add: passed_def)
  have "as_handles L2 q = Some (a\<lparr>a_pending := 1\<rparr>)" using L2(2) L0(2) q by (simp add: passed_def)
  then show ?thesis using send io user by (simp add: uv_async_send_def send_check_def is_pending_def)
qed

text \<open>C15. Two threads are in \<^verbatim>\<open>uv_async_init\<close> at once, as two first callers of the library may be. There is an interleaving of
  the two insertions after which the list has only the second handle. A send on the first then returns 0 and makes the eventfd
  readable, but the loop calls nothing back; the flag stays set, so that no later send even writes.\<close>

theorem concurrent_async_init_loses_handle:
  assumes "ring (as_queue L) ASYNC_HANDLES xs" "q1 \<noteq> q2" "{q1, q2} \<inter> set (ASYNC_HANDLES # LOCAL_QUEUE # xs) = {}"
    "{q1, q2, LOCAL_QUEUE} \<subseteq> dom (as_queue L)" "LOCAL_QUEUE \<notin> set xs" "as_fd L = 0"
    and "\<And>h. h \<in> {q1, q2} \<union> set xs \<Longrightarrow> \<exists>a. as_handles L h = Some a \<and> a_pending a = 0"
  shows "\<exists>fs \<in> shuffles (insert_tail_steps ASYNC_HANDLES q1) (insert_tail_steps ASYNC_HANDLES q2). \<exists>m L1 L2.
    run_steps fs (as_queue L) = Some m \<and> QUEUE_FOREACH m ASYNC_HANDLES = Some (xs @ [q2]) \<and>
    uv_async_send (L\<lparr>as_queue := m\<rparr>) q1 = Some (0, L1) \<and> uv_async_io (async_call closes g) L1 = Some L2 \<and>
    as_user L2 = as_user L \<and> is_pending (as_handles L2) q1 \<and> uv_async_send L2 q1 = Some (0, L2) \<and> as_fd L2 = 0"
proof -
  let ?h = ASYNC_HANDLES
  have q: "{q1, q2} \<inter> set (?h # xs) = {}" "{q1, q2} \<subseteq> dom (as_queue L)" using assms(3,4) by auto
  obtain m where m: "run_steps [set_next q1 ?h, \<lambda>m. Option.bind (QUEUE_PREV m ?h) (\<lambda>x. set_prev q1 x m),
      set_next q2 ?h, \<lambda>m. Option.bind (QUEUE_PREV m ?h) (\<lambda>x. set_prev q2 x m),
      set_prev_next q1 q1, set_prev_next q2 q2, set_prev ?h q1, set_prev ?h q2] (as_queue L) = Some m" (is "run_steps ?fs _ = _")
    "ring m ?h (xs @ [q2])" "dom m = dom (as_queue L)" by (rule race_ring [OF assms(1,2) q])
  have fs: "?fs \<in> shuffles (insert_tail_steps ?h q1) (insert_tail_steps ?h q2)"
    unfolding insert_tail_steps_def by (rule race_order)
  define L0 where "L0 = L\<lparr>as_queue := m\<rparr>"
  have L0: "as_queue L0 = m" "as_fd L0 = 0" "as_handles L0 = as_handles L" "as_user L0 = as_user L"
    using assms(6) by (simp_all add: L0_def)
  have side: "LOCAL_QUEUE \<in> dom m" "LOCAL_QUEUE \<notin> set (xs @ [q2])" "q1 \<notin> set (xs @ [q2])"
    using m(3) assms(2-5) by auto
  have "\<exists>a. as_handles L0 h = Some a \<and> a_pending a = 0" if "h \<in> insert q1 (set (xs @ [q2]))" for h
    unfolding L0(3) by (rule assms(7)) (use that in auto)
  from unlisted_send [of L0, unfolded L0(1,2), OF m(2) side(1,2) refl this side(3), of closes g]
  show ?thesis using fs m(1) queue_foreach [OF m(2)] unfolding L0(4) unfolding L0_def by blast
qed

theorem concurrent_async_init_loses_handle_witness:
  "\<exists>fs \<in> shuffles (insert_tail_steps ASYNC_HANDLES 4) (insert_tail_steps ASYNC_HANDLES 5). \<exists>m L1 L2.
    run_steps fs (as_queue sample_async_loop) = Some m \<and> QUEUE_FOREACH m ASYNC_HANDLES = Some ([2, 3] @ [5]) \<and>
    uv_async_send (sample_async_loop\<lparr>as_queue := m\<rparr>) 4 = Some (0, L1) \<and>
    uv_async_io (async_call (\<lambda>_. True) (\<lambda>_ h u. u + h)) L1 = Some L2 \<and>
    as_user L2 = as_user sample_async_loop \<and> is_pending (as_handles L2) 4 \<and> uv_async_send L2 4 = Some (0, L2) \<and> as_fd L2 = 0"
proof (rule concurrent_async_init_loses_handle)
  show "ring (as_queue sample_async_loop) ASYNC_HANDLES [2, 3]" using sample_async_start by (simp add: async_start_def sample_async_def)
qed (auto simp: sample_async_loop_def sample_handle_def ASYNC_HANDLES_def LOCAL_QUEUE_def)

end
