(* ===== verification/Spec2Isabelle.thy ===== *)
theory Spec2Isabelle
  imports Server_Props Inet Sysinfo Select_Network Boardcast Uv_Close Uv_Wakeup
begin

text \<open>
  UDPBoardcast is a C and C++ library with which programs on one network find each other by UDP
  broadcast and then talk over TCP. This development models its own code and the third-party code
  its behaviour rests on, and proves what the parts promise to each other. Paths below are
  relative to the root of the repository.

  \<^bold>\<open>The program.\<close> A server announces itself by UDP on a broadcast address, a client announces itself
  when it starts and is answered directly (\<^verbatim>\<open>AutoDiscover/\<close>). A client that hears of a server asks the
  request manager (\<^verbatim>\<open>bridge/connreq_mgr.cpp\<close>) to connect, which it does on a worker of a thread pool
  (\<^verbatim>\<open>third/threadpool\<close>, around the queue of \<^verbatim>\<open>third/queue\<close>). The communication library
  (\<^verbatim>\<open>Communication/\<close>) has one libuv loop for the client side and one for the server side. A call of the
  client (\<^verbatim>\<open>comm.cpp\<close>) puts a task on its stack, hands its address to the loop with an async handle
  (\<^verbatim>\<open>async/async_task.cpp\<close>) and waits on a semaphore; the callbacks of the loop (\<^verbatim>\<open>core/comm_core.cpp\<close>) write
  the request, keep the task in a table until the answer, a timer or the shutdown ends it, and post
  the semaphore. On the server a request becomes a job of the thread pool, whose worker computes the
  answer and hands it back to the loop in the same way.

  \<^bold>\<open>The theories.\<close>

  \<^item> \<^verbatim>\<open>Ssn_Prelude\<close>: machine types, C's conversion to \<^verbatim>\<open>int\<close>, the byte layout of packed structs, decimal
    text, \<^verbatim>\<open>std::map\<close> as a key-ordered list, and the interfaces of the development: \<open>machine\<close> and
    \<open>stable_machine\<close> (a step relation with an invariant, a property that stays), \<open>id_table\<close> (lookup,
    insert and delete by id), \<open>codec\<close> (a byte encoding that can be read back). Each is interpreted where the
    code provides it: the client loop, the server loop and the request manager are machines, the tables
    of tasks and timers are id tables, the packets of both protocols are codecs.
  \<^item> \<^verbatim>\<open>Gqueue\<close>: \<^verbatim>\<open>third/queue/Gqueue.c\<close>, a doubly linked list with a sentinel on an explicit store in which
    every access is checked. The operations refine those of a list; they implement the interface
    \<open>fifo\<close>, through which the thread pool uses them. Clearing and freeing release every block once.
  \<^item> \<^verbatim>\<open>Threadpool\<close>: \<^verbatim>\<open>third/threadpool/threadpool.c\<close> as a step relation of workers, pushing threads and the
    closing thread, one step per critical section. Jobs leave in the order they came and are called
    back exactly once; two schedules in which closing goes wrong.
  \<^item> \<^verbatim>\<open>Gen_Id\<close>, \<^verbatim>\<open>Ssn_Err\<close>: \<^verbatim>\<open>core/gen_id.cpp\<close>; \<^verbatim>\<open>common/uv_err_cvt.cpp\<close> with the error names of libuv's
    \<^verbatim>\<open>uv-common.c\<close> and \<^verbatim>\<open>uv.h\<close>.
  \<^item> \<^verbatim>\<open>Comm_Protocol\<close>, \<^verbatim>\<open>Comm_Stream\<close>: \<^verbatim>\<open>core/comm_protocol.cpp\<close> and the receiving half of
    \<^verbatim>\<open>_read_content_process\<close>. A connection hands on the packets of the byte stream whatever the cutting;
    packets built are received; when the loop ends, and the header for which it does not.
  \<^item> \<^verbatim>\<open>Comm_Res\<close>, \<^verbatim>\<open>Comm_Core\<close>: \<^verbatim>\<open>core/comm_res.cpp\<close> and \<^verbatim>\<open>core/comm_core.cpp\<close>: the record \<open>world\<close> holds the heap of
    handles and tasks, the tables, the two loops, the requests libuv will call back for and the visible
    effects; every callback is a function on it.
  \<^item> \<^verbatim>\<open>Client_Loop\<close>, \<^verbatim>\<open>Client_Props\<close>: the client loop as a machine and its invariant (no caller is lost),
    the shutdown ends everything, and two states in which a callback is undefined.
  \<^item> \<^verbatim>\<open>Comm_Api\<close>, \<^verbatim>\<open>Comm_Rpc\<close>: \<^verbatim>\<open>async/async_task.cpp\<close> and \<^verbatim>\<open>comm.cpp\<close>. Executions of the calls refine the machine
    of the loop; a request and its answer through the whole client.
  \<^item> \<^verbatim>\<open>Server_Loop\<close>, \<^verbatim>\<open>Server_Props\<close>: the server loop with the workers of its pool as a machine; the invariant
    is a conservation law (every live task is in exactly one place); a remote call through client and
    server; the full queue that stops the server.
  \<^item> \<^verbatim>\<open>Inet\<close>: \<^verbatim>\<open>third/libuv/src/inet.c\<close> and the address functions of \<^verbatim>\<open>uv-common.c\<close>, with which the program reads
    and prints addresses. Printing and parsing are inverse, no buffer is left.
  \<^item> \<^verbatim>\<open>Uv_Heap\<close>, \<^verbatim>\<open>Uv_Queue\<close>: the data structures libuv's loop is built on, \<^verbatim>\<open>third/libuv/src/heap-inl.h\<close> and
    \<^verbatim>\<open>queue.h\<close>, pointer by pointer on an explicit memory. The heap refines a list sorted by key for
    every sequence of operations; every list macro does what its name says. Their interfaces are the locales
    \<open>priority_queue\<close> and \<open>ring_list\<close>.
  \<^item> \<^verbatim>\<open>Uv_Timer\<close>, \<^verbatim>\<open>Uv_Close\<close>: \<^verbatim>\<open>third/libuv/src/unix/timer.c\<close>, with which the core bounds requests and connection
    attempts, and the closing of timers in \<^verbatim>\<open>unix/core.c\<close>, on these two interfaces. Due timers fire once and in
    order; closing is safe although the callbacks free their timers; a timer restarted with timeout 0
    keeps the loop from polling.
  \<^item> \<^verbatim>\<open>Uv_Async\<close>, \<^verbatim>\<open>Uv_Wakeup\<close>: \<^verbatim>\<open>unix/async.c\<close>, by which the callers reach the loop. One pass calls the pending
    handles back once each. With any number of sending threads, one access per step, no send is lost; but a
    sender may read a handle that its callback has freed, and two \<^verbatim>\<open>uv_async_init\<close> at once, which the core does not
    prevent, may lose a handle. The step relations of the two loops take both calls as one step, so their theorems are
    about executions without these two races.
  \<^item> \<^verbatim>\<open>Sysinfo\<close>, \<^verbatim>\<open>Select_Network\<close>: \<^verbatim>\<open>third/cb_sysinfo\<close> for its five systems; the choice of the network
    to announce on (\<^verbatim>\<open>common/select_network.cpp\<close>).
  \<^item> \<^verbatim>\<open>Connreq_Mgr\<close>: \<^verbatim>\<open>bridge/connreq_mgr.cpp\<close> on the thread pool, as a machine.
  \<^item> \<^verbatim>\<open>Boardcast_Proto\<close>, \<^verbatim>\<open>Boardcast\<close>: the datagram and what fills it; the two sides of discovery with their
    sockets, semaphores and threads, one function per turn of a thread's loop, and the switch of
    \<^verbatim>\<open>discover.cpp\<close>.

  \<^bold>\<open>Conventions.\<close> A C function is a HOL function of the same name on the state it works on; what the system
  and libuv return is an argument, the record \<open>io\<close> where there are many. \<open>None\<close> is a call without
  a defined result: a failed assertion, an access outside an object or to a freed one, signed
  overflow, a null call, or a wait or loop that never ends. Where the code runs concurrently, a critical
  section or a call on the loop thread is one step of an inductive relation and all else interleaves.
  Memory comes from a counter and is not reused, so a stale address stays visible as such. A task
  whose owner has been notified is gone from the heap, because the owner frees it.

  \<^bold>\<open>Bounds and fuel.\<close> Loops that need not end are \<^verbatim>\<open>partial_function (option)\<close> (\<open>read_loop\<close>, \<open>clear_loop\<close>,
  \<open>retry_push\<close>, \<open>up_loop\<close>, \<open>down_loop\<close>, \<open>uv_run_timers\<close>, \<open>closing_loop\<close>); that they end, or do not, is proved, with the number of turns
  for \<open>read_loop\<close>. The heap counts its elements in 32 bits, so its theorem speaks of fewer than \<open>2 ^ 32\<close>
  operations; start ids of timers are 64 bits wide and assumed not to wrap. Task ids are
  64 bits wide, so the client theorems speak of executions of at most \<open>2 ^ 64\<close> calls; addresses are 64
  bits wide, so the server's step relation and theorems bound the counter of the heap by \<open>2 ^ 64\<close>. Packets whose
  length does not fit an \<^verbatim>\<open>int\<close> are excluded by hypothesis and treated separately
  (\<open>read_loop_wraparound_hang\<close>).

  \<^bold>\<open>Hypotheses about code outside the model.\<close> libuv calls the callbacks of a handle only while it is
  active, calls close callbacks after the writes of a handle, and its error codes are not 0; the
  function of the user is a function of the bytes of the request and stays within the buffer it gets.
  \<^verbatim>\<open>if_nametoindex\<close>, the registry, \<^verbatim>\<open>GetAdaptersInfo\<close>, \<^verbatim>\<open>uname\<close> and the like are inputs.

  \<^bold>\<open>Not modelled.\<close> The rest of libuv: the loop's polling, streams, sockets and threads are a layer over system calls
  whose results are inputs here, and files, processes, terminals, name resolution and the ports to
  other systems are not called by the program. The step relations of the two loops take from libuv only when it
  may call back, so that a timer callback of the client loop is one of their steps; \<^verbatim>\<open>Uv_Timer\<close>
  shows for libuv's own code which timers that are. \<^verbatim>\<open>bridge/boardcast_cache.cpp\<close>: deprecated, in no build file, and it calls functions
  that no longer exist. The test programs with their copy of TinyXML. The 32-bit memory
  function of \<^verbatim>\<open>cb_sysinfo\<close> on macOS, which names an undeclared variable and does not compile.
\<close>

end
